(* ===== verification/Prelude.thy ===== *)
theory Prelude
  imports Main "HOL-Library.Word"
begin

text \<open>
  What every component shares.  The first part is the error monad in which the model's
  operations run: a failed \<^verbatim>\<open>assert\<close>, a call of \<^verbatim>\<open>::abort\<close> and an access to a destroyed object
  are values of \<open>error\<close>, so each of them is a branch of the model and not a missing case.
  The second part is the handful of list functions that stand for the standard library's
  \<^verbatim>\<open>std::copy\<close>, \<^verbatim>\<open>std::vector::resize\<close>, \<^verbatim>\<open>std::search\<close> and \<^verbatim>\<open>std::find\<close>, with their lemmas.
  The collections \<open>res_simps\<close> and \<open>list_facts\<close> carry them into the component proofs.
\<close>

named_theorems res_simps \<open>rules that run the error monad\<close>
named_theorems list_facts \<open>facts about copying into and cutting lists\<close>

section \<open>Errors and results\<close>

datatype error =
    AssertionFailed   \<comment> \<open>an \<^verbatim>\<open>assert\<close> of the source does not hold\<close>
  | Aborted           \<comment> \<open>the source calls \<^verbatim>\<open>::abort()\<close>\<close>
  | UseAfterFree      \<comment> \<open>a destroyed object or an erased iterator is read\<close>
  | OutOfBounds       \<comment> \<open>an array is read past its end\<close>
  | NullPointer       \<comment> \<open>a null pointer is used\<close>
  | SignedOverflow    \<comment> \<open>an arithmetic operation on \<^verbatim>\<open>int\<close> overflows, which C++ leaves undefined\<close>
  | BadLength         \<comment> \<open>\<^verbatim>\<open>new T[n]\<close> with a negative \<open>n\<close>: \<^verbatim>\<open>std::bad_array_new_length\<close>\<close>
  | NullCall          \<comment> \<open>an empty \<^verbatim>\<open>std::function\<close> is called: \<^verbatim>\<open>std::bad_function_call\<close>\<close>

type_synonym 'a res = "error + 'a"

definition bindR :: "'a res \<Rightarrow> ('a \<Rightarrow> 'b res) \<Rightarrow> 'b res" where
  "bindR m f = (case m of Inl e \<Rightarrow> Inl e | Inr x \<Rightarrow> f x)"

definition assertR :: "bool \<Rightarrow> 'a res \<Rightarrow> 'a res" where
  "assertR b m = (if b then m else Inl AssertionFailed)"

lemma bindR_Inl [simp, res_simps]: "bindR (Inl e) f = Inl e"
  by (simp add: bindR_def)

lemma bindR_Inr [simp, res_simps]: "bindR (Inr x) f = f x"
  by (simp add: bindR_def)

lemma bindR_assoc [res_simps]: "bindR (bindR m f) g = bindR m (\<lambda>x. bindR (f x) g)"
  by (cases m) simp_all

lemma bindR_return [simp]: "bindR m Inr = m"
  by (cases m) simp_all

lemma bindR_eq_Inr: "bindR m f = Inr y \<longleftrightarrow> (\<exists>x. m = Inr x \<and> f x = Inr y)"
  by (cases m) simp_all

lemma bindR_eq_Inl: "bindR m f = Inl e \<longleftrightarrow> m = Inl e \<or> (\<exists>x. m = Inr x \<and> f x = Inl e)"
  by (cases m) auto

lemma bindR_InrE [elim!]:
  assumes "bindR m f = Inr y"
  obtains x where "m = Inr x" and "f x = Inr y"
  using assms by (auto simp: bindR_eq_Inr)

lemma assertR_True [simp, res_simps]: "assertR True m = m"
  by (simp add: assertR_def)

lemma assertR_False [simp, res_simps]: "assertR False m = Inl AssertionFailed"
  by (simp add: assertR_def)

lemma assertR_eq_Inr [simp]: "assertR b m = Inr x \<longleftrightarrow> b \<and> m = Inr x"
  by (simp add: assertR_def)

text \<open>A list of operations run from left to right stops at the first error.\<close>

fun runR :: "('o \<Rightarrow> 's \<Rightarrow> 's res) \<Rightarrow> 'o list \<Rightarrow> 's \<Rightarrow> 's res" where
  "runR f [] s = Inr s"
| "runR f (x # xs) s = bindR (f x s) (runR f xs)"

lemma runR_append: "runR f (xs @ ys) s = bindR (runR f xs s) (runR f ys)"
  by (induction xs arbitrary: s) (simp_all add: bindR_assoc fun_eq_iff bindR_def split: sum.splits)

lemma runR_invariant:
  assumes step: "\<And>x s s'. P s \<Longrightarrow> f x s = Inr s' \<Longrightarrow> P s'"
    and start: "P s" and run: "runR f xs s = Inr s'"
  shows "P s'"
  using start run by (induction xs arbitrary: s) (auto intro: step)

lemma runR_total:
  assumes step: "\<And>x s. P s \<Longrightarrow> \<exists>s'. f x s = Inr s' \<and> P s'" and start: "P s"
  shows "\<exists>s'. runR f xs s = Inr s' \<and> P s'"
  using start
proof (induction xs arbitrary: s)
  case (Cons x xs)
  then obtain s1 where "f x s = Inr s1" "P s1"
    using step by blast
  with Cons.IH show ?case by simp
qed simp

section \<open>Copying, resizing, searching\<close>

text \<open>
  \<open>overwrite i xs ys\<close> is what \<^verbatim>\<open>std::copy(xs.begin(), xs.end(), ys.begin() + i)\<close> leaves in
  \<open>ys\<close>; \<open>resize n z ys\<close> is \<^verbatim>\<open>ys.resize(n)\<close> with \<open>z\<close> as the value of a new element.
\<close>

definition overwrite :: "nat \<Rightarrow> 'a list \<Rightarrow> 'a list \<Rightarrow> 'a list" where
  "overwrite i xs ys = take i ys @ xs @ drop (i + length xs) ys"

definition resize :: "nat \<Rightarrow> 'a \<Rightarrow> 'a list \<Rightarrow> 'a list" where
  "resize n z ys = take n ys @ replicate (n - length ys) z"

lemma length_overwrite [simp]:
  "i + length xs \<le> length ys \<Longrightarrow> length (overwrite i xs ys) = length ys"
  by (simp add: overwrite_def)

lemma length_resize [simp]: "length (resize n z ys) = n"
  by (simp add: resize_def)

text \<open>The bytes from position \<open>r\<close> up to position \<open>w\<close>.\<close>

definition segment :: "nat \<Rightarrow> nat \<Rightarrow> 'a list \<Rightarrow> 'a list" where
  "segment r w ys = take (w - r) (drop r ys)"

lemma length_segment [simp]: "w \<le> length ys \<Longrightarrow> length (segment r w ys) = w - r"
  by (simp add: segment_def)

lemma segment_empty [simp]: "segment r r ys = []"
  by (simp add: segment_def)

lemma segment_overwrite_after [list_facts]:
  "r \<le> w \<Longrightarrow> w + length xs \<le> length ys \<Longrightarrow>
   segment r (w + length xs) (overwrite w xs ys) = segment r w ys @ xs"
proof -
  assume h: "r \<le> w" "w + length xs \<le> length ys"
  then have "w + length xs - r = (w - r) + length xs" by simp
  with h show ?thesis by (simp add: segment_def overwrite_def drop_take)
qed

lemma segment_overwrite_front [list_facts]:
  "i + length xs \<le> length ys \<Longrightarrow> segment i (i + length xs) (overwrite i xs ys) = xs"
  by (simp add: segment_def overwrite_def min_def)

lemma segment_overwrite_before [list_facts]:
  "length xs \<le> r \<Longrightarrow> r \<le> w \<Longrightarrow> w \<le> length ys \<Longrightarrow>
   segment (r - length xs) w (overwrite (r - length xs) xs ys) = xs @ segment r w ys"
  by (simp add: segment_def overwrite_def min_def)

lemma segment_resize [list_facts]:
  "w \<le> length ys \<Longrightarrow> length ys \<le> n \<Longrightarrow> segment r w (resize n z ys) = segment r w ys"
  by (cases "r \<le> w") (simp_all add: segment_def resize_def)

lemma segment_advance [list_facts]: "segment (r + k) w ys = drop k (segment r w ys)"
  by (simp add: segment_def drop_take add.commute)

lemma segment_shorten [list_facts]:
  "k \<le> w - r \<Longrightarrow> segment r (w - k) ys = take (w - r - k) (segment r w ys)"
  by (simp add: segment_def add.commute)

lemma take_segment [list_facts]: "k \<le> w - r \<Longrightarrow> take k (segment r w ys) = segment r (r + k) ys"
  by (simp add: segment_def)

text \<open>
  \<^verbatim>\<open>std::search\<close> of a pattern and \<^verbatim>\<open>std::find\<close> of one element: the position of the first
  match, \<open>None\<close> where the source gets the end of the range.
\<close>

fun search :: "'a list \<Rightarrow> 'a list \<Rightarrow> nat option" where
  "search p [] = (if p = [] then Some 0 else None)"
| "search p (x # xs) =
     (if take (length p) (x # xs) = p then Some 0 else map_option Suc (search p xs))"

fun find_elem :: "'a \<Rightarrow> 'a list \<Rightarrow> nat option" where
  "find_elem c [] = None"
| "find_elem c (x # xs) = (if x = c then Some 0 else map_option Suc (find_elem c xs))"

lemma search_Some:
  "search p xs = Some k \<Longrightarrow> k + length p \<le> length xs \<and> take (length p) (drop k xs) = p"
proof (induction p xs arbitrary: k rule: search.induct)
  case (2 p x xs)
  show ?case
  proof (cases "take (length p) (x # xs) = p")
    case True
    then have "length p \<le> length (x # xs)"
      by (metis length_take min.absorb_iff1 min.commute)
    with True "2.prems" show ?thesis by simp
  next
    case False
    with "2" show ?thesis by auto
  qed
qed (auto split: if_splits)

lemma search_first:
  "search p xs = Some k \<Longrightarrow> j < k \<Longrightarrow> take (length p) (drop j xs) \<noteq> p"
proof (induction p xs arbitrary: k j rule: search.induct)
  case (2 p x xs)
  then show ?case by (cases j) (auto split: if_splits)
qed (auto split: if_splits)

lemma search_None: "p \<noteq> [] \<Longrightarrow> search p xs = None \<Longrightarrow> take (length p) (drop j xs) \<noteq> p"
proof (induction p xs arbitrary: j rule: search.induct)
  case (2 p x xs)
  then show ?case by (cases j) (auto split: if_splits)
qed auto

lemma search_append:
  "search p xs = Some k \<Longrightarrow> search p (xs @ ys) = Some k"
proof (induction p xs arbitrary: k rule: search.induct)
  case (1 p)
  then show ?case by (cases ys) (auto split: if_splits)
next
  case (2 p x xs)
  show ?case
  proof (cases "take (length p) (x # xs) = p")
    case True
    then have "length p \<le> length (x # xs)"
      by (metis length_take min.absorb_iff1 min.commute)
    then have "take (length p) ((x # xs) @ ys) = take (length p) (x # xs)"
      by (simp only: take_append) simp
    with True "2.prems" show ?thesis by simp
  next
    case False
    with "2.prems" obtain k' where k': "search p xs = Some k'" "k = Suc k'"
      by auto
    from search_Some [OF k'(1)] have "length p \<le> length xs"
      by linarith
    then have "length p \<le> length (x # xs)" by simp
    then have "take (length p) ((x # xs) @ ys) = take (length p) (x # xs)"
      by (simp only: take_append) simp
    with False "2.IH" k' show ?thesis by simp
  qed
qed

lemma find_elem_Some: "find_elem c xs = Some k \<Longrightarrow> k < length xs \<and> xs ! k = c \<and> c \<notin> set (take k xs)"
  by (induction xs arbitrary: k) (auto split: if_splits)

lemma find_elem_None: "find_elem c xs = None \<longleftrightarrow> c \<notin> set xs"
  by (induction xs) auto

lemma find_elem_split: "c \<notin> set xs \<Longrightarrow> find_elem c (xs @ c # ys) = Some (length xs)"
  by (induction xs) auto

section \<open>Transition systems\<close>

text \<open>
  The components that several threads, the kernel or a peer drive are step relations.  The states
  they reach are inductive; an invariant is proved once for the interface below and used through
  its interpretation on the component.
\<close>

inductive reach :: "('s \<Rightarrow> bool) \<Rightarrow> ('s \<Rightarrow> 's \<Rightarrow> bool) \<Rightarrow> 's \<Rightarrow> bool"
  for init :: "'s \<Rightarrow> bool" and step :: "'s \<Rightarrow> 's \<Rightarrow> bool" where
  reach_init: "init s \<Longrightarrow> reach init step s"
| reach_step: "reach init step s \<Longrightarrow> step s s' \<Longrightarrow> reach init step s'"

locale invariant_system =
  fixes init :: "'s \<Rightarrow> bool" and step :: "'s \<Rightarrow> 's \<Rightarrow> bool" and inv :: "'s \<Rightarrow> bool"
  assumes init_inv: "init s \<Longrightarrow> inv s"
    and step_inv: "inv s \<Longrightarrow> step s s' \<Longrightarrow> inv s'"
begin

lemma reach_inv: "reach init step s \<Longrightarrow> inv s"
  by (induction rule: reach.induct) (auto intro: init_inv step_inv)

lemma steps_inv: "step\<^sup>*\<^sup>* s s' \<Longrightarrow> inv s \<Longrightarrow> inv s'"
  by (induction rule: rtranclp_induct) (auto intro: step_inv)

end

lemma reach_steps: "reach init step s \<Longrightarrow> step\<^sup>*\<^sup>* s s' \<Longrightarrow> reach init step s'"
  by (rotate_tac, induction rule: rtranclp_induct) (auto intro: reach_step)

end
