(* ===== verification/CText.thy ===== *)
theory CText
  imports Prelude
begin

text \<open>
  The parts of the C library's text handling that the program uses: \<^verbatim>\<open>isspace\<close> in the C
  locale, decimal output (\<^verbatim>\<open>%d\<close>, \<^verbatim>\<open>%u\<close>, \<^verbatim>\<open>%lu\<close>, \<^verbatim>\<open>%0nd\<close>, \<^verbatim>\<open>std::to_string\<close>), the cut that
  \<^verbatim>\<open>snprintf\<close> makes at the size of its buffer, and \<^verbatim>\<open>atoi\<close> as the GNU C library documents it:
  the value of \<^verbatim>\<open>strtol(s, NULL, 10)\<close>, which saturates at 64 bits, converted to \<^verbatim>\<open>int\<close>.
  A string is a list of bytes.
\<close>

section \<open>Character classes\<close>

definition isspace :: "char \<Rightarrow> bool" where
  "isspace c \<longleftrightarrow> of_char c = (32::nat) \<or> (9 \<le> (of_char c :: nat) \<and> (of_char c :: nat) \<le> 13)"

definition isdigit :: "char \<Rightarrow> bool" where
  "isdigit c \<longleftrightarrow> 48 \<le> (of_char c :: nat) \<and> (of_char c :: nat) \<le> 57"

definition digit_val :: "char \<Rightarrow> nat" where
  "digit_val c = of_char c - 48"

definition digit_char :: "nat \<Rightarrow> char" where
  "digit_char d = char_of (48 + d)"

lemma of_char_digit_char [simp]: "d < 10 \<Longrightarrow> of_char (digit_char d) = 48 + d"
  by (simp add: digit_char_def)

lemma digit_val_digit_char [simp]: "d < 10 \<Longrightarrow> digit_val (digit_char d) = d"
  by (simp add: digit_val_def)

lemma isdigit_digit_char [simp]: "d < 10 \<Longrightarrow> isdigit (digit_char d)"
  by (simp add: isdigit_def)

lemma isdigit_not_isspace: "isdigit c \<Longrightarrow> \<not> isspace c"
  by (simp add: isdigit_def isspace_def)

lemma isdigit_not_sign: "isdigit c \<Longrightarrow> c \<noteq> CHR ''-'' \<and> c \<noteq> CHR ''+''"
  by (auto simp: isdigit_def)

section \<open>Decimal output\<close>

fun dec_nat :: "nat \<Rightarrow> string" where
  "dec_nat n = (if n < 10 then [digit_char n] else dec_nat (n div 10) @ [digit_char (n mod 10)])"

declare dec_nat.simps [simp del]

definition dec_int :: "int \<Rightarrow> string" where
  "dec_int i = (if i < 0 then CHR ''-'' # dec_nat (nat (- i)) else dec_nat (nat i))"

text \<open>\<^verbatim>\<open>%0nd\<close> and \<^verbatim>\<open>%nd\<close>: at least \<open>n\<close> characters, filled on the left.\<close>

definition pad_left :: "nat \<Rightarrow> char \<Rightarrow> string \<Rightarrow> string" where
  "pad_left n c s = replicate (n - length s) c @ s"

text \<open>What \<^verbatim>\<open>snprintf(buf, n, \<dots>)\<close> leaves in \<^verbatim>\<open>buf\<close>, read back as a C string.\<close>

definition snprintf_cut :: "nat \<Rightarrow> string \<Rightarrow> string" where
  "snprintf_cut n s = take (n - 1) s"

lemma dec_nat_nonempty [simp]: "dec_nat n \<noteq> []"
  by (subst dec_nat.simps) simp

lemma isdigit_dec_nat: "c \<in> set (dec_nat n) \<Longrightarrow> isdigit c"
proof (induction n rule: dec_nat.induct)
  case (1 n)
  then show ?case
    by (subst (asm) (2) dec_nat.simps) (auto split: if_splits)
qed

lemma length_dec_nat: "n < 10 ^ k \<Longrightarrow> 0 < k \<Longrightarrow> length (dec_nat n) \<le> k"
proof (induction n arbitrary: k rule: dec_nat.induct)
  case (1 n)
  show ?case
  proof (cases "n < 10")
    case True
    with "1.prems" show ?thesis by (subst dec_nat.simps) simp
  next
    case False
    with "1.prems" obtain j where j: "k = Suc j" "0 < j"
      by (cases k; cases "k - 1") auto
    with "1.prems" have "n div 10 < 10 ^ j"
      by (simp add: less_mult_imp_div_less mult.commute)
    with "1.IH" [OF False] j False show ?thesis by (subst dec_nat.simps) simp
  qed
qed

lemma length_pad_left: "length (pad_left n c s) = max n (length s)"
  by (simp add: pad_left_def)

lemma length_snprintf_cut: "length (snprintf_cut n s) \<le> n - 1"
  by (simp add: snprintf_cut_def)

lemma snprintf_cut_fits [simp]: "length s < n \<Longrightarrow> snprintf_cut n s = s"
  by (simp add: snprintf_cut_def)

section \<open>Decimal input\<close>

fun digits_val :: "nat \<Rightarrow> string \<Rightarrow> nat" where
  "digits_val acc [] = acc"
| "digits_val acc (c # cs) =
     (if isdigit c then digits_val (10 * acc + digit_val c) cs else acc)"

definition strtol10 :: "string \<Rightarrow> int" where
  "strtol10 s =
     (let t = dropWhile isspace s;
          neg = (take 1 t = ''-'');
          d = (if take 1 t = ''-'' \<or> take 1 t = ''+'' then drop 1 t else t);
          v = int (digits_val 0 d)
      in max (- (2 ^ 63)) (min (2 ^ 63 - 1) (if neg then - v else v)))"

definition to_int32 :: "int \<Rightarrow> int" where
  "to_int32 i = (i + 2 ^ 31) mod 2 ^ 32 - 2 ^ 31"

text \<open>\<^verbatim>\<open>static_cast<size_t>\<close> of a signed number, and a comparison of an \<^verbatim>\<open>int\<close> with a \<^verbatim>\<open>size_t\<close>.\<close>

definition as_size :: "int \<Rightarrow> int" where
  "as_size i = i mod 2 ^ 64"

definition atoi :: "string \<Rightarrow> int" where
  "atoi s = to_int32 (strtol10 s)"

lemma as_size_nonneg: "0 \<le> i \<Longrightarrow> i < 2 ^ 64 \<Longrightarrow> as_size i = i"
  by (simp add: as_size_def)

lemma as_size_negative: "- (2 ^ 63) \<le> i \<Longrightarrow> i < 0 \<Longrightarrow> as_size i = 2 ^ 64 + i"
proof -
  assume "- (2 ^ 63) \<le> i" "i < 0"
  then have "(i + 2 ^ 64) mod 2 ^ 64 = i + 2 ^ 64" by (intro mod_pos_pos_trivial) simp_all
  then show ?thesis by (simp add: as_size_def)
qed

lemma to_int32_range: "- (2 ^ 31) \<le> to_int32 i \<and> to_int32 i < 2 ^ 31"
proof -
  have "0 \<le> (i + 2 ^ 31) mod 2 ^ 32" "(i + 2 ^ 31) mod 2 ^ 32 < 2 ^ 32"
    by simp_all
  then show ?thesis by (simp add: to_int32_def)
qed

lemma to_int32_id: "- (2 ^ 31) \<le> i \<Longrightarrow> i < 2 ^ 31 \<Longrightarrow> to_int32 i = i"
  by (simp add: to_int32_def)

lemma to_int32_sint: "to_int32 i = sint (word_of_int i :: 32 word)"
  by (simp add: to_int32_def sint_word_ariths(1) signed_take_bit_eq_take_bit_shift take_bit_eq_mod
      signed_of_int)

lemma atoi_range: "- (2 ^ 31) \<le> atoi s \<and> atoi s < 2 ^ 31"
  unfolding atoi_def by (rule to_int32_range)

lemma digits_val_append:
  "\<forall>c\<in>set ds. isdigit c \<Longrightarrow> digits_val acc (ds @ r) = digits_val (digits_val acc ds) r"
  by (induction ds arbitrary: acc) auto

lemma digits_val_dec_nat: "digits_val 0 (dec_nat n) = n"
proof (induction n rule: dec_nat.induct)
  case (1 n)
  show ?case
  proof (cases "n < 10")
    case True
    then show ?thesis by (subst dec_nat.simps) simp
  next
    case False
    have "digits_val 0 (dec_nat (n div 10) @ [digit_char (n mod 10)]) = n"
      using "1.IH" [OF False] isdigit_dec_nat by (subst digits_val_append) auto
    with False show ?thesis by (subst dec_nat.simps) simp
  qed
qed

lemma digits_val_stop: "r = [] \<or> \<not> isdigit (hd r) \<Longrightarrow> digits_val acc r = acc"
  by (cases r) auto

lemma digits_val_dec_nat_stop:
  "r = [] \<or> \<not> isdigit (hd r) \<Longrightarrow> digits_val 0 (dec_nat n @ r) = n"
  using isdigit_dec_nat by (subst digits_val_append) (auto simp: digits_val_dec_nat digits_val_stop)

lemma dec_nat_inj: "dec_nat m = dec_nat n \<longleftrightarrow> m = n"
  by (metis digits_val_dec_nat)

lemma dec_nat_Cons: "\<exists>c cs. dec_nat n = c # cs \<and> isdigit c"
  using isdigit_dec_nat [of "hd (dec_nat n)" n] by (cases "dec_nat n") auto

lemma strtol10_dec_int:
  assumes "- (2 ^ 63) \<le> i" and "i < 2 ^ 63" and stop: "r = [] \<or> \<not> isdigit (hd r)"
  shows "strtol10 (dec_int i @ r) = i"
proof (cases "i < 0")
  case True
  then have "strtol10 (dec_int i @ r) = max (- (2 ^ 63)) (min (2 ^ 63 - 1) (- int (nat (- i))))"
    using stop by (simp add: strtol10_def dec_int_def isspace_def digits_val_dec_nat_stop Let_def)
  with assms True show ?thesis by simp
next
  case False
  obtain c cs where c: "dec_nat (nat i) = c # cs" "isdigit c"
    using dec_nat_Cons by blast
  have "digits_val 0 (c # cs @ r) = nat i"
    using digits_val_dec_nat_stop [OF stop, of "nat i"] c by simp
  then show ?thesis
    using False assms c isdigit_not_isspace [OF c(2)] isdigit_not_sign [OF c(2)]
    by (simp add: strtol10_def dec_int_def Let_def del: digits_val.simps)
qed

lemma atoi_dec_int:
  assumes "- (2 ^ 31) \<le> i" and "i < 2 ^ 31" and "r = [] \<or> \<not> isdigit (hd r)"
  shows "atoi (dec_int i @ r) = i"
  using assms by (simp add: atoi_def strtol10_dec_int to_int32_id)

lemma atoi_leading_space: "isspace c \<Longrightarrow> atoi (c # s) = atoi s"
  by (simp add: atoi_def strtol10_def)

section \<open>Hexadecimal digits\<close>

definition hex_val :: "char \<Rightarrow> nat option" where
  "hex_val c =
     (let n = (of_char c :: nat)
      in if 48 \<le> n \<and> n \<le> 57 then Some (n - 48)
         else if 97 \<le> n \<and> n \<le> 102 then Some (n - 87)
         else if 65 \<le> n \<and> n \<le> 70 then Some (n - 55)
         else None)"

end
