(* ===== verification/ByteBuffer.thy ===== *)
theory ByteBuffer
  imports CText
begin

text \<open>
  The byte buffer of \<^verbatim>\<open>src/Buffer.h\<close> and \<^verbatim>\<open>src/Buffer.cpp\<close>: a vector of bytes with a reader
  and a writer index.  Every operation that asserts is a branch of \<open>'a res\<close>; a pointer into
  the buffer is its offset from \<^verbatim>\<open>begin()\<close>.  Sizes are natural numbers: the invariant
  \<open>buf_inv\<close> is what keeps the source's \<^verbatim>\<open>size_t\<close> subtractions from wrapping, and every
  operation keeps it.  The locale \<open>byte_queue\<close> is the contract the buffer's users rely on; it
  is interpreted on the buffer at the end.
\<close>

section \<open>State\<close>

definition kCheapPrepend :: nat where
  "kCheapPrepend = 8"

definition kInitialSize :: nat where
  "kInitialSize = 1024"

definition kCRLF :: string where
  "kCRLF = [CHR 0x0D, CHR 0x0A]"

record buffer =
  bytes :: "char list"
  readerIndex :: nat
  writerIndex :: nat

definition readableBytes :: "buffer \<Rightarrow> nat" where
  "readableBytes b = writerIndex b - readerIndex b"

definition writableBytes :: "buffer \<Rightarrow> nat" where
  "writableBytes b = length (bytes b) - writerIndex b"

definition prependableBytes :: "buffer \<Rightarrow> nat" where
  "prependableBytes b = readerIndex b"

definition new_buffer :: "nat \<Rightarrow> buffer res" where
  "new_buffer initialSize =
     (let b = \<lparr>bytes = replicate (kCheapPrepend + initialSize) (CHR 0x00),
               readerIndex = kCheapPrepend, writerIndex = kCheapPrepend\<rparr>
      in assertR (readableBytes b = 0)
           (assertR (writableBytes b = initialSize)
             (assertR (prependableBytes b = kCheapPrepend) (Inr b))))"

definition swap_buffers :: "buffer \<Rightarrow> buffer \<Rightarrow> buffer \<times> buffer" where
  "swap_buffers a b =
     (\<lparr>bytes = bytes b, readerIndex = readerIndex b, writerIndex = writerIndex b\<rparr>,
      \<lparr>bytes = bytes a, readerIndex = readerIndex a, writerIndex = writerIndex a\<rparr>)"

section \<open>Looking for line ends\<close>

text \<open>\<open>contents\<close> is the range from \<^verbatim>\<open>peek()\<close> to \<^verbatim>\<open>beginWrite()\<close>.\<close>

definition contents :: "buffer \<Rightarrow> char list" where
  "contents b = segment (readerIndex b) (writerIndex b) (bytes b)"

definition findCRLF :: "buffer \<Rightarrow> nat option" where
  "findCRLF b = map_option (\<lambda>k. readerIndex b + k) (search kCRLF (contents b))"

definition findCRLF_from :: "nat \<Rightarrow> buffer \<Rightarrow> nat option res" where
  "findCRLF_from start b =
     assertR (readerIndex b \<le> start)
       (assertR (start \<le> writerIndex b)
         (Inr (map_option (\<lambda>k. start + k)
                 (search kCRLF (segment start (writerIndex b) (bytes b))))))"

definition findEOL :: "buffer \<Rightarrow> nat option" where
  "findEOL b = map_option (\<lambda>k. readerIndex b + k) (find_elem (CHR 0x0A) (contents b))"

definition findEOL_from :: "nat \<Rightarrow> buffer \<Rightarrow> nat option res" where
  "findEOL_from start b =
     assertR (readerIndex b \<le> start)
       (assertR (start \<le> writerIndex b)
         (Inr (map_option (\<lambda>k. start + k)
                 (find_elem (CHR 0x0A) (segment start (writerIndex b) (bytes b))))))"

section \<open>Retrieving\<close>

definition retrieveAll :: "buffer \<Rightarrow> buffer" where
  "retrieveAll b = b\<lparr>readerIndex := kCheapPrepend, writerIndex := kCheapPrepend\<rparr>"

definition retrieve :: "nat \<Rightarrow> buffer \<Rightarrow> buffer res" where
  "retrieve len b =
     assertR (len \<le> readableBytes b)
       (Inr (if len < readableBytes b then b\<lparr>readerIndex := readerIndex b + len\<rparr>
             else retrieveAll b))"

definition retrieveUntil :: "nat \<Rightarrow> buffer \<Rightarrow> buffer res" where
  "retrieveUntil endp b =
     assertR (readerIndex b \<le> endp)
       (assertR (endp \<le> writerIndex b) (retrieve (endp - readerIndex b) b))"

definition retrieveAsString :: "nat \<Rightarrow> buffer \<Rightarrow> (string \<times> buffer) res" where
  "retrieveAsString len b =
     assertR (len \<le> readableBytes b)
       (bindR (retrieve len b) (\<lambda>b'. Inr (take len (contents b), b')))"

definition retrieveAllAsString :: "buffer \<Rightarrow> (string \<times> buffer) res" where
  "retrieveAllAsString b = retrieveAsString (readableBytes b) b"

section \<open>Appending and prepending\<close>

definition makeSpace :: "nat \<Rightarrow> buffer \<Rightarrow> buffer res" where
  "makeSpace len b =
     (if writableBytes b + prependableBytes b < len + kCheapPrepend
      then Inr (b\<lparr>bytes := resize (writerIndex b + len) (CHR 0x00) (bytes b)\<rparr>)
      else assertR (kCheapPrepend < readerIndex b)
        (let readable = readableBytes b;
             b' = b\<lparr>bytes := overwrite kCheapPrepend (contents b) (bytes b),
                    readerIndex := kCheapPrepend, writerIndex := kCheapPrepend + readable\<rparr>
         in assertR (readable = readableBytes b') (Inr b')))"

definition ensureWritableBytes :: "nat \<Rightarrow> buffer \<Rightarrow> buffer res" where
  "ensureWritableBytes len b =
     bindR (if writableBytes b < len then makeSpace len b else Inr b)
       (\<lambda>b'. assertR (len \<le> writableBytes b') (Inr b'))"

definition hasWritten :: "nat \<Rightarrow> buffer \<Rightarrow> buffer res" where
  "hasWritten len b =
     assertR (len \<le> writableBytes b) (Inr (b\<lparr>writerIndex := writerIndex b + len\<rparr>))"

definition unwrite :: "nat \<Rightarrow> buffer \<Rightarrow> buffer res" where
  "unwrite len b =
     assertR (len \<le> readableBytes b) (Inr (b\<lparr>writerIndex := writerIndex b - len\<rparr>))"

definition append_data :: "char list \<Rightarrow> buffer \<Rightarrow> buffer res" where
  "append_data data b =
     bindR (ensureWritableBytes (length data) b)
       (\<lambda>b'. hasWritten (length data)
               (b'\<lparr>bytes := overwrite (writerIndex b') data (bytes b')\<rparr>))"

definition prepend :: "char list \<Rightarrow> buffer \<Rightarrow> buffer res" where
  "prepend data b =
     assertR (length data \<le> prependableBytes b)
       (let r = readerIndex b - length data
        in Inr (b\<lparr>readerIndex := r, bytes := overwrite r data (bytes b)\<rparr>))"

section \<open>Reading from a descriptor\<close>

text \<open>
  \<^verbatim>\<open>readv(2)\<close> is not part of the program: its outcome is an argument, an \<^verbatim>\<open>errno\<close> or the
  bytes that it stored into the two parts of the vector, in order.  \<open>iov_capacity\<close> is the room
  the call offers it, which is the most it may return.
\<close>

datatype readv_result = ReadErr int | ReadData "char list"

definition extrabuf_size :: nat where
  "extrabuf_size = 65536"

definition iov_capacity :: "buffer \<Rightarrow> nat" where
  "iov_capacity b =
     (if writableBytes b < extrabuf_size then writableBytes b + extrabuf_size
      else writableBytes b)"

definition readFd :: "(nat \<Rightarrow> readv_result) \<Rightarrow> buffer \<Rightarrow> (int \<times> int option \<times> buffer) res" where
  "readFd readv b =
     (let writable = writableBytes b in
      case readv (iov_capacity b) of
        ReadErr e \<Rightarrow> Inr (-1, Some e, b)
      | ReadData data \<Rightarrow>
          (if length data \<le> writable
           then Inr (int (length data), None,
                  b\<lparr>bytes := overwrite (writerIndex b) data (bytes b),
                    writerIndex := writerIndex b + length data\<rparr>)
           else bindR
             (append_data (drop writable data)
               (b\<lparr>bytes := overwrite (writerIndex b) (take writable data) (bytes b),
                  writerIndex := length (bytes b)\<rparr>))
             (\<lambda>b'. Inr (int (length data), None, b'))))"

definition readv_ok :: "(nat \<Rightarrow> readv_result) \<Rightarrow> bool" where
  "readv_ok readv \<longleftrightarrow> (\<forall>n data. readv n = ReadData data \<longrightarrow> length data \<le> n)"

section \<open>The invariant\<close>

definition buf_inv :: "buffer \<Rightarrow> bool" where
  "buf_inv b \<longleftrightarrow> kCheapPrepend \<le> length (bytes b) \<and>
     readerIndex b \<le> writerIndex b \<and> writerIndex b \<le> length (bytes b)"

lemmas buf_sizes = readableBytes_def writableBytes_def prependableBytes_def

lemma length_contents [simp]: "buf_inv b \<Longrightarrow> length (contents b) = readableBytes b"
  by (simp add: buf_inv_def contents_def buf_sizes)

lemma new_buffer_ok:
  "\<exists>b. new_buffer n = Inr b \<and> buf_inv b \<and> contents b = [] \<and> writableBytes b = n"
  by (simp add: new_buffer_def buf_inv_def contents_def buf_sizes Let_def)

lemma retrieveAll_ok: "buf_inv b \<Longrightarrow> buf_inv (retrieveAll b) \<and> contents (retrieveAll b) = []"
  by (simp add: retrieveAll_def buf_inv_def contents_def)

lemma retrieve_ok:
  assumes "buf_inv b" and "n \<le> readableBytes b"
  shows "\<exists>b'. retrieve n b = Inr b' \<and> buf_inv b' \<and> contents b' = drop n (contents b)"
proof (cases "n < readableBytes b")
  case True
  with assms show ?thesis
    by (auto simp: retrieve_def buf_inv_def contents_def segment_advance buf_sizes)
next
  case False
  with assms show ?thesis by (simp add: retrieve_def retrieveAll_ok)
qed

lemma retrieve_err: "readableBytes b < n \<Longrightarrow> retrieve n b = Inl AssertionFailed"
  by (simp add: retrieve_def)

lemma retrieveAsString_ok:
  assumes "buf_inv b" and "n \<le> readableBytes b"
  shows "\<exists>b'. retrieveAsString n b = Inr (take n (contents b), b') \<and> buf_inv b' \<and>
           contents b' = drop n (contents b)"
  using retrieve_ok [OF assms] assms(2) by (auto simp: retrieveAsString_def)

lemma retrieveAllAsString_ok:
  assumes "buf_inv b"
  shows "\<exists>b'. retrieveAllAsString b = Inr (contents b, b') \<and> buf_inv b' \<and> contents b' = []"
  using retrieveAsString_ok [OF assms order_refl] assms by (auto simp: retrieveAllAsString_def)

text \<open>Making room never loses a byte, and the assertions inside it hold.\<close>

lemma makeSpace_ok:
  assumes inv: "buf_inv b" and short: "writableBytes b < n"
  shows "\<exists>b'. makeSpace n b = Inr b' \<and> buf_inv b' \<and> contents b' = contents b \<and>
           n \<le> writableBytes b'"
proof (cases "writableBytes b + prependableBytes b < n + kCheapPrepend")
  case True
  have "length (bytes b) \<le> writerIndex b + n"
    using inv short by (simp add: buf_inv_def buf_sizes)
  with True inv show ?thesis
    by (auto simp: makeSpace_def buf_inv_def contents_def segment_resize buf_sizes)
next
  case False
  have len: "length (contents b) = writerIndex b - readerIndex b"
    using inv by (simp add: readableBytes_def)
  have room: "kCheapPrepend + length (contents b) \<le> length (bytes b)"
    using inv short False len by (simp add: buf_inv_def buf_sizes)
  let ?b = "b\<lparr>bytes := overwrite kCheapPrepend (contents b) (bytes b),
    readerIndex := kCheapPrepend, writerIndex := kCheapPrepend + readableBytes b\<rparr>"
  have "contents ?b = contents b"
    unfolding contents_def [of ?b] using segment_overwrite_front [OF room] len
    by (simp add: readableBytes_def)
  moreover have "makeSpace n b = Inr ?b"
    using False short inv by (simp add: makeSpace_def buf_sizes buf_inv_def Let_def)
  moreover have "buf_inv ?b" "n \<le> writableBytes ?b"
    using room False inv len by (auto simp: buf_inv_def buf_sizes)
  ultimately show ?thesis by blast
qed

lemma ensureWritableBytes_ok:
  assumes "buf_inv b"
  shows "\<exists>b'. ensureWritableBytes n b = Inr b' \<and> buf_inv b' \<and> contents b' = contents b \<and>
           n \<le> writableBytes b'"
  using makeSpace_ok [OF assms, of n] assms by (auto simp: ensureWritableBytes_def)

lemma write_bytes_ok:
  assumes "buf_inv b" and "length s \<le> writableBytes b"
  shows "buf_inv (b\<lparr>bytes := overwrite (writerIndex b) s (bytes b),
           writerIndex := writerIndex b + length s\<rparr>)"
    and "contents (b\<lparr>bytes := overwrite (writerIndex b) s (bytes b),
           writerIndex := writerIndex b + length s\<rparr>) = contents b @ s"
  using assms by (auto simp: buf_inv_def buf_sizes contents_def segment_overwrite_after)

lemma append_data_ok:
  assumes "buf_inv b"
  shows "\<exists>b'. append_data s b = Inr b' \<and> buf_inv b' \<and> contents b' = contents b @ s"
proof -
  obtain b1 where b1: "ensureWritableBytes (length s) b = Inr b1" "buf_inv b1"
      "contents b1 = contents b" "length s \<le> writableBytes b1"
    using ensureWritableBytes_ok [OF assms] by blast
  have "length s \<le> writableBytes (b1\<lparr>bytes := overwrite (writerIndex b1) s (bytes b1)\<rparr>)"
    using b1(2,4) by (auto simp: buf_inv_def writableBytes_def)
  then have "append_data s b = Inr (b1\<lparr>bytes := overwrite (writerIndex b1) s (bytes b1),
      writerIndex := writerIndex b1 + length s\<rparr>)"
    using b1(1) by (simp add: append_data_def hasWritten_def)
  with write_bytes_ok [OF b1(2,4)] b1(3) show ?thesis by simp
qed

lemma prepend_ok:
  assumes "buf_inv b" and "length s \<le> prependableBytes b"
  shows "\<exists>b'. prepend s b = Inr b' \<and> buf_inv b' \<and> contents b' = s @ contents b"
  using assms
  by (auto simp: prepend_def buf_inv_def buf_sizes contents_def segment_overwrite_before Let_def)

lemma unwrite_ok:
  assumes "buf_inv b" and "n \<le> readableBytes b"
  shows "\<exists>b'. unwrite n b = Inr b' \<and> buf_inv b' \<and>
           contents b' = take (readableBytes b - n) (contents b)"
  using assms
  by (auto simp: unwrite_def buf_inv_def buf_sizes contents_def segment_shorten)

text \<open>Whatever \<^verbatim>\<open>readv\<close> returns within its contract is appended, and nothing else changes.\<close>

lemma readFd_ok:
  assumes inv: "buf_inv b" and ret: "readv (iov_capacity b) = ReadData data"
  shows "\<exists>b'. readFd readv b = Inr (int (length data), None, b') \<and> buf_inv b' \<and>
           contents b' = contents b @ data"
proof (cases "length data \<le> writableBytes b")
  case True
  with inv ret show ?thesis by (simp add: readFd_def write_bytes_ok)
next
  case False
  let ?s = "take (writableBytes b) data"
  let ?b = "b\<lparr>bytes := overwrite (writerIndex b) ?s (bytes b), writerIndex := length (bytes b)\<rparr>"
  have full: "writerIndex b + length ?s = length (bytes b)"
    using False inv by (simp add: buf_inv_def writableBytes_def)
  then have "buf_inv ?b" "contents ?b = contents b @ ?s"
    using write_bytes_ok [OF inv, of ?s] by simp_all
  from append_data_ok [OF this(1), of "drop (writableBytes b) data"] this(2)
  obtain b' where "append_data (drop (writableBytes b) data) ?b = Inr b'" "buf_inv b'"
      "contents b' = contents b @ data"
    by auto
  with False ret show ?thesis by (simp add: readFd_def Let_def)
qed

lemma readFd_err:
  "readv (iov_capacity b) = ReadErr e \<Longrightarrow> readFd readv b = Inr (-1, Some e, b)"
  by (simp add: readFd_def)

lemma findCRLF_Some:
  assumes "buf_inv b" and "findCRLF b = Some p"
  shows "readerIndex b \<le> p \<and> p + 2 \<le> writerIndex b \<and>
    search kCRLF (contents b) = Some (p - readerIndex b)"
proof -
  obtain k where k: "search kCRLF (contents b) = Some k" "p = readerIndex b + k"
    using assms(2) by (auto simp: findCRLF_def)
  from search_Some [OF k(1)] have "k + 2 \<le> readableBytes b"
    using assms(1) by (simp add: kCRLF_def)
  with k assms(1) show ?thesis by (simp add: buf_inv_def buf_sizes)
qed

lemma retrieveUntil_ok:
  assumes "buf_inv b" and "readerIndex b \<le> p" and "p \<le> writerIndex b"
  shows "\<exists>b'. retrieveUntil p b = Inr b' \<and> buf_inv b' \<and>
           contents b' = drop (p - readerIndex b) (contents b)"
proof -
  have "p - readerIndex b \<le> readableBytes b"
    using assms(3) by (simp add: readableBytes_def)
  from retrieve_ok [OF assms(1) this] assms(2,3) show ?thesis
    by (simp add: retrieveUntil_def)
qed

section \<open>Integers in network byte order\<close>

text \<open>
  An object of \<open>k\<close> bytes with value \<open>n\<close> lies in the memory of the (little-endian) host as
  \<open>le_bytes k n\<close>.  \<^verbatim>\<open>htobe64\<close> and its kin swap the bytes; \<^verbatim>\<open>append(&be64, sizeof be64)\<close> then
  copies the memory image.
\<close>

fun le_bytes :: "nat \<Rightarrow> nat \<Rightarrow> char list" where
  "le_bytes 0 n = []"
| "le_bytes (Suc k) n = char_of (n mod 256) # le_bytes k (n div 256)"

fun le_val :: "char list \<Rightarrow> nat" where
  "le_val [] = 0"
| "le_val (c # cs) = of_char c + 256 * le_val cs"

definition swap_bytes :: "nat \<Rightarrow> 'a::len word \<Rightarrow> 'a word" where
  "swap_bytes k w = of_nat (le_val (rev (le_bytes k (unat w))))"

definition hostToNetwork64 :: "64 word \<Rightarrow> 64 word" where
  "hostToNetwork64 = swap_bytes 8"

definition hostToNetwork32 :: "32 word \<Rightarrow> 32 word" where
  "hostToNetwork32 = swap_bytes 4"

definition hostToNetwork16 :: "16 word \<Rightarrow> 16 word" where
  "hostToNetwork16 = swap_bytes 2"

definition networkToHost64 :: "64 word \<Rightarrow> 64 word" where
  "networkToHost64 = swap_bytes 8"

definition networkToHost32 :: "32 word \<Rightarrow> 32 word" where
  "networkToHost32 = swap_bytes 4"

definition networkToHost16 :: "16 word \<Rightarrow> 16 word" where
  "networkToHost16 = swap_bytes 2"

definition appendInt64 :: "64 word \<Rightarrow> buffer \<Rightarrow> buffer res" where
  "appendInt64 x = append_data (le_bytes 8 (unat (hostToNetwork64 x)))"

definition appendInt32 :: "32 word \<Rightarrow> buffer \<Rightarrow> buffer res" where
  "appendInt32 x = append_data (le_bytes 4 (unat (hostToNetwork32 x)))"

definition appendInt16 :: "16 word \<Rightarrow> buffer \<Rightarrow> buffer res" where
  "appendInt16 x = append_data (le_bytes 2 (unat (hostToNetwork16 x)))"

definition appendInt8 :: "8 word \<Rightarrow> buffer \<Rightarrow> buffer res" where
  "appendInt8 x = append_data (le_bytes 1 (unat x))"

definition prependInt64 :: "64 word \<Rightarrow> buffer \<Rightarrow> buffer res" where
  "prependInt64 x = prepend (le_bytes 8 (unat (hostToNetwork64 x)))"

definition prependInt32 :: "32 word \<Rightarrow> buffer \<Rightarrow> buffer res" where
  "prependInt32 x = prepend (le_bytes 4 (unat (hostToNetwork32 x)))"

definition prependInt16 :: "16 word \<Rightarrow> buffer \<Rightarrow> buffer res" where
  "prependInt16 x = prepend (le_bytes 2 (unat (hostToNetwork16 x)))"

definition prependInt8 :: "8 word \<Rightarrow> buffer \<Rightarrow> buffer res" where
  "prependInt8 x = prepend (le_bytes 1 (unat x))"

definition peekInt64 :: "buffer \<Rightarrow> 64 word res" where
  "peekInt64 b = assertR (8 \<le> readableBytes b)
     (Inr (networkToHost64 (of_nat (le_val (take 8 (contents b))))))"

definition peekInt32 :: "buffer \<Rightarrow> 32 word res" where
  "peekInt32 b = assertR (4 \<le> readableBytes b)
     (Inr (networkToHost32 (of_nat (le_val (take 4 (contents b))))))"

definition peekInt16 :: "buffer \<Rightarrow> 16 word res" where
  "peekInt16 b = assertR (2 \<le> readableBytes b)
     (Inr (networkToHost16 (of_nat (le_val (take 2 (contents b))))))"

definition peekInt8 :: "buffer \<Rightarrow> 8 word res" where
  "peekInt8 b = assertR (1 \<le> readableBytes b)
     (Inr (of_nat (le_val (take 1 (contents b)))))"

definition retrieveInt64 :: "buffer \<Rightarrow> buffer res" where "retrieveInt64 = retrieve 8"

definition retrieveInt32 :: "buffer \<Rightarrow> buffer res" where "retrieveInt32 = retrieve 4"

definition retrieveInt16 :: "buffer \<Rightarrow> buffer res" where "retrieveInt16 = retrieve 2"

definition retrieveInt8 :: "buffer \<Rightarrow> buffer res" where "retrieveInt8 = retrieve 1"

definition readInt64 :: "buffer \<Rightarrow> (64 word \<times> buffer) res" where
  "readInt64 b = bindR (peekInt64 b) (\<lambda>x. bindR (retrieveInt64 b) (\<lambda>b'. Inr (x, b')))"

definition readInt32 :: "buffer \<Rightarrow> (32 word \<times> buffer) res" where
  "readInt32 b = bindR (peekInt32 b) (\<lambda>x. bindR (retrieveInt32 b) (\<lambda>b'. Inr (x, b')))"

definition readInt16 :: "buffer \<Rightarrow> (16 word \<times> buffer) res" where
  "readInt16 b = bindR (peekInt16 b) (\<lambda>x. bindR (retrieveInt16 b) (\<lambda>b'. Inr (x, b')))"

definition readInt8 :: "buffer \<Rightarrow> (8 word \<times> buffer) res" where
  "readInt8 b = bindR (peekInt8 b) (\<lambda>x. bindR (retrieveInt8 b) (\<lambda>b'. Inr (x, b')))"

lemma length_le_bytes [simp]: "length (le_bytes k n) = k"
  by (induction k arbitrary: n) simp_all

lemma le_val_le_bytes: "le_val (le_bytes k n) = n mod 256 ^ k"
proof (induction k arbitrary: n)
  case (Suc k)
  have "n mod 256 ^ Suc k = 256 * (n div 256 mod 256 ^ k) + n mod 256"
    by (simp add: mod_mult2_eq)
  with Suc show ?case by simp
qed simp

lemma le_bytes_le_val: "length cs = k \<Longrightarrow> le_bytes k (le_val cs) = cs"
proof (induction cs arbitrary: k)
  case (Cons c cs)
  have "of_char c mod 256 = (of_char c :: nat)"
    by (rule of_char_mod_256)
  then have "(of_char c :: nat) < 256"
    by (metis mod_less_divisor zero_less_numeral)
  then have "(of_char c + 256 * le_val cs) mod 256 = of_char c"
    and "(of_char c + 256 * le_val cs) div 256 = le_val cs"
    by simp_all
  with Cons show ?case by (cases k) simp_all
qed simp

lemma le_val_less: "le_val cs < 256 ^ length cs"
proof -
  have "le_val cs mod 256 ^ length cs = le_val cs"
    using le_val_le_bytes [of "length cs" "le_val cs"] le_bytes_le_val [of cs] by simp
  then show ?thesis by (metis mod_less_divisor zero_less_numeral zero_less_power)
qed

text \<open>Swapping the bytes twice gives the word back, for a word of exactly \<open>k\<close> bytes.\<close>

lemma unat_swap_bytes:
  fixes w :: "'a::len word"
  assumes "LENGTH('a) = 8 * k"
  shows "unat (swap_bytes k w) = le_val (rev (le_bytes k (unat w)))"
proof -
  have "le_val (rev (le_bytes k (unat w))) < 2 ^ LENGTH('a)"
    using le_val_less [of "rev (le_bytes k (unat w))"] assms by (simp add: power_mult)
  then show ?thesis by (simp add: swap_bytes_def unat_of_nat)
qed

lemma le_bytes_swap_bytes:
  fixes w :: "'a::len word"
  assumes "LENGTH('a) = 8 * k"
  shows "le_bytes k (unat (swap_bytes k w)) = rev (le_bytes k (unat w))"
  by (simp add: unat_swap_bytes [OF assms] le_bytes_le_val)

lemma swap_bytes_swap_bytes:
  fixes w :: "'a::len word"
  assumes "LENGTH('a) = 8 * k"
  shows "swap_bytes k (swap_bytes k w) = w"
proof -
  have "unat w < 256 ^ k"
    using unsigned_less [of w, where ?'a = nat] assms by (simp add: power_mult)
  then show ?thesis
    by (simp add: swap_bytes_def [of k "swap_bytes k w"] le_bytes_swap_bytes [OF assms]
        le_val_le_bytes)
qed

lemma le_val_le_bytes_unat:
  fixes w :: "'a::len word"
  assumes "LENGTH('a) = 8 * k"
  shows "of_nat (le_val (le_bytes k (unat w))) = w"
proof -
  have "unat w < 256 ^ k"
    using unsigned_less [of w, where ?'a = nat] assms by (simp add: power_mult)
  then show ?thesis by (simp add: le_val_le_bytes)
qed

section \<open>The contract of a byte queue\<close>

datatype queue_op = Put "char list" | Get nat

fun queue_step :: "queue_op \<Rightarrow> char list \<Rightarrow> char list" where
  "queue_step (Put s) q = q @ s"
| "queue_step (Get n) q = drop n q"

fun queue_fits :: "queue_op list \<Rightarrow> char list \<Rightarrow> bool" where
  "queue_fits [] q = True"
| "queue_fits (Put s # ops) q = queue_fits ops (q @ s)"
| "queue_fits (Get n # ops) q = (n \<le> length q \<and> queue_fits ops (drop n q))"

locale byte_queue =
  fixes inv :: "'q \<Rightarrow> bool"
    and content :: "'q \<Rightarrow> char list"
    and put :: "char list \<Rightarrow> 'q \<Rightarrow> 'q res"
    and drop_front :: "nat \<Rightarrow> 'q \<Rightarrow> 'q res"
  assumes put_law: "inv q \<Longrightarrow> \<exists>q'. put s q = Inr q' \<and> inv q' \<and> content q' = content q @ s"
    and drop_law: "inv q \<Longrightarrow> n \<le> length (content q) \<Longrightarrow>
      \<exists>q'. drop_front n q = Inr q' \<and> inv q' \<and> content q' = drop n (content q)"
    and drop_err: "inv q \<Longrightarrow> length (content q) < n \<Longrightarrow> drop_front n q = Inl AssertionFailed"
begin

text \<open>Clients write a message in pieces: the pieces arrive in order, none is lost.\<close>

lemma put_all:
  "inv q \<Longrightarrow> \<exists>q'. runR put ss q = Inr q' \<and> inv q' \<and> content q' = content q @ concat ss"
proof (induction ss arbitrary: q)
  case (Cons s ss)
  obtain q1 where q1: "put s q = Inr q1" "inv q1" "content q1 = content q @ s"
    using put_law [OF Cons.prems] by blast
  from Cons.IH [OF q1(2)] q1 show ?case by simp
qed simp

text \<open>Any sequence of operations is simulated by the list that holds the contents.\<close>

lemma simulates:
  "inv q \<Longrightarrow> queue_fits ops (content q) \<Longrightarrow>
   \<exists>q'. runR (case_queue_op put drop_front) ops q = Inr q' \<and> inv q' \<and>
        content q' = fold queue_step ops (content q)"
proof (induction ops arbitrary: q)
  case (Cons op ops)
  show ?case
  proof (cases op)
    case (Put s)
    obtain q1 where q1: "put s q = Inr q1" "inv q1" "content q1 = content q @ s"
      using put_law [OF Cons.prems(1)] by blast
    with Cons.IH [of q1] Cons.prems Put show ?thesis by simp
  next
    case (Get n)
    then have "n \<le> length (content q)" using Cons.prems by simp
    then obtain q1 where q1: "drop_front n q = Inr q1" "inv q1" "content q1 = drop n (content q)"
      using drop_law Cons.prems by blast
    with Cons.IH [of q1] Cons.prems Get show ?thesis by simp
  qed
qed simp

lemma misfit:
  "inv q \<Longrightarrow> \<not> queue_fits ops (content q) \<Longrightarrow>
   runR (case_queue_op put drop_front) ops q = Inl AssertionFailed"
proof (induction ops arbitrary: q)
  case (Cons op ops)
  show ?case
  proof (cases op)
    case (Put s)
    obtain q1 where q1: "put s q = Inr q1" "inv q1" "content q1 = content q @ s"
      using put_law [OF Cons.prems(1)] by blast
    with Cons.IH [of q1] Cons.prems Put show ?thesis by simp
  next
    case (Get n)
    show ?thesis
    proof (cases "n \<le> length (content q)")
      case True
      then obtain q1 where "drop_front n q = Inr q1" "inv q1" "content q1 = drop n (content q)"
        using drop_law Cons.prems by blast
      with Cons.IH [of q1] Cons.prems Get True show ?thesis by simp
    next
      case False
      with Get Cons.prems drop_err show ?thesis by simp
    qed
  qed
qed simp

end

interpretation buf: byte_queue buf_inv contents append_data retrieve
proof unfold_locales
  show "buf_inv q \<Longrightarrow> \<exists>q'. append_data s q = Inr q' \<and> buf_inv q' \<and> contents q' = contents q @ s"
    for q s by (rule append_data_ok)
  show "buf_inv q \<Longrightarrow> n \<le> length (contents q) \<Longrightarrow>
      \<exists>q'. retrieve n q = Inr q' \<and> buf_inv q' \<and> contents q' = drop n (contents q)"
    for q n using retrieve_ok by simp
  show "buf_inv q \<Longrightarrow> length (contents q) < n \<Longrightarrow> retrieve n q = Inl AssertionFailed"
    for q n using retrieve_err by simp
qed

section \<open>Properties\<close>

text \<open>Every public operation that moves an index or a byte, as one step.\<close>

datatype buf_op =
    Append "char list" | Retrieve nat | RetrieveUntil nat | RetrieveAll | AsString nat
  | Ensure nat | HasWritten nat | Unwrite nat | Prepend "char list" | ReadFd "nat \<Rightarrow> readv_result"

fun buf_step :: "buf_op \<Rightarrow> buffer \<Rightarrow> buffer res" where
  "buf_step (Append s) b = append_data s b"
| "buf_step (Retrieve n) b = retrieve n b"
| "buf_step (RetrieveUntil p) b = retrieveUntil p b"
| "buf_step RetrieveAll b = Inr (retrieveAll b)"
| "buf_step (AsString n) b = bindR (retrieveAsString n b) (\<lambda>r. Inr (snd r))"
| "buf_step (Ensure n) b = ensureWritableBytes n b"
| "buf_step (HasWritten n) b = hasWritten n b"
| "buf_step (Unwrite n) b = unwrite n b"
| "buf_step (Prepend s) b = prepend s b"
| "buf_step (ReadFd readv) b = bindR (readFd readv b) (\<lambda>r. Inr (snd (snd r)))"

text \<open>A failing operation always fails by an assertion.\<close>

lemma retrieve_fails: "buf_inv b \<Longrightarrow> retrieve n b = Inl e \<Longrightarrow> e = AssertionFailed"
  by (auto simp: retrieve_def assertR_def split: if_splits)

lemma buf_step_ok:
  assumes inv: "buf_inv b"
  shows "case buf_step op b of Inr b' \<Rightarrow> buf_inv b' | Inl e \<Rightarrow> e = AssertionFailed"
proof (cases op)
  case (Append s)
  with append_data_ok [OF inv, of s] show ?thesis by auto
next
  case (Retrieve n)
  with retrieve_ok [OF inv, of n] retrieve_err [of b n] show ?thesis
    by (cases "n \<le> readableBytes b") auto
next
  case (RetrieveUntil p)
  with retrieveUntil_ok [OF inv, of p] show ?thesis
    by (cases "readerIndex b \<le> p \<and> p \<le> writerIndex b") (auto simp: retrieveUntil_def assertR_def)
next
  case RetrieveAll
  with retrieveAll_ok [OF inv] show ?thesis by simp
next
  case (AsString n)
  with retrieveAsString_ok [OF inv, of n] show ?thesis
    by (cases "n \<le> readableBytes b") (auto simp: retrieveAsString_def assertR_def)
next
  case (Ensure n)
  with ensureWritableBytes_ok [OF inv, of n] show ?thesis by auto
next
  case (HasWritten n)
  with inv show ?thesis by (auto simp: hasWritten_def assertR_def buf_inv_def buf_sizes)
next
  case (Unwrite n)
  with inv show ?thesis by (auto simp: unwrite_def assertR_def buf_inv_def buf_sizes)
next
  case (Prepend s)
  with prepend_ok [OF inv, of s] show ?thesis
    by (cases "length s \<le> prependableBytes b") (auto simp: prepend_def assertR_def)
next
  case (ReadFd readv)
  then show ?thesis
    using readFd_ok [OF inv, of readv] readFd_err [of readv b] inv
    by (cases "readv (iov_capacity b)") auto
qed

lemma buf_run_ok:
  "buf_inv b \<Longrightarrow> case runR buf_step ops b of Inr b' \<Rightarrow> buf_inv b' | Inl e \<Rightarrow> e = AssertionFailed"
proof (induction ops arbitrary: b)
  case (Cons op ops)
  show ?case
    using buf_step_ok [OF Cons.prems, of op] Cons.IH by (cases "buf_step op b") auto
qed simp

text \<open>
  Fact.  Starting from the constructor, no sequence of buffer operations can bring the
  reader index past the writer index or the writer index past the end of the vector, so no
  \<^verbatim>\<open>size_t\<close> subtraction of the class wraps; a sequence that does not complete stops at one of
  the source's assertions.
\<close>

theorem buffer_indices_ordered:
  "case bindR (new_buffer n) (runR buf_step ops) of
     Inr b \<Rightarrow> readerIndex b \<le> writerIndex b \<and> writerIndex b \<le> length (bytes b)
   | Inl e \<Rightarrow> e = AssertionFailed"
proof -
  obtain b where "new_buffer n = Inr b" "buf_inv b"
    using new_buffer_ok by blast
  with buf_run_ok [of b ops] show ?thesis
    by (auto simp: buf_inv_def split: sum.splits)
qed

text \<open>
  Property C14.  The buffer is a queue of bytes: any interleaving of appends and retrievals from a
  fresh buffer leaves exactly the bytes that the same operations leave on a list, whatever growth
  and compaction the appends cause, and a retrieval of more than is there is the only way to fail.
\<close>

theorem buffer_is_byte_queue:
  "case bindR (new_buffer n) (runR (case_queue_op append_data retrieve) ops) of
     Inr b \<Rightarrow> queue_fits ops [] \<and> contents b = fold queue_step ops []
   | Inl e \<Rightarrow> \<not> queue_fits ops [] \<and> e = AssertionFailed"
proof -
  obtain b where b: "new_buffer n = Inr b" "buf_inv b" "contents b = []"
    using new_buffer_ok by blast
  with buf.simulates [OF b(2), of ops] buf.misfit [OF b(2), of ops] show ?thesis
    by (cases "queue_fits ops []") auto
qed

text \<open>
  Property C20.  One \<^verbatim>\<open>readFd\<close> moves every byte the kernel delivered to the end of the readable
  part, in order, also when the bytes spill into the stack buffer and the vector has to grow; on
  an error it hands out the \<^verbatim>\<open>errno\<close> and changes nothing.
\<close>

theorem readFd_appends_all:
  assumes "buf_inv b"
  shows "case readv (iov_capacity b) of
      ReadData data \<Rightarrow> \<exists>b'. readFd readv b = Inr (int (length data), None, b') \<and>
                        contents b' = contents b @ data
    | ReadErr e \<Rightarrow> readFd readv b = Inr (-1, Some e, b)"
  using readFd_ok [OF assms, of readv] readFd_err [of readv b]
  by (cases "readv (iov_capacity b)") auto

theorem readFd_appends_all_witness:
  "\<exists>b. new_buffer 2 = Inr b \<and>
     (\<exists>b'. readFd (\<lambda>n. ReadData ''hello'') b = Inr (5, None, b') \<and> contents b' = ''hello'')"
proof -
  obtain b where "new_buffer 2 = Inr b" "buf_inv b" "contents b = []"
    using new_buffer_ok by blast
  with readFd_appends_all [of b "\<lambda>n. ReadData ''hello''"] show ?thesis by auto
qed

lemma appendInt64_ok:
  "buf_inv b \<Longrightarrow> \<exists>b'. appendInt64 x b = Inr b' \<and> buf_inv b' \<and>
     contents b' = contents b @ rev (le_bytes 8 (unat x))"
  using append_data_ok [of b "le_bytes 8 (unat (hostToNetwork64 x))"]
  by (simp add: appendInt64_def hostToNetwork64_def le_bytes_swap_bytes)

lemma peekInt64_ok:
  assumes "buf_inv b" and "contents b = rev (le_bytes 8 (unat x)) @ rest"
  shows "peekInt64 b = Inr x"
proof -
  have "8 \<le> readableBytes b"
    using arg_cong [OF assms(2), of length] assms(1) by simp
  moreover have "take 8 (contents b) = le_bytes 8 (unat (swap_bytes 8 x))"
    using assms(2) by (simp add: le_bytes_swap_bytes)
  ultimately show ?thesis
    by (simp add: peekInt64_def networkToHost64_def le_val_le_bytes_unat swap_bytes_swap_bytes)
qed

text \<open>
  Fact.  \<^verbatim>\<open>appendInt64\<close> puts the most significant byte first on the wire, and a
  \<^verbatim>\<open>readInt64\<close> that finds those bytes at the front returns the value and leaves the rest.
\<close>

theorem int64_roundtrip:
  assumes "buf_inv b" and "contents b = []"
  shows "\<exists>b1 b2. bindR (appendInt64 x b) (append_data rest) = Inr b1 \<and>
      contents b1 = rev (le_bytes 8 (unat x)) @ rest \<and>
      readInt64 b1 = Inr (x, b2) \<and> contents b2 = rest"
proof -
  obtain b0 where b0: "appendInt64 x b = Inr b0" "buf_inv b0" "contents b0 = rev (le_bytes 8 (unat x))"
    using appendInt64_ok [OF assms(1)] assms(2) by auto
  obtain b1 where b1: "append_data rest b0 = Inr b1" "buf_inv b1"
      "contents b1 = rev (le_bytes 8 (unat x)) @ rest"
    using append_data_ok [OF b0(2)] b0(3) by auto
  have "8 \<le> readableBytes b1"
    using arg_cong [OF b1(3), of length] b1(2) by simp
  then obtain b2 where "retrieve 8 b1 = Inr b2" "contents b2 = rest"
    using retrieve_ok [OF b1(2)] b1(3) by fastforce
  with b0(1) b1 peekInt64_ok [OF b1(2,3)] show ?thesis
    by (simp add: readInt64_def retrieveInt64_def)
qed

theorem int64_roundtrip_witness:
  "\<exists>b b1 b2. new_buffer 0 = Inr b \<and>
     bindR (appendInt64 258 b) (append_data ''tail'') = Inr b1 \<and>
     readInt64 b1 = Inr (258, b2) \<and> contents b2 = ''tail''"
proof -
  obtain b where b: "new_buffer 0 = Inr b" "buf_inv b" "contents b = []"
    using new_buffer_ok by blast
  obtain b1 b2 where "bindR (appendInt64 258 b) (append_data ''tail'') = Inr b1"
      "readInt64 b1 = Inr (258, b2)" "contents b2 = ''tail''"
    using int64_roundtrip [OF b(2,3), of 258 "''tail''"] by auto
  with b(1) show ?thesis by (intro exI conjI)
qed

end
