(* ===== verification/Sockets.thy ===== *)
theory Sockets
  imports ByteBuffer
begin

text \<open>
  \<^verbatim>\<open>src/InetAddress.h\<close>, \<^verbatim>\<open>src/InetAddress.cpp\<close>, \<^verbatim>\<open>src/Socket.h\<close> and \<^verbatim>\<open>src/Socket.cpp\<close>: socket
  addresses, and the wrappers around the system calls with what they do on a failure.  The result
  of a system call is an argument; \<^verbatim>\<open>inet_addr\<close> and \<^verbatim>\<open>inet_ntop\<close> are functions given as
  arguments.
\<close>

section \<open>Addresses\<close>

record sockaddr_in =
  sin_family :: "16 word"
  s_addr :: "32 word"
  sin_port :: "16 word"

definition AF_INET :: "16 word" where
  "AF_INET = 2"

definition INADDR_ANY :: "32 word" where
  "INADDR_ANY = 0"

definition InetAddress_port :: "16 word \<Rightarrow> sockaddr_in" where
  "InetAddress_port port =
     \<lparr>sin_family = AF_INET, s_addr = INADDR_ANY, sin_port = hostToNetwork16 port\<rparr>"

definition InetAddress_ip :: "(string \<Rightarrow> 32 word) \<Rightarrow> string \<Rightarrow> 16 word \<Rightarrow> sockaddr_in" where
  "InetAddress_ip inet_addr ip port =
     \<lparr>sin_family = AF_INET, s_addr = inet_addr ip, sin_port = hostToNetwork16 port\<rparr>"

definition InetAddress_of :: "sockaddr_in \<Rightarrow> sockaddr_in" where
  "InetAddress_of addr = addr"

definition InetAddress_get :: "sockaddr_in \<Rightarrow> sockaddr_in" where
  "InetAddress_get a = a"

definition InetAddress_set :: "sockaddr_in \<Rightarrow> sockaddr_in \<Rightarrow> sockaddr_in" where
  "InetAddress_set addr a = addr"

definition toIpPort :: "(32 word \<Rightarrow> string) \<Rightarrow> sockaddr_in \<Rightarrow> string" where
  "toIpPort inet_ntop a =
     (let host = inet_ntop (s_addr a);
          port = networkToHost16 (sin_port a)
      in snprintf_cut 32 (host @ '' : '' @ dec_nat (unat port)))"

text \<open>\<^verbatim>\<open>getLocalAddr\<close> keeps the zeroed address when \<^verbatim>\<open>getsockname\<close> fails.\<close>

definition getLocalAddr :: "int \<Rightarrow> sockaddr_in \<Rightarrow> sockaddr_in" where
  "getLocalAddr ret stored =
     (if ret < 0 then \<lparr>sin_family = 0, s_addr = 0, sin_port = 0\<rparr> else stored)"

section \<open>Sockets\<close>

text \<open>A socket is its descriptor and what the program has made of it.\<close>

record socket =
  sock_fd :: int
  nonblocking :: bool
  bound :: "sockaddr_in option"
  listening :: bool
  fin_sent :: bool
  closed :: bool

definition new_socket :: "int \<Rightarrow> socket" where
  "new_socket f = \<lparr>sock_fd = f, nonblocking = False, bound = None, listening = False,
     fin_sent = False, closed = False\<rparr>"

definition setNonBlocking :: "socket \<Rightarrow> socket" where
  "setNonBlocking so = so\<lparr>nonblocking := True\<rparr>"

text \<open>\<open>ret\<close> is what the system call returns.\<close>

definition createSocketNonBlocking :: "int \<Rightarrow> socket res" where
  "createSocketNonBlocking ret =
     (if ret < 0 then Inl Aborted else Inr (setNonBlocking (new_socket ret)))"

definition sock_bind :: "int \<Rightarrow> sockaddr_in \<Rightarrow> socket \<Rightarrow> socket res" where
  "sock_bind ret a so = (if ret < 0 then Inl Aborted else Inr (so\<lparr>bound := Some a\<rparr>))"

definition sock_listen :: "int \<Rightarrow> socket \<Rightarrow> socket res" where
  "sock_listen ret so = (if ret < 0 then Inl Aborted else Inr (so\<lparr>listening := True\<rparr>))"

text \<open>\<^verbatim>\<open>connect\<close> leaves the failure to the caller, who gets what the system call returned.\<close>

definition sock_connect :: "(sockaddr_in \<Rightarrow> int) \<Rightarrow> sockaddr_in \<Rightarrow> int" where
  "sock_connect connect addr = connect addr"

lemma InetAddress_set_eq [simp]: "InetAddress_set addr a = addr"
  by (simp add: InetAddress_set_def)

definition sock_accept :: "int \<Rightarrow> sockaddr_in \<Rightarrow> sockaddr_in \<Rightarrow> socket option \<times> sockaddr_in" where
  "sock_accept ret stored peerAddr =
     (if 0 \<le> ret then (Some (setNonBlocking (new_socket ret)), InetAddress_set stored peerAddr) else (None, peerAddr))"

definition shutdownWrite :: "int \<Rightarrow> socket \<Rightarrow> socket res" where
  "shutdownWrite ret so = (if ret < 0 then Inl Aborted else Inr (so\<lparr>fin_sent := True\<rparr>))"

text \<open>The destructor aborts on a failing \<^verbatim>\<open>close\<close>; the static \<^verbatim>\<open>Socket::close\<close> does not.\<close>

definition destroy_socket :: "int \<Rightarrow> socket \<Rightarrow> socket res" where
  "destroy_socket ret so = (if ret < 0 then Inl Aborted else Inr (so\<lparr>closed := True\<rparr>))"

definition sock_close :: "int \<Rightarrow> socket \<Rightarrow> socket" where
  "sock_close ret so = (if ret < 0 then so else so\<lparr>closed := True\<rparr>)"

definition getSocketError :: "int \<Rightarrow> int \<Rightarrow> int \<Rightarrow> int" where
  "getSocketError ret errno optval = (if ret < 0 then errno else optval)"

section \<open>Properties\<close>

lemma dec_port_length: "length (dec_nat (unat (p :: 16 word))) \<le> 5"
  using length_dec_nat [of "unat p" 5] unsigned_less [of p, where ?'a = nat] by simp

text \<open>
  Fact.  The port given to an address is the port it prints, and the text is never cut:
  with a host of at most 15 characters, as \<^verbatim>\<open>inet_ntop\<close> writes for IPv4, it fits the 32
  bytes of the local buffer.
\<close>

theorem toIpPort_exact:
  assumes "\<And>w. length (inet_ntop w) \<le> 15"
  shows "toIpPort inet_ntop (InetAddress_ip inet_addr ip port) =
    inet_ntop (inet_addr ip) @ '' : '' @ dec_nat (unat port)"
proof -
  have "networkToHost16 (hostToNetwork16 port) = port"
    by (simp add: networkToHost16_def hostToNetwork16_def swap_bytes_swap_bytes)
  moreover have "length (inet_ntop (inet_addr ip) @ '' : '' @ dec_nat (unat port)) < 32"
    using assms [of "inet_addr ip"] dec_port_length [of port] by simp
  ultimately show ?thesis
    by (simp only: toIpPort_def InetAddress_ip_def Let_def sockaddr_in.simps snprintf_cut_fits)
qed

theorem toIpPort_exact_witness:
  "toIpPort (\<lambda>w. ''127.0.0.1'') (InetAddress_ip (\<lambda>ip. 0x0100007F) ''127.0.0.1'' 9006) =
     ''127.0.0.1 : '' @ dec_nat 9006"
  using toIpPort_exact [of "\<lambda>w. ''127.0.0.1''" "\<lambda>ip. 0x0100007F" "''127.0.0.1''" 9006] by simp

end
