(* ===== verification/Channels.thy ===== *)
theory Channels
  imports Prelude
begin

unbundle bit_operations_syntax

text \<open>
  \<^verbatim>\<open>src/Channel.h\<close>, \<^verbatim>\<open>src/Channel.cpp\<close>, \<^verbatim>\<open>src/EPoller.h\<close> and \<^verbatim>\<open>src/EPoller.cpp\<close>: what a
  descriptor waits for, how the poller tells the kernel, and how an event is dispatched.  The
  kernel is not part of the program: \<^verbatim>\<open>epoll_ctl\<close> is an argument that changes the kernel's state
  \<open>'k\<close>, and what the code relies on of it, the documented effect on the interest list, is the
  predicate \<open>epoll_law\<close>.  A channel is the object of whatever owns it, so an operation takes the
  channel and returns it changed.
\<close>

section \<open>Channels\<close>

abbreviation EPOLLIN :: "32 word" where "EPOLLIN \<equiv> 1"
abbreviation EPOLLPRI :: "32 word" where "EPOLLPRI \<equiv> 2"
abbreviation EPOLLOUT :: "32 word" where "EPOLLOUT \<equiv> 4"
abbreviation EPOLLERR :: "32 word" where "EPOLLERR \<equiv> 8"
abbreviation EPOLLRDHUP :: "32 word" where "EPOLLRDHUP \<equiv> 0x2000"

definition kNoneEvent :: "32 word" where
  "kNoneEvent = 0"

definition kReadEvent :: "32 word" where
  "kReadEvent = EPOLLIN OR EPOLLPRI"

definition kWriteEvent :: "32 word" where
  "kWriteEvent = EPOLLOUT"

datatype chan_state = kNew | kAdded | kDeleted

record 'cb channel =
  fd :: int
  events :: "32 word"
  revents :: "32 word"
  chan_state :: chan_state
  readCallback :: "'cb option"
  writeCallback :: "'cb option"
  errorCallback :: "'cb option"

definition new_channel :: "int \<Rightarrow> 'cb channel" where
  "new_channel f =
     \<lparr>fd = f, events = 0, revents = 0, chan_state = kNew,
      readCallback = None, writeCallback = None, errorCallback = None\<rparr>"

definition isNoneEvent :: "'cb channel \<Rightarrow> bool" where
  "isNoneEvent ch \<longleftrightarrow> events ch = kNoneEvent"

definition isWriting :: "'cb channel \<Rightarrow> bool" where
  "isWriting ch \<longleftrightarrow> events ch AND kWriteEvent \<noteq> 0"

definition isReading :: "'cb channel \<Rightarrow> bool" where
  "isReading ch \<longleftrightarrow> events ch AND kReadEvent \<noteq> 0"

section \<open>The poller\<close>

datatype ctl_op = EPOLL_CTL_ADD | EPOLL_CTL_MOD | EPOLL_CTL_DEL

type_synonym 'k epoll_ctl = "ctl_op \<Rightarrow> int \<Rightarrow> 32 word \<Rightarrow> 'k \<Rightarrow> 'k"

definition ep_update :: "'k epoll_ctl \<Rightarrow> ctl_op \<Rightarrow> 'cb channel \<Rightarrow> 'k \<Rightarrow> 'k" where
  "ep_update ctl operation ch k = ctl operation (fd ch) (events ch) k"

definition updateChannel :: "'k epoll_ctl \<Rightarrow> 'cb channel \<Rightarrow> 'k \<Rightarrow> 'cb channel \<times> 'k" where
  "updateChannel ctl ch k =
     (if chan_state ch = kNew \<or> chan_state ch = kDeleted
      then (let ch = ch\<lparr>chan_state := kAdded\<rparr> in (ch, ep_update ctl EPOLL_CTL_ADD ch k))
      else if chan_state ch = kAdded \<and> isNoneEvent ch
      then (let ch = ch\<lparr>chan_state := kDeleted\<rparr> in (ch, ep_update ctl EPOLL_CTL_DEL ch k))
      else if chan_state ch = kAdded then (ch, ep_update ctl EPOLL_CTL_MOD ch k)
      else (ch, k))"

definition enableReading :: "'k epoll_ctl \<Rightarrow> 'cb channel \<Rightarrow> 'k \<Rightarrow> 'cb channel \<times> 'k" where
  "enableReading ctl ch k = updateChannel ctl (ch\<lparr>events := events ch OR kReadEvent\<rparr>) k"

definition disableReading :: "'k epoll_ctl \<Rightarrow> 'cb channel \<Rightarrow> 'k \<Rightarrow> 'cb channel \<times> 'k" where
  "disableReading ctl ch k = updateChannel ctl (ch\<lparr>events := events ch AND NOT kReadEvent\<rparr>) k"

definition enableWriting :: "'k epoll_ctl \<Rightarrow> 'cb channel \<Rightarrow> 'k \<Rightarrow> 'cb channel \<times> 'k" where
  "enableWriting ctl ch k = updateChannel ctl (ch\<lparr>events := events ch OR kWriteEvent\<rparr>) k"

definition disableWriting :: "'k epoll_ctl \<Rightarrow> 'cb channel \<Rightarrow> 'k \<Rightarrow> 'cb channel \<times> 'k" where
  "disableWriting ctl ch k = updateChannel ctl (ch\<lparr>events := events ch AND NOT kWriteEvent\<rparr>) k"

definition disableAll :: "'k epoll_ctl \<Rightarrow> 'cb channel \<Rightarrow> 'k \<Rightarrow> 'cb channel \<times> 'k" where
  "disableAll ctl ch k = updateChannel ctl (ch\<lparr>events := kNoneEvent\<rparr>) k"

text \<open>
  \<^verbatim>\<open>EPoller::wait\<close>: \<open>ready\<close> is what \<^verbatim>\<open>epoll_wait\<close> stores, at most 16 entries; \<open>n\<close> its
  result, negative on an error.  Each entry names its channel, here by its number.
\<close>

definition maxEvents :: nat where
  "maxEvents = 16"

definition ep_wait ::
  "int \<Rightarrow> (32 word \<times> nat) list \<Rightarrow> (nat \<Rightarrow> 'cb channel option) \<Rightarrow>
   ((nat \<Rightarrow> 'cb channel option) \<times> nat list) res" where
  "ep_wait n ready chans =
     bindR (runR (\<lambda>(ev, c) chans.
                    case chans c of None \<Rightarrow> Inl UseAfterFree
                    | Some ch \<Rightarrow> Inr (chans(c \<mapsto> ch\<lparr>revents := ev\<rparr>)))
                 (take (nat n) ready) chans)
       (\<lambda>chans. Inr (chans, map snd (take (nat n) ready)))"

section \<open>Dispatch\<close>

text \<open>
  \<open>chan_of\<close> finds the channel in the state of its owner and is \<open>None\<close> once it is destroyed; each
  \<^verbatim>\<open>if\<close> of the source reads the channel anew, after the callback before it has run.
\<close>

definition dispatch ::
  "('s \<Rightarrow> 'cb channel option) \<Rightarrow> ('cb \<Rightarrow> 's \<Rightarrow> 's res) \<Rightarrow> 32 word \<Rightarrow>
   ('cb channel \<Rightarrow> 'cb option) \<Rightarrow> 's \<Rightarrow> 's res" where
  "dispatch chan_of call bits callback s =
     (case chan_of s of None \<Rightarrow> Inl UseAfterFree
      | Some ch \<Rightarrow>
          if revents ch AND bits \<noteq> 0
          then (case callback ch of None \<Rightarrow> Inr s | Some cb \<Rightarrow> call cb s)
          else Inr s)"

definition handleEvent ::
  "('s \<Rightarrow> 'cb channel option) \<Rightarrow> ('cb \<Rightarrow> 's \<Rightarrow> 's res) \<Rightarrow> 's \<Rightarrow> 's res" where
  "handleEvent chan_of call s =
     bindR (dispatch chan_of call EPOLLERR errorCallback s) (\<lambda>s.
     bindR (dispatch chan_of call (EPOLLIN OR EPOLLPRI OR EPOLLRDHUP) readCallback s) (\<lambda>s.
     dispatch chan_of call EPOLLOUT writeCallback s))"

section \<open>The interest list\<close>

text \<open>
  What \<^verbatim>\<open>epoll_ctl\<close> does to the interest list, with its documented failures \<^verbatim>\<open>EEXIST\<close> and
  \<^verbatim>\<open>ENOENT\<close>.  The law leaves out that it can fail for lack of memory or of watches or on a
  descriptor that cannot be polled: the code does not look at the result, and the channel would then
  hold another state than the kernel.
\<close>

definition epoll_law :: "'k epoll_ctl \<Rightarrow> ('k \<Rightarrow> int \<Rightarrow> 32 word option) \<Rightarrow> bool" where
  "epoll_law ctl interest \<longleftrightarrow> (\<forall>k f ev.
     interest (ctl EPOLL_CTL_ADD f ev k) =
       (if interest k f = None then (interest k)(f \<mapsto> ev) else interest k) \<and>
     interest (ctl EPOLL_CTL_MOD f ev k) =
       (if interest k f = None then interest k else (interest k)(f \<mapsto> ev)) \<and>
     interest (ctl EPOLL_CTL_DEL f ev k) = (interest k)(f := None))"

lemma epoll_lawD:
  assumes "epoll_law ctl interest"
  shows "interest (ctl EPOLL_CTL_ADD f ev k) =
      (if interest k f = None then (interest k)(f \<mapsto> ev) else interest k)"
    and "interest (ctl EPOLL_CTL_MOD f ev k) =
      (if interest k f = None then interest k else (interest k)(f \<mapsto> ev))"
    and "interest (ctl EPOLL_CTL_DEL f ev k) = (interest k)(f := None)"
  using assms by (simp_all add: epoll_law_def)

text \<open>The channel knows what the kernel has registered for its descriptor.\<close>

definition registered :: "('k \<Rightarrow> int \<Rightarrow> 32 word option) \<Rightarrow> 'cb channel \<Rightarrow> 'k \<Rightarrow> bool" where
  "registered interest ch k \<longleftrightarrow>
     interest k (fd ch) = (if chan_state ch = kAdded then Some (events ch) else None)"

lemma updateChannel_registered:
  assumes "epoll_law ctl interest" "registered interest ch k" "fd ch' = fd ch"
    and "chan_state ch' = chan_state ch" "updateChannel ctl ch' k = (ch2, k2)"
  shows "registered interest ch2 k2 \<and> fd ch2 = fd ch \<and> events ch2 = events ch' \<and>
    (\<forall>f. f \<noteq> fd ch \<longrightarrow> interest k2 f = interest k f)"
  using assms(2-5) unfolding registered_def
  by (cases "chan_state ch")
    (auto simp: updateChannel_def ep_update_def Let_def isNoneEvent_def epoll_lawD [OF assms(1)]
      split: if_splits)

text \<open>The five operations a channel's owner has.\<close>

datatype chan_op = EnableReading | DisableReading | EnableWriting | DisableWriting | DisableAll

fun chan_step :: "'k epoll_ctl \<Rightarrow> chan_op \<Rightarrow> 'cb channel \<times> 'k \<Rightarrow> 'cb channel \<times> 'k" where
  "chan_step ctl EnableReading (ch, k) = enableReading ctl ch k"
| "chan_step ctl DisableReading (ch, k) = disableReading ctl ch k"
| "chan_step ctl EnableWriting (ch, k) = enableWriting ctl ch k"
| "chan_step ctl DisableWriting (ch, k) = disableWriting ctl ch k"
| "chan_step ctl DisableAll (ch, k) = disableAll ctl ch k"

lemmas chan_ops = enableReading_def disableReading_def enableWriting_def disableWriting_def
  disableAll_def

lemma chan_step_update: "\<exists>ev. chan_step ctl p (ch, k) = updateChannel ctl (ch\<lparr>events := ev\<rparr>) k"
  by (cases p) (auto simp: chan_ops)

lemma chan_step_registered:
  assumes "epoll_law ctl interest" "registered interest ch k" "chan_step ctl p (ch, k) = (ch2, k2)"
  shows "registered interest ch2 k2 \<and> fd ch2 = fd ch \<and>
    (\<forall>f. f \<noteq> fd ch \<longrightarrow> interest k2 f = interest k f)"
proof -
  obtain ev where "updateChannel ctl (ch\<lparr>events := ev\<rparr>) k = (ch2, k2)"
    using chan_step_update [of ctl p ch k] assms(3) by auto
  from updateChannel_registered [OF assms(1,2) _ _ this] show ?thesis by simp
qed

lemma registered_new: "registered interest (new_channel f) k \<longleftrightarrow> interest k f = None"
  by (simp add: registered_def new_channel_def)

lemma updateChannel_events [simp]:
  "events (fst (updateChannel ctl ch k)) = events ch"
  "fd (fst (updateChannel ctl ch k)) = fd ch"
  "revents (fst (updateChannel ctl ch k)) = revents ch"
  "readCallback (fst (updateChannel ctl ch k)) = readCallback ch"
  "writeCallback (fst (updateChannel ctl ch k)) = writeCallback ch"
  "errorCallback (fst (updateChannel ctl ch k)) = errorCallback ch"
  by (simp_all add: updateChannel_def Let_def)

text \<open>Reading and writing are independent bits.\<close>

lemma bit_write: "isWriting ch \<longleftrightarrow> bit (events ch) 2"
  using bit_iff_and_push_bit_not_eq_0 [of "events ch" 2]
  by (simp add: isWriting_def kWriteEvent_def)

lemma bit_masks [simp]: "bit (4 :: 32 word) 2" "\<not> bit (1 :: 32 word) 2" "\<not> bit (2 :: 32 word) 2"
  by simp_all

lemma isWriting_enableWriting [simp]: "isWriting (fst (enableWriting ctl ch k))"
  by (simp add: bit_write enableWriting_def kWriteEvent_def bit_or_iff)

lemma isWriting_disableWriting [simp]: "\<not> isWriting (fst (disableWriting ctl ch k))"
  by (simp add: bit_write disableWriting_def kWriteEvent_def bit_and_iff bit_not_iff)

lemma isWriting_disableAll [simp]: "\<not> isWriting (fst (disableAll ctl ch k))"
  by (simp add: isWriting_def disableAll_def kNoneEvent_def)

lemma isWriting_enableReading [simp]:
  "isWriting (fst (enableReading ctl ch k)) = isWriting ch"
  by (simp add: bit_write enableReading_def kReadEvent_def bit_or_iff)

lemma isWriting_disableReading [simp]:
  "isWriting (fst (disableReading ctl ch k)) = isWriting ch"
  by (simp add: bit_write disableReading_def kReadEvent_def bit_and_iff bit_not_iff bit_or_iff)

section \<open>Properties\<close>

text \<open>
  Property C22.  Whatever a channel is asked to do, the kernel's interest list has its descriptor
  exactly while the channel's state is \<^verbatim>\<open>kAdded\<close>, with the event mask of the channel, and no
  other descriptor is touched, as long as \<^verbatim>\<open>epoll_ctl\<close> fails only for a descriptor that is
  already or not yet in the list (\<open>epoll_law\<close>).
\<close>

theorem channel_mirrors_interest:
  assumes "epoll_law ctl interest" "interest k f = None"
    and "fold (chan_step ctl) ops (new_channel f, k) = (ch, k')"
  shows "interest k' f = (if chan_state ch = kAdded then Some (events ch) else None) \<and>
    (\<forall>g. g \<noteq> f \<longrightarrow> interest k' g = interest k g)"
proof -
  have "registered interest ch k' \<and> fd ch = fd ch0 \<and>
      (\<forall>g. g \<noteq> fd ch0 \<longrightarrow> interest k' g = interest k0 g)"
    if "registered interest ch0 k0" "fold (chan_step ctl) ops (ch0, k0) = (ch, k')"
    for ch0 :: "'b channel" and k0
    using that
  proof (induction ops arbitrary: ch0 k0)
    case (Cons p ops)
    obtain ch1 k1 where 1: "chan_step ctl p (ch0, k0) = (ch1, k1)" by force
    from chan_step_registered [OF assms(1) Cons.prems(1) 1] Cons.IH [of ch1 k1] Cons.prems(2) 1
    show ?case by auto
  qed simp
  from this [of "new_channel f" k] assms(2,3) show ?thesis
    by (auto simp: registered_new registered_def new_channel_def)
qed

definition sample_ctl :: "(int \<Rightarrow> 32 word option) epoll_ctl" where
  "sample_ctl p f ev k =
     (case p of
        EPOLL_CTL_ADD \<Rightarrow> if k f = None then k(f \<mapsto> ev) else k
      | EPOLL_CTL_MOD \<Rightarrow> if k f = None then k else k(f \<mapsto> ev)
      | EPOLL_CTL_DEL \<Rightarrow> k(f := None))"

lemma sample_ctl_law: "epoll_law sample_ctl (\<lambda>k. k)"
  by (simp add: epoll_law_def sample_ctl_def)

theorem channel_mirrors_interest_witness:
  "\<exists>(ch :: nat channel) k'.
     fold (chan_step sample_ctl) [EnableReading, EnableWriting] (new_channel 7, \<lambda>_. None) = (ch, k') \<and>
     k' 7 = (if chan_state ch = kAdded then Some (events ch) else None)"
proof -
  obtain ch :: "nat channel" and k' where
    "fold (chan_step sample_ctl) [EnableReading, EnableWriting] (new_channel 7, \<lambda>_. None) = (ch, k')"
    by force
  with channel_mirrors_interest [OF sample_ctl_law _ this] show ?thesis by blast
qed

text \<open>
  Fact.  \<^verbatim>\<open>disableAll\<close> of a channel that is already out of the interest list puts it back
  there, with an empty mask: the poller adds a channel that is \<^verbatim>\<open>kNew\<close> or \<^verbatim>\<open>kDeleted\<close> whatever
  its events are.
\<close>

theorem disableAll_readds:
  assumes "epoll_law ctl interest" "registered interest ch k"
    and "disableAll ctl ch k = (ch1, k1)" "disableAll ctl ch1 k1 = (ch2, k2)"
  shows "if chan_state ch = kAdded
    then interest k1 (fd ch) = None \<and> interest k2 (fd ch) = Some 0
    else interest k1 (fd ch) = Some 0 \<and> interest k2 (fd ch) = None"
proof (cases "chan_state ch = kAdded")
  case True
  with assms(2-4) show ?thesis
    by (auto simp: disableAll_def updateChannel_def isNoneEvent_def Let_def ep_update_def
        epoll_lawD [OF assms(1)] registered_def kNoneEvent_def)
next
  case False
  then have "chan_state ch = kNew \<or> chan_state ch = kDeleted" by (cases "chan_state ch") auto
  with False assms(2-4) show ?thesis
    by (auto simp: disableAll_def updateChannel_def isNoneEvent_def Let_def ep_update_def
        epoll_lawD [OF assms(1)] registered_def kNoneEvent_def)
qed

theorem disableAll_readds_witness:
  "\<exists>(ch :: nat channel) k. chan_state ch = kAdded \<and>
     snd (case_prod (disableAll sample_ctl) (disableAll sample_ctl ch k)) 7 = Some 0"
proof -
  let ?ch = "new_channel 7\<lparr>events := 1, chan_state := kAdded\<rparr> :: nat channel"
  let ?k = "[7 \<mapsto> 1] :: int \<Rightarrow> 32 word option"
  obtain ch1 k1 where 1: "disableAll sample_ctl ?ch ?k = (ch1, k1)" by force
  obtain ch2 k2 where 2: "disableAll sample_ctl ch1 k1 = (ch2, k2)" by force
  have "registered (\<lambda>k. k) ?ch ?k" by (simp add: registered_def new_channel_def)
  from disableAll_readds [OF sample_ctl_law this 1 2] have "k2 7 = Some 0"
    by (simp add: new_channel_def)
  with 1 2 show ?thesis by (intro exI [of _ ?ch] exI [of _ ?k]) simp
qed

end
