(* ===== verification/TcpConnections.thy ===== *)
theory TcpConnections
  imports Sockets Channels "HOL-Library.Sublist"
begin

text \<open>
  \<^verbatim>\<open>src/TcpConnection.h\<close> and \<^verbatim>\<open>src/TcpConnection.cpp\<close>.  The record has the connection's
  members (its socket and channel are its own), the kernel's epoll state, and four fields that no
  operation reads: \<open>wire\<close>, the bytes \<^verbatim>\<open>write\<close> has taken, \<open>sent\<close>, the bytes of the messages that
  \<^verbatim>\<open>send\<close> has taken over, \<open>lost\<close>, the messages it has dropped because its own \<^verbatim>\<open>write\<close> failed,
  and \<open>promise\<close>, what it had taken over when \<^verbatim>\<open>shutdown\<close> was called.
  \<open>owners\<close> counts the \<^verbatim>\<open>shared_ptr\<close> copies; at 0 the object is destroyed.  The system calls and
  the user's callbacks are the arguments collected in \<open>tcp_env\<close>; a callback is any function on the
  connection, so it may send, shut down or fail.
\<close>

section \<open>State\<close>

datatype tcp_state = kConnecting | kConnected | kDisconnecting | kDisconnected

datatype tcp_handler = ReadHandler | WriteHandler

record 'k tcp =
  name :: string
  tcp_state :: tcp_state
  socket :: socket
  channel :: "tcp_handler channel"
  peerAddr :: sockaddr_in
  inputBuffer :: buffer
  outputBuffer :: buffer
  owners :: nat
  kernel :: 'k
  writes :: nat
  wire :: "char list"
  sent :: "char list"
  lost :: "char list list"
  promise :: "char list"

type_synonym 'k tcp_callback = "('k tcp \<Rightarrow> 'k tcp res) option"

record 'k tcp_env =
  ctl :: "'k epoll_ctl"
  write_ret :: "nat \<Rightarrow> char list \<Rightarrow> int"
  shutdown_ret :: int
  close_ret :: int
  connectionCallback :: "'k tcp_callback"
  messageCallback :: "'k tcp_callback"
  closeCallback :: "'k tcp_callback"
  writeCompleteCallback :: "'k tcp_callback"

section \<open>Operations\<close>

text \<open>Calling an empty \<^verbatim>\<open>std::function\<close> throws.\<close>

definition invoke :: "'k tcp_callback \<Rightarrow> 'k tcp \<Rightarrow> 'k tcp res" where
  "invoke cb s = (case cb of None \<Rightarrow> Inl NullCall | Some f \<Rightarrow> f s)"

definition invoke_if_set :: "'k tcp_callback \<Rightarrow> 'k tcp \<Rightarrow> 'k tcp res" where
  "invoke_if_set cb s = (case cb of None \<Rightarrow> Inr s | Some f \<Rightarrow> f s)"

definition on_channel ::
  "(tcp_handler channel \<Rightarrow> 'k \<Rightarrow> tcp_handler channel \<times> 'k) \<Rightarrow> 'k tcp \<Rightarrow> 'k tcp" where
  "on_channel f s = (case f (channel s) (kernel s) of (ch, k) \<Rightarrow> s\<lparr>channel := ch, kernel := k\<rparr>)"

definition new_tcp :: "string \<Rightarrow> int \<Rightarrow> sockaddr_in \<Rightarrow> 'k \<Rightarrow> 'k tcp res" where
  "new_tcp nm sockfd peer k =
     bindR (new_buffer kInitialSize) (\<lambda>b.
       Inr \<lparr>name = nm, tcp_state = kConnecting, socket = new_socket sockfd,
            channel = (new_channel sockfd)
              \<lparr>readCallback := Some ReadHandler, writeCallback := Some WriteHandler\<rparr>,
            peerAddr = peer, inputBuffer = b, outputBuffer = b, owners = 1, kernel = k,
            writes = 0, wire = [], sent = [], lost = [], promise = []\<rparr>)"

definition connected :: "'k tcp \<Rightarrow> bool" where
  "connected s \<longleftrightarrow> tcp_state s = kConnected"

definition connectEstablished :: "'k tcp_env \<Rightarrow> 'k tcp \<Rightarrow> 'k tcp res" where
  "connectEstablished E s =
     invoke (connectionCallback E) (on_channel (enableReading (ctl E)) (s\<lparr>tcp_state := kConnected\<rparr>))"

text \<open>\<^verbatim>\<open>write(2)\<close> returns how many bytes it took, or -1.\<close>

definition sys_write :: "'k tcp_env \<Rightarrow> char list \<Rightarrow> 'k tcp \<Rightarrow> int \<times> 'k tcp" where
  "sys_write E data s =
     (let n = write_ret E (writes s) data
      in (n, s\<lparr>writes := Suc (writes s), wire := wire s @ take (nat n) data\<rparr>))"

definition sys_shutdown :: "'k tcp_env \<Rightarrow> 'k tcp \<Rightarrow> 'k tcp res" where
  "sys_shutdown E s =
     bindR (shutdownWrite (shutdown_ret E) (socket s)) (\<lambda>so. Inr (s\<lparr>socket := so\<rparr>))"

definition send :: "'k tcp_env \<Rightarrow> char list \<Rightarrow> 'k tcp \<Rightarrow> 'k tcp res" where
  "send E data s =
     (let len = int (length data);
          direct = (\<not> isWriting (channel s) \<and> readableBytes (outputBuffer s) = 0);
          (nwrote, s) = (if direct then sys_write E data s else (0, s));
          s = (if nwrote < 0 then s\<lparr>lost := lost s @ [data]\<rparr> else s\<lparr>sent := sent s @ data\<rparr>)
      in bindR (if direct \<and> 0 \<le> nwrote \<and> len - nwrote = 0
                then invoke_if_set (writeCompleteCallback E) s else Inr s)
           (\<lambda>s. if as_size nwrote < len
                then bindR (append_data (drop (nat nwrote) data) (outputBuffer s)) (\<lambda>b.
                       let s = s\<lparr>outputBuffer := b\<rparr>
                       in Inr (if \<not> isWriting (channel s) then on_channel (enableWriting (ctl E)) s
                               else s))
                else Inr s))"

definition shutdown :: "'k tcp_env \<Rightarrow> 'k tcp \<Rightarrow> 'k tcp res" where
  "shutdown E s =
     (if tcp_state s = kConnected
      then (let s = s\<lparr>tcp_state := kDisconnecting, promise := sent s\<rparr>
            in if \<not> isWriting (channel s) then sys_shutdown E s else Inr s)
      else Inr s)"

definition handleWrite :: "'k tcp_env \<Rightarrow> 'k tcp \<Rightarrow> 'k tcp res" where
  "handleWrite E s =
     (if isWriting (channel s)
      then (case sys_write E (contents (outputBuffer s)) s of (n, s) \<Rightarrow>
        if 0 < n
        then bindR (retrieve (nat n) (outputBuffer s)) (\<lambda>b.
          let s = s\<lparr>outputBuffer := b\<rparr>
          in if readableBytes b = 0
             then bindR (invoke_if_set (writeCompleteCallback E)
                          (on_channel (disableWriting (ctl E)) s))
                    (\<lambda>s. if tcp_state s = kDisconnecting then sys_shutdown E s else Inr s)
             else Inr s)
        else Inr s)
      else Inr s)"

text \<open>The end of a scope that held a \<^verbatim>\<open>shared_ptr\<close>: the last one destroys the socket.\<close>

definition release :: "'k tcp_env \<Rightarrow> 'k tcp \<Rightarrow> 'k tcp res" where
  "release E s =
     (let s = s\<lparr>owners := owners s - 1\<rparr>
      in if owners s = 0
         then bindR (destroy_socket (close_ret E) (socket s)) (\<lambda>so. Inr (s\<lparr>socket := so\<rparr>))
         else Inr s)"

definition handleClose :: "'k tcp_env \<Rightarrow> 'k tcp \<Rightarrow> 'k tcp res" where
  "handleClose E s =
     (let s = on_channel (disableAll (ctl E)) (s\<lparr>tcp_state := kDisconnected\<rparr>);
          s = s\<lparr>owners := owners s + 1\<rparr>
      in bindR (invoke (connectionCallback E) s) (\<lambda>s.
         bindR (invoke (closeCallback E) s) (release E)))"

definition handleRead :: "'k tcp_env \<Rightarrow> (nat \<Rightarrow> readv_result) \<Rightarrow> 'k tcp \<Rightarrow> 'k tcp res" where
  "handleRead E readv s =
     bindR (readFd readv (inputBuffer s)) (\<lambda>(n, savedErrno, b).
       let s = s\<lparr>inputBuffer := b\<rparr>
       in if 0 < n then invoke (messageCallback E) s
          else if n = 0 then handleClose E s
          else Inr s)"

text \<open>An event on the connection's descriptor, as the loop dispatches it.\<close>

definition tcp_channel :: "'k tcp \<Rightarrow> tcp_handler channel option" where
  "tcp_channel s = (if owners s = 0 then None else Some (channel s))"

fun tcp_call :: "'k tcp_env \<Rightarrow> (nat \<Rightarrow> readv_result) \<Rightarrow> tcp_handler \<Rightarrow> 'k tcp \<Rightarrow> 'k tcp res" where
  "tcp_call E readv ReadHandler s = handleRead E readv s"
| "tcp_call E readv WriteHandler s = handleWrite E s"

definition tcp_event ::
  "'k tcp_env \<Rightarrow> (nat \<Rightarrow> readv_result) \<Rightarrow> 32 word \<Rightarrow> 'k tcp \<Rightarrow> 'k tcp res" where
  "tcp_event E readv ev s =
     handleEvent tcp_channel (tcp_call E readv) (s\<lparr>channel := (channel s)\<lparr>revents := ev\<rparr>\<rparr>)"

section \<open>The invariant\<close>

definition stream_inv :: "'k tcp \<Rightarrow> bool" where
  "stream_inv s \<longleftrightarrow> buf_inv (inputBuffer s) \<and> buf_inv (outputBuffer s) \<and>
     wire s @ contents (outputBuffer s) = sent s"

definition tcp_inv :: "'k tcp \<Rightarrow> bool" where
  "tcp_inv s \<longleftrightarrow> stream_inv s \<and>
     (tcp_state s \<noteq> kDisconnected \<longrightarrow>
        (isWriting (channel s) \<longleftrightarrow> contents (outputBuffer s) \<noteq> [])) \<and>
     prefix (promise s) (sent s) \<and>
     (fin_sent (socket s) \<longrightarrow> prefix (promise s) (wire s)) \<and>
     (tcp_state s \<in> {kConnecting, kConnected} \<longrightarrow> promise s = [] \<and> \<not> fin_sent (socket s))"

text \<open>
  What is asked of the system calls: \<^verbatim>\<open>write\<close> may take any part of its data or fail, as it does
  with \<^verbatim>\<open>EAGAIN\<close>; \<^verbatim>\<open>shutdown\<close> and \<^verbatim>\<open>close\<close> succeed (\<^verbatim>\<open>Socket\<close> calls \<^verbatim>\<open>abort\<close> when they do
  not).  \<open>refused\<close> says that \<^verbatim>\<open>send\<close> writes directly and that this write fails.
\<close>

definition write_ok :: "'k tcp_env \<Rightarrow> bool" where
  "write_ok E \<longleftrightarrow> (\<forall>i d. - 1 \<le> write_ret E i d \<and> write_ret E i d \<le> int (length d)) \<and>
     0 \<le> shutdown_ret E \<and> 0 \<le> close_ret E"

definition refused :: "'k tcp_env \<Rightarrow> char list \<Rightarrow> 'k tcp \<Rightarrow> bool" where
  "refused E data s \<longleftrightarrow> \<not> isWriting (channel s) \<and> contents (outputBuffer s) = [] \<and>
     write_ret E (writes s) data < 0"

text \<open>A message is taken over or dropped, as a whole.\<close>

definition accounted :: "'k tcp_env \<Rightarrow> char list \<Rightarrow> 'k tcp \<Rightarrow> 'k tcp \<Rightarrow> bool" where
  "accounted E data s s' \<longleftrightarrow>
     (if refused E data s then sent s' = sent s \<and> lost s' = lost s @ [data]
      else sent s' = sent s @ data \<and> lost s' = lost s)"

text \<open>
  What is asked of the callbacks: they keep the invariant; and a write-complete callback that is
  called with an empty buffer and leaves the connection shutting down leaves nothing to be written.
\<close>

definition keeps_inv :: "'k tcp_callback \<Rightarrow> bool" where
  "keeps_inv cb \<longleftrightarrow> (\<forall>f s. cb = Some f \<longrightarrow> tcp_inv s \<longrightarrow> (\<exists>s'. f s = Inr s' \<and> tcp_inv s'))"

definition callbacks_ok :: "'k tcp_env \<Rightarrow> bool" where
  "callbacks_ok E \<longleftrightarrow>
     connectionCallback E \<noteq> None \<and> messageCallback E \<noteq> None \<and> closeCallback E \<noteq> None \<and>
     keeps_inv (connectionCallback E) \<and> keeps_inv (messageCallback E) \<and>
     keeps_inv (closeCallback E) \<and> keeps_inv (writeCompleteCallback E) \<and>
     (\<forall>f s s'. writeCompleteCallback E = Some f \<longrightarrow> tcp_inv s \<longrightarrow> contents (outputBuffer s) = [] \<longrightarrow>
        f s = Inr s' \<longrightarrow> tcp_state s' = kDisconnecting \<longrightarrow> \<not> isWriting (channel s'))"

lemma on_channel_fields [simp]:
  "tcp_state (on_channel f s) = tcp_state s" "socket (on_channel f s) = socket s"
  "inputBuffer (on_channel f s) = inputBuffer s" "outputBuffer (on_channel f s) = outputBuffer s"
  "owners (on_channel f s) = owners s" "wire (on_channel f s) = wire s"
  "sent (on_channel f s) = sent s" "lost (on_channel f s) = lost s" "promise (on_channel f s) = promise s"
  "writes (on_channel f s) = writes s"
  "channel (on_channel f s) = fst (f (channel s) (kernel s))"
  by (simp_all add: on_channel_def split: prod.split)

lemma sys_write_ok:
  assumes "write_ok E" "sys_write E data s = (n, s')"
  shows "- 1 \<le> n" "n \<le> int (length data)" "n = write_ret E (writes s) data"
    "s' = s\<lparr>writes := Suc (writes s), wire := wire s @ take (nat n) data\<rparr>"
  using assms by (auto simp: sys_write_def write_ok_def Let_def)

lemma sys_shutdown_ok:
  "write_ok E \<Longrightarrow> sys_shutdown E s = Inr (s\<lparr>socket := (socket s)\<lparr>fin_sent := True\<rparr>\<rparr>)"
  by (simp add: sys_shutdown_def shutdownWrite_def write_ok_def)

lemma invoke_ok:
  "keeps_inv cb \<Longrightarrow> cb \<noteq> None \<Longrightarrow> tcp_inv s \<Longrightarrow> \<exists>s'. invoke cb s = Inr s' \<and> tcp_inv s'"
  by (auto simp: keeps_inv_def invoke_def)

lemma invoke_if_set_ok:
  "keeps_inv cb \<Longrightarrow> tcp_inv s \<Longrightarrow> \<exists>s'. invoke_if_set cb s = Inr s' \<and> tcp_inv s'"
  by (auto simp: keeps_inv_def invoke_if_set_def split: option.split)

text \<open>With nothing pending, the promise is on the wire.\<close>

lemma fin_inv:
  assumes "tcp_inv s" "contents (outputBuffer s) = []" "tcp_state s \<in> {kDisconnecting, kDisconnected}"
  shows "tcp_inv (s\<lparr>socket := (socket s)\<lparr>fin_sent := True\<rparr>\<rparr>)"
  using assms by (auto simp: tcp_inv_def stream_inv_def)

lemma shutdown_ok:
  assumes "write_ok E" "tcp_inv s"
  shows "\<exists>s'. shutdown E s = Inr s' \<and> tcp_inv s'"
proof (cases "tcp_state s = kConnected")
  case True
  show ?thesis
  proof (cases "isWriting (channel s)")
    case w: True
    have "tcp_inv (s\<lparr>tcp_state := kDisconnecting, promise := sent s\<rparr>)"
      using True w assms(2) by (auto simp: tcp_inv_def stream_inv_def)
    with True w show ?thesis by (simp add: shutdown_def)
  next
    case False
    with True assms show ?thesis
      by (auto simp: shutdown_def sys_shutdown_ok tcp_inv_def stream_inv_def)
  qed
next
  case False
  with assms show ?thesis by (simp add: shutdown_def)
qed

lemma readable_nil: "buf_inv b \<Longrightarrow> readableBytes b = 0 \<longleftrightarrow> contents b = []"
  by (metis length_0_conv length_contents)

text \<open>\<^verbatim>\<open>send\<close> while something waits, or when its write fails, and otherwise.\<close>

lemma send_waiting:
  assumes inv: "tcp_inv s" and "\<not> (\<not> isWriting (channel s) \<and> contents (outputBuffer s) = [])"
  shows "\<exists>s'. send E data s = Inr s' \<and> tcp_inv s' \<and> tcp_state s' = tcp_state s \<and>
    inputBuffer s' = inputBuffer s \<and> sent s' = sent s @ data \<and> lost s' = lost s"
proof (cases "data = []")
  case True
  have "buf_inv (outputBuffer s)" using inv by (simp add: tcp_inv_def stream_inv_def)
  with True assms show ?thesis by (auto simp: send_def as_size_def readable_nil)
next
  case False
  let ?s = "s\<lparr>sent := sent s @ data\<rparr>"
  have out: "buf_inv (outputBuffer s)" using inv by (simp add: tcp_inv_def stream_inv_def)
  from append_data_ok [OF this, of data] obtain b where b: "append_data data (outputBuffer s) = Inr b"
    "buf_inv b" "contents b = contents (outputBuffer s) @ data"
    by blast
  have "as_size 0 < int (length data)" using False by (simp add: as_size_def)
  with assms(2) out b have run: "send E data s =
      Inr (if isWriting (channel s) then ?s\<lparr>outputBuffer := b\<rparr>
           else on_channel (enableWriting (ctl E)) (?s\<lparr>outputBuffer := b\<rparr>))"
    by (auto simp: send_def Let_def readable_nil)
  have "tcp_inv (?s\<lparr>outputBuffer := b\<rparr>)" if "isWriting (channel s)"
    using inv b False that by (auto simp: tcp_inv_def stream_inv_def)
  moreover have "tcp_inv (on_channel (enableWriting (ctl E)) (?s\<lparr>outputBuffer := b\<rparr>))"
    using inv b False by (auto simp: tcp_inv_def stream_inv_def)
  ultimately show ?thesis using run by simp
qed

lemma send_refused:
  assumes "write_ok E" "buf_inv (outputBuffer s)" "refused E data s" "length data < 2 ^ 31"
  shows "send E data s = Inr (s\<lparr>writes := Suc (writes s), lost := lost s @ [data]\<rparr>)"
proof -
  have "- 1 \<le> write_ret E (writes s) data" using assms(1) by (simp add: write_ok_def)
  then have n: "write_ret E (writes s) data = - 1" using assms(3) by (simp add: refused_def)
  have "as_size (- 1) = 2 ^ 64 - 1" using as_size_negative [of "- 1"] by simp
  with assms(2-4) n show ?thesis by (simp add: send_def sys_write_def refused_def readable_nil Let_def)
qed

lemma send_direct:
  assumes E: "write_ok E" and inv: "tcp_inv s" and len: "length data < 2 ^ 31"
    and idle: "\<not> isWriting (channel s)" "contents (outputBuffer s) = []" and ok: "\<not> refused E data s"
  defines "n \<equiv> nat (write_ret E (writes s) data)"
  defines "s1 \<equiv> s\<lparr>writes := Suc (writes s), wire := wire s @ take n data, sent := sent s @ data\<rparr>"
  shows "if n = length data then tcp_inv s1 \<and> send E data s = invoke_if_set (writeCompleteCallback E) s1
    else \<exists>b. buf_inv b \<and> contents b = drop n data \<and>
      send E data s = Inr (on_channel (enableWriting (ctl E)) (s1\<lparr>outputBuffer := b\<rparr>)) \<and>
      tcp_inv (on_channel (enableWriting (ctl E)) (s1\<lparr>outputBuffer := b\<rparr>))"
proof -
  have buf: "buf_inv (outputBuffer s)" using inv by (simp add: tcp_inv_def stream_inv_def)
  have nn: "write_ret E (writes s) data = int n" "n \<le> length data"
    using E ok idle unfolding n_def by (auto simp: refused_def write_ok_def nat_le_iff)
  have size: "as_size (int n) = int n" using nn(2) len by (intro as_size_nonneg) simp_all
  show ?thesis
  proof (cases "n = length data")
    case True
    have "tcp_inv s1"
      using inv idle(2) True unfolding s1_def by (auto simp: tcp_inv_def stream_inv_def)
    moreover have "send E data s = invoke_if_set (writeCompleteCallback E) s1"
      using idle buf nn size True unfolding s1_def
      by (cases "invoke_if_set (writeCompleteCallback E)
            (s\<lparr>writes := Suc (writes s), wire := wire s @ data, sent := sent s @ data\<rparr>)")
        (simp_all add: send_def sys_write_def readable_nil Let_def)
    ultimately show ?thesis using True by simp
  next
    case False
    with nn(2) have less: "n < length data" by simp
    from append_data_ok [OF buf, of "drop n data"] idle(2) obtain b where b:
      "append_data (drop n data) (outputBuffer s) = Inr b" "buf_inv b" "contents b = drop n data"
      by auto
    have "send E data s = Inr (on_channel (enableWriting (ctl E)) (s1\<lparr>outputBuffer := b\<rparr>))"
      using idle buf nn size less b(1) unfolding s1_def
      by (simp add: send_def sys_write_def readable_nil Let_def)
    moreover have "tcp_inv (on_channel (enableWriting (ctl E)) (s1\<lparr>outputBuffer := b\<rparr>))"
      using inv idle(2) b less unfolding s1_def by (auto simp: tcp_inv_def stream_inv_def)
    ultimately show ?thesis using b False by auto
  qed
qed

lemma send_ok:
  assumes E: "write_ok E" "keeps_inv (writeCompleteCallback E)" and inv: "tcp_inv s" and len: "length data < 2 ^ 31"
  shows "\<exists>s'. send E data s = Inr s' \<and> tcp_inv s'"
proof (cases "\<not> isWriting (channel s) \<and> contents (outputBuffer s) = []")
  case False
  from send_waiting [OF inv False] show ?thesis by blast
next
  case True
  show ?thesis
  proof (cases "refused E data s")
    case refused: True
    have "buf_inv (outputBuffer s)" using inv by (simp add: tcp_inv_def stream_inv_def)
    moreover have "tcp_inv (s\<lparr>writes := Suc (writes s), lost := lost s @ [data]\<rparr>)"
      using inv by (simp add: tcp_inv_def stream_inv_def)
    ultimately show ?thesis using send_refused [OF E(1) _ refused len] by simp
  next
    case False
    from send_direct [OF E(1) inv len _ _ this] True invoke_if_set_ok [OF E(2)] show ?thesis
      by (metis (no_types, lifting))
  qed
qed

text \<open>Without a write-complete callback, \<^verbatim>\<open>send\<close> takes the message over or drops it.\<close>

lemma send_once:
  assumes E: "write_ok E" "writeCompleteCallback E = None" and inv: "tcp_inv s"
    and len: "length data < 2 ^ 31"
  shows "\<exists>s'. send E data s = Inr s' \<and> tcp_inv s' \<and> tcp_state s' = tcp_state s \<and>
    inputBuffer s' = inputBuffer s \<and> accounted E data s s'"
proof (cases "\<not> isWriting (channel s) \<and> contents (outputBuffer s) = []")
  case False
  then have "\<not> refused E data s" by (auto simp: refused_def)
  with send_waiting [OF inv False, of E data] show ?thesis by (auto simp: accounted_def)
next
  case True
  show ?thesis
  proof (cases "refused E data s")
    case refused: True
    have "buf_inv (outputBuffer s)" using inv by (simp add: tcp_inv_def stream_inv_def)
    moreover have "tcp_inv (s\<lparr>writes := Suc (writes s), lost := lost s @ [data]\<rparr>)"
      using inv by (simp add: tcp_inv_def stream_inv_def)
    ultimately show ?thesis using send_refused [OF E(1) _ refused len] refused by (simp add: accounted_def)
  next
    case False
    from send_direct [OF E(1) inv len _ _ this] True False E(2) show ?thesis
      by (auto simp: accounted_def invoke_if_set_def split: if_splits)
  qed
qed

lemma handleWrite_ok:
  assumes E: "write_ok E" "callbacks_ok E" and inv: "tcp_inv s"
  shows "\<exists>s'. handleWrite E s = Inr s' \<and> tcp_inv s'"
proof (cases "isWriting (channel s)")
  case False
  with inv show ?thesis by (simp add: handleWrite_def)
next
  case True
  let ?out = "contents (outputBuffer s)"
  obtain n s1 where w: "sys_write E ?out s = (n, s1)" by force
  note n = sys_write_ok [OF E(1) w]
  have out: "buf_inv (outputBuffer s)" using inv by (simp add: tcp_inv_def stream_inv_def)
  show ?thesis
  proof (cases "0 < n")
    case False
    then have "tcp_inv s1" using n(4) inv by (simp add: tcp_inv_def stream_inv_def)
    with True w False show ?thesis by (simp add: handleWrite_def)
  next
    case pos: True
    have "nat n \<le> readableBytes (outputBuffer s)" using n(2) out by (simp flip: length_contents)
    from retrieve_ok [OF out this] obtain b where b: "retrieve (nat n) (outputBuffer s) = Inr b"
      "buf_inv b" "contents b = drop (nat n) ?out"
      by blast
    let ?s2 = "s1\<lparr>outputBuffer := b\<rparr>"
    have s1: "outputBuffer s1 = outputBuffer s" using n(4) by simp
    have stream: "stream_inv ?s2"
      using inv n(4) b by (simp add: tcp_inv_def stream_inv_def)
    show ?thesis
    proof (cases "readableBytes b = 0")
      case False
      then have "contents b \<noteq> []" using length_contents [OF b(2)] by auto
      then have "tcp_inv ?s2"
        using stream inv n(4) True by (auto simp: tcp_inv_def stream_inv_def intro: prefix_prefix)
      with True w pos b(1) s1 False show ?thesis by (simp add: handleWrite_def)
    next
      case drained: True
      let ?s3 = "on_channel (disableWriting (ctl E)) ?s2"
      have nil: "contents b = []" using drained length_contents [OF b(2)] by simp
      have "tcp_inv ?s3"
        using stream inv n(4) nil by (auto simp: tcp_inv_def stream_inv_def intro: prefix_prefix)
      with invoke_if_set_ok [of "writeCompleteCallback E" ?s3] E(2) obtain s4 where s4:
        "invoke_if_set (writeCompleteCallback E) ?s3 = Inr s4" "tcp_inv s4"
        by (auto simp: callbacks_ok_def)
      have idle: "\<not> isWriting (channel s4)" if "tcp_state s4 = kDisconnecting"
      proof (cases "writeCompleteCallback E")
        case None
        with s4(1) show ?thesis by (auto simp: invoke_if_set_def)
      next
        case (Some f)
        with s4 E(2) that \<open>tcp_inv ?s3\<close> nil show ?thesis
          by (auto simp: invoke_if_set_def callbacks_ok_def)
      qed
      show ?thesis
      proof (cases "tcp_state s4 = kDisconnecting")
        case dis: True
        with idle s4(2) have "contents (outputBuffer s4) = []" by (auto simp: tcp_inv_def)
        with fin_inv [OF s4(2)] dis True w pos b(1) s1 drained s4(1) show ?thesis
          by (simp add: handleWrite_def sys_shutdown_ok [OF E(1)])
      next
        case False
        with True w pos b(1) s1 drained s4 show ?thesis by (simp add: handleWrite_def)
      qed
    qed
  qed
qed

lemma release_ok: "write_ok E \<Longrightarrow> tcp_inv s \<Longrightarrow> \<exists>s'. release E s = Inr s' \<and> tcp_inv s'"
  by (auto simp: release_def destroy_socket_def write_ok_def tcp_inv_def stream_inv_def Let_def)

lemma handleClose_ok:
  assumes E: "write_ok E" "callbacks_ok E" and inv: "tcp_inv s"
  shows "\<exists>s'. handleClose E s = Inr s' \<and> tcp_inv s'"
proof -
  let ?s1 = "on_channel (disableAll (ctl E)) (s\<lparr>tcp_state := kDisconnected\<rparr>)"
  let ?s2 = "?s1\<lparr>owners := owners ?s1 + 1\<rparr>"
  have "tcp_inv ?s2" using inv by (simp add: tcp_inv_def stream_inv_def)
  with E(2) obtain s3 where s3: "invoke (connectionCallback E) ?s2 = Inr s3" "tcp_inv s3"
    using invoke_ok [of "connectionCallback E" ?s2] by (auto simp: callbacks_ok_def)
  with E(2) obtain s4 where s4: "invoke (closeCallback E) s3 = Inr s4" "tcp_inv s4"
    using invoke_ok [of "closeCallback E" s3] by (auto simp: callbacks_ok_def)
  from release_ok [OF E(1) s4(2)] s3(1) s4(1) show ?thesis
    by (simp add: handleClose_def Let_def)
qed

lemma handleRead_ok:
  assumes E: "write_ok E" "callbacks_ok E" and inv: "tcp_inv s"
  shows "\<exists>s'. handleRead E readv s = Inr s' \<and> tcp_inv s'"
proof -
  have buf: "buf_inv (inputBuffer s)" using inv by (simp add: tcp_inv_def stream_inv_def)
  obtain n e b where r: "readFd readv (inputBuffer s) = Inr (n, e, b)" "buf_inv b"
  proof (cases "readv (iov_capacity (inputBuffer s))")
    case (ReadErr e)
    with readFd_err [of readv "inputBuffer s" e] buf that show ?thesis by blast
  next
    case (ReadData d)
    with readFd_ok [OF buf, of readv d] that show ?thesis by blast
  qed
  have inv': "tcp_inv (s\<lparr>inputBuffer := b\<rparr>)"
    using inv r(2) by (simp add: tcp_inv_def stream_inv_def)
  show ?thesis
    using r(1) inv' handleClose_ok [OF E inv'] E(2)
      invoke_ok [of "messageCallback E" "s\<lparr>inputBuffer := b\<rparr>"]
    by (auto simp: handleRead_def callbacks_ok_def Let_def)
qed

lemma connectEstablished_ok:
  assumes E: "callbacks_ok E" and inv: "tcp_inv s" "tcp_state s = kConnecting"
  shows "\<exists>s'. connectEstablished E s = Inr s' \<and> tcp_inv s'"
proof -
  let ?s = "on_channel (enableReading (ctl E)) (s\<lparr>tcp_state := kConnected\<rparr>)"
  have "tcp_inv ?s" using inv by (simp add: tcp_inv_def stream_inv_def)
  with E show ?thesis
    using invoke_ok [of "connectionCallback E" ?s] by (simp add: callbacks_ok_def connectEstablished_def)
qed

lemma new_tcp_ok:
  "\<exists>s. new_tcp nm f peer k = Inr s \<and> tcp_inv s \<and> tcp_state s = kConnecting \<and> sent s = [] \<and> wire s = [] \<and> lost s = []"
proof -
  obtain b where "new_buffer kInitialSize = Inr b" "buf_inv b" "contents b = []"
    using new_buffer_ok [of kInitialSize] by blast
  then show ?thesis
    by (simp add: new_tcp_def tcp_inv_def stream_inv_def new_socket_def new_channel_def isWriting_def)
qed

section \<open>Runs\<close>

text \<open>What the program and its loop do to an established connection, one after another.\<close>

datatype tcp_op = Send "char list" | Shutdown | Readable "nat \<Rightarrow> readv_result" | Writable

fun tcp_step :: "'k tcp_env \<Rightarrow> tcp_op \<Rightarrow> 'k tcp \<Rightarrow> 'k tcp res" where
  "tcp_step E (Send data) s = send E data s"
| "tcp_step E Shutdown s = shutdown E s"
| "tcp_step E (Readable readv) s = handleRead E readv s"
| "tcp_step E Writable s = handleWrite E s"

fun fits_int :: "tcp_op \<Rightarrow> bool" where
  "fits_int (Send data) = (length data < 2 ^ 31)"
| "fits_int p = True"

lemma tcp_step_ok:
  assumes "write_ok E" "callbacks_ok E" "tcp_inv s" "fits_int p"
  shows "\<exists>s'. tcp_step E p s = Inr s' \<and> tcp_inv s'"
  using assms by (cases p) (simp_all add: send_ok callbacks_ok_def shutdown_ok handleRead_ok handleWrite_ok)

lemma tcp_run_ok:
  assumes "write_ok E" "callbacks_ok E" "tcp_inv s" "\<forall>p\<in>set ops. fits_int p"
  shows "\<exists>s'. runR (tcp_step E) ops s = Inr s' \<and> tcp_inv s'"
  using assms(3,4)
proof (induction ops arbitrary: s)
  case (Cons p ops)
  from tcp_step_ok [OF assms(1,2) Cons.prems(1), of p] Cons.prems(2) obtain s1 where
    "tcp_step E p s = Inr s1" "tcp_inv s1" by auto
  with Cons.IH [of s1] Cons.prems(2) show ?case by simp
qed simp

text \<open>Callbacks that do not send leave the account of what was sent and lost alone.\<close>

definition keeps_sent :: "'k tcp_callback \<Rightarrow> bool" where
  "keeps_sent cb \<longleftrightarrow>
     (\<forall>f s s'. cb = Some f \<longrightarrow> f s = Inr s' \<longrightarrow> sent s' = sent s \<and> lost s' = lost s)"

definition quiet :: "'k tcp_env \<Rightarrow> bool" where
  "quiet E \<longleftrightarrow> keeps_sent (connectionCallback E) \<and> keeps_sent (messageCallback E) \<and>
     keeps_sent (closeCallback E) \<and> keeps_sent (writeCompleteCallback E)"

text \<open>The messages that a run asks to send.\<close>

fun message_of :: "tcp_op \<Rightarrow> char list list" where
  "message_of (Send data) = [data]"
| "message_of p = []"

definition messages :: "tcp_op list \<Rightarrow> char list list" where
  "messages ops = concat (map message_of ops)"

lemma invoke_sent: "keeps_sent cb \<Longrightarrow> invoke cb s = Inr s' \<Longrightarrow> sent s' = sent s \<and> lost s' = lost s"
  by (cases cb) (simp_all add: keeps_sent_def invoke_def)

lemma invoke_if_set_sent:
  "keeps_sent cb \<Longrightarrow> invoke_if_set cb s = Inr s' \<Longrightarrow> sent s' = sent s \<and> lost s' = lost s"
  by (cases cb) (auto simp: keeps_sent_def invoke_if_set_def)

lemma sys_write_sent:
  "sys_write E d s = (n, s') \<Longrightarrow> n = write_ret E (writes s) d \<and> sent s' = sent s \<and> lost s' = lost s"
  by (auto simp: sys_write_def Let_def)

lemma sys_shutdown_sent: "sys_shutdown E s = Inr s' \<Longrightarrow> sent s' = sent s \<and> lost s' = lost s"
  by (auto simp: sys_shutdown_def)

lemma release_sent: "release E s = Inr s' \<Longrightarrow> sent s' = sent s \<and> lost s' = lost s"
  by (auto simp: release_def Let_def split: if_splits)

lemma send_sent:
  assumes q: "keeps_sent (writeCompleteCallback E)" and "send E data s = Inr s'"
  shows "sent s' = sent s @ data \<and> lost s' = lost s \<or>
    sent s' = sent s \<and> lost s' = lost s @ [data] \<and> (\<exists>i. write_ret E i data < 0)"
proof -
  from assms(2) show ?thesis
    by (auto simp: send_def Let_def dest!: sys_write_sent invoke_if_set_sent [OF q]
        split: if_splits prod.splits)
qed

lemma handleWrite_sent:
  assumes "quiet E" "handleWrite E s = Inr s'"
  shows "sent s' = sent s \<and> lost s' = lost s"
proof -
  have q: "keeps_sent (writeCompleteCallback E)" using assms(1) by (simp add: quiet_def)
  from assms(2) show ?thesis
    by (auto simp: handleWrite_def Let_def
        dest!: sys_write_sent sys_shutdown_sent invoke_if_set_sent [OF q]
        split: if_splits prod.splits)
qed

lemma handleRead_sent:
  assumes "quiet E" "handleRead E readv s = Inr s'"
  shows "sent s' = sent s \<and> lost s' = lost s"
proof -
  have q: "keeps_sent (connectionCallback E)" "keeps_sent (messageCallback E)"
    "keeps_sent (closeCallback E)"
    using assms(1) by (simp_all add: quiet_def)
  from assms(2) show ?thesis
    by (auto simp: handleRead_def handleClose_def Let_def
        dest!: release_sent invoke_sent [OF q(1)] invoke_sent [OF q(2)] invoke_sent [OF q(3)]
        split: if_splits)
qed

lemma shutdown_sent: "shutdown E s = Inr s' \<Longrightarrow> sent s' = sent s \<and> lost s' = lost s"
  by (auto simp: shutdown_def Let_def dest!: sys_shutdown_sent split: if_splits)

lemma quiet_sends: "quiet E \<Longrightarrow> keeps_sent (writeCompleteCallback E)"
  by (simp add: quiet_def)

lemma tcp_step_sent:
  assumes "quiet E" "tcp_step E p s = Inr s'"
  shows "(sent s' = sent s @ concat (message_of p) \<and> lost s' = lost s) \<or>
    (sent s' = sent s \<and> lost s' = lost s @ message_of p \<and> (\<exists>i d. write_ret E i d < 0))"
proof (cases p)
  case (Send data)
  with send_sent [OF quiet_sends [OF assms(1)], of data s s'] assms(2) show ?thesis by auto
qed (use assms in \<open>auto dest: shutdown_sent handleRead_sent handleWrite_sent\<close>)

lemma message_of_cases: "message_of p = [] \<or> (\<exists>d. message_of p = [d])"
  by (cases p) simp_all

lemma tcp_run_sent:
  assumes "quiet E"
  shows "runR (tcp_step E) ops s = Inr s' \<Longrightarrow> \<exists>ms ls. sent s' = sent s @ concat ms \<and>
    lost s' = lost s @ ls \<and> messages ops \<in> shuffles ms ls \<and>
    ((\<forall>i d. 0 \<le> write_ret E i d) \<longrightarrow> ls = [])"
proof (induction ops arbitrary: s)
  case (Cons p ops)
  then obtain s1 where s1: "tcp_step E p s = Inr s1" "runR (tcp_step E) ops s1 = Inr s'"
    by (auto simp: bindR_eq_Inr)
  from Cons.IH [OF s1(2)] obtain ms ls where IH: "sent s' = sent s1 @ concat ms"
    "lost s' = lost s1 @ ls" "messages ops \<in> shuffles ms ls"
    "(\<forall>i d. 0 \<le> write_ret E i d) \<longrightarrow> ls = []"
    by blast
  have shuffle: "messages (p # ops) \<in> shuffles (message_of p @ ms) ls"
    "messages (p # ops) \<in> shuffles ms (message_of p @ ls)"
    using message_of_cases [of p] IH(3)
    by (auto simp: messages_def intro: Cons_in_shuffles_leftI Cons_in_shuffles_rightI)
  from tcp_step_sent [OF assms s1(1)] show ?case
  proof
    assume "sent s1 = sent s @ concat (message_of p) \<and> lost s1 = lost s"
    with IH shuffle(1) show ?thesis by (intro exI [of _ "message_of p @ ms"] exI [of _ ls]) simp
  next
    assume a: "sent s1 = sent s \<and> lost s1 = lost s @ message_of p \<and> (\<exists>i d. write_ret E i d < 0)"
    then have "\<not> (\<forall>i d. 0 \<le> write_ret E i d)" by (meson not_le)
    with a IH(1,2) shuffle(2) show ?thesis
      by - (rule exI [of _ ms], rule exI [of _ "message_of p @ ls"], auto)
  qed
qed (simp add: messages_def)

section \<open>Properties\<close>


definition sample_tcp_env :: "unit tcp_env" where
  "sample_tcp_env =
     \<lparr>ctl = (\<lambda>p f ev k. k), write_ret = (\<lambda>i d. min 1 (int (length d))), shutdown_ret = 0,
      close_ret = 0, connectionCallback = Some Inr, messageCallback = Some Inr,
      closeCallback = Some Inr, writeCompleteCallback = None\<rparr>"

lemma sample_tcp_env_ok: "write_ok sample_tcp_env" "callbacks_ok sample_tcp_env" "quiet sample_tcp_env"
  by (simp_all add: write_ok_def callbacks_ok_def quiet_def keeps_inv_def keeps_sent_def
      sample_tcp_env_def)

definition sample_addr :: sockaddr_in where
  "sample_addr = InetAddress_port 9006"


lemma handleWrite_progress:
  assumes E: "write_ok E" "writeCompleteCallback E = None"
    and progress: "\<forall>i d. d \<noteq> [] \<longrightarrow> 0 < write_ret E i d"
    and inv: "tcp_inv s" "isWriting (channel s)" "contents (outputBuffer s) \<noteq> []"
  shows "\<exists>s'. handleWrite E s = Inr s' \<and> tcp_inv s' \<and> tcp_state s' = tcp_state s \<and>
    sent s' = sent s \<and>
    length (contents (outputBuffer s')) < length (contents (outputBuffer s)) \<and>
    (isWriting (channel s') \<longleftrightarrow> contents (outputBuffer s') \<noteq> []) \<and>
    (contents (outputBuffer s') = [] \<longrightarrow> tcp_state s = kDisconnecting \<longrightarrow> fin_sent (socket s'))"
proof -
  let ?out = "contents (outputBuffer s)"
  obtain n s1 where w: "sys_write E ?out s = (n, s1)" by force
  note n = sys_write_ok [OF E(1) w]
  have pos: "0 < n" using progress inv(3) w by (auto simp: sys_write_def Let_def)
  have out: "buf_inv (outputBuffer s)" using inv(1) by (simp add: tcp_inv_def stream_inv_def)
  have "nat n \<le> readableBytes (outputBuffer s)" using n(2) out by (simp flip: length_contents)
  from retrieve_ok [OF out this] obtain b where b: "retrieve (nat n) (outputBuffer s) = Inr b"
    "buf_inv b" "contents b = drop (nat n) ?out"
    by blast
  have nil: "readableBytes b = 0 \<longleftrightarrow> contents b = []"
    using b(2) by (metis length_0_conv length_contents)
  have less: "length (contents b) < length ?out" using b(3) pos inv(3) by simp
  let ?s2 = "s1\<lparr>outputBuffer := b\<rparr>"
  let ?s3 = "on_channel (disableWriting (ctl E)) ?s2"
  have run: "handleWrite E s =
      (if contents b = []
       then if tcp_state s = kDisconnecting then Inr (?s3\<lparr>socket := (socket s)\<lparr>fin_sent := True\<rparr>\<rparr>)
            else Inr ?s3
       else Inr ?s2)"
    using inv(2) w pos b(1) n(4) E(2)
    by (simp add: handleWrite_def invoke_if_set_def nil sys_shutdown_ok [OF E(1)])
  have "tcp_inv ?s2" if "contents b \<noteq> []"
    using that inv n(4) b by (auto simp: tcp_inv_def stream_inv_def intro: prefix_prefix)
  moreover have "tcp_inv ?s3" if "contents b = []"
    using that inv n(4) b by (auto simp: tcp_inv_def stream_inv_def intro: prefix_prefix)
  moreover from this have "tcp_inv (?s3\<lparr>socket := (socket s)\<lparr>fin_sent := True\<rparr>\<rparr>)"
    if "contents b = []" "tcp_state s = kDisconnecting"
    using fin_inv [of ?s3] that n(4) by simp
  ultimately show ?thesis using run less n(4) inv(2) by (cases "contents b = []") auto
qed

lemma output_drains:
  assumes E: "write_ok E" "writeCompleteCallback E = None"
    and progress: "\<forall>i d. d \<noteq> [] \<longrightarrow> 0 < write_ret E i d"
    and inv: "tcp_inv s" "tcp_state s \<noteq> kDisconnected" "contents (outputBuffer s) \<noteq> []"
  shows "\<exists>s'. runR (tcp_step E) (replicate (length (contents (outputBuffer s))) Writable) s = Inr s' \<and>
    wire s' = sent s \<and> contents (outputBuffer s') = [] \<and> \<not> isWriting (channel s') \<and>
    (tcp_state s = kDisconnecting \<longrightarrow> fin_sent (socket s'))"
proof -
  have "\<exists>s'. runR (tcp_step E) (replicate m Writable) s = Inr s' \<and>
      wire s' = sent s \<and> contents (outputBuffer s') = [] \<and> \<not> isWriting (channel s') \<and>
      (tcp_state s = kDisconnecting \<longrightarrow> fin_sent (socket s'))"
    if "length (contents (outputBuffer s)) \<le> m" "tcp_inv s" "tcp_state s \<noteq> kDisconnected"
      "contents (outputBuffer s) = [] \<Longrightarrow> tcp_state s = kDisconnecting \<Longrightarrow> fin_sent (socket s)"
    for m and s :: "'a tcp"
    using that
  proof (induction m arbitrary: s)
    case 0
    then show ?case by (auto simp: tcp_inv_def stream_inv_def)
  next
    case (Suc m)
    show ?case
    proof (cases "contents (outputBuffer s) = []")
      case True
      with Suc.prems(2,3) have "handleWrite E s = Inr s" by (simp add: tcp_inv_def handleWrite_def)
      with True Suc.IH [of s] Suc.prems show ?thesis by simp
    next
      case False
      with Suc.prems(2,3) have "isWriting (channel s)" by (simp add: tcp_inv_def)
      from handleWrite_progress [OF E progress Suc.prems(2) this False] obtain s1 where
        s1: "handleWrite E s = Inr s1" "tcp_inv s1" "tcp_state s1 = tcp_state s" "sent s1 = sent s"
          "length (contents (outputBuffer s1)) < length (contents (outputBuffer s))"
          "contents (outputBuffer s1) = [] \<longrightarrow> tcp_state s = kDisconnecting \<longrightarrow> fin_sent (socket s1)"
        by blast
      with Suc.IH [of s1] Suc.prems(1,3) show ?thesis by simp
    qed
  qed
  from this [OF order_refl inv(1,2)] inv(3) show ?thesis by blast
qed

text \<open>
  Property C15.  What is buffered is delivered.  For every connection in its invariant that is not
  yet disconnected and has something buffered: if every \<^verbatim>\<open>write\<close> takes at least one byte of what it
  is given (so none fails), \<^verbatim>\<open>shutdown\<close> and \<^verbatim>\<open>close\<close> succeed and there is no write-complete
  callback, then as many writable events as there are buffered bytes empty the buffer, everything
  that \<^verbatim>\<open>send\<close> has taken over is then on the wire, the connection has stopped waiting for
  writability, and a shutdown that was waiting for this has been carried out.
\<close>

theorem tcp_output_drains:
  assumes E: "write_ok E" "writeCompleteCallback E = None"
    and progress: "\<forall>i d. d \<noteq> [] \<longrightarrow> 0 < write_ret E i d"
    and inv: "tcp_inv s" "tcp_state s \<noteq> kDisconnected" "contents (outputBuffer s) \<noteq> []"
  shows "\<exists>s'. runR (tcp_step E) (replicate (length (contents (outputBuffer s))) Writable) s = Inr s' \<and>
    wire s' = sent s \<and> contents (outputBuffer s') = [] \<and> \<not> isWriting (channel s') \<and>
    (tcp_state s = kDisconnecting \<longrightarrow> fin_sent (socket s'))"
  by (rule output_drains [OF assms])

text \<open>A connection with one byte waiting to be written.\<close>

definition sample_tcp :: "tcp_state \<Rightarrow> 32 word \<Rightarrow> unit tcp" where
  "sample_tcp st ev =
     \<lparr>name = ''1'', tcp_state = st, socket = new_socket 7,
      channel = (new_channel 7)\<lparr>events := ev, chan_state := kAdded,
        readCallback := Some ReadHandler, writeCallback := Some WriteHandler\<rparr>,
      peerAddr = sample_addr,
      inputBuffer = \<lparr>bytes = replicate 16 CHR 0x00, readerIndex = 8, writerIndex = 8\<rparr>,
      outputBuffer = \<lparr>bytes = replicate 8 CHR 0x00 @ ''a'' @ replicate 7 CHR 0x00,
        readerIndex = 8, writerIndex = (if ev = 7 then 9 else 8)\<rparr>,
      owners = 1, kernel = (), writes = 0, wire = [],
      sent = (if ev = 7 then ''a'' else []), lost = [],
      promise = (if st = kDisconnecting \<and> ev = 7 then ''a'' else [])\<rparr>"

lemma sample_tcp_inv: "st \<noteq> kDisconnected \<Longrightarrow> tcp_inv (sample_tcp st 7)"
  by (simp add: sample_tcp_def tcp_inv_def stream_inv_def buf_inv_def kCheapPrepend_def
      contents_def segment_def isWriting_def kWriteEvent_def new_socket_def)

theorem tcp_output_drains_witness:
  "\<exists>s'. handleWrite sample_tcp_env (sample_tcp kDisconnecting 7) = Inr s' \<and> wire s' = ''a'' \<and>
     fin_sent (socket s')"
proof -
  have "\<forall>i d. d \<noteq> [] \<longrightarrow> 0 < write_ret sample_tcp_env i d"
    "writeCompleteCallback sample_tcp_env = None"
    "contents (outputBuffer (sample_tcp kDisconnecting 7)) = ''a''"
    "sent (sample_tcp kDisconnecting 7) = ''a''" "tcp_state (sample_tcp kDisconnecting 7) = kDisconnecting"
    by (auto simp: sample_tcp_env_def sample_tcp_def contents_def segment_def neq_Nil_conv)
  with tcp_output_drains [OF sample_tcp_env_ok(1) this(2,1) sample_tcp_inv, of kDisconnecting]
  show ?thesis by (auto simp: bindR_eq_Inr)
qed

text \<open>
  Fact.  A message is lost when \<^verbatim>\<open>write\<close> fails while nothing is buffered, for instance
  because the kernel's buffer is full: the negative result, compared as a \<^verbatim>\<open>size_t\<close>, is never
  less than the length, so the message is neither buffered nor is the connection made to wait for
  writability; \<^verbatim>\<open>send\<close> returns as if all were well.
\<close>

theorem send_drops_on_write_error:
  assumes "write_ok E" "buf_inv (outputBuffer s)" "refused E data s" "length data < 2 ^ 31"
  shows "send E data s = Inr (s\<lparr>writes := Suc (writes s), lost := lost s @ [data]\<rparr>)"
  by (rule send_refused [OF assms])

theorem send_drops_on_write_error_witness:
  "\<exists>s. send (sample_tcp_env\<lparr>write_ret := (\<lambda>i d. -1)\<rparr>) ''abc'' (sample_tcp kConnected 3) = Inr s \<and>
     wire s = [] \<and> contents (outputBuffer s) = [] \<and> \<not> isWriting (channel s) \<and> lost s = [''abc'']"
proof -
  let ?E = "sample_tcp_env\<lparr>write_ret := (\<lambda>i d. -1)\<rparr>"
  have "write_ok ?E" "buf_inv (outputBuffer (sample_tcp kConnected 3))"
    "refused ?E ''abc'' (sample_tcp kConnected 3)"
    by (simp_all add: write_ok_def refused_def sample_tcp_env_def sample_tcp_def isWriting_def
        kWriteEvent_def contents_def segment_def buf_inv_def kCheapPrepend_def)
  from send_drops_on_write_error [OF this] show ?thesis
    by (simp add: sample_tcp_def contents_def segment_def isWriting_def kWriteEvent_def)
qed

text \<open>What a server does on a close: the map's copy of the pointer goes.\<close>

definition drop_owner :: "'k tcp \<Rightarrow> 'k tcp res" where
  "drop_owner s = Inr (s\<lparr>owners := owners s - 1\<rparr>)"

lemma readFd_eof: "readFd (\<lambda>_. ReadData []) b = Inr (0, None, b\<lparr>bytes := overwrite (writerIndex b) [] (bytes b)\<rparr>)"
  by (simp add: readFd_def)

text \<open>
  Property C27.  When the peer closes a connection whose only owner is the server's map, the
  handler destroys the connection, and its channel with it, while the channel is still dispatching
  the event: the next test of \<^verbatim>\<open>revents_\<close> reads freed memory.
\<close>

theorem peer_close_uses_freed_channel:
  assumes "owners s = 1" "readCallback (channel s) = Some ReadHandler"
    and "errorCallback (channel s) = None" "ev AND (EPOLLIN OR EPOLLPRI OR EPOLLRDHUP) \<noteq> 0"
    and "closeCallback E = Some drop_owner" "0 \<le> close_ret E"
    and "connectionCallback E = Some f" "\<And>s. \<exists>s'. f s = Inr s' \<and> owners s' = owners s"
  shows "tcp_event E (\<lambda>_. ReadData []) ev s = Inl UseAfterFree"
proof -
  let ?s = "s\<lparr>channel := (channel s)\<lparr>revents := ev\<rparr>\<rparr>"
  let ?b = "(inputBuffer s)\<lparr>bytes := overwrite (writerIndex (inputBuffer s)) [] (bytes (inputBuffer s))\<rparr>"
  let ?s1 = "on_channel (disableAll (ctl E)) (?s\<lparr>inputBuffer := ?b, tcp_state := kDisconnected\<rparr>)"
  obtain s2 where s2: "f (?s1\<lparr>owners := owners ?s1 + 1\<rparr>) = Inr s2" "owners s2 = 2"
    using assms(8) [of "?s1\<lparr>owners := owners ?s1 + 1\<rparr>"] assms(1) by auto
  then have "invoke (closeCallback E) s2 = Inr (s2\<lparr>owners := 1\<rparr>)"
    using assms(5) by (simp add: invoke_def drop_owner_def)
  moreover have "\<exists>s3. release E (s2\<lparr>owners := 1\<rparr>) = Inr s3 \<and> owners s3 = 0"
    using assms(6) by (simp add: release_def destroy_socket_def)
  ultimately obtain s3 where s3: "handleRead E (\<lambda>_. ReadData []) ?s = Inr s3" "owners s3 = 0"
    using s2 assms(7) by (auto simp: handleRead_def readFd_eof handleClose_def invoke_def)
  have "dispatch tcp_channel (tcp_call E (\<lambda>_. ReadData [])) EPOLLERR errorCallback ?s = Inr ?s"
    using assms(1,3) by (simp add: dispatch_def tcp_channel_def)
  moreover have "dispatch tcp_channel (tcp_call E (\<lambda>_. ReadData [])) (EPOLLIN OR EPOLLPRI OR EPOLLRDHUP)
      readCallback ?s = Inr s3"
    using assms(1,2,4) s3(1) by (simp add: dispatch_def tcp_channel_def)
  moreover have "dispatch tcp_channel (tcp_call E (\<lambda>_. ReadData [])) EPOLLOUT writeCallback s3 =
      Inl UseAfterFree"
    using s3(2) by (simp add: dispatch_def tcp_channel_def)
  ultimately show ?thesis by (simp add: tcp_event_def handleEvent_def)
qed

theorem peer_close_uses_freed_channel_witness:
  "tcp_event (sample_tcp_env\<lparr>closeCallback := Some drop_owner\<rparr>) (\<lambda>_. ReadData []) 1
     (sample_tcp kConnected 3) = Inl UseAfterFree"
  by (rule peer_close_uses_freed_channel [where f = Inr])
    (simp_all add: sample_tcp_def sample_tcp_env_def new_channel_def)

text \<open>A write-complete callback that sends one more message and then closes its side.\<close>

definition send_and_close :: "'k tcp_env \<Rightarrow> char list \<Rightarrow> 'k tcp_callback" where
  "send_and_close E data = Some (\<lambda>s. bindR (send E data s) (shutdown E))"

text \<open>
  Property C28.  The end of the stream can overtake data.  For every connected connection in its
  invariant that waits for writability, and every message: if the write-complete callback sends this
  message and then calls \<^verbatim>\<open>shutdown\<close>, the kernel takes all of the buffer in a writable event but
  only the first \<open>n\<close> bytes of the message, fewer than its length, then \<^verbatim>\<open>handleWrite\<close>, which tests
  the state after the callback, shuts the socket down with the rest of the message still buffered.
  (The callback is given with the environment that has no write-complete callback: its own
  \<^verbatim>\<open>send\<close> leaves something buffered, so it would call none.)
\<close>

theorem early_shutdown_from_write_complete:
  assumes E: "write_ok E" "writeCompleteCallback E = None"
    and inv: "tcp_inv s" "tcp_state s = kConnected" "isWriting (channel s)"
    and all: "write_ret E (writes s) (contents (outputBuffer s)) = int (length (contents (outputBuffer s)))"
    and part: "write_ret E (Suc (writes s)) data = int n" "n < length data" "length data < 2 ^ 31"
  shows "\<exists>s'. handleWrite (E\<lparr>writeCompleteCallback := send_and_close E data\<rparr>) s = Inr s' \<and>
    fin_sent (socket s') \<and> promise s' = sent s @ data \<and> wire s' = sent s @ take n data \<and>
    contents (outputBuffer s') = drop n data \<and> \<not> prefix (promise s') (wire s')"
proof -
  let ?out = "contents (outputBuffer s)"
  let ?E = "E\<lparr>writeCompleteCallback := send_and_close E data\<rparr>"
  have out: "buf_inv (outputBuffer s)" "?out \<noteq> []" "wire s @ ?out = sent s"
    using inv by (auto simp: tcp_inv_def stream_inv_def)
  from retrieve_ok [OF out(1), of "length ?out"] obtain b where b:
    "retrieve (length ?out) (outputBuffer s) = Inr b" "buf_inv b" "contents b = []"
    using out(1) by (auto simp flip: length_contents)
  let ?s1 = "s\<lparr>writes := Suc (writes s), wire := sent s, outputBuffer := b\<rparr>"
  let ?s2 = "on_channel (disableWriting (ctl E)) ?s1"
  have wrote: "sys_write ?E ?out s = (int (length ?out), s\<lparr>writes := Suc (writes s), wire := sent s\<rparr>)"
    using all out(3) by (simp add: sys_write_def)
  have s2: "tcp_inv ?s2" using inv b by (auto simp: tcp_inv_def stream_inv_def)
  have idle: "\<not> isWriting (channel ?s2)" "contents (outputBuffer ?s2) = []" "\<not> refused E data ?s2"
    using s2 b inv(2) part(1) by (simp_all add: tcp_inv_def refused_def)
  have n: "write_ret E (writes ?s2) data = int n" using part(1) by simp
  from send_direct [OF E(1) s2 part(3) idle] part(2) obtain b2 where b2: "contents b2 = drop n data"
    "send E data ?s2 = Inr (on_channel (enableWriting (ctl E)) (?s2\<lparr>writes := Suc (Suc (writes s)),
       wire := sent s @ take n data, sent := sent s @ data, outputBuffer := b2\<rparr>))"
    unfolding n by auto
  let ?s3 = "on_channel (enableWriting (ctl E)) (?s2\<lparr>writes := Suc (Suc (writes s)),
       wire := sent s @ take n data, sent := sent s @ data, outputBuffer := b2\<rparr>)"
  let ?s4 = "?s3\<lparr>tcp_state := kDisconnecting, promise := sent s @ data\<rparr>"
  have "shutdown E ?s3 = Inr ?s4" using inv(2) by (simp add: shutdown_def)
  then have call: "invoke_if_set (writeCompleteCallback ?E) ?s2 = Inr ?s4"
    using b2(2) by (simp add: invoke_if_set_def send_and_close_def)
  have "write_ok ?E" using E(1) by (simp add: write_ok_def)
  then have "handleWrite ?E s = Inr (?s4\<lparr>socket := (socket ?s4)\<lparr>fin_sent := True\<rparr>\<rparr>)"
    using inv(3) wrote b out(2) call
    by (simp add: handleWrite_def readable_nil sys_shutdown_ok)
  moreover have "\<not> prefix (sent s @ data) (sent s @ take n data)"
    using part(2) by (auto dest: prefix_length_le)
  ultimately show ?thesis using b2(1) by simp
qed

theorem early_shutdown_from_write_complete_witness:
  "\<exists>s'. handleWrite (sample_tcp_env\<lparr>writeCompleteCallback := send_and_close sample_tcp_env ''bcd''\<rparr>)
     (sample_tcp kConnected 7) = Inr s' \<and> fin_sent (socket s') \<and> wire s' = ''ab'' \<and>
     contents (outputBuffer s') = ''cd''"
proof -
  have "tcp_state (sample_tcp kConnected 7) = kConnected" "isWriting (channel (sample_tcp kConnected 7))"
    "write_ret sample_tcp_env (writes (sample_tcp kConnected 7))
       (contents (outputBuffer (sample_tcp kConnected 7))) =
     int (length (contents (outputBuffer (sample_tcp kConnected 7))))"
    "writeCompleteCallback sample_tcp_env = None" "sent (sample_tcp kConnected 7) = ''a''"
    "write_ret sample_tcp_env (Suc (writes (sample_tcp kConnected 7))) ''bcd'' = int 1"
    by (simp_all add: sample_tcp_def sample_tcp_env_def isWriting_def kWriteEvent_def contents_def
        segment_def)
  with early_shutdown_from_write_complete [OF sample_tcp_env_ok(1) this(4) sample_tcp_inv this(1-3,6)]
  show ?thesis by auto
qed

end
