(* ===== verification/CDouble.thy ===== *)
theory CDouble
  imports Complex_Main Prelude
begin

text \<open>
  The C \<^verbatim>\<open>double\<close>, as far as the program uses it: the finite values are rationals, and
  \<^verbatim>\<open>*\<close> and \<^verbatim>\<open>/\<close> round the exact result to the nearest value with a 53-bit significand, ties to
  even, as IEEE 754 binary64 does for results in the normal range (every value of the program
  is far inside it).  \<^verbatim>\<open>static_cast\<close> to an integer type drops the fraction.
\<close>

type_synonym double = rat

fun ilog2 :: "nat \<Rightarrow> nat" where
  "ilog2 n = (if n < 2 then 0 else Suc (ilog2 (n div 2)))"

declare ilog2.simps [simp del]

definition round_even :: "rat \<Rightarrow> int" where
  "round_even x =
     (let f = \<lfloor>x\<rfloor>; r = x - of_int f in
      if r < 1 / 2 then f else if 1 / 2 < r then f + 1 else if even f then f else f + 1)"

text \<open>The binary exponent of a positive rational: \<open>2 powi binexp x \<le> x < 2 powi (binexp x + 1)\<close>.\<close>

definition binexp :: "rat \<Rightarrow> int" where
  "binexp x =
     (let (n, d) = quotient_of x; e = int (ilog2 (nat n)) - int (ilog2 (nat d)) in
      if 2 powi e \<le> x then e else e - 1)"

definition fround_pos :: "nat \<Rightarrow> rat \<Rightarrow> rat" where
  "fround_pos p x = (let u = 2 powi (binexp x - (int p - 1)) in of_int (round_even (x / u)) * u)"

definition dround_pos :: "rat \<Rightarrow> double" where
  "dround_pos x = fround_pos 53 x"

lemma dround_pos_eq: "dround_pos x = (let u = 2 powi (binexp x - 52) in of_int (round_even (x / u)) * u)"
  by (simp add: dround_pos_def fround_pos_def)

definition dround :: "rat \<Rightarrow> double" where
  "dround x = (if x = 0 then 0 else if 0 < x then dround_pos x else - dround_pos (- x))"

definition dmult :: "double \<Rightarrow> double \<Rightarrow> double" where
  "dmult x y = dround (x * y)"

definition ddiv :: "double \<Rightarrow> double \<Rightarrow> double" where
  "ddiv x y = dround (x / y)"

definition to_integer :: "double \<Rightarrow> int" where
  "to_integer x = (if 0 \<le> x then \<lfloor>x\<rfloor> else - \<lfloor>- x\<rfloor>)"

section \<open>The exponent\<close>

lemma ilog2_bounds: "0 < n \<Longrightarrow> 2 ^ ilog2 n \<le> n \<and> n < 2 ^ Suc (ilog2 n)"
proof (induction n rule: ilog2.induct)
  case (1 n)
  show ?case
  proof (cases "n < 2")
    case True
    with 1 show ?thesis by (simp add: ilog2.simps [of n])
  next
    case False
    with "1.IH" have "2 ^ ilog2 (n div 2) \<le> n div 2" "n div 2 < 2 ^ Suc (ilog2 (n div 2))"
      by auto
    with False show ?thesis by (simp add: ilog2.simps [of n]) linarith
  qed
qed

lemma powi_of_nat_diff: "(2::rat) powi (int a - int b) = 2 ^ a / 2 ^ b"
  by (simp add: power_int_diff)

lemma binexp_bounds:
  assumes "0 < x"
  shows "2 powi binexp x \<le> x \<and> x < 2 powi (binexp x + 1)"
proof -
  obtain n d where q: "quotient_of x = (n, d)" by force
  then have x: "x = of_int n / of_int d" and d: "0 < d"
    using quotient_of_div quotient_of_denom_pos by blast+
  with assms have n: "0 < n"
    by (metis divide_less_0_iff linorder_neqE_linordered_idom not_less_iff_gr_or_eq of_int_0_less_iff
        of_int_less_0_iff zero_less_divide_iff)
  let ?a = "ilog2 (nat n)" and ?b = "ilog2 (nat d)"
  have "(2::nat) ^ ?a \<le> nat n \<and> nat n < 2 ^ Suc ?a" "(2::nat) ^ ?b \<le> nat d \<and> nat d < 2 ^ Suc ?b"
    using n d by (intro ilog2_bounds; simp only: zero_less_nat_eq)+
  then have "(of_nat (2 ^ ?a) :: rat) \<le> of_nat (nat n)" "(of_nat (nat n) :: rat) < of_nat (2 ^ Suc ?a)"
    and "(of_nat (2 ^ ?b) :: rat) \<le> of_nat (nat d)" "(of_nat (nat d) :: rat) < of_nat (2 ^ Suc ?b)"
    unfolding of_nat_le_iff of_nat_less_iff by blast+
  then have bn: "2 ^ ?a \<le> (of_int n :: rat)" "(of_int n :: rat) < 2 * 2 ^ ?a"
    and bd: "2 ^ ?b \<le> (of_int d :: rat)" "(of_int d :: rat) < 2 * 2 ^ ?b"
    using n d by (simp_all add: of_nat_nat)
  have dp: "(0::rat) < of_int d" using d by simp
  have upper: "x < 2 * 2 ^ ?a / 2 ^ ?b"
    unfolding x by (rule frac_less [OF _ bn(2)]) (use bd(1) n in auto)
  have lower: "2 ^ ?a / (2 * 2 ^ ?b) < x"
    unfolding x by (rule frac_less2) (use bn(1) bd(2) dp in auto)
  show ?thesis
    using upper lower q
    by (auto simp: binexp_def powi_of_nat_diff power_int_add power_int_diff not_le Let_def field_simps)
qed

lemma binexp_unique:
  assumes "2 powi e \<le> x" and "x < 2 powi (e + 1)"
  shows "binexp x = e"
proof -
  have "0 < x" using assms(1) by (meson less_le_trans zero_less_numeral zero_less_power_int)
  from binexp_bounds [OF this] assms
  have "(2::rat) powi e < 2 powi (binexp x + 1)" "(2::rat) powi binexp x < 2 powi (e + 1)"
    by linarith+
  then have "e < binexp x + 1" "binexp x < e + 1"
    by (meson power_int_increasing not_less one_le_numeral)+
  then show ?thesis by simp
qed

section \<open>Rounding\<close>

lemma round_even_of_int [simp]: "round_even (of_int m) = m"
  by (simp add: round_even_def)

lemma round_even_error: "\<bar>of_int (round_even x) - x\<bar> \<le> 1 / 2"
proof -
  have "of_int \<lfloor>x\<rfloor> \<le> x" "x < of_int \<lfloor>x\<rfloor> + 1"
    by linarith+
  then show ?thesis unfolding round_even_def Let_def by (auto simp: abs_le_iff)
qed

lemma fround_pos_error:
  assumes "0 < x"
  shows "\<bar>fround_pos (Suc q) x - x\<bar> \<le> x / 2 ^ Suc q"
proof -
  let ?u = "2 powi (binexp x - int q) :: rat"
  have u: "0 < ?u" by simp
  have "fround_pos (Suc q) x - x = (of_int (round_even (x / ?u)) - x / ?u) * ?u"
    using u by (simp add: fround_pos_def Let_def left_diff_distrib)
  then have "\<bar>fround_pos (Suc q) x - x\<bar> = \<bar>of_int (round_even (x / ?u)) - x / ?u\<bar> * ?u"
    using u by (simp add: abs_mult)
  also have "\<dots> \<le> 1 / 2 * ?u"
    using round_even_error u by (intro mult_right_mono) auto
  also have "\<dots> = 2 powi binexp x / 2 ^ Suc q"
    by (simp add: power_int_diff)
  also have "\<dots> \<le> x / 2 ^ Suc q"
    using binexp_bounds [OF assms] by (simp add: divide_right_mono)
  finally show ?thesis .
qed

text \<open>The relative error of one operation is at most \<open>2 ^ (-53)\<close>.\<close>

lemma dround_pos_error: "0 < x \<Longrightarrow> \<bar>dround_pos x - x\<bar> \<le> x / 2 ^ 53"
  using fround_pos_error [of x 52] by (simp add: dround_pos_def)

lemma dround_error: "\<bar>dround x - x\<bar> \<le> \<bar>x\<bar> / 2 ^ 53"
proof (cases x "0 :: rat" rule: linorder_cases)
  case less
  then have "\<bar>dround_pos (- x) - (- x)\<bar> \<le> (- x) / 2 ^ 53"
    by (intro dround_pos_error) simp
  with less show ?thesis by (simp add: dround_def abs_le_iff)
next
  case greater
  with dround_pos_error [OF this] show ?thesis by (simp add: dround_def)
qed (simp add: dround_def)

lemma dround_nonneg: "0 \<le> x \<Longrightarrow> 0 \<le> dround x"
  using dround_error [of x] by (auto simp: abs_if split: if_splits)

text \<open>An integer of at most 53 bits is a \<^verbatim>\<open>double\<close>.\<close>

lemma fround_pos_of_int:
  assumes "0 < m" and "m < 2 ^ p"
  shows "fround_pos p (of_int m) = of_int m"
proof -
  let ?x = "of_int m :: rat"
  have pos: "0 < ?x" using assms by simp
  have "2 powi binexp ?x \<le> ?x" using binexp_bounds [OF pos] by simp
  moreover have "?x < 2 ^ p" using assms(2) by (metis of_int_less_iff of_int_numeral of_int_power)
  ultimately have "(2::rat) powi binexp ?x < 2 powi int p"
    unfolding power_int_of_nat by (rule le_less_trans)
  then have "binexp ?x < int p" by (meson power_int_increasing not_less one_le_numeral)
  then have "binexp ?x \<le> int p - 1" by simp
  then obtain k where k: "binexp ?x - (int p - 1) = - int k"
    by (metis add.commute diff_ge_0_iff_ge minus_diff_eq nonneg_int_cases)
  have "?x / 2 powi (binexp ?x - (int p - 1)) = of_int (m * 2 ^ k)"
    by (simp add: k power_int_minus divide_inverse)
  then have "fround_pos p ?x = of_int (m * 2 ^ k) * 2 powi (binexp ?x - (int p - 1))"
    unfolding fround_pos_def Let_def by (simp only: round_even_of_int)
  also have "\<dots> = of_int m"
    by (simp add: k power_int_minus)
  finally show ?thesis .
qed

lemma dround_pos_of_int: "0 < m \<Longrightarrow> m < 2 ^ 53 \<Longrightarrow> dround_pos (of_int m) = of_int m"
  unfolding dround_pos_def by (rule fround_pos_of_int)

lemma dround_of_int: "\<bar>m\<bar> < 2 ^ 53 \<Longrightarrow> dround (of_int m) = of_int m"
  using dround_pos_of_int [of m] dround_pos_of_int [of "- m"] by (auto simp: dround_def abs_if split: if_splits)

section \<open>Conversion to an integer\<close>

lemma to_integer_of_int [simp]: "to_integer (of_int m) = m"
  by (simp add: to_integer_def)

lemma to_integer_nonneg: "0 \<le> x \<Longrightarrow> 0 \<le> to_integer x"
  by (simp add: to_integer_def)

lemma to_integer_minus: "to_integer (- x) = - to_integer x"
  by (auto simp: to_integer_def)

lemma dround_minus: "dround (- x) = - dround x"
  by (simp add: dround_def)

text \<open>
  The quotient of two integers of 32 bits, computed in \<^verbatim>\<open>double\<close> and converted back, is the
  exact quotient without its fraction: the rounding never reaches the next integer.
\<close>

lemma to_integer_ddiv_nonneg:
  assumes "0 \<le> n" and "n < 2 ^ 53" and "0 < a"
  shows "to_integer (ddiv (of_int n) (of_int a)) = n div a"
proof -
  let ?q = "of_int n / of_int a :: rat"
  have nd: "n div a * a \<le> n" "n < (n div a + 1) * a"
    using pos_mod_bound [OF assms(3), of n] pos_mod_sign [OF assms(3), of n] div_mult_mod_eq [of n a]
    unfolding distrib_right mult_1 by linarith+
  have a: "(0::rat) < of_int a" "?q * of_int a = of_int n" using assms(3) by simp_all
  have q0: "0 \<le> ?q" using assms by simp
  have fl: "of_int (n div a) \<le> ?q"
    using nd(1) a(1) by (simp add: pos_le_divide_eq flip: of_int_mult)
  have "n + 1 \<le> (n div a + 1) * a" using nd(2) by simp
  then have "(of_int n + 1 :: rat) \<le> of_int ((n div a + 1) * a)"
    by (metis of_int_1 of_int_add of_int_le_iff)
  then have gap: "?q + 1 / of_int a \<le> of_int (n div a) + 1"
    using a(1) by (simp add: field_simps)
  have "?q / 2 ^ 53 < 1 / of_int a"
    using assms(2) a(1) by (simp add: field_simps)
  then have near: "\<bar>dround ?q - ?q\<bar> < 1 / of_int a"
    using dround_error [of ?q] q0 by simp
  have up: "dround ?q < of_int (n div a) + 1"
    using near gap by (simp add: abs_less_iff)
  have low: "of_int (n div a) \<le> dround ?q"
  proof (cases "n mod a = 0")
    case True
    then have "?q = of_int (n div a)"
      using a(1) by (simp add: divide_eq_eq mod_0_imp_dvd flip: of_int_mult)
    moreover have "0 \<le> n div a" "n div a \<le> n"
      using assms by (simp_all add: pos_imp_zdiv_nonneg_iff zdiv_mono2 [of n 1 a, simplified])
    ultimately show ?thesis using dround_of_int [of "n div a"] assms(2) by simp
  next
    case False
    then have "n div a * a + 1 \<le> n"
      using assms(3) pos_mod_sign [of a n] div_mult_mod_eq [of n a] by linarith
    then have "of_int (n div a * a) + 1 \<le> (of_int n :: rat)"
      by (metis of_int_1 of_int_add of_int_le_iff)
    then have "(of_int (n div a * a) + 1) / of_int a \<le> ?q"
      using a(1) by (intro divide_right_mono) auto
    then have "of_int (n div a) + 1 / of_int a \<le> ?q"
      using a(1) by (simp add: add_divide_distrib)
    with near show ?thesis by (simp add: abs_less_iff)
  qed
  have "\<lfloor>dround ?q\<rfloor> = n div a" using up low by linarith
  then show ?thesis using dround_nonneg [OF q0] by (simp add: to_integer_def ddiv_def)
qed

text \<open>C's integer division drops the fraction.\<close>

definition cdiv :: "int \<Rightarrow> int \<Rightarrow> int" where
  "cdiv n a = sgn n * sgn a * (\<bar>n\<bar> div \<bar>a\<bar>)"

definition cmod :: "int \<Rightarrow> int \<Rightarrow> int" where
  "cmod n a = n - a * cdiv n a"

lemma cdiv_nonneg: "0 \<le> n \<Longrightarrow> 0 < a \<Longrightarrow> cdiv n a = n div a"
  by (cases "n = 0") (simp_all add: cdiv_def)

lemma cmod_nonneg: "0 \<le> n \<Longrightarrow> 0 < a \<Longrightarrow> cmod n a = n mod a"
  by (simp add: cmod_def cdiv_nonneg minus_mult_div_eq_mod)

lemma to_integer_ddiv_pos:
  assumes "\<bar>n\<bar> < 2 ^ 53" and "0 < a"
  shows "to_integer (ddiv (of_int n) (of_int a)) = cdiv n a"
proof (cases "0 \<le> n")
  case True
  with assms to_integer_ddiv_nonneg [of n a] show ?thesis by (simp add: cdiv_nonneg)
next
  case False
  then have "ddiv (of_int n) (of_int a) = - ddiv (of_int (- n)) (of_int a)"
    unfolding ddiv_def by (simp flip: dround_minus)
  with False assms to_integer_ddiv_nonneg [of "- n" a] show ?thesis
    by (simp add: to_integer_minus cdiv_def)
qed

lemma to_integer_ddiv:
  assumes "\<bar>n\<bar> < 2 ^ 53" and "a \<noteq> 0"
  shows "to_integer (ddiv (of_int n) (of_int a)) = cdiv n a"
proof (cases "0 < a")
  case False
  have "ddiv (of_int n) (of_int a) = ddiv (of_int (- n)) (of_int (- a))"
    by (simp add: ddiv_def)
  with False assms to_integer_ddiv_pos [of "- n" "- a"] show ?thesis
    by (simp add: cdiv_def)
qed (use assms to_integer_ddiv_pos in simp)

end
