(* ===== verification/TimeStamps.thy ===== *)
theory TimeStamps
  imports CDouble CText
begin

text \<open>
  \<^verbatim>\<open>src/Timestamp.h\<close> and \<^verbatim>\<open>src/Timestamp.cpp\<close>: points in time as microseconds since the epoch,
  and \<^verbatim>\<open>CurrentThread::sleepUsec\<close> of \<^verbatim>\<open>base/CurrentThread.h\<close>, which cuts a duration the same
  way.  An \<^verbatim>\<open>int64_t\<close> is an \<open>int\<close>: its overflow is undefined in the source, and the times of
  the program are more than ten binary digits away from it.  The wall clock
  (\<^verbatim>\<open>gettimeofday\<close>) and the calendar (\<^verbatim>\<open>gmtime_r\<close>) are arguments.
\<close>

section \<open>Operations\<close>

datatype timestamp = Timestamp (microsecondsSinceEpoch: int)

definition kMicrosecondsPerSecond :: int where
  "kMicrosecondsPerSecond = 1000 * 1000"

definition kMillisecondsPerSecond :: int where
  "kMillisecondsPerSecond = 1000"

definition ts_default :: timestamp where
  "ts_default = Timestamp 0"

definition ts_invalid :: timestamp where
  "ts_invalid = ts_default"

definition valid :: "timestamp \<Rightarrow> bool" where
  "valid t \<longleftrightarrow> 0 < microsecondsSinceEpoch t"

definition swap_timestamps :: "timestamp \<Rightarrow> timestamp \<Rightarrow> timestamp \<times> timestamp" where
  "swap_timestamps a b = (Timestamp (microsecondsSinceEpoch b), Timestamp (microsecondsSinceEpoch a))"

definition secondsSinceEpoch :: "timestamp \<Rightarrow> int" where
  "secondsSinceEpoch t = cdiv (microsecondsSinceEpoch t) kMicrosecondsPerSecond"

text \<open>\<open>tv_sec\<close> and \<open>tv_usec\<close> are what \<^verbatim>\<open>gettimeofday\<close> stores.\<close>

definition ts_now :: "int \<Rightarrow> int \<Rightarrow> timestamp" where
  "ts_now tv_sec tv_usec = Timestamp (tv_sec * kMicrosecondsPerSecond + tv_usec)"

instantiation timestamp :: linorder
begin

definition less_timestamp :: "timestamp \<Rightarrow> timestamp \<Rightarrow> bool" where
  "less_timestamp lhs rhs \<longleftrightarrow> microsecondsSinceEpoch lhs < microsecondsSinceEpoch rhs"

definition less_eq_timestamp :: "timestamp \<Rightarrow> timestamp \<Rightarrow> bool" where
  "less_eq_timestamp lhs rhs \<longleftrightarrow> microsecondsSinceEpoch lhs \<le> microsecondsSinceEpoch rhs"

instance
  by standard (auto simp: less_timestamp_def less_eq_timestamp_def timestamp.expand)

end

definition ts_less :: "timestamp \<Rightarrow> timestamp \<Rightarrow> bool" where
  "ts_less lhs rhs \<longleftrightarrow> microsecondsSinceEpoch lhs < microsecondsSinceEpoch rhs"

definition ts_equal :: "timestamp \<Rightarrow> timestamp \<Rightarrow> bool" where
  "ts_equal lhs rhs \<longleftrightarrow> microsecondsSinceEpoch lhs = microsecondsSinceEpoch rhs"

lemma ts_less_iff: "ts_less a b \<longleftrightarrow> a < b"
  by (simp add: ts_less_def less_timestamp_def)

lemma ts_equal_iff: "ts_equal a b \<longleftrightarrow> a = b"
  by (cases a; cases b) (simp add: ts_equal_def)

definition timeDifferenceMicroseconds :: "timestamp \<Rightarrow> timestamp \<Rightarrow> int" where
  "timeDifferenceMicroseconds high low = microsecondsSinceEpoch high - microsecondsSinceEpoch low"

definition timeDifferenceMilliseconds :: "timestamp \<Rightarrow> timestamp \<Rightarrow> int" where
  "timeDifferenceMilliseconds high low =
     (let diff = microsecondsSinceEpoch high - microsecondsSinceEpoch low
      in cdiv diff kMillisecondsPerSecond)"

definition timeDifference :: "timestamp \<Rightarrow> timestamp \<Rightarrow> double" where
  "timeDifference high low =
     (let diff = microsecondsSinceEpoch high - microsecondsSinceEpoch low
      in ddiv (dround (of_int diff)) (of_int kMicrosecondsPerSecond))"

definition addTime :: "timestamp \<Rightarrow> double \<Rightarrow> timestamp" where
  "addTime t seconds =
     (let delta = to_integer (dmult seconds (of_int kMicrosecondsPerSecond))
      in Timestamp (microsecondsSinceEpoch t + delta))"

text \<open>The two fields of the \<^verbatim>\<open>timespec\<close> that \<^verbatim>\<open>nanosleep\<close> gets.\<close>

definition sleepUsec :: "int \<Rightarrow> int \<times> int" where
  "sleepUsec usec =
     (cdiv usec kMicrosecondsPerSecond, cmod usec kMicrosecondsPerSecond * 1000)"

section \<open>Text\<close>

text \<open>\<^verbatim>\<open>%lu\<close> of a signed 64-bit argument.\<close>

definition as_u64 :: "int \<Rightarrow> nat" where
  "as_u64 i = nat (i mod 2 ^ 64)"

text \<open>\<^verbatim>\<open>%0nd\<close>: zeros go between the sign and the digits.\<close>

definition pad_int :: "nat \<Rightarrow> int \<Rightarrow> string" where
  "pad_int n i =
     (if i < 0 then CHR ''-'' # pad_left (n - 1) (CHR ''0'') (dec_nat (nat (- i)))
      else pad_left n (CHR ''0'') (dec_nat (nat i)))"

definition toString :: "timestamp \<Rightarrow> string" where
  "toString t =
     (let seconds = cdiv (microsecondsSinceEpoch t) kMicrosecondsPerSecond;
          microseconds = cmod (microsecondsSinceEpoch t) kMicrosecondsPerSecond
      in snprintf_cut 31 (dec_nat (as_u64 seconds) @ ''.'' @
           pad_left 6 (CHR ''0'') (dec_nat (as_u64 microseconds))))"

record tm =
  tm_year :: int
  tm_mon :: int
  tm_mday :: int
  tm_hour :: int
  tm_min :: int
  tm_sec :: int

definition toFormattedString :: "(int \<Rightarrow> tm) \<Rightarrow> bool \<Rightarrow> timestamp \<Rightarrow> string" where
  "toFormattedString gmtime showMicroseconds t =
     (let seconds = cdiv (microsecondsSinceEpoch t) kMicrosecondsPerSecond;
          tm_time = gmtime seconds;
          date = pad_left 4 (CHR '' '') (dec_int (tm_year tm_time + 1900)) @
                 pad_int 2 (tm_mon tm_time + 1) @ pad_int 2 (tm_mday tm_time) @ '' '' @
                 pad_int 2 (tm_hour tm_time) @ '':'' @ pad_int 2 (tm_min tm_time) @ '':'' @
                 pad_int 2 (tm_sec tm_time)
      in if showMicroseconds
         then snprintf_cut 32 (date @ ''.'' @
                pad_int 6 (to_int32 (cmod (microsecondsSinceEpoch t) kMicrosecondsPerSecond)))
         else snprintf_cut 32 date)"

section \<open>Lemmas\<close>

lemma kMicros [simp]: "kMicrosecondsPerSecond = 1000000"
  by (simp add: kMicrosecondsPerSecond_def)

lemma addTime_later: "0 \<le> d \<Longrightarrow> t \<le> addTime t d"
  by (simp add: addTime_def less_eq_timestamp_def dmult_def to_integer_nonneg dround_nonneg)

lemma addTime_whole_seconds:
  assumes "\<bar>n * 1000000\<bar> < 2 ^ 53"
  shows "addTime t (of_int n) = Timestamp (microsecondsSinceEpoch t + n * 1000000)"
proof -
  have "dmult (of_int n) (of_int kMicrosecondsPerSecond) = of_int (n * 1000000)"
    using dround_of_int [OF assms] by (simp add: dmult_def)
  then show ?thesis unfolding addTime_def Let_def by (simp only: to_integer_of_int)
qed

lemma pad_zeros_value: "digits_val 0 (pad_left n (CHR ''0'') s) = digits_val 0 s"
proof -
  have "digits_val 0 (replicate k (CHR ''0'') @ s) = digits_val 0 s" for k
    by (induction k) (simp_all add: isdigit_def digit_val_def)
  then show ?thesis by (simp add: pad_left_def)
qed

text \<open>The text of a timestamp, read back: the digits before and after the point.\<close>

definition parse_timestamp :: "string \<Rightarrow> int" where
  "parse_timestamp s =
     (let p = takeWhile (\<lambda>c. c \<noteq> CHR ''.'') s
      in int (digits_val 0 p) * 1000000 + int (digits_val 0 (drop (Suc (length p)) s)))"

lemma dec_nat_no_point: "CHR ''.'' \<notin> set (dec_nat n)"
  using isdigit_dec_nat [of "CHR ''.''" n] by (auto simp: isdigit_def)

lemma parse_timestamp_point:
  "parse_timestamp (dec_nat a @ CHR ''.'' # pad_left 6 (CHR ''0'') (dec_nat b)) =
     int a * 1000000 + int b"
proof -
  have "takeWhile (\<lambda>c. c \<noteq> CHR ''.'') (dec_nat a @ CHR ''.'' # r) = dec_nat a" for r
    using dec_nat_no_point [of a] by (subst takeWhile_append2) auto
  then show ?thesis
    by (simp add: parse_timestamp_def Let_def pad_zeros_value digits_val_dec_nat)
qed

section \<open>Properties\<close>

text \<open>
  Fact.  The text of a timestamp at or after the epoch never reaches the size of the
  31 bytes it is printed into, and its digits give the timestamp back: nothing is truncated and
  the six digits after the point keep their leading zeros.
\<close>

theorem toString_roundtrip:
  assumes "0 \<le> microsecondsSinceEpoch t" and "microsecondsSinceEpoch t < 2 ^ 63"
  shows "parse_timestamp (toString t) = microsecondsSinceEpoch t \<and> length (toString t) \<le> 20"
proof -
  let ?u = "microsecondsSinceEpoch t"
  let ?s = "nat (?u div 1000000)" and ?m = "nat (?u mod 1000000)"
  have s: "cdiv ?u 1000000 = int ?s" and m: "cmod ?u 1000000 = int ?m"
    using assms(1) by (simp_all add: cdiv_nonneg cmod_nonneg pos_imp_zdiv_nonneg_iff)
  have "?s < 10 ^ 13" "?m < 10 ^ 6"
    using assms by (simp_all add: nat_less_iff pos_imp_zdiv_nonneg_iff)
  then have l: "length (dec_nat ?s) \<le> 13" "length (dec_nat ?m) \<le> 6"
    and u: "as_u64 (int ?s) = ?s" "as_u64 (int ?m) = ?m"
    by (auto intro: length_dec_nat simp: as_u64_def)
  have "toString t = snprintf_cut 31 (dec_nat ?s @ CHR ''.'' # pad_left 6 (CHR ''0'') (dec_nat ?m))"
    unfolding toString_def Let_def kMicros s m u by simp
  then have "toString t = dec_nat ?s @ CHR ''.'' # pad_left 6 (CHR ''0'') (dec_nat ?m)"
    using l by (simp add: length_pad_left)
  moreover have "int ?s * 1000000 + int ?m = ?u"
    using assms(1) by (simp add: pos_imp_zdiv_nonneg_iff)
  ultimately show ?thesis
    using l by (simp add: parse_timestamp_point length_pad_left)
qed

theorem toString_roundtrip_witness:
  "parse_timestamp (toString (Timestamp 1500000000000042)) = 1500000000000042"
  using toString_roundtrip [of "Timestamp 1500000000000042"] by simp

text \<open>
  Fact.  \<^verbatim>\<open>sleepUsec\<close> hands \<^verbatim>\<open>nanosleep\<close> a legal \<^verbatim>\<open>timespec\<close> (nanoseconds below one
  second) that denotes exactly the requested duration.
\<close>

theorem sleepUsec_exact:
  assumes "0 \<le> usec"
  shows "case sleepUsec usec of (s, ns) \<Rightarrow>
    0 \<le> s \<and> 0 \<le> ns \<and> ns < 1000000000 \<and> s * 1000000000 + ns = usec * 1000"
proof -
  have "usec = usec div 1000000 * 1000000 + usec mod 1000000"
    by simp
  then have "usec div 1000000 * 1000000000 + usec mod 1000000 * 1000 = usec * 1000"
    by linarith
  with assms show ?thesis
    by (simp add: sleepUsec_def cdiv_nonneg cmod_nonneg pos_imp_zdiv_nonneg_iff)
qed

theorem sleepUsec_exact_witness: "sleepUsec 10000 = (0, 10000000) \<and> fst (sleepUsec 2500000) = 2"
proof -
  have "sleepUsec 10000 = (0, 10000000)"
    by (simp add: sleepUsec_def cdiv_def cmod_def)
  moreover have "fst (sleepUsec 2500000) = 2"
    using sleepUsec_exact [of 2500000] by (simp split: prod.splits)
  ultimately show ?thesis by simp
qed

end
