(* ===== verification/TimerQueues.thy ===== *)
theory TimerQueues
  imports TimeStamps "HOL-Library.Product_Lexorder"
begin

text \<open>
  \<^verbatim>\<open>src/Timer.h\<close>, \<^verbatim>\<open>src/Timer.cpp\<close>, \<^verbatim>\<open>src/TimerQueue.h\<close> and \<^verbatim>\<open>src/TimerQueue.cpp\<close>.  The
  \<^verbatim>\<open>Timer\<close> objects live in a heap, a map from addresses; the \<^verbatim>\<open>std::set\<close> of pairs is its sorted
  list.  A read of a deleted timer, of an erased set node or a failed assertion is an error value.
  Not part of the program and therefore arguments: the clock (one reading per call of
  \<^verbatim>\<open>Timestamp::now\<close>, numbered by \<open>ticks\<close>), \<^verbatim>\<open>timerfd_settime\<close>, the address that \<^verbatim>\<open>new\<close>
  returns, the result of \<^verbatim>\<open>read\<close> on the timer descriptor, and what a callback does.
\<close>

section \<open>Timers\<close>

record 'cb timer =
  callback :: 'cb
  expiration :: timestamp
  interval :: double
  repeats :: bool

definition new_timer :: "'cb \<Rightarrow> timestamp \<Rightarrow> double \<Rightarrow> 'cb timer" where
  "new_timer cb when iv =
     \<lparr>callback = cb, expiration = when, interval = iv, repeats = (0 < iv)\<rparr>"

definition restart :: "timestamp \<Rightarrow> 'cb timer \<Rightarrow> 'cb timer" where
  "restart now tm =
     (if repeats tm then tm\<lparr>expiration := addTime now (interval tm)\<rparr>
      else tm\<lparr>expiration := ts_invalid\<rparr>)"

section \<open>The queue\<close>

record 'cb timer_queue =
  heap :: "nat \<Rightarrow> 'cb timer option"
  timers :: "(timestamp \<times> nat) list"
  cancelingTimers :: "nat list"
  callingExpiredTimers :: bool
  timerfd :: "(int \<times> int) option"
  ticks :: nat

record env =
  clock :: "nat \<Rightarrow> timestamp"
  settime :: "int \<times> int \<Rightarrow> int"

definition UINTPTR_MAX :: nat where
  "UINTPTR_MAX = 2 ^ 64 - 1"

definition new_timer_queue :: "'cb timer_queue" where
  "new_timer_queue =
     \<lparr>heap = (\<lambda>_. None), timers = [], cancelingTimers = [], callingExpiredTimers = False,
      timerfd = None, ticks = 0\<rparr>"

definition howMuchTimeFromNow :: "timestamp \<Rightarrow> timestamp \<Rightarrow> int \<times> int" where
  "howMuchTimeFromNow when now =
     (let d = microsecondsSinceEpoch when - microsecondsSinceEpoch now;
          microseconds = (if d < 100 then 100 else d)
      in (cdiv microseconds kMicrosecondsPerSecond,
          cmod microseconds kMicrosecondsPerSecond * 1000))"

definition resetTimerfd :: "env \<Rightarrow> timestamp \<Rightarrow> 'cb timer_queue \<Rightarrow> 'cb timer_queue res" where
  "resetTimerfd E when q =
     (let newValue = howMuchTimeFromNow when (clock E (ticks q)) in
      if settime E newValue \<noteq> 0 then Inl AssertionFailed
      else Inr (q\<lparr>timerfd := Some newValue, ticks := Suc (ticks q)\<rparr>))"

text \<open>\<^verbatim>\<open>insert\<close> returns whether the new timer is now the earliest.\<close>

definition q_insert :: "nat \<Rightarrow> 'cb timer_queue \<Rightarrow> (bool \<times> 'cb timer_queue) res" where
  "q_insert a q =
     (case heap q a of None \<Rightarrow> Inl UseAfterFree
      | Some tm \<Rightarrow>
          (let when = expiration tm;
               earliestChanged = (case timers q of [] \<Rightarrow> True | x # _ \<Rightarrow> when < fst x)
           in assertR ((when, a) \<notin> set (timers q))
                (Inr (earliestChanged, q\<lparr>timers := insort (when, a) (timers q)\<rparr>))))"

definition addTimer ::
  "env \<Rightarrow> nat \<Rightarrow> 'cb \<Rightarrow> timestamp \<Rightarrow> double \<Rightarrow> 'cb timer_queue \<Rightarrow> 'cb timer_queue res" where
  "addTimer E a cb when iv q =
     bindR (q_insert a (q\<lparr>heap := (heap q)(a \<mapsto> new_timer cb when iv)\<rparr>))
       (\<lambda>(earliestChanged, q').
          if earliestChanged then resetTimerfd E when q' else Inr q')"

text \<open>
  The operations of \<^verbatim>\<open>std::set\<close> that \<^verbatim>\<open>cancel\<close> uses.  An iterator is the element of its node, or
  \<^verbatim>\<open>end()\<close>; it can be read as long as its node is in the set.  \<^verbatim>\<open>erase\<close> returns how many elements
  it has removed.
\<close>

definition set_find :: "'a \<Rightarrow> 'a list \<Rightarrow> 'a option" where
  "set_find x xs = (if x \<in> set xs then Some x else None)"

definition set_erase :: "'a \<Rightarrow> 'a list \<Rightarrow> nat \<times> 'a list" where
  "set_erase x xs = (length (filter (\<lambda>y. y = x) xs), filter (\<lambda>y. y \<noteq> x) xs)"

definition set_deref :: "'a option \<Rightarrow> 'a list \<Rightarrow> 'a res" where
  "set_deref it xs =
     (case it of None \<Rightarrow> Inl OutOfBounds | Some x \<Rightarrow> if x \<in> set xs then Inr x else Inl UseAfterFree)"

definition delete_timer :: "nat \<Rightarrow> 'cb timer_queue \<Rightarrow> 'cb timer_queue res" where
  "delete_timer a q =
     (case heap q a of None \<Rightarrow> Inl UseAfterFree | Some tm \<Rightarrow> Inr (q\<lparr>heap := (heap q)(a := None)\<rparr>))"

definition cancel :: "nat \<Rightarrow> 'cb timer_queue \<Rightarrow> 'cb timer_queue res" where
  "cancel a q =
     (case heap q a of None \<Rightarrow> Inl UseAfterFree
      | Some tm \<Rightarrow>
          (let when = expiration tm;
               it = set_find (when, a) (timers q)
           in if it \<noteq> None
              then (case set_erase (when, a) (timers q) of (n, ts) \<Rightarrow>
                      let q = q\<lparr>timers := ts\<rparr>
                      in assertR (n = 1)
                           (bindR (set_deref it (timers q)) (\<lambda>x. delete_timer (snd x) q)))
              else if callingExpiredTimers q
              then Inr (q\<lparr>cancelingTimers := List.insert a (cancelingTimers q)\<rparr>)
              else Inr q))"

definition sentry :: "timestamp \<Rightarrow> timestamp \<times> nat" where
  "sentry now = (now, UINTPTR_MAX)"

definition getExpired ::
  "timestamp \<Rightarrow> 'cb timer_queue \<Rightarrow> ((timestamp \<times> nat) list \<times> 'cb timer_queue) res" where
  "getExpired now q =
     (let expired = takeWhile (\<lambda>x. x < sentry now) (timers q);
          rest = dropWhile (\<lambda>x. x < sentry now) (timers q)
      in assertR (rest = [] \<or> now < fst (hd rest)) (Inr (expired, q\<lparr>timers := rest\<rparr>)))"

definition reset_one :: "timestamp \<Rightarrow> timestamp \<times> nat \<Rightarrow> 'cb timer_queue \<Rightarrow> 'cb timer_queue res" where
  "reset_one now x q =
     (case heap q (snd x) of None \<Rightarrow> Inl UseAfterFree
      | Some tm \<Rightarrow>
          if repeats tm \<and> snd x \<notin> set (cancelingTimers q)
          then bindR (q_insert (snd x) (q\<lparr>heap := (heap q)(snd x \<mapsto> restart now tm)\<rparr>))
                 (\<lambda>r. Inr (snd r))
          else Inr (q\<lparr>heap := (heap q)(snd x := None)\<rparr>))"

definition reset_tail :: "env \<Rightarrow> 'cb timer_queue \<Rightarrow> 'cb timer_queue res" where
  "reset_tail E q =
     (case timers q of [] \<Rightarrow> Inr q
      | x # _ \<Rightarrow>
          (case heap q (snd x) of None \<Rightarrow> Inl UseAfterFree
           | Some tm \<Rightarrow>
               (let nextExpire = expiration tm
                in if valid nextExpire then resetTimerfd E nextExpire q else Inr q)))"

definition reset ::
  "env \<Rightarrow> (timestamp \<times> nat) list \<Rightarrow> timestamp \<Rightarrow> 'cb timer_queue \<Rightarrow> 'cb timer_queue res" where
  "reset E expired now q = bindR (runR (reset_one now) expired q) (reset_tail E)"

definition run_timer ::
  "('cb \<Rightarrow> 'cb timer_queue \<Rightarrow> 'cb timer_queue res) \<Rightarrow> timestamp \<times> nat \<Rightarrow>
   'cb timer_queue \<Rightarrow> 'cb timer_queue res" where
  "run_timer call x q =
     (case heap q (snd x) of None \<Rightarrow> Inl UseAfterFree | Some tm \<Rightarrow> call (callback tm) q)"

text \<open>\<open>n\<close> is what \<^verbatim>\<open>read(timerfd, \<dots>)\<close> returns.\<close>

definition handleRead ::
  "env \<Rightarrow> ('cb \<Rightarrow> 'cb timer_queue \<Rightarrow> 'cb timer_queue res) \<Rightarrow> int \<Rightarrow>
   'cb timer_queue \<Rightarrow> 'cb timer_queue res" where
  "handleRead E call n q =
     (let now = clock E (ticks q); q = q\<lparr>ticks := Suc (ticks q)\<rparr> in
      assertR (n = 8)
        (bindR (getExpired now (q\<lparr>cancelingTimers := []\<rparr>))
          (\<lambda>(expired, q1).
             bindR (runR (run_timer call) expired (q1\<lparr>callingExpiredTimers := True\<rparr>))
               (\<lambda>q2. reset E expired now (q2\<lparr>callingExpiredTimers := False\<rparr>)))))"

definition destroy_timer_queue :: "'cb timer_queue \<Rightarrow> 'cb timer_queue" where
  "destroy_timer_queue q =
     fold (\<lambda>x q. q\<lparr>heap := (heap q)(snd x := None)\<rparr>) (timers q) q"

section \<open>The timespec handed to the kernel\<close>

definition settime_ok :: "env \<Rightarrow> bool" where
  "settime_ok E \<longleftrightarrow> (\<forall>s n. 0 \<le> s \<longrightarrow> 0 \<le> n \<longrightarrow> n < 1000000000 \<longrightarrow> settime E (s, n) = 0)"

lemma howMuch_exact:
  "case howMuchTimeFromNow when now of (s, n) \<Rightarrow>
     0 \<le> s \<and> 0 \<le> n \<and> n < 1000000000 \<and>
     s * 1000000 + n div 1000 = max 100 (microsecondsSinceEpoch when - microsecondsSinceEpoch now)"
proof -
  let ?m = "max 100 (microsecondsSinceEpoch when - microsecondsSinceEpoch now)"
  have "(if microsecondsSinceEpoch when - microsecondsSinceEpoch now < 100 then 100
      else microsecondsSinceEpoch when - microsecondsSinceEpoch now) = ?m"
    by simp
  moreover have "?m div 1000000 * 1000000 + ?m mod 1000000 = ?m"
    by (simp only: div_mult_mod_eq)
  moreover have "0 \<le> ?m" by simp
  moreover have "0 \<le> ?m div 1000000" "0 \<le> ?m mod 1000000" "?m mod 1000000 < 1000000"
    by (simp_all add: pos_imp_zdiv_nonneg_iff)
  ultimately show ?thesis
    unfolding howMuchTimeFromNow_def Let_def kMicros
    by (simp only: cdiv_nonneg cmod_nonneg zero_less_numeral) simp
qed

lemma resetTimerfd_ok:
  assumes "settime_ok E"
  shows "resetTimerfd E when q =
    Inr (q\<lparr>timerfd := Some (howMuchTimeFromNow when (clock E (ticks q))), ticks := Suc (ticks q)\<rparr>)"
  using assms howMuch_exact [of "when" "clock E (ticks q)"]
  by (auto simp: resetTimerfd_def settime_ok_def split: prod.splits)

section \<open>The invariant\<close>

text \<open>
  \<open>X\<close> are the addresses that \<^verbatim>\<open>handleRead\<close> has taken out of the set and not yet put back or
  deleted; it is empty between two calls.  Each live timer is owned exactly once: by the set or
  by \<open>X\<close>.
\<close>

definition tq_inv :: "nat set \<Rightarrow> 'cb timer_queue \<Rightarrow> bool" where
  "tq_inv X q \<longleftrightarrow> sorted_wrt (<) (timers q) \<and>
     (\<forall>t a. (t, a) \<in> set (timers q) \<longrightarrow> (\<exists>tm. heap q a = Some tm \<and> expiration tm = t)) \<and>
     dom (heap q) = snd ` set (timers q) \<union> X \<and> (\<forall>t a. a \<in> X \<longrightarrow> (t, a) \<notin> set (timers q)) \<and>
     (\<forall>a \<in> dom (heap q). a < UINTPTR_MAX)"

lemma sorted_wrt_insort:
  "sorted_wrt (<) xs \<Longrightarrow> x \<notin> set xs \<Longrightarrow> sorted_wrt (<) (insort (x::'a::linorder) xs)"
  by (simp add: strict_sorted_iff sorted_insort distinct_insort)

lemma tq_inv_entry:
  "tq_inv X q \<Longrightarrow> (t, a) \<in> set (timers q) \<Longrightarrow> \<exists>tm. heap q a = Some tm \<and> expiration tm = t"
  by (auto simp: tq_inv_def)

lemma tq_inv_X: "tq_inv X q \<Longrightarrow> a \<in> X \<Longrightarrow> \<exists>tm. heap q a = Some tm"
  by (auto simp: tq_inv_def)

lemma tq_inv_X_out: "tq_inv X q \<Longrightarrow> a \<in> X \<Longrightarrow> (t, a) \<notin> set (timers q)"
  unfolding tq_inv_def by blast

lemma tq_inv_entry_dom: "tq_inv X q \<Longrightarrow> x \<in> set (timers q) \<Longrightarrow> snd x \<in> dom (heap q)"
  unfolding tq_inv_def by blast

lemma tq_inv_addr: "tq_inv X q \<Longrightarrow> a \<in> dom (heap q) \<Longrightarrow> a < UINTPTR_MAX"
  by (simp add: tq_inv_def)

lemma tq_invI:
  assumes "sorted_wrt (<) (timers q)"
    and "\<And>t a. (t, a) \<in> set (timers q) \<Longrightarrow> \<exists>tm. heap q a = Some tm \<and> expiration tm = t"
    and "dom (heap q) = snd ` set (timers q) \<union> X"
    and "\<And>t a. a \<in> X \<Longrightarrow> (t, a) \<notin> set (timers q)"
    and "\<And>a. a \<in> dom (heap q) \<Longrightarrow> a < UINTPTR_MAX"
  shows "tq_inv X q"
  unfolding tq_inv_def using assms by blast

lemma tq_inv_sorted: "tq_inv X q \<Longrightarrow> sorted_wrt (<) (timers q)"
  by (simp add: tq_inv_def)

lemma tq_inv_dom: "tq_inv X q \<Longrightarrow> dom (heap q) = snd ` set (timers q) \<union> X"
  by (simp add: tq_inv_def)

lemma tq_inv_unique:
  assumes "tq_inv X q" "(t, a) \<in> set (timers q)" "(t', a) \<in> set (timers q)"
  shows "t = t'"
  using tq_inv_entry [OF assms(1,2)] tq_inv_entry [OF assms(1,3)] by auto

lemma tq_inv_owner:
  assumes "tq_inv X q" "heap q a = Some tm" "a \<notin> X"
  shows "(expiration tm, a) \<in> set (timers q)"
proof -
  from assms tq_inv_dom [OF assms(1)] have "a \<in> snd ` set (timers q)" by blast
  then obtain t where "(t, a) \<in> set (timers q)" by auto
  with tq_inv_entry [OF assms(1) this] assms(2) show ?thesis by auto
qed

lemma tq_inv_free:
  assumes "tq_inv (insert a X) q" "a \<notin> X"
  shows "tq_inv X (q\<lparr>heap := (heap q)(a := None)\<rparr>)"
proof (rule tq_invI)
  have out: "b \<noteq> a" if "(t, b) \<in> set (timers q)" for t b
    using tq_inv_X_out [OF assms(1), of b t] that by blast
  then have "a \<notin> snd ` set (timers q)" by force
  with tq_inv_dom [OF assms(1)] assms(2)
  show "dom (heap (q\<lparr>heap := (heap q)(a := None)\<rparr>)) =
      snd ` set (timers (q\<lparr>heap := (heap q)(a := None)\<rparr>)) \<union> X"
    by auto
  show "\<exists>tm. heap (q\<lparr>heap := (heap q)(a := None)\<rparr>) b = Some tm \<and> expiration tm = t"
    if "(t, b) \<in> set (timers (q\<lparr>heap := (heap q)(a := None)\<rparr>))" for t b
    using that out [of t b] tq_inv_entry [OF assms(1), of t b] by simp
qed (use assms tq_inv_sorted [OF assms(1)] tq_inv_X_out [OF assms(1)] tq_inv_addr [OF assms(1)]
    in \<open>auto split: if_splits\<close>)

lemma tq_inv_cong:
  "heap q' = heap q \<Longrightarrow> timers q' = timers q \<Longrightarrow> tq_inv X q' = tq_inv X q"
  by (simp add: tq_inv_def)

text \<open>Putting a timer that the set does not hold into it.\<close>

lemma q_insert_ok:
  fixes tm :: "'cb timer" and q :: "'cb timer_queue"
  assumes inv: "tq_inv X q" and new: "a \<in> X \<or> a \<notin> dom (heap q)" and addr: "a < UINTPTR_MAX"
  defines "q1 \<equiv> q\<lparr>heap := (heap q)(a \<mapsto> tm)\<rparr>"
  shows "\<exists>e. q_insert a q1 = Inr (e, q1\<lparr>timers := insort (expiration tm, a) (timers q)\<rparr>) \<and>
           tq_inv (X - {a}) (q1\<lparr>timers := insort (expiration tm, a) (timers q)\<rparr>)"
proof -
  let ?q2 = "q1\<lparr>timers := insort (expiration tm, a) (timers q)\<rparr>"
  have fresh: "(t, a) \<notin> set (timers q)" for t
    using new tq_inv_X_out [OF inv] tq_inv_entry_dom [OF inv, of "(t, a)"] by auto
  have inv2: "tq_inv (X - {a}) ?q2"
  proof (rule tq_invI)
    show "sorted_wrt (<) (timers ?q2)"
      using sorted_wrt_insort [OF tq_inv_sorted [OF inv] fresh] by simp
    show "\<exists>u. heap ?q2 b = Some u \<and> expiration u = t" if "(t, b) \<in> set (timers ?q2)" for t b
      using that fresh [of t] tq_inv_entry [OF inv, of t b] by (auto simp: q1_def set_insort_key)
    show "dom (heap ?q2) = snd ` set (timers ?q2) \<union> (X - {a})"
      using tq_inv_dom [OF inv] by (auto simp: q1_def set_insort_key)
    show "(t, b) \<notin> set (timers ?q2)" if "b \<in> X - {a}" for t b
      using that tq_inv_X_out [OF inv, of b t] by (auto simp: set_insort_key)
    show "b < UINTPTR_MAX" if "b \<in> dom (heap ?q2)" for b
      using that addr tq_inv_addr [OF inv, of b] by (auto simp: q1_def split: if_splits)
  qed
  with fresh show ?thesis by (simp add: q_insert_def q1_def assertR_def Let_def)
qed

lemma addTimer_ok:
  assumes inv: "tq_inv X q" and new: "a \<notin> dom (heap q)" and addr: "a < UINTPTR_MAX"
    and E: "settime_ok E"
  shows "\<exists>q'. addTimer E a cb when iv q = Inr q' \<and> tq_inv X q' \<and>
    heap q' = (heap q)(a \<mapsto> new_timer cb when iv) \<and>
    timers q' = insort (when, a) (timers q) \<and>
    cancelingTimers q' = cancelingTimers q \<and> callingExpiredTimers q' = callingExpiredTimers q"
proof -
  let ?tm = "new_timer cb when iv"
  let ?q = "q\<lparr>heap := (heap q)(a \<mapsto> ?tm), timers := insort (when, a) (timers q)\<rparr>"
  have at: "expiration ?tm = when" by (simp add: new_timer_def)
  have "X - {a} = X"
    using inv new by (auto simp: tq_inv_def)
  with q_insert_ok [OF inv disjI2 [OF new] addr, of ?tm] at
  obtain e where e: "q_insert a (q\<lparr>heap := (heap q)(a \<mapsto> ?tm)\<rparr>) = Inr (e, ?q)" "tq_inv X ?q"
    by auto
  show ?thesis
  proof (cases e)
    case True
    let ?q' = "?q\<lparr>timerfd := Some (howMuchTimeFromNow when (clock E (ticks ?q))), ticks := Suc (ticks ?q)\<rparr>"
    have "addTimer E a cb when iv q = Inr ?q'"
      using e(1) True resetTimerfd_ok [OF E, of "when" ?q] by (simp add: addTimer_def)
    moreover have "tq_inv X ?q'"
      by (rule iffD2 [OF tq_inv_cong e(2)]) simp_all
    ultimately show ?thesis by (intro exI [of _ ?q'] conjI) simp_all
  next
    case False
    with e show ?thesis by (simp add: addTimer_def)
  qed
qed

section \<open>Taking out the expired timers\<close>

lemma sentry_less: "a < UINTPTR_MAX \<Longrightarrow> (t, a) < sentry now \<longleftrightarrow> t \<le> now"
  by (auto simp: sentry_def less_prod_def' order_le_less)

lemma sorted_takeWhile_filter:
  assumes "sorted_wrt (<) (xs :: 'a::linorder list)"
  shows "takeWhile (\<lambda>x. x < y) xs = filter (\<lambda>x. x < y) xs"
    and "dropWhile (\<lambda>x. x < y) xs = filter (\<lambda>x. \<not> x < y) xs"
proof -
  have "takeWhile (\<lambda>x. x < y) xs = filter (\<lambda>x. x < y) xs \<and>
        dropWhile (\<lambda>x. x < y) xs = filter (\<lambda>x. \<not> x < y) xs"
    using assms
  proof (induction xs)
    case (Cons x xs)
    then show ?case
    proof (cases "x < y")
      case False
      then have "\<forall>z\<in>set xs. \<not> z < y" using Cons.prems by auto
      with False show ?thesis by (auto simp: filter_empty_conv filter_id_conv)
    qed auto
  qed simp
  then show "takeWhile (\<lambda>x. x < y) xs = filter (\<lambda>x. x < y) xs"
    and "dropWhile (\<lambda>x. x < y) xs = filter (\<lambda>x. \<not> x < y) xs" by blast+
qed

lemma getExpired_filter:
  assumes inv: "tq_inv {} q"
  shows "getExpired now q =
    Inr (filter (\<lambda>x. fst x \<le> now) (timers q), q\<lparr>timers := filter (\<lambda>x. now < fst x) (timers q)\<rparr>)"
proof -
  have lt: "x < sentry now \<longleftrightarrow> fst x \<le> now" if "x \<in> set (timers q)" for x
    using tq_inv_addr [OF inv tq_inv_entry_dom [OF inv that]] sentry_less [of "snd x" "fst x" now]
    by simp
  have sorted: "sorted_wrt (<) (timers q)"
    using inv by (simp add: tq_inv_def)
  have f: "filter (\<lambda>x. x < sentry now) (timers q) = filter (\<lambda>x. fst x \<le> now) (timers q)"
    "filter (\<lambda>x. \<not> x < sentry now) (timers q) = filter (\<lambda>x. now < fst x) (timers q)"
    using lt by (auto intro!: filter_cong simp: not_le)
  let ?r = "filter (\<lambda>x. now < fst x) (timers q)"
  have "?r = [] \<or> now < fst (hd ?r)"
    using hd_in_set [of ?r] by auto
  then show ?thesis
    using sorted_takeWhile_filter [OF sorted, of "sentry now"] f by (simp add: getExpired_def Let_def)
qed

lemma getExpired_inv:
  assumes inv: "tq_inv {} q"
  shows "tq_inv (snd ` {x \<in> set (timers q). fst x \<le> now})
    (q\<lparr>timers := filter (\<lambda>x. now < fst x) (timers q)\<rparr>)"
proof (rule tq_invI)
  let ?q = "q\<lparr>timers := filter (\<lambda>x. now < fst x) (timers q)\<rparr>"
  show "(t, a) \<notin> set (timers ?q)" if "a \<in> snd ` {x \<in> set (timers q). fst x \<le> now}" for t a
    using that tq_inv_unique [OF inv, of t a] by fastforce
  show "dom (heap ?q) = snd ` set (timers ?q) \<union> snd ` {x \<in> set (timers q). fst x \<le> now}"
    using tq_inv_dom [OF inv] by force
qed (use tq_inv_sorted [OF inv] tq_inv_entry [OF inv] tq_inv_addr [OF inv]
    in \<open>auto simp: sorted_wrt_filter\<close>)

section \<open>Putting the expired timers back\<close>

definition kept :: "'cb timer_queue \<Rightarrow> nat \<Rightarrow> 'cb timer \<Rightarrow> bool" where
  "kept q a tm \<longleftrightarrow> repeats tm \<and> a \<notin> set (cancelingTimers q)"

lemma reset_one_ok:
  assumes inv: "tq_inv (insert a X) q" and aX: "a \<notin> X" and tm: "heap q a = Some tm"
  shows "\<exists>q'. reset_one now (t, a) q = Inr q' \<and> tq_inv X q' \<and>
    heap q' = (heap q)(a := (if kept q a tm then Some (restart now tm) else None)) \<and>
    cancelingTimers q' = cancelingTimers q \<and>
    callingExpiredTimers q' = callingExpiredTimers q"
proof (cases "kept q a tm")
  case True
  have "a < UINTPTR_MAX" using inv tm by (auto simp: tq_inv_def)
  from q_insert_ok [OF inv disjI1 [OF insertI1] this, of "restart now tm"] True tm aX
  show ?thesis by (auto simp: reset_one_def kept_def)
next
  case False
  with tq_inv_free [OF inv aX] tm show ?thesis by (auto simp: reset_one_def kept_def)
qed

lemma reset_list_ok:
  assumes "tq_inv (snd ` set xs) q" and "distinct (map snd xs)"
  shows "\<exists>q'. runR (reset_one now) xs q = Inr q' \<and> tq_inv {} q' \<and>
    (\<forall>a. heap q' a =
       (if a \<in> snd ` set xs
        then (case heap q a of None \<Rightarrow> None
              | Some tm \<Rightarrow> if kept q a tm then Some (restart now tm) else None)
        else heap q a)) \<and>
    callingExpiredTimers q' = callingExpiredTimers q"
  using assms
proof (induction xs arbitrary: q)
  case (Cons x xs)
  obtain t a where x: "x = (t, a)" by force
  from Cons.prems x obtain tm where tm: "heap q a = Some tm"
    using tq_inv_X [of _ q a] by force
  have aX: "a \<notin> snd ` set xs" using Cons.prems x by auto
  from Cons.prems(1) x have "tq_inv (insert a (snd ` set xs)) q" by simp
  from reset_one_ok [OF this aX tm, of now t] obtain q1 where q1:
    "reset_one now (t, a) q = Inr q1" "tq_inv (snd ` set xs) q1"
    "heap q1 = (heap q)(a := (if kept q a tm then Some (restart now tm) else None))"
    "cancelingTimers q1 = cancelingTimers q" "callingExpiredTimers q1 = callingExpiredTimers q"
    by blast
  from Cons.IH [OF q1(2)] Cons.prems(2) obtain q2 where q2:
    "runR (reset_one now) xs q1 = Inr q2" "tq_inv {} q2"
    "\<forall>b. heap q2 b =
       (if b \<in> snd ` set xs
        then (case heap q1 b of None \<Rightarrow> None
              | Some tm \<Rightarrow> if kept q1 b tm then Some (restart now tm) else None)
        else heap q1 b)"
    "callingExpiredTimers q2 = callingExpiredTimers q1"
    by auto
  have "heap q2 b = (if b \<in> snd ` set (x # xs)
        then (case heap q b of None \<Rightarrow> None
              | Some tm \<Rightarrow> if kept q b tm then Some (restart now tm) else None)
        else heap q b)" for b
  proof (cases "b = a")
    case True
    with q2(3) q1(3) tm aX x show ?thesis by simp
  next
    case False
    then have "heap q1 b = heap q b" "kept q1 b = kept q b"
      using q1(3,4) by (auto simp: kept_def fun_eq_iff)
    with q2(3) x False show ?thesis by (simp split: option.split)
  qed
  with q1 q2 x show ?case by simp
qed simp

text \<open>The descriptor is armed for the earliest timer whenever the set has one.\<close>

definition armed :: "env \<Rightarrow> 'cb timer_queue \<Rightarrow> bool" where
  "armed E q \<longleftrightarrow>
     (case timers q of [] \<Rightarrow> True
      | x # _ \<Rightarrow> valid (fst x) \<longrightarrow>
          (\<exists>k. timerfd q = Some (howMuchTimeFromNow (fst x) (clock E k))))"

lemma armed_cong: "timers q' = timers q \<Longrightarrow> timerfd q' = timerfd q \<Longrightarrow> armed E q' = armed E q"
  by (cases "timers q") (simp_all add: armed_def)

lemma reset_tail_ok:
  assumes inv: "tq_inv {} q" and E: "settime_ok E"
  shows "\<exists>q'. reset_tail E q = Inr q' \<and> armed E q' \<and> heap q' = heap q \<and>
    timers q' = timers q \<and> callingExpiredTimers q' = callingExpiredTimers q"
proof (cases "timers q")
  case Nil
  then show ?thesis by (simp add: reset_tail_def armed_def)
next
  case (Cons x xs)
  then obtain tm where "heap q (snd x) = Some tm" "expiration tm = fst x"
    using tq_inv_entry [OF inv, of "fst x" "snd x"] by auto
  then have "reset_tail E q = (if valid (fst x) then resetTimerfd E (fst x) q else Inr q)"
    using Cons by (simp add: reset_tail_def)
  with Cons show ?thesis
    by (cases "valid (fst x)") (auto simp: armed_def resetTimerfd_ok [OF E])
qed

section \<open>One firing of the descriptor\<close>

text \<open>The timers that a firing takes out: those due at the time that \<^verbatim>\<open>handleRead\<close> reads.\<close>

definition due :: "env \<Rightarrow> 'cb timer_queue \<Rightarrow> nat set" where
  "due E q = snd ` {x \<in> set (timers q). fst x \<le> clock E (ticks q)}"

text \<open>
  What a callback that is run in a firing may do: from every state of the queue in which the timers
  \<open>X\<close> are being fired, it returns, keeps the invariant and does not touch the timers of \<open>X\<close>, except
  by cancelling them.  \<open>firing_ok\<close> asks this of the callbacks of the timers that are due, and only of
  these.
\<close>

definition keeps_queue :: "nat set \<Rightarrow> ('cb timer_queue \<Rightarrow> 'cb timer_queue res) \<Rightarrow> bool" where
  "keeps_queue X f \<longleftrightarrow>
     (\<forall>q. tq_inv X q \<longrightarrow> callingExpiredTimers q \<longrightarrow>
        (\<exists>q'. f q = Inr q' \<and> tq_inv X q' \<and> callingExpiredTimers q' \<and> (\<forall>a\<in>X. heap q' a = heap q a)))"

definition firing_ok ::
  "env \<Rightarrow> ('cb \<Rightarrow> 'cb timer_queue \<Rightarrow> 'cb timer_queue res) \<Rightarrow> 'cb timer_queue \<Rightarrow> bool" where
  "firing_ok E call q \<longleftrightarrow>
     (\<forall>a tm. a \<in> due E q \<longrightarrow> heap q a = Some tm \<longrightarrow> keeps_queue (due E q) (call (callback tm)))"

text \<open>Callbacks of this kind: doing nothing, cancelling a timer being fired, adding a timer, one after another.\<close>

lemma keeps_queue_nothing: "keeps_queue X Inr"
  by (simp add: keeps_queue_def)

lemma cancel_fired:
  assumes "tq_inv X q" "a \<in> X"
  shows "cancel a q = Inr (if callingExpiredTimers q
      then q\<lparr>cancelingTimers := List.insert a (cancelingTimers q)\<rparr> else q)"
proof -
  from tq_inv_X [OF assms] obtain tm where "heap q a = Some tm" by blast
  with tq_inv_X_out [OF assms] show ?thesis by (simp add: cancel_def set_find_def)
qed

lemma keeps_queue_cancel: "a \<in> X \<Longrightarrow> keeps_queue X (cancel a)"
  by (simp add: keeps_queue_def cancel_fired) (simp add: tq_inv_def)

lemma keeps_queue_addTimer:
  assumes E: "settime_ok E" and addr: "a < UINTPTR_MAX"
  shows "keeps_queue X (\<lambda>q. if a \<in> dom (heap q) then Inr q else addTimer E a cb when iv q)"
  unfolding keeps_queue_def
proof (intro allI impI)
  fix q :: "'a timer_queue" assume q: "tq_inv X q" "callingExpiredTimers q"
  show "\<exists>q'. (if a \<in> dom (heap q) then Inr q else addTimer E a cb when iv q) = Inr q' \<and>
      tq_inv X q' \<and> callingExpiredTimers q' \<and> (\<forall>b\<in>X. heap q' b = heap q b)"
  proof (cases "a \<in> dom (heap q)")
    case False
    then have "a \<notin> X" using tq_inv_dom [OF q(1)] by blast
    with addTimer_ok [OF q(1) False addr E, of cb "when" iv] False q(2) show ?thesis by auto
  qed (use q in auto)
qed

lemma keeps_queue_seq: "keeps_queue X f \<Longrightarrow> keeps_queue X g \<Longrightarrow> keeps_queue X (\<lambda>q. bindR (f q) g)"
  unfolding keeps_queue_def by fastforce

lemma run_timers_ok:
  assumes call: "firing_ok E call q0"
    and "tq_inv (due E q0) q" "callingExpiredTimers q" "snd ` set xs \<subseteq> due E q0"
    and "\<forall>a\<in>due E q0. heap q a = heap q0 a"
  shows "\<exists>q'. runR (run_timer call) xs q = Inr q' \<and> tq_inv (due E q0) q' \<and> callingExpiredTimers q' \<and>
    (\<forall>a\<in>due E q0. heap q' a = heap q a)"
  using assms(2-5)
proof (induction xs arbitrary: q)
  case (Cons x xs)
  then have x: "snd x \<in> due E q0" by simp
  then obtain tm where tm: "heap q (snd x) = Some tm"
    using tq_inv_X [OF Cons.prems(1)] by blast
  with Cons.prems(4) x have "heap q0 (snd x) = Some tm" by simp
  with call x have "keeps_queue (due E q0) (call (callback tm))" by (simp add: firing_ok_def)
  with Cons.prems obtain q1 where q1: "call (callback tm) q = Inr q1" "tq_inv (due E q0) q1"
    "callingExpiredTimers q1" "\<forall>a\<in>due E q0. heap q1 a = heap q a"
    unfolding keeps_queue_def by blast
  from Cons.IH [OF q1(2,3)] Cons.prems q1(4) obtain q2 where "runR (run_timer call) xs q1 = Inr q2"
    "tq_inv (due E q0) q2" "callingExpiredTimers q2" "\<forall>a\<in>due E q0. heap q2 a = heap q1 a"
    by auto
  with q1 tm show ?case by (auto simp: run_timer_def [of _ x])
qed simp

text \<open>The state after the callbacks have run, which decides what \<^verbatim>\<open>reset\<close> does.\<close>

definition fired ::
  "env \<Rightarrow> ('cb \<Rightarrow> 'cb timer_queue \<Rightarrow> 'cb timer_queue res) \<Rightarrow> 'cb timer_queue \<Rightarrow>
   'cb timer_queue res" where
  "fired E call q =
     (let now = clock E (ticks q) in
      runR (run_timer call) (filter (\<lambda>x. fst x \<le> now) (timers q))
        (q\<lparr>ticks := Suc (ticks q), cancelingTimers := [],
           timers := filter (\<lambda>x. now < fst x) (timers q), callingExpiredTimers := True\<rparr>))"

lemma tq_inv_distinct: "tq_inv X q \<Longrightarrow> distinct (map snd (timers q))"
proof -
  assume inv: "tq_inv X q"
  then have "distinct (timers q)" by (simp add: tq_inv_def strict_sorted_iff)
  moreover have "inj_on snd (set (timers q))"
  proof (rule inj_onI)
    fix x y assume "x \<in> set (timers q)" "y \<in> set (timers q)" "snd x = snd y"
    then have "fst x = fst y"
      by (intro tq_inv_unique [OF inv, of "fst x" "snd x" "fst y"]) (simp_all, metis prod.collapse)
    from this \<open>snd x = snd y\<close> show "x = y" by (rule prod_eqI)
  qed
  ultimately show ?thesis by (simp add: distinct_map)
qed

lemma fired_ok:
  fixes E :: env and q :: "'cb timer_queue"
  assumes inv: "tq_inv {} q" and call: "firing_ok E call q"
  shows "\<exists>q2. fired E call q = Inr q2 \<and> tq_inv (due E q) q2 \<and> (\<forall>a\<in>due E q. heap q2 a = heap q a)"
proof -
  let ?now = "clock E (ticks q)"
  let ?q1 = "q\<lparr>ticks := Suc (ticks q), cancelingTimers := [],
           timers := filter (\<lambda>x. ?now < fst x) (timers q), callingExpiredTimers := True\<rparr>"
  have "tq_inv (due E q) ?q1"
    using getExpired_inv [OF inv, of ?now] unfolding due_def by (simp add: tq_inv_def)
  from run_timers_ok [OF call this, of "filter (\<lambda>x. fst x \<le> ?now) (timers q)"]
  show ?thesis by (auto simp: fired_def due_def Let_def)
qed

lemma handleRead_runs:
  assumes inv: "tq_inv {} q" and call: "firing_ok E call q" and E: "settime_ok E"
    and q2: "fired E call q = Inr q2"
  shows "\<exists>q'. handleRead E call 8 q = Inr q' \<and> tq_inv {} q' \<and> armed E q' \<and>
    \<not> callingExpiredTimers q' \<and>
    (\<forall>a. heap q' a =
       (if a \<in> due E q
        then (case heap q a of None \<Rightarrow> None
              | Some tm \<Rightarrow> if kept q2 a tm then Some (restart (clock E (ticks q)) tm) else None)
        else heap q2 a))"
proof -
  let ?now = "clock E (ticks q)"
  let ?xs = "filter (\<lambda>x. fst x \<le> ?now) (timers q)"
  let ?q3 = "q2\<lparr>callingExpiredTimers := False\<rparr>"
  have X: "due E q = snd ` set ?xs" by (simp add: due_def)
  from fired_ok [OF inv call] q2
  have inv2: "tq_inv (snd ` set ?xs) q2" and same: "\<forall>a\<in>snd ` set ?xs. heap q2 a = heap q a"
    unfolding X by simp_all
  from inv2 have inv3: "tq_inv (snd ` set ?xs) ?q3"
    by (simp add: tq_inv_def)
  have dist: "distinct (map snd ?xs)"
    using tq_inv_distinct [OF inv] by (simp add: distinct_map_filter)
  have keep3: "kept ?q3 = kept q2" by (simp add: kept_def fun_eq_iff)
  from reset_list_ok [OF inv3 dist, of ?now] obtain q4 where q4:
    "runR (reset_one ?now) ?xs ?q3 = Inr q4" "tq_inv {} q4" "\<not> callingExpiredTimers q4"
    "\<forall>a. heap q4 a = (if a \<in> snd ` set ?xs
        then (case heap ?q3 a of None \<Rightarrow> None
              | Some tm \<Rightarrow> if kept ?q3 a tm then Some (restart ?now tm) else None)
        else heap ?q3 a)"
    by auto
  from reset_tail_ok [OF q4(2) E] obtain q5 where q5: "reset_tail E q4 = Inr q5" "armed E q5"
    "heap q5 = heap q4" "timers q5 = timers q4"
    "callingExpiredTimers q5 = callingExpiredTimers q4"
    by blast
  have q0: "tq_inv {} (q\<lparr>ticks := Suc (ticks q), cancelingTimers := []\<rparr>)"
    using inv by (simp add: tq_inv_def)
  have run: "handleRead E call 8 q = Inr q5"
    using getExpired_filter [OF q0, of ?now] q2 q4(1) q5(1)
    by (simp add: handleRead_def fired_def reset_def assertR_def Let_def)
  have final: "heap q5 a = (if a \<in> due E q
        then (case heap q a of None \<Rightarrow> None
              | Some tm \<Rightarrow> if kept q2 a tm then Some (restart ?now tm) else None)
        else heap q2 a)" for a
  proof (cases "a \<in> snd ` set ?xs")
    case True
    then have "heap q2 a = heap q a" using same by blast
    moreover have "heap q5 a = (case heap ?q3 a of None \<Rightarrow> None
        | Some tm \<Rightarrow> if kept ?q3 a tm then Some (restart ?now tm) else None)"
      using True q4(4) q5(3) by (simp only: if_True)
    ultimately show ?thesis
      using True keep3 unfolding X by (cases "heap q a") (simp_all del: set_filter)
  next
    case False
    then have "heap q5 a = heap ?q3 a" using q4(4) q5(3) by (simp only: if_False)
    with False show ?thesis unfolding X by (simp del: set_filter)
  qed
  have "tq_inv {} q5" by (rule iffD2 [OF tq_inv_cong q4(2)]) (simp_all add: q5)
  moreover have "\<not> callingExpiredTimers q5" using q4(3) q5(5) by simp
  ultimately show ?thesis using run q5(2) final by blast
qed

lemma addTimer_armed:
  assumes inv: "tq_inv X q" and new: "a \<notin> dom (heap q)" and addr: "a < UINTPTR_MAX"
    and E: "settime_ok E" and armed: "armed E q"
  shows "\<exists>q'. addTimer E a cb when iv q = Inr q' \<and> tq_inv X q' \<and> armed E q' \<and>
    heap q' a = Some (new_timer cb when iv) \<and> set (timers q') = insert (when, a) (set (timers q))"
proof -
  let ?tm = "new_timer cb when iv"
  let ?q1 = "q\<lparr>heap := (heap q)(a \<mapsto> ?tm)\<rparr>"
  from addTimer_ok [OF inv new addr E, of cb "when" iv] obtain q' where q':
    "addTimer E a cb when iv q = Inr q'" "tq_inv X q'" "heap q' = (heap q)(a \<mapsto> ?tm)"
    "timers q' = insort (when, a) (timers q)"
    by blast
  have notin: "(when, a) \<notin> set (timers q)"
    using inv new by (force simp: tq_inv_def)
  have "armed E q'"
  proof (cases "timers q")
    case Nil
    with q' E notin show ?thesis
      by (auto simp: addTimer_def q_insert_def new_timer_def resetTimerfd_ok armed_def)
  next
    case (Cons x xs)
    with q' E notin armed show ?thesis
      by (auto simp: addTimer_def q_insert_def new_timer_def resetTimerfd_ok armed_def
          less_eq_prod_def split: if_splits)
  qed
  with q' show ?thesis by (auto simp: set_insort_key)
qed

section \<open>Properties\<close>

text \<open>
  Property C2.  One firing of the timer descriptor, for every well-formed queue and all callbacks of
  the due timers that return, keep the queue well formed and do to the timers being fired nothing but
  cancel them (\<open>firing_ok\<close>; the lemmas \<open>keeps_queue_\<dots>\<close> show that adding timers and cancelling timers
  that are being fired, the own one included, are such callbacks; one that cancels a timer that is
  waiting in the set is not: see \<open>cancel_waiting_timer_undefined\<close>), when \<^verbatim>\<open>read\<close> delivers its 8
  bytes and \<^verbatim>\<open>timerfd_settime\<close> accepts every normalised time.  No deleted timer is read and no
  assertion fails; every timer that was due is afterwards deleted if it was one-shot or a callback has
  cancelled it, and otherwise restarted with its next expiration; the set owns exactly the live timers,
  so nothing leaks and nothing is deleted twice; and the descriptor is armed for the earliest of them.
\<close>

theorem handleRead_fires:
  assumes inv: "tq_inv {} q" and call: "firing_ok E call q" and E: "settime_ok E"
  shows "\<exists>q2 q'. fired E call q = Inr q2 \<and> handleRead E call 8 q = Inr q' \<and>
    tq_inv {} q' \<and> armed E q' \<and> \<not> callingExpiredTimers q' \<and>
    (\<forall>(t, a) \<in> set (timers q). t \<le> clock E (ticks q) \<longrightarrow>
       heap q' a = (if kept q2 a (the (heap q a))
                    then Some (restart (clock E (ticks q)) (the (heap q a))) else None))"
proof -
  from fired_ok [OF inv call] obtain q2 where q2: "fired E call q = Inr q2" by blast
  from handleRead_runs [OF inv call E q2] obtain q' where q':
    "handleRead E call 8 q = Inr q'" "tq_inv {} q'" "armed E q'" "\<not> callingExpiredTimers q'"
    "\<forall>a. heap q' a =
       (if a \<in> due E q
        then (case heap q a of None \<Rightarrow> None
              | Some tm \<Rightarrow> if kept q2 a tm then Some (restart (clock E (ticks q)) tm) else None)
        else heap q2 a)"
    by blast
  have "heap q' a = (if kept q2 a (the (heap q a))
      then Some (restart (clock E (ticks q)) (the (heap q a))) else None)"
    if "(t, a) \<in> set (timers q)" "t \<le> clock E (ticks q)" for t a
  proof -
    have "a \<in> due E q" using that by (force simp: due_def)
    with q'(5) tq_inv_entry [OF inv that(1)] show ?thesis by auto
  qed
  with q2 q' show ?thesis by blast
qed

definition sample_env :: env where
  "sample_env = \<lparr>clock = (\<lambda>_. Timestamp 5000000), settime = (\<lambda>_. 0)\<rparr>"

definition sample_queue :: "nat timer_queue" where
  "sample_queue = new_timer_queue
     \<lparr>heap := [8 \<mapsto> new_timer 0 (Timestamp 4000000) 2, 16 \<mapsto> new_timer 1 (Timestamp 4000000) 0,
               24 \<mapsto> new_timer 2 (Timestamp 9000000) 0],
      timers := [(Timestamp 4000000, 8), (Timestamp 4000000, 16), (Timestamp 9000000, 24)]\<rparr>"

lemma sample_queue_inv: "tq_inv {} sample_queue"
  by (auto simp: tq_inv_def sample_queue_def new_timer_queue_def new_timer_def UINTPTR_MAX_def
      less_timestamp_def less_prod_def' split: if_splits)

lemma sample_env_ok: "settime_ok sample_env"
  by (simp add: settime_ok_def sample_env_def)

text \<open>Two callbacks: one cancels its own periodic timer, the other starts a new timer.\<close>

definition sample_call :: "nat \<Rightarrow> nat timer_queue \<Rightarrow> nat timer_queue res" where
  "sample_call cb q =
     (if cb = 0 then cancel 8 q
      else if 40 \<in> dom (heap q) then Inr q else addTimer sample_env 40 2 (Timestamp 7000000) 0 q)"

theorem handleRead_fires_witness:
  "\<exists>q2 q'. fired sample_env sample_call sample_queue = Inr q2 \<and> 8 \<in> set (cancelingTimers q2) \<and>
     handleRead sample_env sample_call 8 sample_queue = Inr q' \<and> tq_inv {} q' \<and>
     heap q' 8 = None \<and> heap q' 16 = None"
proof -
  have "due sample_env sample_queue = {8, 16}"
    unfolding due_def set_filter [symmetric]
    by (simp add: sample_queue_def sample_env_def new_timer_queue_def less_eq_timestamp_def)
  moreover have "keeps_queue {8, 16} (sample_call 0)"
    using keeps_queue_cancel [of 8 "{8, 16}"] by (simp add: sample_call_def [abs_def])
  moreover have "keeps_queue {8, 16} (sample_call 1)"
    using keeps_queue_addTimer [OF sample_env_ok, of 40] by (simp add: sample_call_def [abs_def] UINTPTR_MAX_def)
  ultimately have call: "firing_ok sample_env sample_call sample_queue"
    by (auto simp: firing_ok_def sample_queue_def new_timer_def new_timer_queue_def)
  have entries: "(Timestamp 4000000, 8) \<in> set (timers sample_queue)" "(Timestamp 4000000, 16) \<in> set (timers sample_queue)"
    "Timestamp 4000000 \<le> clock sample_env (ticks sample_queue)"
    "\<not> repeats (the (heap sample_queue 16))"
    by (simp_all add: sample_queue_def sample_env_def less_eq_timestamp_def new_timer_def)
  from handleRead_fires [OF sample_queue_inv call sample_env_ok] obtain q2 q' where q':
    "fired sample_env sample_call sample_queue = Inr q2"
    "handleRead sample_env sample_call 8 sample_queue = Inr q'" "tq_inv {} q'"
    "\<forall>(t, a) \<in> set (timers sample_queue). t \<le> clock sample_env (ticks sample_queue) \<longrightarrow>
       heap q' a = (if kept q2 a (the (heap sample_queue a))
         then Some (restart (clock sample_env (ticks sample_queue)) (the (heap sample_queue a))) else None)"
    by blast
  have "8 \<in> set (cancelingTimers q2)"
    using q'(1)
    by (auto simp: fired_def sample_queue_def sample_env_def new_timer_queue_def new_timer_def run_timer_def
        sample_call_def cancel_def set_find_def addTimer_def q_insert_def resetTimerfd_def
        less_eq_timestamp_def less_timestamp_def assertR_def Let_def split: if_splits)
  with q' entries show ?thesis by (force simp: kept_def)
qed

text \<open>
  Fact.  \<^verbatim>\<open>getExpired\<close> takes exactly the timers that are due, in the order of their
  times, and leaves exactly the others: the sentry with the greatest address is above every timer
  of its instant.
\<close>

theorem getExpired_exact:
  assumes "tq_inv {} q"
  shows "\<exists>expired q'. getExpired now q = Inr (expired, q') \<and> heap q' = heap q \<and>
    timers q = expired @ timers q' \<and> (\<forall>x\<in>set expired. fst x \<le> now) \<and>
    (\<forall>x\<in>set (timers q'). now < fst x)"
proof -
  have sorted: "sorted_wrt (<) (timers q)" using assms by (simp add: tq_inv_def)
  let ?p = "\<lambda>x. x < sentry now"
  have lt: "?p x \<longleftrightarrow> fst x \<le> now" if "x \<in> set (timers q)" for x
    using tq_inv_addr [OF assms tq_inv_entry_dom [OF assms that]] sentry_less [of "snd x" "fst x" now]
    by simp
  then have "filter (\<lambda>x. fst x \<le> now) (timers q) = takeWhile ?p (timers q)"
    "filter (\<lambda>x. now < fst x) (timers q) = dropWhile ?p (timers q)"
    unfolding sorted_takeWhile_filter [OF sorted] by (auto intro!: filter_cong simp: not_le)
  then have "timers q =
      filter (\<lambda>x. fst x \<le> now) (timers q) @ filter (\<lambda>x. now < fst x) (timers q)"
    by simp
  then show ?thesis by (simp add: getExpired_filter [OF assms])
qed

theorem getExpired_exact_witness:
  "\<exists>expired q'. getExpired (Timestamp 5000000) sample_queue = Inr (expired, q') \<and>
     timers sample_queue = expired @ timers q'"
  using getExpired_exact [OF sample_queue_inv, of "Timestamp 5000000"] by blast

text \<open>
  Fact.  \<^verbatim>\<open>addTimer\<close> of a timer at a fresh address succeeds, keeps the set sorted and
  owning every live timer, stores the timer as given, and leaves the descriptor armed for the
  earliest timer if it was so before: re-arming only when the new timer is the earliest is enough.
\<close>

theorem addTimer_arms:
  assumes inv: "tq_inv X q" and new: "a \<notin> dom (heap q)" and addr: "a < UINTPTR_MAX"
    and E: "settime_ok E" and armed: "armed E q"
  shows "\<exists>q'. addTimer E a cb when iv q = Inr q' \<and> tq_inv X q' \<and> armed E q' \<and>
    heap q' a = Some (new_timer cb when iv) \<and> set (timers q') = insert (when, a) (set (timers q))"
  by (rule addTimer_armed [OF assms])

theorem addTimer_arms_witness:
  "\<exists>q'. addTimer sample_env 32 (3::nat) (Timestamp 6000000) 1 new_timer_queue = Inr q' \<and>
     tq_inv {} q' \<and> armed sample_env q'"
proof -
  have "tq_inv {} (new_timer_queue :: nat timer_queue)" "armed sample_env (new_timer_queue :: nat timer_queue)"
    "(32::nat) \<notin> dom (heap (new_timer_queue :: nat timer_queue))" "32 < UINTPTR_MAX"
    by (simp_all add: tq_inv_def new_timer_queue_def armed_def UINTPTR_MAX_def)
  from addTimer_arms [OF this(1,3,4) sample_env_ok this(2)] show ?thesis by blast
qed

text \<open>
  Property C23.  The time handed to \<^verbatim>\<open>timerfd_settime\<close> is a normalised \<^verbatim>\<open>timespec\<close>, exactly the
  distance to the expiration and at least 100 microseconds: it is never zero, which would disarm
  the descriptor, also for an expiration that has passed.
\<close>

theorem timerfd_never_disarmed:
  "case howMuchTimeFromNow when now of (s, n) \<Rightarrow>
     0 \<le> s \<and> 0 \<le> n \<and> n < 10 ^ 9 \<and> n mod 1000 = 0 \<and> (s, n) \<noteq> (0, 0) \<and>
     s * 10 ^ 6 + n div 1000 =
       max 100 (microsecondsSinceEpoch when - microsecondsSinceEpoch now)"
proof -
  obtain s n where sn: "howMuchTimeFromNow when now = (s, n)" by force
  have "n mod 1000 = 0"
    using sn by (auto simp: howMuchTimeFromNow_def Let_def)
  with howMuch_exact [of "when" now] sn show ?thesis by auto
qed

text \<open>
  Property C26.  In every well-formed queue in which the timers \<open>X\<close> are being fired (none between two
  firings): \<^verbatim>\<open>cancel\<close> of a timer that is waiting in the set erases its node, the assertion that one
  was erased holds, and then it reads the iterator of the erased node; \<^verbatim>\<open>cancel\<close> of a timer that is
  being fired is defined, keeps the queue well formed and, during the callbacks, notes the timer as
  cancelled; and \<^verbatim>\<open>cancel\<close> of any other address reads a timer that does not exist.
\<close>

theorem cancel_waiting_timer_undefined:
  assumes "tq_inv X q"
  shows "(cancel a q = Inl UseAfterFree \<longleftrightarrow> a \<notin> X) \<and>
    (a \<in> X \<longrightarrow> (\<exists>q'. cancel a q = Inr q' \<and> tq_inv X q' \<and>
       (callingExpiredTimers q \<longrightarrow> a \<in> set (cancelingTimers q'))))"
proof (cases "a \<in> X")
  case True
  have "tq_inv X (q\<lparr>cancelingTimers := List.insert a (cancelingTimers q)\<rparr>)"
    using assms by (simp add: tq_inv_def)
  with True assms cancel_fired [OF assms True] show ?thesis by simp
next
  case False
  show ?thesis
  proof (cases "heap q a")
    case None
    with False show ?thesis by (simp add: cancel_def)
  next
    case (Some tm)
    have set: "(expiration tm, a) \<in> set (timers q)" by (rule tq_inv_owner [OF assms Some False])
    have "distinct (timers q)" using tq_inv_sorted [OF assms] by (simp add: strict_sorted_iff)
    with set have "length (filter (\<lambda>y. y = (expiration tm, a)) (timers q)) = 1"
      by (simp add: distinct_length_filter Int_def conj_commute cong: conj_cong)
    with Some set False show ?thesis
      by (simp add: cancel_def set_find_def set_erase_def set_deref_def)
  qed
qed

theorem cancel_waiting_timer_undefined_witness:
  "cancel 24 sample_queue = Inl UseAfterFree"
  using cancel_waiting_timer_undefined [OF sample_queue_inv, of 24] by simp

text \<open>The destructor deletes every timer that is left.\<close>

lemma destroy_fold:
  "heap (fold (\<lambda>x q. q\<lparr>heap := (heap q)(snd x := None)\<rparr>) xs q) =
     (\<lambda>a. if a \<in> snd ` set xs then None else heap q a)"
  by (induction xs arbitrary: q) auto

lemma destroy_frees_all: "tq_inv {} q \<Longrightarrow> heap (destroy_timer_queue q) = (\<lambda>_. None)"
  by (auto simp: destroy_timer_queue_def destroy_fold tq_inv_def fun_eq_iff)

end
