(* ===== verification/EventLoops.thy ===== *)
theory EventLoops
  imports TimerQueues Channels
begin

text \<open>
  \<^verbatim>\<open>src/EventLoop.h\<close> and \<^verbatim>\<open>src/EventLoop.cpp\<close>: the loop that waits, dispatches one batch of
  events and tests \<^verbatim>\<open>quit_\<close> again, and the functions that put timers into its queue.  What
  \<^verbatim>\<open>epoll_wait\<close> returns in the \<open>i\<close>-th round is an argument, and so is what handling an event
  of a channel does to the world, which may call \<^verbatim>\<open>quit\<close>.  The loop need not end, so it is a
  partial function: \<open>None\<close> is a run that never returns.
\<close>

section \<open>State\<close>

record ('cb, 'w) event_loop =
  looping :: bool
  quit_flag :: bool
  activeChannels :: "nat list"
  chans :: "nat \<Rightarrow> 'cb channel option"
  timerQueue :: "'cb timer_queue"
  world :: 'w

definition new_event_loop :: "'w \<Rightarrow> ('cb, 'w) event_loop" where
  "new_event_loop w =
     \<lparr>looping = False, quit_flag = False, activeChannels = [], chans = (\<lambda>_. None),
      timerQueue = new_timer_queue, world = w\<rparr>"

definition quit :: "('cb, 'w) event_loop \<Rightarrow> ('cb, 'w) event_loop" where
  "quit l = l\<lparr>quit_flag := True\<rparr>"

section \<open>Timers\<close>

text \<open>\<open>a\<close> is the address of the new timer; each reading of the clock has its own number.\<close>

definition runAt ::
  "env \<Rightarrow> nat \<Rightarrow> timestamp \<Rightarrow> 'cb \<Rightarrow> ('cb, 'w) event_loop \<Rightarrow> ('cb, 'w) event_loop res" where
  "runAt E a time cb l =
     bindR (addTimer E a cb time 0 (timerQueue l)) (\<lambda>q. Inr (l\<lparr>timerQueue := q\<rparr>))"

definition read_clock :: "env \<Rightarrow> ('cb, 'w) event_loop \<Rightarrow> timestamp \<times> ('cb, 'w) event_loop" where
  "read_clock E l =
     (clock E (ticks (timerQueue l)),
      l\<lparr>timerQueue := (timerQueue l)\<lparr>ticks := Suc (ticks (timerQueue l))\<rparr>\<rparr>)"

definition runAfter ::
  "env \<Rightarrow> nat \<Rightarrow> double \<Rightarrow> 'cb \<Rightarrow> ('cb, 'w) event_loop \<Rightarrow> ('cb, 'w) event_loop res" where
  "runAfter E a delay cb l =
     (case read_clock E l of (now, l) \<Rightarrow> runAt E a (addTime now delay) cb l)"

definition runEvery ::
  "env \<Rightarrow> nat \<Rightarrow> double \<Rightarrow> 'cb \<Rightarrow> ('cb, 'w) event_loop \<Rightarrow> ('cb, 'w) event_loop res" where
  "runEvery E a iv cb l =
     (case read_clock E l of (now, l) \<Rightarrow>
        bindR (addTimer E a cb (addTime now iv) iv (timerQueue l))
          (\<lambda>q. Inr (l\<lparr>timerQueue := q\<rparr>)))"

definition loop_cancel :: "nat \<Rightarrow> ('cb, 'w) event_loop \<Rightarrow> ('cb, 'w) event_loop res" where
  "loop_cancel a l = bindR (cancel a (timerQueue l)) (\<lambda>q. Inr (l\<lparr>timerQueue := q\<rparr>))"

section \<open>The loop\<close>

type_synonym epoll_wait = "nat \<Rightarrow> int \<times> (32 word \<times> nat) list"

definition round ::
  "(nat \<Rightarrow> ('cb, 'w) event_loop \<Rightarrow> ('cb, 'w) event_loop res) \<Rightarrow> epoll_wait \<Rightarrow> nat \<Rightarrow>
   ('cb, 'w) event_loop \<Rightarrow> ('cb, 'w) event_loop res" where
  "round handle wait i l =
     (let l = l\<lparr>activeChannels := []\<rparr>;
          (n, ready) = wait i
      in bindR (ep_wait n ready (chans l)) (\<lambda>(cs, active).
           let l = l\<lparr>chans := cs, activeChannels := active\<rparr>
           in runR handle (activeChannels l) l))"

partial_function (option) rounds ::
  "(nat \<Rightarrow> ('cb, 'w) event_loop \<Rightarrow> ('cb, 'w) event_loop res) \<Rightarrow> epoll_wait \<Rightarrow> nat \<Rightarrow>
   ('cb, 'w) event_loop \<Rightarrow> ('cb, 'w) event_loop res option" where
  "rounds handle wait i l =
     (if quit_flag l then Some (Inr (l\<lparr>looping := False\<rparr>))
      else case round handle wait i l of
             Inl e \<Rightarrow> Some (Inl e)
           | Inr l \<Rightarrow> rounds handle wait (Suc i) l)"

definition run_loop ::
  "(nat \<Rightarrow> ('cb, 'w) event_loop \<Rightarrow> ('cb, 'w) event_loop res) \<Rightarrow> epoll_wait \<Rightarrow>
   ('cb, 'w) event_loop \<Rightarrow> ('cb, 'w) event_loop res option" where
  "run_loop handle wait l = rounds handle wait 0 (l\<lparr>looping := True\<rparr>)"

section \<open>Facts about the loop\<close>

text \<open>The state after \<open>k\<close> rounds, had nobody asked to quit.\<close>

fun after :: "(nat \<Rightarrow> ('cb, 'w) event_loop \<Rightarrow> ('cb, 'w) event_loop res) \<Rightarrow> epoll_wait \<Rightarrow> nat \<Rightarrow>
   nat \<Rightarrow> ('cb, 'w) event_loop \<Rightarrow> ('cb, 'w) event_loop res" where
  "after handle wait 0 i l = Inr l"
| "after handle wait (Suc k) i l = bindR (round handle wait i l) (after handle wait k (Suc i))"

lemma rounds_return:
  assumes "after handle wait k i l = Inr l'" "quit_flag l'"
    and "\<And>j lj. j < k \<Longrightarrow> after handle wait j i l = Inr lj \<Longrightarrow> \<not> quit_flag lj"
  shows "rounds handle wait i l = Some (Inr (l'\<lparr>looping := False\<rparr>))"
  using assms
proof (induction k arbitrary: i l)
  case 0
  then show ?case by (simp add: rounds.simps)
next
  case (Suc k)
  from Suc.prems(1) obtain l1 where l1: "round handle wait i l = Inr l1"
    "after handle wait k (Suc i) l1 = Inr l'"
    by (auto simp: bindR_eq_Inr)
  have "\<not> quit_flag l" using Suc.prems(3) [of 0 l] by simp
  moreover have "rounds handle wait (Suc i) l1 = Some (Inr (l'\<lparr>looping := False\<rparr>))"
  proof (rule Suc.IH [OF l1(2) Suc.prems(2)])
    fix j lj assume "j < k" "after handle wait j (Suc i) l1 = Inr lj"
    with Suc.prems(3) [of "Suc j" lj] l1(1) show "\<not> quit_flag lj" by simp
  qed
  ultimately show ?case using l1(1) by (simp add: rounds.simps)
qed

lemma rounds_ends_only:
  fixes l :: "('cb, 'w) event_loop"
  assumes "rounds handle wait i l = Some y"
  shows "\<exists>k. case after handle wait k i l of Inl e \<Rightarrow> True | Inr l' \<Rightarrow> quit_flag l'"
proof (rule rounds.raw_induct [OF _ assms])
  fix rounds' handle wait i and l :: "('cb, 'w) event_loop" and y :: "('cb, 'w) event_loop res"
  assume IH: "\<And>handle wait i (l :: ('cb, 'w) event_loop) (y :: ('cb, 'w) event_loop res).
      rounds' handle wait i l = Some y \<Longrightarrow>
      \<exists>k. case after handle wait k i l of Inl e \<Rightarrow> True | Inr l' \<Rightarrow> quit_flag l'"
    and step: "(if quit_flag l then Some (Inr (l\<lparr>looping := False\<rparr>))
      else case round handle wait i l of Inl e \<Rightarrow> Some (Inl e)
           | Inr l \<Rightarrow> rounds' handle wait (Suc i) l) = Some y"
  show "\<exists>k. case after handle wait k i l of Inl e \<Rightarrow> True | Inr l' \<Rightarrow> quit_flag l'"
  proof (cases "quit_flag l")
    case True
    then show ?thesis by (intro exI [of _ 0]) simp
  next
    case False
    show ?thesis
    proof (cases "round handle wait i l")
      case (Inl e)
      then show ?thesis by (intro exI [of _ 1]) simp
    next
      case (Inr l1)
      with step False have "rounds' handle wait (Suc i) l1 = Some y" by simp
      from IH [OF this] obtain k where
        "case after handle wait k (Suc i) l1 of Inl e \<Rightarrow> True | Inr l' \<Rightarrow> quit_flag l'" by blast
      with Inr show ?thesis by (intro exI [of _ "Suc k"]) simp
    qed
  qed
qed

section \<open>Handlers that work and may call quit\<close>

text \<open>
  The events of a round are the masks and channels that \<^verbatim>\<open>epoll_wait\<close> reports; each channel is
  reported once and exists.
\<close>

definition batch :: "epoll_wait \<Rightarrow> nat \<Rightarrow> (32 word \<times> nat) list" where
  "batch wait i = take (nat (fst (wait i))) (snd (wait i))"

definition dispatched :: "epoll_wait \<Rightarrow> nat \<Rightarrow> nat \<Rightarrow> (32 word \<times> nat) list" where
  "dispatched wait i k = concat (map (batch wait) [i..<i + k])"

definition masks :: "('cb, 'w) event_loop \<Rightarrow> nat \<Rightarrow> 32 word option" where
  "masks l c = map_option revents (chans l c)"

definition waits_ok :: "epoll_wait \<Rightarrow> ('cb, 'w) event_loop \<Rightarrow> bool" where
  "waits_ok wait l \<longleftrightarrow>
     (\<forall>i. distinct (map snd (batch wait i)) \<and> snd ` set (batch wait i) \<subseteq> dom (masks l))"

text \<open>
  On an event, a handler changes the world by \<open>work\<close> and then calls \<^verbatim>\<open>quit\<close> if \<open>asks\<close> says so;
  both may depend on the event and on the world.  It leaves the masks of the channels alone.
\<close>

definition handlers_ok ::
  "(nat \<Rightarrow> ('cb, 'w) event_loop \<Rightarrow> ('cb, 'w) event_loop res) \<Rightarrow>
   (32 word \<times> nat \<Rightarrow> 'w \<Rightarrow> bool) \<Rightarrow> (32 word \<times> nat \<Rightarrow> 'w \<Rightarrow> 'w) \<Rightarrow> bool" where
  "handlers_ok handle asks work \<longleftrightarrow>
     (\<forall>c l ev. masks l c = Some ev \<longrightarrow>
        (\<exists>l1. masks l1 = masks l \<and> world l1 = work (ev, c) (world l) \<and>
           quit_flag l1 = quit_flag l \<and>
           handle c l = Inr (if asks (ev, c) (world l) then quit l1 else l1)))"

text \<open>Whether one of the handlers of some events calls \<^verbatim>\<open>quit\<close>, from a given world.\<close>

fun asked :: "(32 word \<times> nat \<Rightarrow> 'w \<Rightarrow> bool) \<Rightarrow> (32 word \<times> nat \<Rightarrow> 'w \<Rightarrow> 'w) \<Rightarrow>
   (32 word \<times> nat) list \<Rightarrow> 'w \<Rightarrow> bool" where
  "asked asks work [] w = False"
| "asked asks work (e # es) w = (asks e w \<or> asked asks work es (work e w))"

lemma asked_append:
  "asked asks work (xs @ ys) w \<longleftrightarrow> asked asks work xs w \<or> asked asks work ys (fold work xs w)"
  by (induction xs arbitrary: w) auto

lemma quit_fields [simp]:
  "masks (quit l) = masks l" "world (quit l) = world l" "quit_flag (quit l)" "chans (quit l) = chans l"
  by (simp_all add: quit_def masks_def fun_eq_iff)

lemma dispatch_batch:
  assumes H: "handlers_ok handle asks work" and "\<forall>(ev, c)\<in>set es. masks l c = Some ev"
  shows "\<exists>l'. runR handle (map snd es) l = Inr l' \<and> masks l' = masks l \<and>
    world l' = fold work es (world l) \<and>
    quit_flag l' = (quit_flag l \<or> asked asks work es (world l))"
  using assms(2)
proof (induction es arbitrary: l)
  case (Cons e es)
  obtain ev c where e: "e = (ev, c)" by force
  with Cons.prems H obtain l1 where l1: "masks l1 = masks l" "world l1 = work (ev, c) (world l)"
    "quit_flag l1 = quit_flag l" "handle c l = Inr (if asks (ev, c) (world l) then quit l1 else l1)"
    unfolding handlers_ok_def by fastforce
  let ?l2 = "if asks (ev, c) (world l) then quit l1 else l1"
  have l2: "masks ?l2 = masks l" "world ?l2 = work (ev, c) (world l)"
    "quit_flag ?l2 = (quit_flag l \<or> asks (ev, c) (world l))"
    using l1(1-3) by simp_all
  have "\<forall>(ev, c)\<in>set es. masks ?l2 c = Some ev" using Cons.prems l2(1) by simp
  from Cons.IH [OF this] obtain l' where "runR handle (map snd es) ?l2 = Inr l'" "masks l' = masks ?l2"
    "world l' = fold work es (world ?l2)"
    "quit_flag l' = (quit_flag ?l2 \<or> asked asks work es (world ?l2))"
    by blast
  with l1(4) l2 e show ?case by auto
qed simp

lemma ep_wait_masks:
  assumes "snd ` set es \<subseteq> dom cs" "distinct (map snd es)"
  shows "\<exists>cs'. runR (\<lambda>(ev, c) cs. case cs c of None \<Rightarrow> Inl UseAfterFree
        | Some ch \<Rightarrow> Inr (cs(c \<mapsto> ch\<lparr>revents := ev\<rparr>))) es cs = Inr cs' \<and> dom cs' = dom cs \<and>
    (\<forall>(ev, c)\<in>set es. map_option revents (cs' c) = Some ev) \<and>
    (\<forall>c. c \<notin> snd ` set es \<longrightarrow> cs' c = cs c)"
  using assms
proof (induction es arbitrary: cs)
  case (Cons e es)
  obtain ev c where e: "e = (ev, c)" by force
  with Cons.prems obtain ch where ch: "cs c = Some ch" by auto
  let ?cs = "cs(c \<mapsto> ch\<lparr>revents := ev\<rparr>)"
  have "snd ` set es \<subseteq> dom ?cs" "distinct (map snd es)" using Cons.prems by auto
  from Cons.IH [OF this] obtain cs' where cs': "runR (\<lambda>(ev, c) cs. case cs c of None \<Rightarrow> Inl UseAfterFree
        | Some ch \<Rightarrow> Inr (cs(c \<mapsto> ch\<lparr>revents := ev\<rparr>))) es ?cs = Inr cs'" "dom cs' = dom ?cs"
    "\<forall>(ev, c)\<in>set es. map_option revents (cs' c) = Some ev"
    "\<forall>c. c \<notin> snd ` set es \<longrightarrow> cs' c = ?cs c"
    by blast
  have "c \<notin> snd ` set es" using Cons.prems(2) e by simp
  then have "map_option revents (cs' c) = Some ev" using cs'(4) by simp
  with cs' e ch show ?case by (auto simp: insert_absorb domI)
qed simp

lemma round_ok:
  assumes H: "handlers_ok handle asks work" and W: "waits_ok wait l"
  shows "\<exists>l'. round handle wait i l = Inr l' \<and> waits_ok wait l' \<and>
    world l' = fold work (batch wait i) (world l) \<and>
    quit_flag l' = (quit_flag l \<or> asked asks work (batch wait i) (world l))"
proof -
  have dom: "dom (masks l) = dom (chans l)" for l :: "('a, 'b) event_loop" by (auto simp: masks_def)
  have "snd ` set (batch wait i) \<subseteq> dom (chans l)" "distinct (map snd (batch wait i))"
    using W by (auto simp: waits_ok_def dom)
  from ep_wait_masks [OF this] obtain cs where cs: "runR (\<lambda>(ev, c) cs. case cs c of None \<Rightarrow> Inl UseAfterFree
        | Some ch \<Rightarrow> Inr (cs(c \<mapsto> ch\<lparr>revents := ev\<rparr>))) (batch wait i) (chans l) = Inr cs"
    "dom cs = dom (chans l)" "\<forall>(ev, c)\<in>set (batch wait i). map_option revents (cs c) = Some ev"
    by blast
  let ?l1 = "l\<lparr>chans := cs, activeChannels := map snd (batch wait i)\<rparr>"
  have "\<forall>(ev, c)\<in>set (batch wait i). masks ?l1 c = Some ev" using cs(3) by (simp add: masks_def)
  from dispatch_batch [OF H this] obtain l' where l': "runR handle (map snd (batch wait i)) ?l1 = Inr l'"
    "masks l' = masks ?l1" "world l' = fold work (batch wait i) (world l)"
    "quit_flag l' = (quit_flag l \<or> asked asks work (batch wait i) (world l))"
    by auto
  have "dom (masks l') = dom (masks l)" using l'(2) cs(2) by (simp add: dom)
  with W have "waits_ok wait l'" by (simp add: waits_ok_def)
  moreover have "round handle wait i l = Inr l'"
    using l'(1) cs(1) by (cases "wait i") (simp add: round_def ep_wait_def batch_def)
  ultimately show ?thesis using l'(3,4) by blast
qed

lemma after_ok:
  assumes H: "handlers_ok handle asks work" and W: "waits_ok wait l"
  shows "\<exists>l'. after handle wait k i l = Inr l' \<and> world l' = fold work (dispatched wait i k) (world l) \<and>
    quit_flag l' = (quit_flag l \<or> asked asks work (dispatched wait i k) (world l))"
  using W
proof (induction k arbitrary: i l)
  case 0
  then show ?case by (simp add: dispatched_def)
next
  case (Suc k)
  from round_ok [OF H Suc.prems, of i] obtain l1 where l1: "round handle wait i l = Inr l1" "waits_ok wait l1"
    "world l1 = fold work (batch wait i) (world l)"
    "quit_flag l1 = (quit_flag l \<or> asked asks work (batch wait i) (world l))"
    by blast
  have "dispatched wait i (Suc k) = batch wait i @ dispatched wait (Suc i) k"
    by (simp add: dispatched_def upt_conv_Cons del: upt_Suc)
  with l1 Suc.IH [OF l1(2), of "Suc i"] show ?case by (auto simp: asked_append)
qed

section \<open>Properties\<close>


text \<open>A loop with one channel whose handler counts its events and calls \<^verbatim>\<open>quit\<close> at the third.\<close>

definition counting_handler :: "nat \<Rightarrow> (nat, nat) event_loop \<Rightarrow> (nat, nat) event_loop res" where
  "counting_handler c l =
     (let l1 = l\<lparr>world := Suc (world l)\<rparr> in Inr (if world l = 2 then quit l1 else l1))"


text \<open>
  Fact.  A periodic timer started with \<^verbatim>\<open>runEvery\<close> is due one interval after the call,
  repeats exactly if the interval is positive, and leaves the queue well formed and its descriptor
  armed; \<^verbatim>\<open>runAfter\<close> differs only in that it does not repeat.
\<close>

theorem runEvery_schedules:
  assumes "tq_inv X (timerQueue l)" "a \<notin> dom (heap (timerQueue l))" "a < UINTPTR_MAX"
    and "settime_ok E" "armed E (timerQueue l)"
  shows "\<exists>l1 l2. runEvery E a iv cb l = Inr l1 \<and> runAfter E a iv cb l = Inr l2 \<and>
    (let due = addTime (clock E (ticks (timerQueue l))) iv
     in heap (timerQueue l1) a =
          Some \<lparr>callback = cb, expiration = due, interval = iv, repeats = (0 < iv)\<rparr> \<and>
        heap (timerQueue l2) a =
          Some \<lparr>callback = cb, expiration = due, interval = 0, repeats = False\<rparr> \<and>
        (\<forall>l'\<in>{l1, l2}. tq_inv X (timerQueue l') \<and> armed E (timerQueue l') \<and>
           (due, a) \<in> set (timers (timerQueue l'))))"
proof -
  let ?q = "(timerQueue l)\<lparr>ticks := Suc (ticks (timerQueue l))\<rparr>"
  let ?due = "addTime (clock E (ticks (timerQueue l))) iv"
  have q: "tq_inv X ?q" "a \<notin> dom (heap ?q)" "armed E ?q"
    using assms(1,2,5) tq_inv_cong [of ?q "timerQueue l" X] armed_cong [of ?q "timerQueue l" E] by simp_all
  have "\<exists>q'. addTimer E a cb ?due per ?q = Inr q' \<and> tq_inv X q' \<and> armed E q' \<and>
      heap q' a = Some (new_timer cb ?due per) \<and> (?due, a) \<in> set (timers q')" for per
    using addTimer_armed [OF q(1,2) assms(3,4) q(3), of cb ?due per] by auto
  from this [of iv] this [of 0] show ?thesis
    by (auto simp: runEvery_def runAfter_def runAt_def read_clock_def new_timer_def Let_def)
qed

theorem runEvery_schedules_witness:
  "\<exists>l. runEvery sample_env 32 2 (7::nat) (new_event_loop (9::nat)) = Inr l \<and>
     heap (timerQueue l) 32 =
       Some \<lparr>callback = 7, expiration = addTime (Timestamp 5000000) 2, interval = 2, repeats = True\<rparr>"
proof -
  let ?l = "new_event_loop 9 :: (nat, nat) event_loop"
  have "tq_inv {} (timerQueue ?l)" "32 \<notin> dom (heap (timerQueue ?l))" "32 < UINTPTR_MAX"
    "armed sample_env (timerQueue ?l)"
    by (simp_all add: new_event_loop_def tq_inv_def new_timer_queue_def armed_def UINTPTR_MAX_def)
  from runEvery_schedules [OF this(1-3) sample_env_ok this(4), of 2 7] show ?thesis
    by (auto simp: sample_env_def Let_def)
qed

end
