(* ===== verification/Servers.thy ===== *)
theory Servers
  imports TcpConnections EventLoops
begin

text \<open>
  \<^verbatim>\<open>src/Acceptor.h\<close>, \<^verbatim>\<open>src/Acceptor.cpp\<close>, \<^verbatim>\<open>src/TcpServer.h\<close>, \<^verbatim>\<open>src/TcpServer.cpp\<close>,
  \<^verbatim>\<open>src/Connector.h\<close>, \<^verbatim>\<open>src/Connector.cpp\<close>, \<^verbatim>\<open>src/TcpClient.h\<close> and
  \<^verbatim>\<open>src/TcpClient.cpp\<close>: how connections come to be, on both sides, and how a server keeps them.
  The connections are the values of the server's map.  The results of the system calls are
  arguments.
\<close>

section \<open>The acceptor\<close>

record 'k acceptor =
  acc_socket :: socket
  acc_channel :: "unit channel"
  acc_kernel :: 'k

text \<open>\<open>sock_ret\<close> and \<open>bind_ret\<close> are what \<^verbatim>\<open>socket\<close> and \<^verbatim>\<open>bind\<close> return.\<close>

definition new_acceptor :: "int \<Rightarrow> int \<Rightarrow> sockaddr_in \<Rightarrow> 'k \<Rightarrow> 'k acceptor res" where
  "new_acceptor sock_ret bind_ret addr k =
     bindR (createSocketNonBlocking sock_ret) (\<lambda>so.
     bindR (sock_bind bind_ret addr so) (\<lambda>so.
       Inr \<lparr>acc_socket = so,
            acc_channel = (new_channel (sock_fd so))\<lparr>readCallback := Some ()\<rparr>,
            acc_kernel = k\<rparr>))"

definition acc_listen :: "'k epoll_ctl \<Rightarrow> int \<Rightarrow> 'k acceptor \<Rightarrow> 'k acceptor res" where
  "acc_listen ectl listen_ret a =
     bindR (sock_listen listen_ret (acc_socket a)) (\<lambda>so.
       case enableReading ectl (acc_channel a) (acc_kernel a) of
         (ch, k) \<Rightarrow> Inr (a\<lparr>acc_socket := so, acc_channel := ch, acc_kernel := k\<rparr>))"

text \<open>
  What \<^verbatim>\<open>handleRead\<close> does with what \<^verbatim>\<open>accept\<close> returned: the callback gets the descriptor, or
  the descriptor is closed.
\<close>

definition acc_handleRead ::
  "(int \<Rightarrow> sockaddr_in \<Rightarrow> 's \<Rightarrow> 's res) option \<Rightarrow> (int \<Rightarrow> 's \<Rightarrow> 's) \<Rightarrow> int \<Rightarrow> sockaddr_in \<Rightarrow> 's \<Rightarrow> 's res" where
  "acc_handleRead newConnectionCallback close_fd connfd stored s =
     (case sock_accept connfd stored (InetAddress_port 0) of
        (so, peer) \<Rightarrow>
          if 0 \<le> connfd
          then (case newConnectionCallback of
                  Some cb \<Rightarrow> cb connfd peer s
                | None \<Rightarrow> Inr (close_fd connfd s))
          else Inr s)"

section \<open>The server\<close>

record 'k tcp_server =
  serv_started :: bool
  nextId :: int
  connections :: "string \<Rightarrow> 'k tcp option"
  serv_acceptor :: "'k acceptor"

definition new_server :: "int \<Rightarrow> int \<Rightarrow> sockaddr_in \<Rightarrow> 'k \<Rightarrow> 'k tcp_server res" where
  "new_server sock_ret bind_ret addr k =
     bindR (new_acceptor sock_ret bind_ret addr k) (\<lambda>a.
       Inr \<lparr>serv_started = False, nextId = 0, connections = (\<lambda>_. None), serv_acceptor = a\<rparr>)"

definition serv_start :: "'k epoll_ctl \<Rightarrow> int \<Rightarrow> 'k tcp_server \<Rightarrow> 'k tcp_server res" where
  "serv_start ectl listen_ret sv =
     (if \<not> serv_started sv
      then bindR (acc_listen ectl listen_ret (serv_acceptor sv)) (\<lambda>a.
             Inr (sv\<lparr>serv_started := True, serv_acceptor := a\<rparr>))
      else Inr sv)"

text \<open>
  What the server does to a connection of its map.  All of them, and the acceptor, share the
  kernel's state, which goes from one operation to the next.
\<close>

definition serv_kernel :: "'k tcp_server \<Rightarrow> 'k" where
  "serv_kernel sv = acc_kernel (serv_acceptor sv)"

definition put_connection :: "string \<Rightarrow> 'k tcp \<Rightarrow> 'k tcp_server \<Rightarrow> 'k tcp_server" where
  "put_connection nm conn sv =
     sv\<lparr>connections := (connections sv)(nm \<mapsto> conn),
        serv_acceptor := (serv_acceptor sv)\<lparr>acc_kernel := kernel conn\<rparr>\<rparr>"

text \<open>
  The connection is put into the map and then established.  \<^verbatim>\<open>nextId_\<close> is an \<^verbatim>\<open>int\<close>: after
  \<open>2 ^ 31 - 1\<close> it wraps (which C++ leaves undefined).
\<close>

definition newConnection :: "'k tcp_env \<Rightarrow> int \<Rightarrow> sockaddr_in \<Rightarrow> 'k tcp_server \<Rightarrow> 'k tcp_server res" where
  "newConnection E f peer sv =
     (let sv = sv\<lparr>nextId := to_int32 (nextId sv + 1)\<rparr>;
          connName = dec_int (nextId sv)
      in bindR (new_tcp connName f peer (serv_kernel sv)) (\<lambda>conn.
           let sv = put_connection connName conn sv
           in case connections sv connName of None \<Rightarrow> Inl UseAfterFree
              | Some conn \<Rightarrow>
                  bindR (connectEstablished E conn) (\<lambda>conn. Inr (put_connection connName conn sv))))"

definition removeConnection :: "'k tcp \<Rightarrow> 'k tcp_server \<Rightarrow> 'k tcp_server" where
  "removeConnection conn sv = sv\<lparr>connections := (connections sv)(name conn := None)\<rparr>"

text \<open>
  The close callback of the server's connections is \<^verbatim>\<open>removeConnection\<close>: to the connection, it is
  the end of the pointer in the map.
\<close>

definition serv_env :: "'k tcp_env \<Rightarrow> 'k tcp_env" where
  "serv_env E = E\<lparr>closeCallback := Some drop_owner\<rparr>"

text \<open>
  A read on one of the connections.  The end of the stream goes through \<^verbatim>\<open>handleClose\<close>, whose
  close callback takes the connection out of the map.  (What the channel does afterwards is in
  \<open>peer_close_uses_freed_channel\<close>.)
\<close>

definition serv_read :: "'k tcp_env \<Rightarrow> string \<Rightarrow> char list \<Rightarrow> 'k tcp_server \<Rightarrow> 'k tcp_server res" where
  "serv_read E nm data sv =
     (case connections sv nm of None \<Rightarrow> Inr sv
      | Some conn \<Rightarrow>
          bindR (TcpConnections.handleRead (serv_env E) (\<lambda>_. ReadData data) (conn\<lparr>kernel := serv_kernel sv\<rparr>)) (\<lambda>conn.
            let sv = put_connection nm conn sv
            in Inr (if data = [] then removeConnection conn sv else sv)))"

section \<open>Names are unique\<close>

definition server_inv :: "'k tcp_server \<Rightarrow> bool" where
  "server_inv sv \<longleftrightarrow> 0 \<le> nextId sv \<and>
     (\<forall>nm conn. connections sv nm = Some conn \<longrightarrow> name conn = nm \<and> tcp_inv conn \<and>
        (\<exists>i. 1 \<le> i \<and> i \<le> nextId sv \<and> nm = dec_int i))"

definition keeps_name :: "'k tcp_callback \<Rightarrow> bool" where
  "keeps_name cb \<longleftrightarrow> (\<forall>f s s'. cb = Some f \<longrightarrow> f s = Inr s' \<longrightarrow> name s' = name s)"

definition server_callbacks_ok :: "'k tcp_env \<Rightarrow> bool" where
  "server_callbacks_ok E \<longleftrightarrow> write_ok E \<and> callbacks_ok E \<and>
     keeps_name (connectionCallback E) \<and> keeps_name (messageCallback E)"

lemma server_invI:
  assumes "0 \<le> nextId sv"
    and "\<And>nm conn. connections sv nm = Some conn \<Longrightarrow>
      name conn = nm \<and> tcp_inv conn \<and> (\<exists>i. 1 \<le> i \<and> i \<le> nextId sv \<and> nm = dec_int i)"
  shows "server_inv sv"
  using assms unfolding server_inv_def by blast

lemma server_invD:
  assumes "server_inv sv" "connections sv nm = Some conn"
  shows "name conn = nm" "tcp_inv conn" "\<exists>i. 1 \<le> i \<and> i \<le> nextId sv \<and> nm = dec_int i"
  using assms unfolding server_inv_def by blast+

lemma put_connection_fields [simp]:
  "connections (put_connection nm conn sv) = (connections sv)(nm \<mapsto> conn)"
  "nextId (put_connection nm conn sv) = nextId sv"
  by (simp_all add: put_connection_def)

lemma server_inv_put:
  assumes "server_inv sv" "name conn = nm" "tcp_inv conn" "\<exists>i. 1 \<le> i \<and> i \<le> nextId sv \<and> nm = dec_int i"
  shows "server_inv (put_connection nm conn sv)"
proof (rule server_invI)
  show "0 \<le> nextId (put_connection nm conn sv)" using assms(1) by (simp add: server_inv_def)
  show "name c = m \<and> tcp_inv c \<and> (\<exists>i. 1 \<le> i \<and> i \<le> nextId (put_connection nm conn sv) \<and> m = dec_int i)"
    if "connections (put_connection nm conn sv) m = Some c" for m c
    using that assms(2-4) server_invD [OF assms(1), of m c] by (auto split: if_splits)
qed

lemma server_inv_grow: "server_inv sv \<Longrightarrow> nextId sv \<le> n \<Longrightarrow> server_inv (sv\<lparr>nextId := n\<rparr>)"
  unfolding server_inv_def by (fastforce intro: order_trans)

lemma dec_int_nonneg_inj: "0 \<le> i \<Longrightarrow> 0 \<le> j \<Longrightarrow> dec_int i = dec_int j \<longleftrightarrow> i = j"
  by (auto simp: dec_int_def dec_nat_inj)

lemma fresh_name:
  assumes "server_inv sv"
  shows "connections sv (dec_int (nextId sv + 1)) = None"
proof (rule ccontr)
  assume "connections sv (dec_int (nextId sv + 1)) \<noteq> None"
  then obtain conn i where "1 \<le> i" "i \<le> nextId sv" "dec_int (nextId sv + 1) = dec_int i"
    using server_invD(3) [OF assms] by blast
  with assms dec_int_nonneg_inj [of "nextId sv + 1" i] show False by (simp add: server_inv_def)
qed

lemma on_channel_name [simp]: "name (on_channel f s) = name s"
  by (simp add: on_channel_def split: prod.split)

lemma invoke_name: "keeps_name cb \<Longrightarrow> invoke cb s = Inr s' \<Longrightarrow> name s' = name s"
  by (cases cb) (simp_all add: keeps_name_def invoke_def)

lemma connectEstablished_name:
  "keeps_name (connectionCallback E) \<Longrightarrow> connectEstablished E s = Inr s' \<Longrightarrow> name s' = name s"
  by (auto simp: connectEstablished_def dest!: invoke_name)

lemma drop_owner_keeps: "keeps_inv (Some drop_owner)" "keeps_name (Some drop_owner)"
  by (auto simp: keeps_inv_def keeps_name_def drop_owner_def tcp_inv_def stream_inv_def)

lemma serv_env_ok: "server_callbacks_ok E \<Longrightarrow> server_callbacks_ok (serv_env E)"
  using drop_owner_keeps by (simp add: server_callbacks_ok_def serv_env_def callbacks_ok_def write_ok_def)

lemma handleRead_name:
  assumes "server_callbacks_ok E" "TcpConnections.handleRead (serv_env E) readv s = Inr s'"
  shows "name s' = name s"
proof -
  have q: "keeps_name (connectionCallback (serv_env E))" "keeps_name (messageCallback (serv_env E))"
    "keeps_name (closeCallback (serv_env E))"
    using assms(1) drop_owner_keeps(2) by (simp_all add: server_callbacks_ok_def serv_env_def)
  have "release E' s1 = Inr s2 \<Longrightarrow> name s2 = name s1" for E' :: "'a tcp_env" and s1 s2
    by (auto simp: release_def Let_def split: if_splits)
  with assms(2) show ?thesis
    by (auto simp: TcpConnections.handleRead_def handleClose_def Let_def
        dest!: invoke_name [OF q(1)] invoke_name [OF q(2)] invoke_name [OF q(3)] split: if_splits)
qed

lemma newConnection_ok:
  assumes E: "server_callbacks_ok E" and inv: "server_inv sv" and room: "nextId sv + 1 < 2 ^ 31"
  shows "\<exists>conn sv'. newConnection E f peer sv = Inr sv' \<and> server_inv sv' \<and>
    nextId sv' = nextId sv + 1 \<and> name conn = dec_int (nextId sv') \<and>
    connections sv (name conn) = None \<and> connections sv' = (connections sv)(name conn \<mapsto> conn)"
proof -
  let ?nm = "dec_int (nextId sv + 1)"
  let ?sv = "sv\<lparr>nextId := nextId sv + 1\<rparr>"
  from new_tcp_ok [of ?nm f peer "serv_kernel ?sv"] obtain c0 where
    c0: "new_tcp ?nm f peer (serv_kernel ?sv) = Inr c0" "tcp_inv c0"
      "tcp_state c0 = kConnecting"
    by blast
  have nm0: "name c0 = ?nm" using c0(1) by (auto simp: new_tcp_def)
  have E': "callbacks_ok E" "keeps_name (connectionCallback E)" using E by (simp_all add: server_callbacks_ok_def)
  from connectEstablished_ok [OF E'(1) c0(2,3)] obtain c1 where
    c1: "connectEstablished E c0 = Inr c1" "tcp_inv c1" by blast
  have nm: "name c1 = ?nm"
    using connectEstablished_name [OF E'(2) c1(1)] nm0 by simp
  have id: "to_int32 (nextId sv + 1) = nextId sv + 1" "0 \<le> nextId sv"
    using inv room by (simp_all add: to_int32_id server_inv_def)
  let ?sv1 = "put_connection ?nm c1 (put_connection ?nm c0 ?sv)"
  have run: "newConnection E f peer sv = Inr ?sv1"
    using c0(1) c1(1) by (simp add: newConnection_def id Let_def)
  have grown: "server_inv ?sv" using inv by (intro server_inv_grow) simp_all
  have "\<exists>i. 1 \<le> i \<and> i \<le> nextId ?sv \<and> ?nm = dec_int i" using id(2) by (intro exI [of _ "nextId sv + 1"]) simp
  from server_inv_put [OF server_inv_put [OF grown nm0 c0(2) this] nm c1(2)] this
  have "server_inv ?sv1" by simp
  with run nm fresh_name [OF inv] show ?thesis
    by (intro exI [of _ c1] exI [of _ ?sv1]) simp
qed

lemma removeConnection_ok: "server_inv sv \<Longrightarrow> server_inv (removeConnection conn sv)"
  by (auto simp: server_inv_def removeConnection_def)

lemma serv_read_ok:
  assumes E: "server_callbacks_ok E" and inv: "server_inv sv"
  shows "\<exists>sv'. serv_read E nm data sv = Inr sv' \<and> server_inv sv' \<and> nextId sv' = nextId sv \<and>
    dom (connections sv') = (if data = [] then dom (connections sv) - {nm} else dom (connections sv))"
proof (cases "connections sv nm")
  case None
  with inv show ?thesis by (auto simp: serv_read_def)
next
  case (Some conn)
  let ?c = "conn\<lparr>kernel := serv_kernel sv\<rparr>"
  note conn = server_invD [OF inv Some]
  have "tcp_inv ?c" using conn(2) by (simp add: tcp_inv_def stream_inv_def)
  moreover have "write_ok (serv_env E)" "callbacks_ok (serv_env E)"
    using serv_env_ok [OF E] by (simp_all add: server_callbacks_ok_def)
  ultimately obtain c1 where c1: "TcpConnections.handleRead (serv_env E) (\<lambda>_. ReadData data) ?c = Inr c1" "tcp_inv c1"
    using TcpConnections.handleRead_ok [of "serv_env E" ?c "\<lambda>_. ReadData data"] by blast
  have nm: "name c1 = nm" using handleRead_name [OF E c1(1)] conn(1) by simp
  from server_inv_put [OF inv this c1(2) conn(3)] have "server_inv (put_connection nm c1 sv)" .
  with Some c1(1) nm removeConnection_ok [of "put_connection nm c1 sv" c1] show ?thesis
    by (auto simp: serv_read_def removeConnection_def)
qed

section \<open>The connector\<close>

datatype connector_handler = ConnWrite | ConnError

text \<open>
  \<open>closes\<close> lists the descriptors given to \<^verbatim>\<open>Socket::close\<close>, \<open>handed_over\<close> those given to the
  callback, \<open>quits\<close> says whether the loop was told to quit.
\<close>

record 'k connector =
  conn_state :: tcp_state
  conn_channel :: "connector_handler channel option"
  conn_kernel :: 'k
  closes :: "int list"
  handed_over :: "int list"
  quits :: bool

definition new_connector :: "'k \<Rightarrow> 'k connector" where
  "new_connector k =
     \<lparr>conn_state = kDisconnected, conn_channel = None, conn_kernel = k, closes = [],
      handed_over = [], quits = False\<rparr>"

definition connecting :: "'k epoll_ctl \<Rightarrow> int \<Rightarrow> 'k connector \<Rightarrow> 'k connector" where
  "connecting ectl f c =
     (let ch = (new_channel f)\<lparr>writeCallback := Some ConnWrite, errorCallback := Some ConnError\<rparr>
      in case enableWriting ectl ch (conn_kernel c) of
           (ch, k) \<Rightarrow> c\<lparr>conn_state := kConnecting, conn_channel := Some ch, conn_kernel := k\<rparr>)"

definition EINTR :: int where "EINTR = 4"

definition EINPROGRESS :: int where "EINPROGRESS = 115"

definition EISCONN :: int where "EISCONN = 106"

text \<open>\<open>sock_ret\<close>, \<open>rt\<close> and \<open>errno\<close> are the results of \<^verbatim>\<open>socket\<close> and \<^verbatim>\<open>connect\<close>.\<close>

definition connector_start :: "'k epoll_ctl \<Rightarrow> int \<Rightarrow> int \<Rightarrow> int \<Rightarrow> 'k connector \<Rightarrow> 'k connector res" where
  "connector_start ectl sock_ret rt errno c =
     bindR (createSocketNonBlocking sock_ret) (\<lambda>so.
       let savedErrno = (if rt = 0 then 0 else errno)
       in if savedErrno \<in> {0, EINPROGRESS, EINTR, EISCONN}
          then Inr (connecting ectl (sock_fd so) c)
          else Inr (c\<lparr>closes := closes c @ [sock_fd so], quits := True\<rparr>))"

text \<open>\<open>sock_err f\<close> is what \<^verbatim>\<open>getSocketError\<close> returns for the descriptor \<open>f\<close>.\<close>

definition conn_handleWrite :: "'k epoll_ctl \<Rightarrow> (int \<Rightarrow> int) \<Rightarrow> 'k connector \<Rightarrow> 'k connector res" where
  "conn_handleWrite ectl sock_err c =
     (case conn_channel c of None \<Rightarrow> Inl UseAfterFree
      | Some ch \<Rightarrow>
          (case disableAll ectl ch (conn_kernel c) of (ch', k) \<Rightarrow>
             let c = c\<lparr>conn_channel := Some ch', conn_kernel := k\<rparr>
             in if sock_err (fd ch) \<noteq> 0
                then Inr (c\<lparr>conn_state := kDisconnected, closes := closes c @ [fd ch], quits := True\<rparr>)
                else Inr (c\<lparr>conn_state := kConnected, handed_over := handed_over c @ [fd ch]\<rparr>)))"

definition conn_handleError :: "'k epoll_ctl \<Rightarrow> 'k connector \<Rightarrow> 'k connector res" where
  "conn_handleError ectl c =
     (case conn_channel c of None \<Rightarrow> Inl UseAfterFree
      | Some ch \<Rightarrow>
          (case disableAll ectl ch (conn_kernel c) of (ch', k) \<Rightarrow>
             Inr (c\<lparr>conn_channel := Some ch', conn_kernel := k, conn_state := kDisconnected,
                    closes := closes c @ [fd ch], quits := True\<rparr>)))"

fun conn_call :: "'k epoll_ctl \<Rightarrow> (int \<Rightarrow> int) \<Rightarrow> connector_handler \<Rightarrow> 'k connector \<Rightarrow> 'k connector res" where
  "conn_call ectl sock_err ConnWrite c = conn_handleWrite ectl sock_err c"
| "conn_call ectl sock_err ConnError c = conn_handleError ectl c"

definition conn_event :: "'k epoll_ctl \<Rightarrow> (int \<Rightarrow> int) \<Rightarrow> 32 word \<Rightarrow> 'k connector \<Rightarrow> 'k connector res" where
  "conn_event ectl sock_err ev c =
     handleEvent conn_channel (conn_call ectl sock_err)
       (c\<lparr>conn_channel := map_option (\<lambda>ch. ch\<lparr>revents := ev\<rparr>) (conn_channel c)\<rparr>)"

section \<open>The client\<close>

record 'k tcp_client =
  connection :: "'k tcp option"
  client_connector :: "'k connector"

definition new_client :: "'k \<Rightarrow> 'k tcp_client" where
  "new_client k = \<lparr>connection = None, client_connector = new_connector k\<rparr>"

definition client_start ::
  "'k epoll_ctl \<Rightarrow> int \<Rightarrow> int \<Rightarrow> int \<Rightarrow> 'k tcp_client \<Rightarrow> 'k tcp_client res" where
  "client_start ectl sock_ret rt errno cl =
     bindR (connector_start ectl sock_ret rt errno (client_connector cl))
       (\<lambda>c. Inr (cl\<lparr>client_connector := c\<rparr>))"

text \<open>\<open>ret\<close> and \<open>stored\<close> are what \<^verbatim>\<open>getsockname\<close> returns and stores.\<close>

definition client_newConnection ::
  "'k tcp_env \<Rightarrow> int \<Rightarrow> sockaddr_in \<Rightarrow> int \<Rightarrow> 'k tcp_client \<Rightarrow> 'k tcp_client res" where
  "client_newConnection E ret stored f cl =
     (let localAddr = getLocalAddr ret stored
      in bindR (new_tcp ''client'' f localAddr (conn_kernel (client_connector cl))) (\<lambda>conn.
         bindR (connectEstablished E conn) (\<lambda>conn. Inr (cl\<lparr>connection := Some conn\<rparr>))))"

definition client_removeConnection :: "'k tcp_client \<Rightarrow> 'k tcp_client" where
  "client_removeConnection cl = cl\<lparr>connection := None\<rparr>"

section \<open>Runs of the server\<close>

text \<open>What \<^verbatim>\<open>accept\<close> returned, and what a read of a connection brought: nothing is its end.\<close>

datatype server_event = Accepted int sockaddr_in | Received string "char list"

fun server_step :: "'k tcp_env \<Rightarrow> server_event \<Rightarrow> 'k tcp_server \<Rightarrow> 'k tcp_server res" where
  "server_step E (Accepted connfd peer) sv =
     acc_handleRead (Some (newConnection E)) (\<lambda>f sv. sv) connfd peer sv"
| "server_step E (Received nm data) sv = serv_read E nm data sv"

text \<open>The names of the connections that a run accepts and does not close again, and their number.\<close>

fun open_names :: "server_event list \<Rightarrow> int \<Rightarrow> string set \<Rightarrow> string set" where
  "open_names [] n A = A"
| "open_names (Accepted f peer # evs) n A =
     (if 0 \<le> f then open_names evs (n + 1) (insert (dec_int (n + 1)) A) else open_names evs n A)"
| "open_names (Received nm data # evs) n A = open_names evs n (if data = [] then A - {nm} else A)"

fun accepts :: "server_event list \<Rightarrow> int" where
  "accepts [] = 0"
| "accepts (Accepted f peer # evs) = (if 0 \<le> f then 1 else 0) + accepts evs"
| "accepts (Received nm data # evs) = accepts evs"

lemma accepts_nonneg: "0 \<le> accepts evs"
  by (induction evs rule: accepts.induct) simp_all

lemma server_step_ok:
  assumes E: "server_callbacks_ok E" and inv: "server_inv sv" and room: "nextId sv + accepts (ev # evs) < 2 ^ 31"
  shows "\<exists>sv'. server_step E ev sv = Inr sv' \<and> server_inv sv' \<and>
    nextId sv' + accepts evs = nextId sv + accepts (ev # evs) \<and>
    open_names (ev # evs) (nextId sv) (dom (connections sv)) =
    open_names evs (nextId sv') (dom (connections sv'))"
proof (cases ev)
  case (Accepted f peer)
  show ?thesis
  proof (cases "0 \<le> f")
    case True
    have "nextId sv + 1 < 2 ^ 31" using room Accepted True accepts_nonneg [of evs] by simp
    from newConnection_ok [OF E inv this, of f peer] obtain conn sv' where
      "newConnection E f peer sv = Inr sv'" "server_inv sv'" "nextId sv' = nextId sv + 1"
      "name conn = dec_int (nextId sv')" "connections sv' = (connections sv)(name conn \<mapsto> conn)"
      by blast
    with Accepted True show ?thesis by (simp add: acc_handleRead_def sock_accept_def)
  next
    case False
    with Accepted inv show ?thesis by (simp add: acc_handleRead_def sock_accept_def)
  qed
next
  case (Received nm data)
  with serv_read_ok [OF E inv, of nm data] show ?thesis by auto
qed

section \<open>Properties\<close>



lemma enable_fresh:
  assumes "epoll_law ectl interest" "interest k f = None"
  defines "ch0 \<equiv> (new_channel f)\<lparr>writeCallback := Some ConnWrite, errorCallback := Some ConnError\<rparr>"
  shows "\<exists>ch. enableWriting ectl ch0 k = (ch, ectl EPOLL_CTL_ADD f EPOLLOUT k) \<and> fd ch = f \<and>
    chan_state ch = kAdded \<and> events ch = EPOLLOUT \<and> writeCallback ch = Some ConnWrite \<and>
    errorCallback ch = Some ConnError \<and> readCallback ch = None"
  unfolding ch0_def
  by (simp add: enableWriting_def updateChannel_def ep_update_def new_channel_def kWriteEvent_def)

text \<open>
  Fact.  What becomes of a connection attempt: it goes on exactly if \<^verbatim>\<open>connect\<close> succeeds
  or fails with an error that means it is under way, and then the descriptor is watched for
  writability; otherwise the descriptor is closed and the loop told to quit.  When it becomes
  writable the descriptor is out of the interest list again, and it is either handed over or
  closed, never both, according to the socket's error.
\<close>

theorem connector_start_outcome:
  assumes law: "epoll_law ectl interest" and free: "interest k f = None" and f: "0 \<le> f"
  shows "\<exists>c. connector_start ectl f rt errno (new_connector k) = Inr c \<and>
    (if rt = 0 \<or> errno \<in> {0, EINPROGRESS, EINTR, EISCONN}
     then conn_state c = kConnecting \<and> interest (conn_kernel c) f = Some EPOLLOUT \<and>
       \<not> quits c \<and> closes c = [] \<and>
       (\<exists>c'. conn_event ectl sock_err EPOLLOUT c = Inr c' \<and> interest (conn_kernel c') f = None \<and>
          (if sock_err f = 0
           then conn_state c' = kConnected \<and> handed_over c' = [f] \<and> closes c' = [] \<and> \<not> quits c'
           else conn_state c' = kDisconnected \<and> handed_over c' = [] \<and> closes c' = [f] \<and> quits c'))
     else quits c \<and> closes c = [f] \<and> handed_over c = [])"
proof -
  let ?ch = "(new_channel f)\<lparr>events := EPOLLOUT, chan_state := kAdded,
    writeCallback := Some ConnWrite, errorCallback := Some ConnError\<rparr> :: connector_handler channel"
  let ?k = "ectl EPOLL_CTL_ADD f EPOLLOUT k"
  have enable: "enableWriting ectl ((new_channel f)\<lparr>writeCallback := Some ConnWrite,
      errorCallback := Some ConnError\<rparr>) k = (?ch, ?k)"
    by (simp add: enableWriting_def updateChannel_def ep_update_def new_channel_def kWriteEvent_def)
  have added: "interest ?k f = Some EPOLLOUT"
    using free by (simp add: epoll_lawD [OF law])
  have disable: "disableAll ectl (?ch\<lparr>revents := EPOLLOUT\<rparr>) ?k =
      (?ch\<lparr>revents := EPOLLOUT, events := 0, chan_state := kDeleted\<rparr>, ectl EPOLL_CTL_DEL f 0 ?k)"
    by (simp add: disableAll_def updateChannel_def isNoneEvent_def kNoneEvent_def ep_update_def
        new_channel_def)
  have gone: "interest (ectl EPOLL_CTL_DEL f 0 ?k) f = None"
    by (simp add: epoll_lawD [OF law])
  let ?c = "(new_connector k)\<lparr>conn_state := kConnecting, conn_channel := Some ?ch, conn_kernel := ?k\<rparr>"
  have event: "conn_event ectl sock_err EPOLLOUT ?c =
      conn_handleWrite ectl sock_err (?c\<lparr>conn_channel := Some (?ch\<lparr>revents := EPOLLOUT\<rparr>)\<rparr>)"
    by (simp add: conn_event_def handleEvent_def dispatch_def new_channel_def)
  show ?thesis
  proof (cases "rt = 0 \<or> errno \<in> {0, EINPROGRESS, EINTR, EISCONN}")
    case True
    then have "connector_start ectl f rt errno (new_connector k) = Inr ?c"
      using f enable
      by (auto simp: connector_start_def createSocketNonBlocking_def setNonBlocking_def new_socket_def
          connecting_def new_connector_def)
    moreover have "\<exists>c'. conn_event ectl sock_err EPOLLOUT ?c = Inr c' \<and> interest (conn_kernel c') f = None \<and>
          (if sock_err f = 0
           then conn_state c' = kConnected \<and> handed_over c' = [f] \<and> closes c' = [] \<and> \<not> quits c'
           else conn_state c' = kDisconnected \<and> handed_over c' = [] \<and> closes c' = [f] \<and> quits c')"
    proof (cases "sock_err f = 0")
      case True
      then show ?thesis unfolding event using disable gone
        by (simp add: conn_handleWrite_def new_connector_def new_channel_def)
    next
      case False
      then show ?thesis unfolding event using disable gone
        by (simp add: conn_handleWrite_def new_connector_def new_channel_def)
    qed
    ultimately show ?thesis using True added by (simp add: new_connector_def)
  next
    case False
    then show ?thesis
      using f by (auto simp: connector_start_def createSocketNonBlocking_def setNonBlocking_def
          new_socket_def new_connector_def)
  qed
qed

theorem connector_start_outcome_witness:
  "\<exists>c c'. connector_start sample_ctl 7 (-1) EINPROGRESS (new_connector (\<lambda>_. None)) = Inr c \<and>
     conn_event sample_ctl (\<lambda>_. 0) EPOLLOUT c = Inr c' \<and> handed_over c' = [7]"
  using connector_start_outcome [OF sample_ctl_law, of "\<lambda>_. None" 7 "-1" EINPROGRESS "\<lambda>_. 0"]
  by auto

text \<open>
  Fact.  An event that reports an error together with writability, as the kernel does for a
  refused connection, runs both handlers: the same descriptor is closed twice, and in between the
  closed descriptor is registered again with an empty mask.
\<close>

theorem refused_connection_closed_twice:
  assumes law: "epoll_law ectl interest" and reg: "registered interest ch (conn_kernel c)"
    and ch: "conn_channel c = Some ch" "chan_state ch = kAdded" "writeCallback ch = Some ConnWrite"
      "errorCallback ch = Some ConnError" "readCallback ch = None"
    and err: "sock_err (fd ch) \<noteq> 0"
  shows "\<exists>c'. conn_event ectl sock_err (EPOLLERR OR EPOLLOUT) c = Inr c' \<and>
    closes c' = closes c @ [fd ch, fd ch] \<and> interest (conn_kernel c') (fd ch) = Some 0"
proof -
  let ?k = "conn_kernel c"
  let ?ch0 = "ch\<lparr>revents := EPOLLERR OR EPOLLOUT\<rparr>"
  let ?ch1 = "?ch0\<lparr>events := 0, chan_state := kDeleted\<rparr>"
  let ?k1 = "ectl EPOLL_CTL_DEL (fd ch) 0 ?k"
  let ?ch2 = "?ch1\<lparr>chan_state := kAdded\<rparr>"
  let ?k2 = "ectl EPOLL_CTL_ADD (fd ch) 0 ?k1"
  have 1: "disableAll ectl ?ch0 ?k = (?ch1, ?k1)"
    using ch(2) by (simp add: disableAll_def updateChannel_def isNoneEvent_def kNoneEvent_def ep_update_def)
  have 2: "disableAll ectl ?ch1 ?k1 = (?ch2, ?k2)"
    by (simp add: disableAll_def updateChannel_def kNoneEvent_def ep_update_def Let_def)
  have "interest ?k2 (fd ch) = Some 0"
    by (simp add: epoll_lawD [OF law])
  then show ?thesis
    using ch(1,3-5) err 1 2
    by (simp add: conn_event_def handleEvent_def dispatch_def conn_handleError_def conn_handleWrite_def)
qed

theorem refused_connection_closed_twice_witness:
  "\<exists>c c'. connector_start sample_ctl 7 (-1) EINPROGRESS (new_connector (\<lambda>_. None)) = Inr c \<and>
     conn_event sample_ctl (\<lambda>_. 111) (EPOLLERR OR EPOLLOUT) c = Inr c' \<and> closes c' = [7, 7]"
proof -
  from enable_fresh [OF sample_ctl_law, of "\<lambda>_. None" 7] obtain ch where
    c: "connector_start sample_ctl 7 (-1) EINPROGRESS (new_connector (\<lambda>_. None)) =
      Inr ((new_connector (\<lambda>_. None))\<lparr>conn_state := kConnecting, conn_channel := Some ch,
        conn_kernel := [7 \<mapsto> EPOLLOUT]\<rparr>)" (is "_ = Inr ?c")
    and ch: "fd ch = 7" "chan_state ch = kAdded" "events ch = EPOLLOUT" "writeCallback ch = Some ConnWrite"
      "errorCallback ch = Some ConnError" "readCallback ch = None"
    by (auto simp: connector_start_def createSocketNonBlocking_def setNonBlocking_def new_socket_def
        connecting_def new_connector_def sample_ctl_def)
  have "registered (\<lambda>k. k) ch (conn_kernel ?c)"
    using ch(1-3) by (simp add: registered_def)
  from refused_connection_closed_twice [OF sample_ctl_law this _ ch(2,4,5,6), of "\<lambda>_. 111"] c ch(1)
  show ?thesis by (auto simp: new_connector_def)
qed

end
