(* ===== verification/OrderedMaps.thy ===== *)
theory OrderedMaps
  imports Prelude "HOL-Library.List_Lexorder" "HOL-Library.Char_ord"
begin

text \<open>
  \<^verbatim>\<open>std::map\<close>, which the requests, the responses, the JSON objects and the table of processes use: its
  elements in the order in which iteration visits them.  That of strings is \<^verbatim>\<open>std::string::compare\<close>,
  the lexicographic order of the bytes, which the imported theories define on lists.  \<open>map_put\<close> is
  \<^verbatim>\<open>m[k] = v\<close>, and \<open>map_of\<close> is the lookup.
\<close>

type_synonym ('k, 'v) ordered_map = "('k \<times> 'v) list"

type_synonym 'v string_map = "(string, 'v) ordered_map"

fun map_put :: "'k::linorder \<Rightarrow> 'v \<Rightarrow> ('k, 'v) ordered_map \<Rightarrow> ('k, 'v) ordered_map" where
  "map_put k v [] = [(k, v)]"
| "map_put k v ((k', v') # m) =
     (if k < k' then (k, v) # (k', v') # m
      else if k = k' then (k, v) # m
      else (k', v') # map_put k v m)"

definition ordered :: "('k::linorder, 'v) ordered_map \<Rightarrow> bool" where
  "ordered m \<longleftrightarrow> sorted_wrt (<) (map fst m)"

named_theorems map_facts \<open>facts about ordered maps\<close>

lemma map_of_map_put [simp, map_facts]: "map_of (map_put k v m) = (map_of m)(k \<mapsto> v)"
  by (induction m) (auto simp: fun_eq_iff)

lemma keys_map_put [simp, map_facts]: "fst ` set (map_put k v m) = insert k (fst ` set m)"
  using dom_map_of_conv_image_fst [of "map_put k v m"] dom_map_of_conv_image_fst [of m]
  by (simp add: insert_commute)

lemma map_put_last:
  "\<forall>k'\<in>fst ` set m. k' < k \<Longrightarrow> map_put k v m = m @ [(k, v)]"
  by (induction m) (auto dest: order.asym)

lemma ordered_Nil [simp, map_facts]: "ordered []"
  by (simp add: ordered_def)

lemma ordered_Cons [map_facts]: "ordered ((k, v) # m) \<longleftrightarrow> (\<forall>k'\<in>fst ` set m. k < k') \<and> ordered m"
  by (simp add: ordered_def)

lemma ordered_map_put [simp, map_facts]: "ordered m \<Longrightarrow> ordered (map_put k v m)"
proof (induction m)
  case (Cons p m)
  obtain k' v' where p: "p = (k', v')" by force
  consider "k < k'" | "k = k'" | "k' < k" by fastforce
  then show ?case
  proof cases
    case 1
    with Cons p show ?thesis by (auto simp: ordered_Cons intro: less_trans)
  qed (use Cons p in \<open>auto simp: ordered_Cons\<close>)
qed (simp add: ordered_Cons)

lemma ordered_distinct: "ordered m \<Longrightarrow> distinct (map fst m)"
  by (simp add: ordered_def strict_sorted_iff)

text \<open>A map is what it holds: two of them that look up the same are the same list.\<close>

lemma ordered_unique:
  assumes "ordered m" "ordered m'" "map_of m = map_of m'"
  shows "m = m'"
proof (rule map_sorted_distinct_set_unique [where f = fst])
  have d: "distinct (map fst m)" "distinct (map fst m')"
    using assms ordered_distinct by blast+
  then show "set m = set m'" using assms(3) map_of_inject_set by blast
  then show "inj_on fst (set m \<union> set m')"
    using d(1) by (simp add: distinct_map)
qed (use assms ordered_distinct in \<open>auto simp: ordered_def strict_sorted_iff\<close>)

lemma map_put_same [map_facts]:
  assumes "ordered m" "map_of m k = Some v"
  shows "map_put k v m = m"
  using assms by (intro ordered_unique) (auto simp: fun_eq_iff)

text \<open>Putting the elements of an ordered list one after the other into an empty map gives the list.\<close>

lemma put_all_ordered: "ordered (m' @ m) \<Longrightarrow> foldl (\<lambda>m (k, v). map_put k v m) m' m = m' @ m"
proof (induction m arbitrary: m')
  case (Cons p m)
  obtain k v where p: "p = (k, v)" by force
  with Cons.prems have "\<forall>k'\<in>fst ` set m'. k' < k" by (auto simp: ordered_def sorted_wrt_append)
  with Cons p show ?case by (simp add: map_put_last)
qed simp

end
