(* ===== verification/HttpRequests.thy ===== *)
theory HttpRequests
  imports ByteBuffer OrderedMaps
begin

text \<open>
  \<^verbatim>\<open>http/HttpRequest.h\<close>, \<^verbatim>\<open>http/HttpRequest.cpp\<close>, \<^verbatim>\<open>http/HttpContext.h\<close> and
  \<^verbatim>\<open>http/HttpContext.cpp\<close>: a request and the parser that takes it from a buffer.  A range of
  characters is the list it holds.
  The loop of \<^verbatim>\<open>parseRequest\<close> need not end, so it is a partial function.
\<close>

section \<open>Header fields\<close>

type_synonym header_map = "string string_map"

section \<open>Requests\<close>

datatype http_method = kInvalid | kGet | kPost | kHead | kPut | kDelete

datatype http_version = kUnknownVersion | kHttp10 | kHttp11

record http_request =
  req_method :: http_method
  version :: http_version
  path :: string
  query :: string
  body :: string
  headers :: header_map

definition new_request :: http_request where
  "new_request =
     \<lparr>req_method = kInvalid, version = kUnknownVersion, path = [], query = [], body = [],
      headers = []\<rparr>"

definition setMethod :: "string \<Rightarrow> http_request \<Rightarrow> (bool \<times> http_request) res" where
  "setMethod m r =
     assertR (req_method r = kInvalid)
       (let me = (if m = ''GET'' then kGet else if m = ''POST'' then kPost
                  else if m = ''HEAD'' then kHead else if m = ''PUT'' then kPut
                  else if m = ''DELETE'' then kDelete else kInvalid)
        in Inr (me \<noteq> kInvalid, r\<lparr>req_method := me\<rparr>))"

definition methodString :: "http_request \<Rightarrow> string" where
  "methodString r =
     (case req_method r of
        kGet \<Rightarrow> ''GET'' | kPost \<Rightarrow> ''POST'' | kHead \<Rightarrow> ''HEAD'' | kPut \<Rightarrow> ''PUT''
      | kDelete \<Rightarrow> ''DELETE'' | kInvalid \<Rightarrow> ''UNKNOWN'')"

definition rtrim :: "string \<Rightarrow> string" where
  "rtrim s = rev (dropWhile isspace (rev s))"

definition setHeader :: "nat \<Rightarrow> string \<Rightarrow> http_request \<Rightarrow> http_request" where
  "setHeader colon line r =
     (let field = take colon line;
          val = rtrim (dropWhile isspace (drop (colon + 1) line))
      in r\<lparr>headers := map_put field val (headers r)\<rparr>)"

definition header :: "string \<Rightarrow> http_request \<Rightarrow> string" where
  "header field r = (case map_of (headers r) field of None \<Rightarrow> [] | Some v \<Rightarrow> v)"

section \<open>The parser\<close>

datatype parse_state = kExpectRequestLine | kExpectHeaders | kExpectBody | kGotAll

record http_context =
  parse_state :: parse_state
  request :: http_request

definition new_context :: http_context where
  "new_context = \<lparr>parse_state = kExpectRequestLine, request = new_request\<rparr>"

definition gotAll :: "http_context \<Rightarrow> bool" where
  "gotAll c \<longleftrightarrow> parse_state c = kGotAll"

definition set_target :: "string \<Rightarrow> http_request \<Rightarrow> http_request" where
  "set_target target r =
     (case find_elem (CHR ''?'') target of
        Some q \<Rightarrow> r\<lparr>path := take q target, query := drop q target\<rparr>
      | None \<Rightarrow> r\<lparr>path := target\<rparr>)"

definition set_protocol :: "string \<Rightarrow> http_request \<Rightarrow> bool \<times> http_request" where
  "set_protocol proto r =
     (if length proto = 8 \<and> take 7 proto = ''HTTP/1.''
      then if proto ! 7 = CHR ''1'' then (True, r\<lparr>version := kHttp11\<rparr>)
           else if proto ! 7 = CHR ''0'' then (True, r\<lparr>version := kHttp10\<rparr>)
           else (False, r)
      else (False, r))"

definition processRequestLine :: "string \<Rightarrow> http_request \<Rightarrow> (bool \<times> http_request) res" where
  "processRequestLine line r =
     (case find_elem (CHR '' '') line of
        None \<Rightarrow> Inr (False, r)
      | Some space \<Rightarrow>
          bindR (setMethod (take space line) r) (\<lambda>(ok, r).
            if \<not> ok then Inr (False, r)
            else (let rest = drop (space + 1) line
                  in case find_elem (CHR '' '') rest of
                       None \<Rightarrow> Inr (False, r)
                     | Some space2 \<Rightarrow>
                         Inr (set_protocol (drop (space2 + 1) rest)
                                (set_target (take space2 rest) r)))))"

text \<open>
  One turn of the loop: whether there is more to do, the value of \<^verbatim>\<open>ok\<close>, and the new state.
  \<^verbatim>\<open>ok\<close> is still true in every turn that leaves \<^verbatim>\<open>hasMore\<close> set.
\<close>

definition parse_turn ::
  "http_context \<Rightarrow> buffer \<Rightarrow> (bool \<times> bool \<times> http_context \<times> buffer) res" where
  "parse_turn c b =
     (case parse_state c of
        kExpectRequestLine \<Rightarrow>
          (case findCRLF b of
             None \<Rightarrow> Inr (False, True, c, b)
           | Some crlf \<Rightarrow>
               bindR (processRequestLine (take (crlf - readerIndex b) (contents b)) (request c))
                 (\<lambda>(ok, r).
                    if ok
                    then bindR (retrieveUntil (crlf + 2) b) (\<lambda>b.
                           Inr (True, True, \<lparr>parse_state = kExpectHeaders, request = r\<rparr>, b))
                    else Inr (False, False, c\<lparr>request := r\<rparr>, b)))
      | kExpectHeaders \<Rightarrow>
          (case findCRLF b of
             None \<Rightarrow> Inr (False, True, c, b)
           | Some crlf \<Rightarrow>
               (let line = take (crlf - readerIndex b) (contents b);
                    c = (case find_elem (CHR '':'') line of
                           Some colon \<Rightarrow> c\<lparr>request := setHeader colon line (request c)\<rparr>
                         | None \<Rightarrow> c\<lparr>parse_state := kExpectBody\<rparr>)
                in bindR (retrieveUntil (crlf + 2) b) (\<lambda>b. Inr (True, True, c, b))))
      | kExpectBody \<Rightarrow>
          (let contentLength = header ''Content-Length'' (request c)
           in if contentLength = [] then Inr (False, True, c\<lparr>parse_state := kGotAll\<rparr>, b)
              else (let bodyLen = as_size (atoi contentLength)
                    in if bodyLen \<le> int (readableBytes b)
                       then bindR (retrieveAsString (nat bodyLen) b) (\<lambda>(s, b).
                              Inr (False, True,
                                   \<lparr>parse_state = kGotAll, request = (request c)\<lparr>body := s\<rparr>\<rparr>, b))
                       else Inr (True, True, c, b)))
      | kGotAll \<Rightarrow> Inr (True, True, c, b))"

partial_function (option) parseRequest ::
  "http_context \<Rightarrow> buffer \<Rightarrow> (bool \<times> http_context \<times> buffer) res option" where
  "parseRequest c b =
     (case parse_turn c b of
        Inl e \<Rightarrow> Some (Inl e)
      | Inr (hasMore, ok, c', b') \<Rightarrow>
          if hasMore then parseRequest c' b' else Some (Inr (ok, c', b')))"

section \<open>Text of a request\<close>

definition version_text :: "http_version \<Rightarrow> string" where
  "version_text v =
     (case v of kHttp11 \<Rightarrow> ''HTTP/1.1'' | kHttp10 \<Rightarrow> ''HTTP/1.0'' | kUnknownVersion \<Rightarrow> [])"

definition request_line :: "http_request \<Rightarrow> string" where
  "request_line r =
     methodString r @ '' '' @ path r @ query r @ '' '' @ version_text (version r)"

definition header_line :: "string \<times> string \<Rightarrow> string" where
  "header_line h = fst h @ '': '' @ snd h"

definition request_text :: "http_request \<Rightarrow> string" where
  "request_text r =
     request_line r @ kCRLF @ concat (map (\<lambda>h. header_line h @ kCRLF) (headers r)) @ kCRLF @ body r"

definition trimmed :: "string \<Rightarrow> bool" where
  "trimmed s \<longleftrightarrow> s = [] \<or> \<not> isspace (hd s) \<and> \<not> isspace (last s)"

definition request_ok :: "http_request \<Rightarrow> bool" where
  "request_ok r \<longleftrightarrow>
     req_method r \<noteq> kInvalid \<and> version r \<noteq> kUnknownVersion \<and>
     set (path r) \<inter> {CHR '' '', CHR ''?'', CHR 0x0D} = {} \<and>
     (query r = [] \<or> hd (query r) = CHR ''?'') \<and>
     set (query r) \<inter> {CHR '' '', CHR 0x0D} = {} \<and>
     sorted_wrt (<) (map fst (headers r)) \<and>
     (\<forall>(k, v) \<in> set (headers r). set k \<inter> {CHR '':'', CHR 0x0D} = {} \<and> trimmed v \<and> CHR 0x0D \<notin> set v) \<and>
     (if header ''Content-Length'' r = [] then body r = []
      else atoi (header ''Content-Length'' r) = int (length (body r)))"

lemma search_crlf: "CHR 0x0D \<notin> set xs \<Longrightarrow> search kCRLF (xs @ kCRLF @ ys) = Some (length xs)"
  by (induction xs) (auto simp: kCRLF_def)

lemma take_line:
  assumes "buf_inv b" "contents b = line @ kCRLF @ rest" "CHR 0x0D \<notin> set line"
  shows "\<exists>crlf b'. findCRLF b = Some crlf \<and> take (crlf - readerIndex b) (contents b) = line \<and>
    retrieveUntil (crlf + 2) b = Inr b' \<and> buf_inv b' \<and> contents b' = rest"
proof -
  from search_crlf [OF assms(3)] assms(2) have find: "findCRLF b = Some (readerIndex b + length line)"
    by (simp add: findCRLF_def)
  have "length (contents b) = length line + 2 + length rest"
    using assms(2) by (simp add: kCRLF_def)
  then have "readerIndex b + length line + 2 \<le> writerIndex b"
    using assms(1) by (simp add: readableBytes_def)
  from retrieveUntil_ok [OF assms(1) _ this] obtain b' where
    "retrieveUntil (readerIndex b + length line + 2) b = Inr b'" "buf_inv b'"
    "contents b' = drop (length line + 2) (contents b)"
    by auto
  moreover have "drop (length line + 2) (contents b) = rest"
    using assms(2) by (simp add: kCRLF_def)
  ultimately show ?thesis using find assms(2) by simp
qed

section \<open>Reading a request back\<close>

lemma setMethod_methodString:
  "req_method r \<noteq> kInvalid \<Longrightarrow> req_method r0 = kInvalid \<Longrightarrow>
   setMethod (methodString r) r0 = Inr (True, r0\<lparr>req_method := req_method r\<rparr>)"
  by (cases "req_method r") (simp_all add: setMethod_def methodString_def)

lemma methodString_no_space: "CHR '' '' \<notin> set (methodString r)"
  by (simp add: methodString_def split: http_method.split)

lemma methodString_no_cr: "CHR 0x0D \<notin> set (methodString r)"
  by (simp add: methodString_def split: http_method.split)

lemma set_target_split:
  assumes "CHR ''?'' \<notin> set p" "q = [] \<or> hd q = CHR ''?''"
  shows "set_target (p @ q) r = r\<lparr>path := p, query := (if q = [] then query r else q)\<rparr>"
proof (cases q)
  case Nil
  with assms(1) have "find_elem (CHR ''?'') (p @ q) = None" by (simp add: find_elem_None)
  with Nil show ?thesis by (simp add: set_target_def)
next
  case (Cons c cs)
  with assms find_elem_split [OF assms(1), of cs] show ?thesis by (simp add: set_target_def)
qed

lemma processRequestLine_text:
  assumes "request_ok r"
  shows "processRequestLine (request_line r) new_request =
    Inr (True, new_request\<lparr>req_method := req_method r, path := path r, query := query r,
                 version := version r\<rparr>)"
proof -
  let ?m = "methodString r" and ?v = "version_text (version r)" and ?t = "path r @ query r"
  have sp: "CHR '' '' \<notin> set ?t" and q: "CHR ''?'' \<notin> set (path r)" "query r = [] \<or> hd (query r) = CHR ''?''"
    using assms by (auto simp: request_ok_def)
  have line: "request_line r = ?m @ CHR '' '' # ?t @ CHR '' '' # ?v"
    by (simp add: request_line_def)
  have "find_elem (CHR '' '') (request_line r) = Some (length ?m)"
    unfolding line by (rule find_elem_split [OF methodString_no_space])
  moreover have "find_elem (CHR '' '') (?t @ CHR '' '' # ?v) = Some (length ?t)"
    by (rule find_elem_split [OF sp])
  moreover have "set_protocol ?v r0 = (True, r0\<lparr>version := version r\<rparr>)" for r0
    using assms by (cases "version r") (simp_all add: set_protocol_def version_text_def request_ok_def)
  moreover have "setMethod ?m new_request = Inr (True, new_request\<lparr>req_method := req_method r\<rparr>)"
    using assms by (intro setMethod_methodString) (simp_all add: request_ok_def new_request_def)
  ultimately show ?thesis
    using set_target_split [OF q]
    by (simp add: processRequestLine_def line new_request_def)
qed

lemma isspace_space [simp]: "isspace (CHR '' '')"
  by (simp add: isspace_def)

lemma rtrim_trimmed: "trimmed v \<Longrightarrow> rtrim (dropWhile isspace v) = v"
proof (cases "v = []")
  case False
  assume "trimmed v"
  with False have "dropWhile isspace v = v" "dropWhile isspace (rev v) = rev v"
    by (auto simp: trimmed_def hd_rev dropWhile_eq_self_iff)
  then show ?thesis by (simp add: rtrim_def)
qed (simp add: rtrim_def)

lemma setHeader_line:
  assumes "CHR '':'' \<notin> set k" "trimmed v"
  shows "find_elem (CHR '':'') (header_line (k, v)) = Some (length k)"
    and "setHeader (length k) (header_line (k, v)) r = r\<lparr>headers := map_put k v (headers r)\<rparr>"
  using find_elem_split [OF assms(1), of "CHR '' '' # v"] rtrim_trimmed [OF assms(2)]
  by (simp_all add: header_line_def setHeader_def)

lemma parse_header_turn:
  assumes "findCRLF b = Some crlf" "take (crlf - readerIndex b) (contents b) = line"
    and "retrieveUntil (crlf + 2) b = Inr b'"
  shows "parseRequest \<lparr>parse_state = kExpectHeaders, request = r\<rparr> b =
    parseRequest
      (case find_elem (CHR '':'') line of
         Some colon \<Rightarrow> \<lparr>parse_state = kExpectHeaders, request = setHeader colon line r\<rparr>
       | None \<Rightarrow> \<lparr>parse_state = kExpectBody, request = r\<rparr>) b'"
  unfolding parseRequest.simps [of "\<lparr>parse_state = kExpectHeaders, request = r\<rparr>" b] parse_turn_def
  using assms by (simp add: Let_def del: take_eq_Nil split: option.split)

lemma parse_headers:
  assumes "buf_inv b" "contents b = concat (map (\<lambda>h. header_line h @ kCRLF) hs) @ kCRLF @ rest"
    and "\<forall>(k, v) \<in> set hs. set k \<inter> {CHR '':'', CHR 0x0D} = {} \<and> trimmed v \<and> CHR 0x0D \<notin> set v"
    and "sorted_wrt (<) (map fst (headers r @ hs))"
  shows "\<exists>b'. parseRequest \<lparr>parse_state = kExpectHeaders, request = r\<rparr> b =
      parseRequest \<lparr>parse_state = kExpectBody, request = r\<lparr>headers := headers r @ hs\<rparr>\<rparr> b' \<and>
    buf_inv b' \<and> contents b' = rest"
  using assms
proof (induction hs arbitrary: b r)
  case Nil
  then have "contents b = [] @ kCRLF @ rest" by simp
  from take_line [OF Nil.prems(1) this] obtain crlf b' where
    "findCRLF b = Some crlf" "take (crlf - readerIndex b) (contents b) = []"
    "retrieveUntil (crlf + 2) b = Inr b'" "buf_inv b'" "contents b' = rest"
    by auto
  with parse_header_turn [of b crlf "[]" b' r] show ?case by auto
next
  case (Cons h hs)
  obtain k v where h: "h = (k, v)" by force
  with Cons.prems(3) have kv: "CHR '':'' \<notin> set k" "CHR 0x0D \<notin> set k" "trimmed v" "CHR 0x0D \<notin> set v"
    by auto
  have cr: "CHR 0x0D \<notin> set (header_line (k, v))" using kv by (simp add: header_line_def)
  let ?rest = "concat (map (\<lambda>h. header_line h @ kCRLF) hs) @ kCRLF @ rest"
  have "contents b = header_line (k, v) @ kCRLF @ ?rest"
    using Cons.prems(2) h by simp
  from take_line [OF Cons.prems(1) this cr] obtain crlf b1 where line:
    "findCRLF b = Some crlf" "take (crlf - readerIndex b) (contents b) = header_line (k, v)"
    "retrieveUntil (crlf + 2) b = Inr b1" "buf_inv b1" "contents b1 = ?rest"
    by auto
  have put: "map_put k v (headers r) = headers r @ [(k, v)]"
    using Cons.prems(4) h by (intro map_put_last) (auto simp: sorted_wrt_append)
  let ?r = "r\<lparr>headers := headers r @ [(k, v)]\<rparr>"
  have step: "parseRequest \<lparr>parse_state = kExpectHeaders, request = r\<rparr> b =
      parseRequest \<lparr>parse_state = kExpectHeaders, request = ?r\<rparr> b1"
    using parse_header_turn [OF line(1-3), of r] setHeader_line [OF kv(1,3)] put by simp
  from Cons.IH [OF line(4,5), of ?r] Cons.prems(3,4) h step show ?case by simp
qed

lemma parse_body:
  assumes "buf_inv b" "contents b = bd @ rest" "length bd < 2 ^ 31" "body r = []"
    and "if header ''Content-Length'' r = [] then bd = []
         else atoi (header ''Content-Length'' r) = int (length bd)"
  shows "\<exists>b'. parseRequest \<lparr>parse_state = kExpectBody, request = r\<rparr> b =
      Some (Inr (True, \<lparr>parse_state = kGotAll, request = r\<lparr>body := bd\<rparr>\<rparr>, b')) \<and>
    buf_inv b' \<and> contents b' = rest"
proof (cases "header ''Content-Length'' r = []")
  case True
  moreover from True have "r\<lparr>body := bd\<rparr> = r" "contents b = rest" using assms by simp_all
  ultimately show ?thesis
    using assms(1) by (subst parseRequest.simps) (simp add: parse_turn_def)
next
  case False
  then have size: "as_size (atoi (header ''Content-Length'' r)) = int (length bd)"
    using assms(3,5) by (simp add: as_size_nonneg)
  have "length bd \<le> readableBytes b"
    using assms(2) length_contents [OF assms(1)] by simp
  with retrieveAsString_ok [OF assms(1) this] assms(2) obtain b' where
    "retrieveAsString (length bd) b = Inr (bd, b')" "buf_inv b'" "contents b' = rest"
    by auto
  with False size \<open>length bd \<le> readableBytes b\<close> show ?thesis
    by (subst parseRequest.simps) (simp add: parse_turn_def Let_def)
qed

lemma request_line_no_cr: "request_ok r \<Longrightarrow> CHR 0x0D \<notin> set (request_line r)"
  using methodString_no_cr [of r]
  by (auto simp: request_ok_def request_line_def version_text_def split: http_version.splits)

definition request_head :: "http_request \<Rightarrow> string" where
  "request_head r =
     request_line r @ kCRLF @ concat (map (\<lambda>h. header_line h @ kCRLF) (headers r)) @ kCRLF"

lemma request_text_head: "request_text r = request_head r @ body r"
  by (simp add: request_text_def request_head_def)

lemma parse_head:
  assumes inv: "buf_inv b" and cont: "contents b = request_head r @ rest" and ok: "request_ok r"
  shows "\<exists>b'. parseRequest new_context b =
      parseRequest \<lparr>parse_state = kExpectBody, request = r\<lparr>body := []\<rparr>\<rparr> b' \<and>
    buf_inv b' \<and> contents b' = rest"
proof -
  let ?hs = "concat (map (\<lambda>h. header_line h @ kCRLF) (headers r)) @ kCRLF @ rest"
  let ?r1 = "new_request\<lparr>req_method := req_method r, path := path r, query := query r,
    version := version r\<rparr>"
  have "contents b = request_line r @ kCRLF @ ?hs"
    using cont by (simp add: request_head_def)
  from take_line [OF inv this request_line_no_cr [OF ok]] obtain crlf b1 where line:
    "findCRLF b = Some crlf" "take (crlf - readerIndex b) (contents b) = request_line r"
    "retrieveUntil (crlf + 2) b = Inr b1" "buf_inv b1" "contents b1 = ?hs"
    by auto
  have 1: "parseRequest new_context b = parseRequest \<lparr>parse_state = kExpectHeaders, request = ?r1\<rparr> b1"
    using line(1-3) processRequestLine_text [OF ok]
    by (subst parseRequest.simps) (simp add: parse_turn_def new_context_def)
  have "sorted_wrt (<) (map fst (headers ?r1 @ headers r))"
    and "\<forall>(k, v) \<in> set (headers r). set k \<inter> {CHR '':'', CHR 0x0D} = {} \<and> trimmed v \<and> CHR 0x0D \<notin> set v"
    using ok by (simp_all add: request_ok_def new_request_def)
  from parse_headers [OF line(4,5) this(2,1)] obtain b2 where 2:
    "parseRequest \<lparr>parse_state = kExpectHeaders, request = ?r1\<rparr> b1 =
       parseRequest \<lparr>parse_state = kExpectBody, request = ?r1\<lparr>headers := headers r\<rparr>\<rparr> b2"
    "buf_inv b2" "contents b2 = rest"
    by (auto simp: new_request_def)
  have "?r1\<lparr>headers := headers r\<rparr> = r\<lparr>body := []\<rparr>" by (simp add: new_request_def)
  with 1 2 show ?thesis by auto
qed

lemma header_body [simp]: "header f (r\<lparr>body := s\<rparr>) = header f r"
  by (simp add: header_def)

lemma parse_text:
  assumes inv: "buf_inv b" and cont: "contents b = request_text r @ rest"
    and ok: "request_ok r" and len: "length (body r) < 2 ^ 31"
  shows "\<exists>b'. parseRequest new_context b =
      Some (Inr (True, \<lparr>parse_state = kGotAll, request = r\<rparr>, b')) \<and> buf_inv b' \<and> contents b' = rest"
proof -
  from parse_head [OF inv _ ok, of "body r @ rest"] cont obtain b1 where 1:
    "parseRequest new_context b =
       parseRequest \<lparr>parse_state = kExpectBody, request = r\<lparr>body := []\<rparr>\<rparr> b1"
    "buf_inv b1" "contents b1 = body r @ rest"
    by (auto simp: request_text_head)
  have cl: "if header ''Content-Length'' (r\<lparr>body := []\<rparr>) = [] then body r = []
      else atoi (header ''Content-Length'' (r\<lparr>body := []\<rparr>)) = int (length (body r))"
    using ok by (simp add: request_ok_def)
  have full: "r\<lparr>body := []\<rparr>\<lparr>body := body r\<rparr> = r" by simp
  have nil: "body (r\<lparr>body := []\<rparr>) = []" by simp
  from parse_body [OF 1(2,3) len nil cl] show ?thesis
    unfolding 1(1) full .
qed

section \<open>When the parser does not return\<close>

text \<open>The state that \<^verbatim>\<open>parseRequest\<close> cannot leave: a body is announced and is not there.\<close>

definition stuck :: "http_context \<Rightarrow> buffer \<Rightarrow> bool" where
  "stuck c b \<longleftrightarrow> parse_state c = kExpectBody \<and> header ''Content-Length'' (request c) \<noteq> [] \<and>
     int (readableBytes b) < as_size (atoi (header ''Content-Length'' (request c)))"

inductive turns :: "http_context \<times> buffer \<Rightarrow> http_context \<times> buffer \<Rightarrow> bool" where
  "parse_turn c b = Inr (True, ok, c', b') \<Longrightarrow> turns (c, b) (c', b')"

lemma stuck_turn: "stuck c b \<Longrightarrow> parse_turn c b = Inr (True, True, c, b)"
  by (simp add: stuck_def parse_turn_def)

lemma stuck_diverges:
  assumes "stuck c b"
  shows "parseRequest c b = None"
proof (rule ccontr)
  assume "parseRequest c b \<noteq> None"
  then obtain y where "parseRequest c b = Some y" by blast
  then have "\<not> stuck c b"
  proof (rule parseRequest.raw_induct [rotated])
    fix f c b and y :: "(bool \<times> http_context \<times> buffer) res"
    assume IH: "\<And>c b (y :: (bool \<times> http_context \<times> buffer) res). f c b = Some y \<Longrightarrow> \<not> stuck c b"
      and turn: "(case parse_turn c b of Inl e \<Rightarrow> Some (Inl e)
        | Inr (hasMore, ok, c', b') \<Rightarrow>
            if hasMore then f c' b' else Some (Inr (ok, c', b'))) = Some y"
    show "\<not> stuck c b"
    proof
      assume "stuck c b"
      with turn IH [of c b] stuck_turn [of c b] show False by auto
    qed
  qed
  with assms show False by blast
qed

lemma turns_diverges: "turns\<^sup>*\<^sup>* (c, b) (c', b') \<Longrightarrow> stuck c' b' \<Longrightarrow> parseRequest c b = None"
proof (induction "(c, b)" arbitrary: c b rule: converse_rtranclp_induct)
  case base
  then show ?case by (rule stuck_diverges)
next
  case (step z)
  then obtain c1 b1 ok where "z = (c1, b1)" "parse_turn c b = Inr (True, ok, c1, b1)"
    by (auto elim!: turns.cases)
  with step show ?case by (subst parseRequest.simps) simp
qed

lemma line_turn:
  assumes "buf_inv b" "findCRLF b = Some crlf"
  shows "\<exists>b'. retrieveUntil (crlf + 2) b = Inr b' \<and> buf_inv b' \<and>
    length (contents b') < length (contents b)"
proof -
  from findCRLF_Some [OF assms] have p: "readerIndex b \<le> crlf" "crlf + 2 \<le> writerIndex b" by auto
  then have "readerIndex b \<le> crlf + 2" by simp
  from retrieveUntil_ok [OF assms(1) this p(2)] obtain b' where
    "retrieveUntil (crlf + 2) b = Inr b'" "buf_inv b'"
    "contents b' = drop (crlf + 2 - readerIndex b) (contents b)"
    by blast
  moreover from this p(1) have "length (contents b') \<le> length (contents b) - 2" by simp
  moreover have "0 < length (contents b)"
    using p assms(1) by (simp add: readableBytes_def)
  ultimately show ?thesis by (intro exI [of _ b'] conjI) linarith+
qed

lemma processRequestLine_total:
  "req_method r = kInvalid \<Longrightarrow> \<exists>ok r'. processRequestLine line r = Inr (ok, r')"
  by (auto simp: processRequestLine_def setMethod_def Let_def split: option.split)

definition ready :: "http_context \<Rightarrow> bool" where
  "ready c \<longleftrightarrow> parse_state c \<noteq> kGotAll \<and>
     (parse_state c = kExpectRequestLine \<longrightarrow> req_method (request c) = kInvalid)"

text \<open>Every turn ends the loop, takes a line from the buffer, or finds the parser stuck.\<close>

lemma parse_turn_cases:
  assumes inv: "buf_inv b" and c: "ready c"
  obtains (finish) ok c' b' where "parse_turn c b = Inr (False, ok, c', b')" "buf_inv b'"
  | (more) c' b' where "parse_turn c b = Inr (True, True, c', b')" "buf_inv b'" "ready c'"
      "length (contents b') < length (contents b)"
  | (stuck) "stuck c b"
proof (cases "parse_state c")
  case kExpectRequestLine
  show ?thesis
  proof (cases "findCRLF b")
    case None
    then show ?thesis using finish inv kExpectRequestLine by (simp add: parse_turn_def)
  next
    case (Some crlf)
    obtain ok r where r: "processRequestLine (take (crlf - readerIndex b) (contents b)) (request c) =
        Inr (ok, r)"
      using processRequestLine_total [of "request c"] c kExpectRequestLine
      by (fastforce simp: ready_def)
    obtain b' where b': "retrieveUntil (crlf + 2) b = Inr b'" "buf_inv b'"
      "length (contents b') < length (contents b)"
      using line_turn [OF inv Some] by blast
    show ?thesis
    proof (cases ok)
      case True
      with more [of "\<lparr>parse_state = kExpectHeaders, request = r\<rparr>" b'] b' r Some kExpectRequestLine
      show ?thesis by (simp add: parse_turn_def ready_def)
    next
      case False
      with finish inv r Some kExpectRequestLine show ?thesis by (simp add: parse_turn_def)
    qed
  qed
next
  case kExpectHeaders
  show ?thesis
  proof (cases "findCRLF b")
    case None
    then show ?thesis using finish inv kExpectHeaders by (simp add: parse_turn_def)
  next
    case (Some crlf)
    obtain b' where b': "retrieveUntil (crlf + 2) b = Inr b'" "buf_inv b'"
      "length (contents b') < length (contents b)"
      using line_turn [OF inv Some] by blast
    let ?line = "take (crlf - readerIndex b) (contents b)"
    let ?c = "case find_elem (CHR '':'') ?line of
        Some colon \<Rightarrow> c\<lparr>request := setHeader colon ?line (request c)\<rparr>
      | None \<Rightarrow> c\<lparr>parse_state := kExpectBody\<rparr>"
    have "parse_turn c b = Inr (True, True, ?c, b')"
      using Some b'(1) kExpectHeaders by (simp add: parse_turn_def Let_def)
    moreover have "ready ?c"
      using kExpectHeaders by (simp add: ready_def split: option.split)
    ultimately show ?thesis using more b' by blast
  qed
next
  case kExpectBody
  let ?cl = "header ''Content-Length'' (request c)"
  show ?thesis
  proof (cases "?cl = [] \<or> stuck c b")
    case True
    with kExpectBody finish inv stuck show ?thesis by (auto simp: parse_turn_def)
  next
    case False
    then have fits: "as_size (atoi ?cl) \<le> int (readableBytes b)"
      using kExpectBody by (auto simp: stuck_def)
    then have "nat (as_size (atoi ?cl)) \<le> readableBytes b" by simp
    from retrieveAsString_ok [OF inv this] obtain str b' where
      "retrieveAsString (nat (as_size (atoi ?cl))) b = Inr (str, b')" "buf_inv b'"
      by blast
    with finish False fits kExpectBody show ?thesis by (simp add: parse_turn_def Let_def)
  qed
next
  case kGotAll
  with c show ?thesis by (simp add: ready_def)
qed

lemma parse_total:
  "buf_inv b \<Longrightarrow> ready c \<Longrightarrow>
   (\<exists>ok c' b'. parseRequest c b = Some (Inr (ok, c', b')) \<and> buf_inv b') \<or>
   (\<exists>c' b'. turns\<^sup>*\<^sup>* (c, b) (c', b') \<and> stuck c' b')"
proof (induction "length (contents b)" arbitrary: b c rule: less_induct)
  case less
  from less.prems show ?case
  proof (cases rule: parse_turn_cases)
    case (finish ok c' b')
    then show ?thesis by (subst parseRequest.simps) simp
  next
    case (more c' b')
    have "parseRequest c b = parseRequest c' b'" using more(1) by (subst parseRequest.simps) simp
    moreover have "turns (c, b) (c', b')" using more(1) by (rule turns.intros)
    ultimately show ?thesis
      using less.hyps [OF more(4,2,3)] by (metis converse_rtranclp_into_rtranclp)
  next
    case stuck
    then show ?thesis by blast
  qed
qed

text \<open>
  The parser says no only about the request line; it has then not got a request, and has taken
  nothing from the buffer.
\<close>

lemma parse_turn_false:
  "parse_turn c b = Inr (hasMore, False, c', b') \<Longrightarrow>
   \<not> hasMore \<and> parse_state c = kExpectRequestLine \<and> parse_state c' = kExpectRequestLine \<and> b' = b"
  by (auto simp: parse_turn_def Let_def split: parse_state.splits option.splits if_splits)

lemma parse_turn_more:
  "parse_turn c b = Inr (True, ok, c', b') \<Longrightarrow> parse_state c' \<noteq> kExpectRequestLine"
  by (auto simp: parse_turn_def Let_def split: parse_state.splits option.splits if_splits)

lemma parse_false:
  assumes "parseRequest c b = Some (Inr (False, c', b'))"
  shows "\<not> gotAll c'" and "b' = b"
proof -
  let ?P = "\<lambda>(c :: http_context) (b :: buffer) (y :: (bool \<times> http_context \<times> buffer) res).
    \<forall>c' b'. y = Inr (False, c', b') \<longrightarrow>
      parse_state c = kExpectRequestLine \<and> \<not> gotAll c' \<and> b' = b"
  have "?P c b (Inr (False, c', b'))"
  proof (rule parseRequest.raw_induct [where P = ?P, OF _ assms])
    fix f c b and y :: "(bool \<times> http_context \<times> buffer) res"
    assume IH: "\<And>c b y. f c b = Some y \<Longrightarrow> ?P c b y"
      and turn: "(case parse_turn c b of Inl e \<Rightarrow> Some (Inl e)
        | Inr (hasMore, ok, c', b') \<Rightarrow>
            if hasMore then f c' b' else Some (Inr (ok, c', b'))) = Some y"
    show "?P c b y"
    proof (intro allI impI)
      fix c' b' assume y: "y = Inr (False, c', b')"
      with turn obtain hasMore ok c1 b1 where 1: "parse_turn c b = Inr (hasMore, ok, c1, b1)"
        "(if hasMore then f c1 b1 else Some (Inr (ok, c1, b1))) = Some y"
        by (auto split: sum.splits)
      show "parse_state c = kExpectRequestLine \<and> \<not> gotAll c' \<and> b' = b"
      proof (cases hasMore)
        case True
        with 1(1) have "parse_state c1 \<noteq> kExpectRequestLine" by (simp add: parse_turn_more)
        moreover have "parse_state c1 = kExpectRequestLine"
          using 1(2) True y IH [of c1 b1 y] by simp
        ultimately show ?thesis by contradiction
      next
        case False
        with 1(2) y have "ok = False" "c1 = c'" "b1 = b'" by auto
        with 1(1) parse_turn_false [of c b hasMore c1 b1] show ?thesis by (auto simp: gotAll_def)
      qed
    qed
  qed
  then show "\<not> gotAll c'" "b' = b" by blast+
qed

lemma ready_new: "ready new_context"
  by (simp add: ready_def new_context_def new_request_def)

lemma parse_keeps_inv:
  assumes "buf_inv b" "parseRequest new_context b = Some (Inr (ok, c', b'))"
  shows "buf_inv b'"
  using parse_total [OF assms(1) ready_new] turns_diverges [of new_context b] assms(2) by auto

text \<open>A first line that is no request line.\<close>

lemma parse_no_request_line:
  assumes "buf_inv b" "contents b = line @ kCRLF @ rest" "CHR 0x0D \<notin> set line"
    and "processRequestLine line new_request = Inr (False, r)"
  shows "parseRequest new_context b = Some (Inr (False, new_context\<lparr>request := r\<rparr>, b))"
proof -
  from take_line [OF assms(1-3)] obtain crlf where
    "findCRLF b = Some crlf" "take (crlf - readerIndex b) (contents b) = line" by auto
  with assms(4) show ?thesis
    by (subst parseRequest.simps) (simp add: parse_turn_def new_context_def del: take_eq_Nil)
qed

text \<open>The header lines of a request, and the empty line after them, are no request lines.\<close>

lemma no_method:
  assumes "CHR '':'' \<in> set m" "req_method r = kInvalid"
  shows "setMethod m r = Inr (False, r\<lparr>req_method := kInvalid\<rparr>)"
proof -
  have "m \<notin> {''GET'', ''POST'', ''HEAD'', ''PUT'', ''DELETE''}" using assms(1) by auto
  with assms(2) show ?thesis by (simp add: setMethod_def)
qed

lemma header_is_no_request_line:
  assumes "CHR '' '' \<notin> set k"
  shows "\<exists>r. processRequestLine (header_line (k, v)) new_request = Inr (False, r)"
proof -
  have "CHR '' '' \<notin> set (k @ '':'')" using assms by simp
  from find_elem_split [OF this, of v]
  have "find_elem (CHR '' '') (header_line (k, v)) = Some (length k + 1)"
    by (simp add: header_line_def)
  moreover have "setMethod (take (length k + 1) (header_line (k, v))) new_request =
      Inr (False, new_request\<lparr>req_method := kInvalid\<rparr>)"
    by (rule no_method) (simp_all add: header_line_def new_request_def)
  ultimately show ?thesis by (simp add: processRequestLine_def)
qed

definition header_text :: "(string \<times> string) list \<Rightarrow> string" where
  "header_text hs = concat (map (\<lambda>h. header_line h @ kCRLF) hs) @ kCRLF"

definition plain_names :: "(string \<times> string) list \<Rightarrow> bool" where
  "plain_names hs \<longleftrightarrow> (\<forall>(k, v) \<in> set hs. set k \<inter> {CHR '' '', CHR '':'', CHR 0x0D} = {} \<and> CHR 0x0D \<notin> set v)"

lemma parse_headers_first:
  assumes inv: "buf_inv b" and cont: "contents b = header_text hs @ rest" and hs: "plain_names hs"
  shows "\<exists>c. parseRequest new_context b = Some (Inr (False, c, b))"
proof (cases hs)
  case Nil
  have "processRequestLine [] new_request = Inr (False, new_request)"
    by (simp add: processRequestLine_def)
  from parse_no_request_line [OF inv _ _ this, of rest] cont Nil show ?thesis
    by (auto simp: header_text_def)
next
  case (Cons h hs')
  obtain k v where h: "h = (k, v)" by force
  with hs Cons have kv: "CHR '' '' \<notin> set k" "CHR 0x0D \<notin> set (header_line (k, v))"
    by (auto simp: plain_names_def header_line_def)
  from header_is_no_request_line [OF kv(1), of v] obtain r where
    "processRequestLine (header_line (k, v)) new_request = Inr (False, r)" by blast
  from parse_no_request_line [OF inv _ kv(2) this, of "header_text hs' @ rest"] cont Cons h
  show ?thesis by (auto simp: header_text_def)
qed

text \<open>Headers of which the end has not arrived: the whole lines are taken, the rest stays.\<close>

lemma search_cut:
  "u @ v = line @ kCRLF @ ys \<Longrightarrow> length u < length line + 2 \<Longrightarrow> CHR 0x0D \<notin> set line \<Longrightarrow> search kCRLF u = None"
proof (induction u arbitrary: line)
  case (Cons c u)
  show ?case
  proof (cases line)
    case Nil
    with Cons.prems show ?thesis by (cases u) (auto simp: kCRLF_def)
  next
    case (Cons d line')
    with Cons.prems Cons.IH [of line'] show ?thesis by (auto simp: kCRLF_def)
  qed
qed (simp add: kCRLF_def)

lemma parse_headers_cut:
  assumes "buf_inv b" "contents b = u" "u @ v = header_text hs" "v \<noteq> []" "plain_names hs"
  shows "\<exists>r' b' hs'. parseRequest \<lparr>parse_state = kExpectHeaders, request = r\<rparr> b =
      Some (Inr (True, \<lparr>parse_state = kExpectHeaders, request = r'\<rparr>, b')) \<and> buf_inv b' \<and>
    contents b' @ v = header_text hs' \<and> plain_names hs'"
  using assms
proof (induction hs arbitrary: b u r)
  case Nil
  then have "search kCRLF u = None"
    by (intro search_cut [of u v "[]" "[]"]) (auto simp: header_text_def kCRLF_def append_eq_Cons_conv)
  with Nil show ?case
    by (subst parseRequest.simps) (auto simp: parse_turn_def findCRLF_def intro!: exI [of _ "[]"])
next
  case (Cons h hs)
  obtain k w where h: "h = (k, w)" by force
  with Cons.prems(5) have cr: "CHR 0x0D \<notin> set (header_line h)" and plain: "plain_names hs"
    by (auto simp: plain_names_def header_line_def)
  have whole: "u @ v = header_line h @ kCRLF @ header_text hs"
    using Cons.prems(3) by (simp add: header_text_def)
  show ?case
  proof (cases "length u < length (header_line h) + 2")
    case True
    from search_cut [OF whole this cr] Cons.prems show ?thesis
      by (subst parseRequest.simps) (auto simp: parse_turn_def findCRLF_def)
  next
    case False
    have two: "length kCRLF = 2" by (simp add: kCRLF_def)
    define u' where "u' = drop (length (header_line h) + 2) u"
    have u: "u = header_line h @ kCRLF @ u'" and rest: "u' @ v = header_text hs"
    proof -
      from whole have "take (length (header_line h) + 2) (u @ v) = header_line h @ kCRLF"
        "drop (length (header_line h) + 2) (u @ v) = header_text hs"
        by (simp_all add: two)
      with False show "u = header_line h @ kCRLF @ u'" "u' @ v = header_text hs"
        unfolding u'_def by (simp_all, metis append.assoc append_take_drop_id)
    qed
    from take_line [OF Cons.prems(1) _ cr] Cons.prems(2) u obtain crlf b1 where line:
      "findCRLF b = Some crlf" "take (crlf - readerIndex b) (contents b) = header_line h"
      "retrieveUntil (crlf + 2) b = Inr b1" "buf_inv b1" "contents b1 = u'"
      by blast
    have "CHR '':'' \<notin> set k" using Cons.prems(5) h by (auto simp: plain_names_def)
    then have "find_elem (CHR '':'') (header_line h) = Some (length k)"
      using find_elem_split [of "CHR '':''" k "CHR '' '' # w"] h by (simp add: header_line_def)
    then have "parseRequest \<lparr>parse_state = kExpectHeaders, request = r\<rparr> b =
        parseRequest \<lparr>parse_state = kExpectHeaders, request = setHeader (length k) (header_line h) r\<rparr> b1"
      using parse_header_turn [OF line(1-3), of r] by simp
    with Cons.IH [OF line(4,5) rest Cons.prems(4) plain] show ?thesis by simp
  qed
qed

lemma request_line_taken:
  assumes inv: "buf_inv b" and cont: "contents b = request_line r @ kCRLF @ rest" and ok: "request_ok r"
  shows "\<exists>b' r'. parseRequest new_context b =
      parseRequest \<lparr>parse_state = kExpectHeaders, request = r'\<rparr> b' \<and> buf_inv b' \<and> contents b' = rest"
proof -
  from take_line [OF inv cont request_line_no_cr [OF ok]] obtain crlf b1 where line:
    "findCRLF b = Some crlf" "take (crlf - readerIndex b) (contents b) = request_line r"
    "retrieveUntil (crlf + 2) b = Inr b1" "buf_inv b1" "contents b1 = rest"
    by auto
  show ?thesis
    using line processRequestLine_text [OF ok]
    by (subst parseRequest.simps) (auto simp: parse_turn_def new_context_def)
qed

text \<open>A request of which only a part has arrived, cut between its first line and the end of its head.\<close>

definition cut_in_head :: "http_request \<Rightarrow> string \<Rightarrow> string \<Rightarrow> bool" where
  "cut_in_head r u v \<longleftrightarrow> u @ v = request_text r \<and>
     length (request_line r @ kCRLF) \<le> length u \<and> length u < length (request_head r)"

lemma parse_cut:
  assumes inv: "buf_inv b" and cont: "contents b = u" and cut: "cut_in_head r u v"
    and ok: "request_ok r" and names: "\<forall>(k, w) \<in> set (headers r). CHR '' '' \<notin> set k"
  shows "\<exists>r' b' hs. parseRequest new_context b =
      Some (Inr (True, \<lparr>parse_state = kExpectHeaders, request = r'\<rparr>, b')) \<and> buf_inv b' \<and>
    contents b' @ v = header_text hs @ body r \<and> plain_names hs"
proof -
  let ?n = "length (request_line r @ kCRLF)"
  define u' where "u' = drop ?n u"
  define v' where "v' = drop (length u) (request_head r)"
  have head: "request_head r = (request_line r @ kCRLF) @ header_text (headers r)"
    by (simp add: request_head_def header_text_def)
  from cut have uv: "u @ v = request_head r @ body r" and n: "?n \<le> length u" "length u < length (request_head r)"
    by (simp_all add: cut_in_head_def request_text_head)
  have "take (length u) (request_head r) = u"
    using arg_cong [OF uv, of "take (length u)"] n(2) by simp
  then have h: "request_head r = u @ v'" unfolding v'_def by (metis append_take_drop_id)
  with uv have v: "v = v' @ body r" by simp
  from h n(2) have "v' \<noteq> []" by auto
  have "take ?n u = take ?n (request_head r)" using n(1) unfolding h by simp
  also have "\<dots> = request_line r @ kCRLF" unfolding head by simp
  finally have "take ?n u = request_line r @ kCRLF" .
  then have u: "u = request_line r @ kCRLF @ u'"
    unfolding u'_def by (metis append.assoc append_take_drop_id)
  with h head have rest: "u' @ v' = header_text (headers r)" by simp
  from request_line_taken [OF inv _ ok] cont u obtain b1 r1 where 1:
    "parseRequest new_context b = parseRequest \<lparr>parse_state = kExpectHeaders, request = r1\<rparr> b1"
    "buf_inv b1" "contents b1 = u'"
    by blast
  have "plain_names (headers r)" using ok names by (fastforce simp: plain_names_def request_ok_def)
  from parse_headers_cut [OF 1(2,3) rest \<open>v' \<noteq> []\<close> this, of r1] obtain r2 b2 hs where
    "parseRequest \<lparr>parse_state = kExpectHeaders, request = r1\<rparr> b1 =
      Some (Inr (True, \<lparr>parse_state = kExpectHeaders, request = r2\<rparr>, b2))" "buf_inv b2"
    "contents b2 @ v' = header_text hs" "plain_names hs"
    by blast
  with 1(1) v show ?thesis by (intro exI [of _ r2] exI [of _ b2] exI [of _ hs]) simp
qed

section \<open>Properties\<close>

text \<open>
  Property C12.  A request that is written out and parsed again is the same request: for every
  well-formed request, whatever follows it in the buffer, \<^verbatim>\<open>parseRequest\<close> returns true with all
  its parts, the header map included, and takes exactly its text.
\<close>

theorem parse_request_roundtrip:
  assumes "buf_inv b" and "contents b = request_text r @ rest"
    and "request_ok r" and "length (body r) < 2 ^ 31"
  shows "\<exists>b'. parseRequest new_context b =
      Some (Inr (True, \<lparr>parse_state = kGotAll, request = r\<rparr>, b')) \<and> buf_inv b' \<and> contents b' = rest"
  using assms by (rule parse_text)

definition sample_request :: http_request where
  "sample_request =
     \<lparr>req_method = kPost, version = kHttp11, path = ''/percent'', query = ''?a=1'', body = ''42'',
      headers = [(''Content-Length'', ''2''), (''Host'', ''localhost'')]\<rparr>"

lemma sample_request_ok: "request_ok sample_request"
  by (simp add: request_ok_def sample_request_def trimmed_def header_def isspace_def
      atoi_def strtol10_def to_int32_def digit_val_def isdigit_def less_char_def)

text \<open>A buffer that holds a given text.\<close>

definition buffer_of :: "char list \<Rightarrow> buffer" where
  "buffer_of s = \<lparr>bytes = replicate 8 CHR 0x00 @ s, readerIndex = 8, writerIndex = 8 + length s\<rparr>"

lemma buffer_of_ok [simp]: "buf_inv (buffer_of s)" "contents (buffer_of s) = s"
  by (simp_all add: buffer_of_def buf_inv_def contents_def segment_def kCheapPrepend_def)

theorem parse_request_roundtrip_witness:
  "\<exists>b'. parseRequest new_context (buffer_of (request_text sample_request @ ''GET'')) =
      Some (Inr (True, \<lparr>parse_state = kGotAll, request = sample_request\<rparr>, b')) \<and> contents b' = ''GET''"
  using parse_request_roundtrip [OF buffer_of_ok(1) _ sample_request_ok, of _ "''GET''"]
  by (simp add: sample_request_def) blast

text \<open>
  Property C19.  When the parser returns: on any well-formed buffer \<^verbatim>\<open>parseRequest\<close> of a new context
  returns, without a failing assertion, unless it reads headers that announce a body which is not
  completely in the buffer, or a negative length; then it never returns, since nothing in the loop
  changes any more.
\<close>

theorem parse_request_diverges_iff:
  assumes "buf_inv b"
  shows "(parseRequest new_context b = None \<longleftrightarrow>
      (\<exists>c' b'. turns\<^sup>*\<^sup>* (new_context, b) (c', b') \<and> stuck c' b')) \<and>
    (parseRequest new_context b \<noteq> None \<longrightarrow>
      (\<exists>ok c' b'. parseRequest new_context b = Some (Inr (ok, c', b')) \<and> buf_inv b'))"
proof -
  from parse_total [OF assms ready_new] turns_diverges [of new_context b] show ?thesis
    by (metis option.distinct(1))
qed

theorem parse_request_diverges_iff_witness:
  "parseRequest new_context (buffer_of ''PUT'') \<noteq> None"
proof -
  have turn: "parse_turn new_context (buffer_of ''PUT'') =
      Inr (False, True, new_context, buffer_of ''PUT'')"
    by (simp add: parse_turn_def new_context_def findCRLF_def kCRLF_def)
  have "c = new_context \<and> b = buffer_of ''PUT''"
    if "turns\<^sup>*\<^sup>* (new_context, buffer_of ''PUT'') (c, b)" for c b
    using that turn by (cases rule: converse_rtranclpE) (auto elim: turns.cases)
  moreover have "\<not> stuck new_context (buffer_of ''PUT'')"
    by (simp add: stuck_def new_context_def)
  ultimately show ?thesis
    using parse_request_diverges_iff [OF buffer_of_ok(1), of "''PUT''"] by blast
qed

text \<open>
  Fact.  A request whose body has not completely arrived, as when it comes in two segments,
  makes \<^verbatim>\<open>parseRequest\<close>, and with it the event loop, run for ever: this holds for every
  well-formed request with a body and every proper prefix of it that has the headers.
\<close>

theorem short_body_hangs:
  assumes "buf_inv b" and "request_ok r" and "length (body r) < 2 ^ 31" and "k < length (body r)"
    and "contents b = request_head r @ take k (body r)"
  shows "parseRequest new_context b = None"
proof -
  from parse_head [OF assms(1,5,2)] obtain b1 where 1:
    "parseRequest new_context b =
       parseRequest \<lparr>parse_state = kExpectBody, request = r\<lparr>body := []\<rparr>\<rparr> b1"
    "buf_inv b1" "contents b1 = take k (body r)"
    by blast
  have "body r \<noteq> []" using assms(4) by auto
  then have "header ''Content-Length'' r \<noteq> []"
    "atoi (header ''Content-Length'' r) = int (length (body r))"
    using assms(2) by (auto simp: request_ok_def split: if_splits)
  moreover have "readableBytes b1 = k"
    using 1(2,3) assms(4) by (simp flip: length_contents)
  ultimately have "stuck \<lparr>parse_state = kExpectBody, request = r\<lparr>body := []\<rparr>\<rparr> b1"
    using assms(3,4) by (simp add: stuck_def as_size_nonneg)
  then show ?thesis unfolding 1(1) by (rule stuck_diverges)
qed

theorem short_body_hangs_witness:
  "parseRequest new_context (buffer_of (request_head sample_request @ ''4'')) = None"
  using short_body_hangs [OF buffer_of_ok(1) sample_request_ok, of 1 "request_head sample_request @ ''4''"]
  by (simp add: sample_request_def)

end
