(* ===== verification/HttpServers.thy ===== *)
theory HttpServers
  imports TcpConnections HttpRequests
begin

text \<open>
  \<^verbatim>\<open>http/HttpResponse.h\<close>, \<^verbatim>\<open>http/HttpResponse.cpp\<close>, \<^verbatim>\<open>http/HttpServer.h\<close> and
  \<^verbatim>\<open>http/HttpServer.cpp\<close>: the text of a response, and what the server does with the bytes of a
  connection.  The user's callback is an argument: it fills in a response and may fail.  A message
  on which the parser never returns is \<open>None\<close>.
\<close>

section \<open>Responses\<close>

record http_response =
  closeConnection :: bool
  statusCode :: int
  statusMessage :: string
  resp_headers :: header_map
  resp_body :: string

definition k200Ok :: int where "k200Ok = 200"

definition k301MovedPermanently :: int where "k301MovedPermanently = 301"

definition k400BadRequest :: int where "k400BadRequest = 400"

definition k404NotFound :: int where "k404NotFound = 404"

definition new_response :: "bool \<Rightarrow> http_response" where
  "new_response close =
     \<lparr>closeConnection = close, statusCode = 0, statusMessage = [], resp_headers = [], resp_body = []\<rparr>"

definition setContentType :: "string \<Rightarrow> http_response \<Rightarrow> http_response" where
  "setContentType t r = r\<lparr>resp_headers := map_put ''Content-Type'' t (resp_headers r)\<rparr>"

definition setRespHeader :: "string \<Rightarrow> string \<Rightarrow> http_response \<Rightarrow> http_response" where
  "setRespHeader f v r = r\<lparr>resp_headers := map_put f v (resp_headers r)\<rparr>"

definition append_header :: "string \<times> string \<Rightarrow> buffer \<Rightarrow> buffer res" where
  "append_header h b =
     bindR (append_data (fst h) b) (\<lambda>b.
     bindR (append_data '': '' b) (\<lambda>b.
     bindR (append_data (snd h) b) (append_data kCRLF)))"

definition appendToBuffer :: "http_response \<Rightarrow> buffer \<Rightarrow> buffer res" where
  "appendToBuffer r b =
     bindR (append_data (snprintf_cut 32 (''HTTP/1.1 '' @ dec_int (statusCode r) @ '' '')) b) (\<lambda>b.
     bindR (append_data (statusMessage r) b) (\<lambda>b.
     bindR (append_data kCRLF b) (\<lambda>b.
     bindR (if closeConnection r
            then append_data (''Connection: close'' @ kCRLF) b
            else bindR (append_data (snprintf_cut 32
                          (''Content-Length: '' @ dec_nat (length (resp_body r)) @ kCRLF)) b)
                   (append_data (''Connection: Keep-Alive'' @ kCRLF))) (\<lambda>b.
     bindR (runR append_header (resp_headers r) b) (\<lambda>b.
     bindR (append_data kCRLF b) (append_data (resp_body r)))))))"

text \<open>The text a response stands for.\<close>

definition response_text :: "http_response \<Rightarrow> string" where
  "response_text r =
     ''HTTP/1.1 '' @ dec_int (statusCode r) @ '' '' @ statusMessage r @ kCRLF @
     (if closeConnection r then ''Connection: close'' @ kCRLF
      else ''Content-Length: '' @ dec_nat (length (resp_body r)) @ kCRLF @
           ''Connection: Keep-Alive'' @ kCRLF) @
     concat (map (\<lambda>h. header_line h @ kCRLF) (resp_headers r)) @ kCRLF @ resp_body r"

section \<open>The server\<close>

type_synonym http_callback = "http_request \<Rightarrow> http_response \<Rightarrow> http_response res"

definition defaultHttpCallback :: http_callback where
  "defaultHttpCallback req resp =
     Inr (resp\<lparr>statusCode := k404NotFound, statusMessage := ''Not Found'',
               resp_body := ''404 Not Found'', closeConnection := True\<rparr>)"

text \<open>The line that \<^verbatim>\<open>onConnection\<close> prints.\<close>

definition onConnection :: "(32 word \<Rightarrow> string) \<Rightarrow> 'k tcp \<Rightarrow> string" where
  "onConnection inet_ntop s =
     ''onConnection(): connection ['' @ name s @
     (if connected s then ''] is up   : '' else ''] is down : '') @
     toIpPort inet_ntop (peerAddr s) @ [CHR 0x0A]"

definition wants_close :: "http_request \<Rightarrow> bool" where
  "wants_close req \<longleftrightarrow>
     (let connection = header ''Connection'' req
      in connection = ''close'' \<or> version req = kHttp10 \<and> connection \<noteq> ''Keep-Alive'')"

definition onRequest :: "'k tcp_env \<Rightarrow> http_callback \<Rightarrow> http_request \<Rightarrow> 'k tcp \<Rightarrow> 'k tcp res" where
  "onRequest E httpCallback req s =
     bindR (new_buffer kInitialSize) (\<lambda>buf.
     bindR (httpCallback req (new_response (wants_close req))) (\<lambda>response.
     bindR (appendToBuffer response buf) (\<lambda>buf.
     bindR (retrieveAllAsString buf) (\<lambda>(str, buf).
     bindR (send E str s) (\<lambda>s.
       if closeConnection response then shutdown E s else Inr s)))))"

definition bad_request :: string where
  "bad_request = ''HTTP/1.1 400 Bad Request'' @ kCRLF @ kCRLF"

definition onMessage :: "'k tcp_env \<Rightarrow> http_callback \<Rightarrow> 'k tcp \<Rightarrow> 'k tcp res option" where
  "onMessage E httpCallback s =
     (case parseRequest new_context (inputBuffer s) of
        None \<Rightarrow> None
      | Some (Inl e) \<Rightarrow> Some (Inl e)
      | Some (Inr (ok, context, buf)) \<Rightarrow>
          (let s = s\<lparr>inputBuffer := buf\<rparr>
           in Some (bindR (if \<not> ok then bindR (send E bad_request s) (shutdown E) else Inr s) (\<lambda>s.
                if gotAll context then onRequest E httpCallback (request context) s else Inr s))))"

section \<open>The text of a response\<close>

definition appends :: "(buffer \<Rightarrow> buffer res) \<Rightarrow> string \<Rightarrow> bool" where
  "appends f t \<longleftrightarrow> (\<forall>b. buf_inv b \<longrightarrow> (\<exists>b'. f b = Inr b' \<and> buf_inv b' \<and> contents b' = contents b @ t))"

lemma appends_data: "appends (append_data t) t"
  using append_data_ok by (auto simp: appends_def)

lemma appends_bind:
  assumes "appends f s" "appends g t"
  shows "appends (\<lambda>b. bindR (f b) g) (s @ t)"
proof -
  have "\<exists>b'. bindR (f b) g = Inr b' \<and> buf_inv b' \<and> contents b' = contents b @ s @ t"
    if "buf_inv b" for b
  proof -
    from assms(1) that obtain b1 where 1: "f b = Inr b1" "buf_inv b1" "contents b1 = contents b @ s"
      unfolding appends_def by blast
    from assms(2) 1(2) obtain b2 where "g b1 = Inr b2" "buf_inv b2" "contents b2 = contents b1 @ t"
      unfolding appends_def by blast
    with 1 show ?thesis by simp
  qed
  then show ?thesis by (simp add: appends_def)
qed

lemma appends_header: "appends (append_header h) (header_line h @ kCRLF)"
proof -
  have "appends (append_header h) (fst h @ '': '' @ snd h @ kCRLF)"
    unfolding append_header_def by (intro appends_bind appends_data)
  then show ?thesis by (simp add: header_line_def)
qed

lemma appends_headers: "appends (runR append_header hs) (concat (map (\<lambda>h. header_line h @ kCRLF) hs))"
proof (induction hs)
  case Nil
  then show ?case by (simp add: appends_def)
next
  case (Cons h hs)
  from appends_bind [OF appends_header [of h] Cons.IH] show ?case by simp
qed

definition printable :: "http_response \<Rightarrow> bool" where
  "printable r \<longleftrightarrow> \<bar>statusCode r\<bar> < 2 ^ 31 \<and> length (resp_body r) < 10 ^ 13"

lemma length_dec_int: "\<bar>i\<bar> < 10 ^ k \<Longrightarrow> 0 < k \<Longrightarrow> length (dec_int i) \<le> k + 1"
proof -
  assume "\<bar>i\<bar> < 10 ^ k" "0 < k"
  then have "nat \<bar>i\<bar> < 10 ^ k" by (simp add: nat_less_iff)
  from length_dec_nat [OF this \<open>0 < k\<close>] show ?thesis by (auto simp: dec_int_def)
qed

lemma appendToBuffer_appends:
  assumes "printable r"
  shows "appends (appendToBuffer r) (response_text r)"
proof -
  have "length (dec_int (statusCode r)) \<le> 11"
    using assms length_dec_int [of "statusCode r" 10] by (simp add: printable_def)
  then have 1: "snprintf_cut 32 (''HTTP/1.1 '' @ dec_int (statusCode r) @ '' '') =
      ''HTTP/1.1 '' @ dec_int (statusCode r) @ '' ''"
    by (intro snprintf_cut_fits) simp
  have "length (dec_nat (length (resp_body r))) \<le> 13"
    using assms by (intro length_dec_nat) (simp_all add: printable_def)
  then have 2: "snprintf_cut 32 (''Content-Length: '' @ dec_nat (length (resp_body r)) @ kCRLF) =
      ''Content-Length: '' @ dec_nat (length (resp_body r)) @ kCRLF"
    by (intro snprintf_cut_fits) (simp add: kCRLF_def)
  have "appends (appendToBuffer r)
    ((''HTTP/1.1 '' @ dec_int (statusCode r) @ '' '') @ statusMessage r @ kCRLF @
     (if closeConnection r then ''Connection: close'' @ kCRLF
      else (''Content-Length: '' @ dec_nat (length (resp_body r)) @ kCRLF) @
           (''Connection: Keep-Alive'' @ kCRLF)) @
     concat (map (\<lambda>h. header_line h @ kCRLF) (resp_headers r)) @ kCRLF @ resp_body r)"
    unfolding appendToBuffer_def 1 2
    by (cases "closeConnection r")
      (simp_all only: if_True if_False, intro appends_bind appends_data appends_headers,
        intro appends_bind appends_data appends_headers)
  then show ?thesis by (cases "closeConnection r") (simp_all add: response_text_def)
qed

section \<open>Sending a response\<close>

lemma shutdown_keeps:
  assumes "write_ok E"
  shows "\<exists>s'. shutdown E s = Inr s' \<and> inputBuffer s' = inputBuffer s \<and> sent s' = sent s \<and> lost s' = lost s \<and>
    (tcp_state s = kConnected \<longrightarrow> tcp_state s' = kDisconnecting \<and> promise s' = sent s)"
  using sys_shutdown_ok [OF assms] by (auto simp: shutdown_def Let_def)

lemma onRequest_ok:
  assumes E: "write_ok E" "writeCompleteCallback E = None" and inv: "tcp_inv s" "tcp_state s = kConnected"
    and cb: "httpCallback req (new_response (wants_close req)) = Inr resp"
    and resp: "printable resp" "length (response_text resp) < 2 ^ 31"
  shows "\<exists>s'. onRequest E httpCallback req s = Inr s' \<and> tcp_inv s' \<and> inputBuffer s' = inputBuffer s \<and>
    accounted E (response_text resp) s s' \<and>
    tcp_state s' = (if closeConnection resp then kDisconnecting else kConnected) \<and>
    (closeConnection resp \<longrightarrow> promise s' = sent s')"
proof -
  obtain b where b: "new_buffer kInitialSize = Inr b" "buf_inv b" "contents b = []"
    using new_buffer_ok [of kInitialSize] by blast
  from appendToBuffer_appends [OF resp(1)] b(2,3) obtain b1 where b1: "appendToBuffer resp b = Inr b1"
    "buf_inv b1" "contents b1 = response_text resp"
    unfolding appends_def by force
  from retrieveAllAsString_ok [OF b1(2)] obtain b2 where b2:
    "retrieveAllAsString b1 = Inr (response_text resp, b2)"
    using b1(3) by auto
  from send_once [OF E inv(1) resp(2)] obtain s1 where s1: "send E (response_text resp) s = Inr s1"
    "tcp_inv s1" "tcp_state s1 = kConnected" "inputBuffer s1 = inputBuffer s"
    "accounted E (response_text resp) s s1"
    using inv(2) by auto
  show ?thesis
  proof (cases "closeConnection resp")
    case True
    from shutdown_keeps [OF E(1), of s1] shutdown_ok [OF E(1) s1(2)] s1 obtain s2 where
      "shutdown E s1 = Inr s2" "tcp_inv s2" "inputBuffer s2 = inputBuffer s1" "sent s2 = sent s1" "lost s2 = lost s1"
      "tcp_state s2 = kDisconnecting" "promise s2 = sent s1"
      by auto
    with True s1 b(1) b1(1) b2 cb show ?thesis by (simp add: onRequest_def accounted_def)
  next
    case False
    with s1 b(1) b1(1) b2 cb show ?thesis by (simp add: onRequest_def)
  qed
qed

lemma accounted_input:
  "accounted E d (s\<lparr>inputBuffer := b\<rparr>) s' = accounted E d s s'"
  by (simp add: accounted_def refused_def)

lemma rejects:
  assumes E: "write_ok E" "writeCompleteCallback E = None" and inv: "tcp_inv s" "tcp_state s = kConnected"
    and bad: "parseRequest new_context (inputBuffer s) = Some (Inr (False, c, b))"
  shows "\<exists>s'. onMessage E httpCallback s = Some (Inr s') \<and> tcp_state s' = kDisconnecting \<and>
    inputBuffer s' = inputBuffer s \<and> accounted E bad_request s s' \<and> promise s' = sent s'"
proof -
  have b: "s\<lparr>inputBuffer := b\<rparr> = s" using parse_false(2) [OF bad] by simp
  have "length bad_request < 2 ^ 31" by (simp add: bad_request_def kCRLF_def)
  from send_once [OF E inv(1) this] obtain s1 where s1: "send E bad_request s = Inr s1"
    "tcp_state s1 = kConnected" "inputBuffer s1 = inputBuffer s" "accounted E bad_request s s1"
    using inv(2) by auto
  from shutdown_keeps [OF E(1), of s1] s1(2) obtain s2 where s2: "shutdown E s1 = Inr s2"
    "tcp_state s2 = kDisconnecting" "sent s2 = sent s1" "lost s2 = lost s1" "promise s2 = sent s1"
    "inputBuffer s2 = inputBuffer s1"
    by auto
  have "\<not> gotAll c" by (rule parse_false(1) [OF bad])
  then show ?thesis using bad s1 s2 b by (simp add: onMessage_def accounted_def)
qed

lemma onMessage_ok:
  assumes E: "write_ok E" "writeCompleteCallback E = None" and inv: "tcp_inv s" "tcp_state s = kConnected"
    and cont: "contents (inputBuffer s) = request_text req @ rest"
    and req: "request_ok req" "length (body req) < 2 ^ 31"
    and cb: "httpCallback req (new_response (wants_close req)) = Inr resp"
    and resp: "printable resp" "length (response_text resp) < 2 ^ 31"
  shows "\<exists>s'. onMessage E httpCallback s = Some (Inr s') \<and> tcp_inv s' \<and>
    contents (inputBuffer s') = rest \<and> accounted E (response_text resp) s s' \<and>
    tcp_state s' = (if closeConnection resp then kDisconnecting else kConnected) \<and>
    (closeConnection resp \<longrightarrow> promise s' = sent s')"
proof -
  have "buf_inv (inputBuffer s)" using inv(1) by (simp add: tcp_inv_def stream_inv_def)
  from parse_text [OF this cont req] obtain b where b:
    "parseRequest new_context (inputBuffer s) = Some (Inr (True, \<lparr>parse_state = kGotAll, request = req\<rparr>, b))"
    "buf_inv b" "contents b = rest"
    by blast
  let ?s = "s\<lparr>inputBuffer := b\<rparr>"
  have "tcp_inv ?s" "tcp_state ?s = kConnected"
    using inv b(2) by (simp_all add: tcp_inv_def stream_inv_def)
  from onRequest_ok [where s = ?s and httpCallback = httpCallback and req = req and resp = resp,
      OF E this cb resp] b
  show ?thesis
    by (auto simp: onMessage_def gotAll_def accounted_input)
qed

section \<open>Properties\<close>

text \<open>
  Fact.  The bytes of a response are exactly its status line, its connection header, its
  other headers in the order of their names, and its body; neither \<^verbatim>\<open>snprintf\<close> into the 32
  byte buffer cuts anything, so \<^verbatim>\<open>Content-Length\<close> is the length of the body.
\<close>

theorem response_text_exact:
  assumes "printable r" and "buf_inv b"
  shows "\<exists>b'. appendToBuffer r b = Inr b' \<and> buf_inv b' \<and> contents b' = contents b @ response_text r"
  using appendToBuffer_appends [OF assms(1)] assms(2) by (simp add: appends_def)

theorem response_text_exact_witness:
  "\<exists>b'. appendToBuffer ((new_response True)\<lparr>statusCode := 404, statusMessage := ''Not Found''\<rparr>)
      (buffer_of []) = Inr b' \<and>
    contents b' = ''HTTP/1.1 '' @ dec_int 404 @ '' Not Found'' @ kCRLF @ ''Connection: close'' @ kCRLF @ kCRLF"
proof -
  have "printable ((new_response True)\<lparr>statusCode := 404, statusMessage := ''Not Found''\<rparr>)"
    by (simp add: printable_def new_response_def)
  from response_text_exact [OF this buffer_of_ok(1) [of "[]"]] show ?thesis
    by (auto simp: response_text_def new_response_def)
qed

text \<open>
  Property C4.  A complete well-formed request gives exactly one response, on every connected
  connection in its invariant whose buffer holds its text (\<open>request_ok\<close>, body shorter than
  \<open>2 ^ 31\<close>), whatever follows.  The parser takes the request and leaves what follows; the response
  the user's callback returns is sent whole: on the wire or buffered, unless \<^verbatim>\<open>send\<close> writes directly
  and this \<^verbatim>\<open>write\<close> fails (\<^verbatim>\<open>EAGAIN\<close>, say), when it is dropped whole (\<open>accounted\<close>).  The connection
  is shut down exactly if the response says so, by default if the client asked for it or speaks
  HTTP 1.0 without keep-alive; the end of the stream is promised after the response.  Conditions: the
  callback returns, its response fits the 32 byte fields and is shorter than \<open>2 ^ 31\<close>; \<^verbatim>\<open>shutdown\<close> and
  \<^verbatim>\<open>close\<close> succeed, \<^verbatim>\<open>write\<close> returns -1 or at most its length (\<open>write_ok\<close>); there is no
  write-complete callback (\<^verbatim>\<open>HttpServer\<close> sets none).
\<close>

theorem onMessage_answers:
  assumes E: "write_ok E" "writeCompleteCallback E = None" and inv: "tcp_inv s" "tcp_state s = kConnected"
    and cont: "contents (inputBuffer s) = request_text req @ rest"
    and req: "request_ok req" "length (body req) < 2 ^ 31"
    and cb: "httpCallback req (new_response (wants_close req)) = Inr resp"
    and resp: "printable resp" "length (response_text resp) < 2 ^ 31"
  shows "\<exists>s'. onMessage E httpCallback s = Some (Inr s') \<and> tcp_inv s' \<and>
    contents (inputBuffer s') = rest \<and> accounted E (response_text resp) s s' \<and>
    tcp_state s' = (if closeConnection resp then kDisconnecting else kConnected) \<and>
    (closeConnection resp \<longrightarrow> promise s' = sent s')"
  by (rule onMessage_ok [where httpCallback = httpCallback and req = req and resp = resp,
      OF E inv cont req cb resp])

lemma sample_conn_inv: "tcp_inv (sample_tcp kConnected 3)"
  by (simp add: sample_tcp_def tcp_inv_def stream_inv_def buf_inv_def kCheapPrepend_def
      contents_def segment_def isWriting_def kWriteEvent_def new_socket_def)

lemma sample_conn_input:
  "buf_inv b \<Longrightarrow> tcp_inv ((sample_tcp kConnected 3)\<lparr>inputBuffer := b\<rparr>)"
  using sample_conn_inv by (simp add: tcp_inv_def stream_inv_def)

theorem onMessage_answers_witness:
  "\<exists>s'. onMessage sample_tcp_env defaultHttpCallback
      ((sample_tcp kConnected 3)\<lparr>inputBuffer := buffer_of (request_text sample_request)\<rparr>) = Some (Inr s') \<and>
    tcp_state s' = kDisconnecting"
proof -
  let ?s = "(sample_tcp kConnected 3)\<lparr>inputBuffer := buffer_of (request_text sample_request)\<rparr>"
  let ?resp = "(new_response False)\<lparr>statusCode := 404, statusMessage := ''Not Found'',
    resp_body := ''404 Not Found'', closeConnection := True\<rparr>"
  have close: "wants_close sample_request = False"
    by (simp add: wants_close_def header_def sample_request_def)
  have cb: "defaultHttpCallback sample_request (new_response (wants_close sample_request)) = Inr ?resp"
    unfolding close by (simp add: defaultHttpCallback_def k404NotFound_def)
  have env: "writeCompleteCallback sample_tcp_env = None" by (simp add: sample_tcp_env_def)
  have state: "tcp_state ?s = kConnected" by (simp add: sample_tcp_def)
  have cont: "contents (inputBuffer ?s) = request_text sample_request @ []" by simp
  have len: "length (body sample_request) < 2 ^ 31" by (simp add: sample_request_def)
  have resp: "printable ?resp" by (simp add: printable_def new_response_def)
  have "length (dec_int 404) \<le> 4" using length_dec_int [of 404 3] by simp
  then have "length (response_text ?resp) < 2 ^ 31"
    by (simp add: response_text_def new_response_def kCRLF_def)
  from onMessage_answers [where httpCallback = defaultHttpCallback and req = sample_request and
      resp = ?resp, OF sample_tcp_env_ok(1) env sample_conn_input [OF buffer_of_ok(1)] state cont
      sample_request_ok len cb resp this]
  show ?thesis by auto
qed

text \<open>
  Property C24.  A request that the parser says no to is answered with 400 and the connection shut
  down after it: for every connected connection in its invariant, the answer is sent as a whole
  (dropped as a whole if \<^verbatim>\<open>send\<close> writes it directly and this \<^verbatim>\<open>write\<close> fails: \<open>accounted\<close>), the
  user's callback is not asked, the end of the stream is promised after the answer, and nothing has
  been taken from the input buffer.  Conditions: \<^verbatim>\<open>shutdown\<close> and \<^verbatim>\<open>close\<close> succeed and \<^verbatim>\<open>write\<close>
  returns -1 or at most its length (\<open>write_ok\<close>); there is no write-complete callback.
\<close>

theorem onMessage_rejects:
  assumes E: "write_ok E" "writeCompleteCallback E = None" and inv: "tcp_inv s" "tcp_state s = kConnected"
    and bad: "parseRequest new_context (inputBuffer s) = Some (Inr (False, c, b))"
  shows "\<exists>s'. onMessage E httpCallback s = Some (Inr s') \<and> tcp_state s' = kDisconnecting \<and>
    inputBuffer s' = inputBuffer s \<and> accounted E bad_request s s' \<and> promise s' = sent s'"
  by (rule rejects [OF assms])

theorem onMessage_rejects_witness:
  "\<exists>s'. onMessage sample_tcp_env defaultHttpCallback
      ((sample_tcp kConnected 3)\<lparr>inputBuffer := buffer_of ([CHR 0x0D, CHR 0x0A])\<rparr>) = Some (Inr s') \<and>
    tcp_state s' = kDisconnecting \<and> sent s' = bad_request \<and>
    contents (inputBuffer s') = [CHR 0x0D, CHR 0x0A]"
proof -
  let ?b = "buffer_of ([CHR 0x0D, CHR 0x0A])"
  let ?s = "(sample_tcp kConnected 3)\<lparr>inputBuffer := ?b\<rparr>"
  have "contents (inputBuffer ?s) = header_text [] @ []" "buf_inv (inputBuffer ?s)"
    by (simp_all add: header_text_def kCRLF_def)
  from parse_headers_first [OF this(2,1)] obtain c where
    bad: "parseRequest new_context (inputBuffer ?s) = Some (Inr (False, c, inputBuffer ?s))"
    by (auto simp: plain_names_def)
  have env: "writeCompleteCallback sample_tcp_env = None" "\<not> refused sample_tcp_env bad_request ?s"
    by (auto simp: sample_tcp_env_def refused_def min_def)
  have state: "tcp_state ?s = kConnected" "sent ?s = []" by (simp_all add: sample_tcp_def)
  from onMessage_rejects [OF sample_tcp_env_ok(1) env(1) sample_conn_input [OF buffer_of_ok(1)]
      state(1) bad, of defaultHttpCallback] env(2) state(2)
  show ?thesis by (auto simp: accounted_def)
qed

text \<open>
  Property C25.  A request that arrives in two segments, cut anywhere after the end of its first line
  and before the end of its headers, is not understood.  For every well-formed request without
  spaces in its header names, every such cut, and every connected connection in its invariant: when
  the first segment has come, the parser takes its whole lines and the context that holds them is
  dropped with the message, nothing is sent and the connection stays; when the rest has come (behind
  what is left of the first segment), the header line or empty line with which it begins is taken
  for a request line and the rest is answered with 400 (sent or, if its direct \<^verbatim>\<open>write\<close> fails,
  dropped: \<open>accounted\<close>) and the connection is shut down.  Conditions: \<open>write_ok\<close>, that is
  \<^verbatim>\<open>shutdown\<close> and \<^verbatim>\<open>close\<close> succeed and \<^verbatim>\<open>write\<close> returns -1 or at most its length; no
  write-complete callback.
\<close>

theorem split_request_rejected:
  assumes E: "write_ok E" "writeCompleteCallback E = None" and inv: "tcp_inv s" "tcp_state s = kConnected"
    and req: "request_ok req" "\<forall>(k, w) \<in> set (headers req). CHR '' '' \<notin> set k"
    and cut: "cut_in_head req u v" and first: "contents (inputBuffer s) = u"
  shows "\<exists>s1. onMessage E httpCallback s = Some (Inr s1) \<and> sent s1 = sent s \<and> lost s1 = lost s \<and>
    tcp_state s1 = kConnected \<and>
    (\<forall>b. buf_inv b \<longrightarrow> contents b = contents (inputBuffer s1) @ v \<longrightarrow>
       (\<exists>s2. onMessage E httpCallback (s1\<lparr>inputBuffer := b\<rparr>) = Some (Inr s2) \<and>
          accounted E bad_request s1 s2 \<and> promise s2 = sent s2 \<and> tcp_state s2 = kDisconnecting))"
proof -
  have input: "buf_inv (inputBuffer s)" using inv(1) by (simp add: tcp_inv_def stream_inv_def)
  from parse_cut [OF input first cut req] obtain r b1 hs where b1:
    "parseRequest new_context (inputBuffer s) =
       Some (Inr (True, \<lparr>parse_state = kExpectHeaders, request = r\<rparr>, b1))"
    "buf_inv b1" "contents b1 @ v = header_text hs @ body req" "plain_names hs"
    by blast
  let ?s1 = "s\<lparr>inputBuffer := b1\<rparr>"
  have 1: "onMessage E httpCallback s = Some (Inr ?s1)"
    using b1(1) by (simp add: onMessage_def gotAll_def)
  have "\<exists>s2. onMessage E httpCallback (?s1\<lparr>inputBuffer := b\<rparr>) = Some (Inr s2) \<and>
      accounted E bad_request ?s1 s2 \<and> promise s2 = sent s2 \<and> tcp_state s2 = kDisconnecting"
    if b: "buf_inv b" "contents b = contents b1 @ v" for b
  proof -
    let ?s2 = "?s1\<lparr>inputBuffer := b\<rparr>"
    have s2: "tcp_inv ?s2" "tcp_state ?s2 = kConnected"
      using inv b(1) by (simp_all add: tcp_inv_def stream_inv_def)
    from parse_headers_first [OF b(1) trans [OF b(2) b1(3)] b1(4)] obtain c where
      "parseRequest new_context (inputBuffer ?s2) = Some (Inr (False, c, b))" by auto
    from rejects [OF E s2 this, of httpCallback] show ?thesis
      by (auto simp: accounted_def refused_def)
  qed
  with 1 inv(2) show ?thesis by (intro exI [of _ ?s1]) simp
qed

theorem split_request_rejected_witness:
  "\<exists>s1 s2. onMessage sample_tcp_env defaultHttpCallback
      ((sample_tcp kConnected 3)\<lparr>inputBuffer :=
         buffer_of (request_line sample_request @ kCRLF @ ''Content-'')\<rparr>) = Some (Inr s1) \<and>
    onMessage sample_tcp_env defaultHttpCallback (s1\<lparr>inputBuffer := buffer_of (contents (inputBuffer s1) @
      ''Length: 2'' @ kCRLF @ ''Host: localhost'' @ kCRLF @ kCRLF @ ''42'')\<rparr>) = Some (Inr s2) \<and>
    tcp_state s2 = kDisconnecting"
proof -
  let ?u = "request_line sample_request @ kCRLF @ ''Content-''"
  let ?v = "''Length: 2'' @ kCRLF @ ''Host: localhost'' @ kCRLF @ kCRLF @ ''42''"
  let ?s = "(sample_tcp kConnected 3)\<lparr>inputBuffer := buffer_of ?u\<rparr>"
  have env: "writeCompleteCallback sample_tcp_env = None" by (simp add: sample_tcp_env_def)
  have state: "tcp_state ?s = kConnected" by (simp add: sample_tcp_def)
  have cont: "contents (inputBuffer ?s) = ?u" by simp
  have cut: "cut_in_head sample_request ?u ?v"
    by (simp add: cut_in_head_def request_text_def request_head_def header_line_def kCRLF_def sample_request_def)
  have names: "\<forall>(k, w) \<in> set (headers sample_request). CHR '' '' \<notin> set k"
    by (simp add: sample_request_def)
  from split_request_rejected [where httpCallback = defaultHttpCallback, OF sample_tcp_env_ok(1) env
      sample_conn_input [OF buffer_of_ok(1)] state sample_request_ok names cut cont]
  obtain s1 where s1: "onMessage sample_tcp_env defaultHttpCallback ?s = Some (Inr s1)"
    "\<forall>b. buf_inv b \<longrightarrow> contents b = contents (inputBuffer s1) @ ?v \<longrightarrow>
       (\<exists>s2. onMessage sample_tcp_env defaultHttpCallback (s1\<lparr>inputBuffer := b\<rparr>) = Some (Inr s2) \<and>
          accounted sample_tcp_env bad_request s1 s2 \<and> promise s2 = sent s2 \<and> tcp_state s2 = kDisconnecting)"
    by blast
  from s1(2) [rule_format, OF buffer_of_ok(1,2)] s1(1) show ?thesis by blast
qed

end
