(* ===== verification/ProcText.thy ===== *)
theory ProcText
  imports CText
begin

text \<open>
  What the two programs that read \<^verbatim>\<open>/proc\<close> share: \<^verbatim>\<open>readFile\<close>, which \<^verbatim>\<open>dummyload.cpp\<close> and
  \<^verbatim>\<open>SystemInfo.cpp\<close> both define in the same words, the conversions of \<^verbatim>\<open>sscanf\<close> that they use,
  and sums of \<^verbatim>\<open>int\<close>.
\<close>

section \<open>Reading a file\<close>

text \<open>\<open>ret\<close> is what \<^verbatim>\<open>open\<close> returns, \<open>reads\<close> what the calls of \<^verbatim>\<open>read\<close> deliver; an error is empty.\<close>

definition readFile :: "int \<Rightarrow> string list \<Rightarrow> string" where
  "readFile ret reads = (if ret = -1 then [] else concat (takeWhile (\<lambda>c. c \<noteq> []) reads))"

section \<open>Scanning\<close>

text \<open>
  \<^verbatim>\<open>sscanf\<close> with one \<^verbatim>\<open>%s\<close> and \<open>n\<close> times \<^verbatim>\<open>%d\<close>: the numbers it assigns, up to the first
  that does not match.
\<close>

definition scan_word :: "string \<Rightarrow> string" where
  "scan_word s = dropWhile (\<lambda>c. \<not> isspace c) (dropWhile isspace s)"

definition first_word :: "string \<Rightarrow> string" where
  "first_word s = takeWhile (\<lambda>c. \<not> isspace c) (dropWhile isspace s)"

definition int_prefix :: "string \<Rightarrow> (string \<times> string) option" where
  "int_prefix s =
     (let t = dropWhile isspace s;
          sign = (if take 1 t = ''-'' \<or> take 1 t = ''+'' then take 1 t else []);
          digits = takeWhile isdigit (drop (length sign) t)
      in if digits = [] then None
         else Some (sign @ digits, drop (length sign + length digits) t))"

fun scan_ints :: "nat \<Rightarrow> string \<Rightarrow> int list" where
  "scan_ints 0 s = []"
| "scan_ints (Suc n) s =
     (case int_prefix s of None \<Rightarrow> [] | Some (t, rest) \<Rightarrow> atoi t # scan_ints n rest)"

text \<open>
  The scan of \<^verbatim>\<open>/proc/stat\<close>, which stops at a zero byte: the word goes to \<^verbatim>\<open>char buf[64]\<close> without
  a bound, and one that does not fit, with its zero byte, is written past the end.  A number that is
  not assigned keeps what was in the variable, \<open>junk\<close>.
\<close>

definition overlong :: "string \<Rightarrow> bool" where
  "overlong tmp \<longleftrightarrow> 64 \<le> length (first_word (takeWhile (\<lambda>c. c \<noteq> CHR 0x00) tmp))"

definition scan_cpu :: "int list \<Rightarrow> string \<Rightarrow> int list res" where
  "scan_cpu junk tmp =
     (if overlong tmp then Inl OutOfBounds
      else (let scanned = scan_ints 9 (scan_word (takeWhile (\<lambda>c. c \<noteq> CHR 0x00) tmp))
            in Inr (scanned @ drop (length scanned) (take 9 junk))))"

text \<open>The \<^verbatim>\<open>int\<close> sum of the source, on a machine where it wraps.\<close>

definition add32 :: "int \<Rightarrow> int \<Rightarrow> int" where
  "add32 x y = to_int32 (x + y)"

section \<open>Lines of numbers\<close>

lemma dec_nat_prefix:
  assumes "rest = [] \<or> \<not> isdigit (hd rest)"
  shows "int_prefix (CHR '' '' # dec_nat n @ rest) = Some (dec_nat n, rest)"
proof -
  have space: "isspace (CHR '' '')" by (simp add: isspace_def)
  obtain c cs where c: "dec_nat n = c # cs" "isdigit c" using dec_nat_Cons by blast
  have "dropWhile isspace (CHR '' '' # dec_nat n @ rest) = dec_nat n @ rest"
    using space isdigit_not_isspace [OF c(2)] c(1) by simp
  moreover have "takeWhile isdigit (dec_nat n @ rest) = dec_nat n"
    using isdigit_dec_nat [of _ n] assms by (cases rest) (auto simp: takeWhile_append)
  moreover have "\<not> (take 1 (dec_nat n @ rest) = ''-'' \<or> take 1 (dec_nat n @ rest) = ''+'')"
    using c isdigit_not_sign [OF c(2)] by simp
  ultimately show ?thesis by (simp add: int_prefix_def Let_def)
qed

lemma atoi_dec_nat: "n < 2 ^ 31 \<Longrightarrow> atoi (dec_nat n) = int n"
  using atoi_dec_int [of "int n" "[]"] by (simp add: dec_int_def)

definition stat_fields :: "nat list \<Rightarrow> string" where
  "stat_fields ns = concat (map (\<lambda>n. CHR '' '' # dec_nat n) ns)"

lemma scan_ints_fields:
  "\<forall>n\<in>set ns. n < 2 ^ 31 \<Longrightarrow> rest = [] \<or> \<not> isdigit (hd rest) \<Longrightarrow>
   scan_ints (length ns) (stat_fields ns @ rest) = map int ns"
proof (induction ns)
  case (Cons n ns)
  have "stat_fields ns @ rest = [] \<or> \<not> isdigit (hd (stat_fields ns @ rest))"
    using Cons.prems(2) by (cases ns) (simp_all add: stat_fields_def isdigit_def)
  from dec_nat_prefix [OF this, of n] Cons show ?case
    by (simp add: stat_fields_def atoi_dec_nat)
qed (simp add: stat_fields_def)

lemma stat_fields_no_zero: "CHR 0x00 \<notin> set (stat_fields ns)"
proof
  assume "CHR 0x00 \<in> set (stat_fields ns)"
  then obtain n where "CHR 0x00 \<in> set (dec_nat n)" by (auto simp: stat_fields_def split: if_splits)
  from isdigit_dec_nat [OF this] show False by (simp add: isdigit_def)
qed

text \<open>A line of the documented form is read in full.\<close>

lemma scan_cpu_line:
  assumes "length ns = 9" "\<forall>n\<in>set ns. n < 2 ^ 31" "rest = [] \<or> \<not> isdigit (hd rest)"
  shows "scan_cpu junk (''cpu '' @ stat_fields ns @ rest) = Inr (map int ns)"
proof -
  define r where "r = takeWhile (\<lambda>c. c \<noteq> CHR 0x00) rest"
  have r: "r = [] \<or> \<not> isdigit (hd r)" using assms(3) by (cases rest) (auto simp: r_def)
  have cut: "takeWhile (\<lambda>c. c \<noteq> CHR 0x00) (''cpu '' @ stat_fields ns @ rest) =
      ''cpu '' @ stat_fields ns @ r"
    using stat_fields_no_zero [of ns] by (simp add: r_def takeWhile_append)
  have word: "first_word (''cpu '' @ t) = ''cpu''" "scan_word (''cpu '' @ t) = CHR '' '' # t" for t
    by (simp_all add: first_word_def scan_word_def isspace_def)
  have "dropWhile isspace (CHR '' '' # t) = dropWhile isspace t" for t
    by (simp add: isspace_def)
  then have "scan_ints 9 (CHR '' '' # stat_fields ns @ r) = scan_ints 9 (stat_fields ns @ r)"
    by (simp add: numeral_eq_Suc int_prefix_def)
  then have "scan_ints 9 (CHR '' '' # stat_fields ns @ r) = map int ns"
    using scan_ints_fields [OF assms(2) r] assms(1) by simp
  then show ?thesis
    unfolding scan_cpu_def overlong_def cut word Let_def using assms(1) by simp
qed

lemma foldl_add32:
  "0 \<le> x \<Longrightarrow> x + int (sum_list ns) < 2 ^ 31 \<Longrightarrow> foldl add32 x (map int ns) = x + int (sum_list ns)"
  by (induction ns arbitrary: x) (simp_all add: add32_def to_int32_id)

end
