(* ===== verification/Dummyload.thy ===== *)
theory Dummyload
  imports HttpServers TimeStamps ProcText
begin

text \<open>
  The program \<^verbatim>\<open>examples/dummyload/dummyload.cpp\<close>, but for its threads: the percentage set over
  HTTP, the open-loop control that spreads busy slots over a period, the closed-loop control around
  it, the measurement of the processor's load, and the HTTP handler.  Not part of the program and
  therefore arguments: \<^verbatim>\<open>sqrt\<close> and \<^verbatim>\<open>cos\<close>, the clock, the contents of \<^verbatim>\<open>/proc/stat\<close>, the output
  of the command that counts processors, and the value of an undefined conversion.
\<close>

section \<open>Setting the percentage\<close>

text \<open>\<open>g\<close> is \<^verbatim>\<open>g_percent\<close>, guarded by \<^verbatim>\<open>g_percent_mutex\<close>.\<close>

definition setGlobalPercent :: "int \<Rightarrow> int \<Rightarrow> int" where
  "setGlobalPercent percent g = (if 0 \<le> percent \<and> percent \<le> 100 then percent else g)"

definition onRequest_load :: "http_request \<Rightarrow> http_response \<Rightarrow> int \<Rightarrow> int \<times> http_response" where
  "onRequest_load req resp g =
     (if path req = ''/''
      then (g, setContentType ''text/html''
                 (resp\<lparr>statusCode := k200Ok, statusMessage := ''OK'',
                       resp_body := ''this is dummyload''\<rparr>))
      else if path req = ''/percent'' \<and> 1 < length (query req)
      then (let percent = atoi (drop 1 (query req))
            in (setGlobalPercent percent g,
                setContentType ''text/html''
                  (resp\<lparr>statusMessage := ''OK'', resp_body := ''ok: '' @ dec_int percent\<rparr>)))
      else (g, resp\<lparr>statusCode := k404NotFound, statusMessage := ''Not Found'',
                    closeConnection := True\<rparr>))"

section \<open>Work and its calibration\<close>

definition dadd :: "double \<Rightarrow> double \<Rightarrow> double" where
  "dadd x y = dround (x + y)"

definition busy :: "(int \<Rightarrow> double) \<Rightarrow> int \<Rightarrow> double" where
  "busy fsqrt cycles =
     fold (\<lambda>i result. dadd result (dmult (fsqrt (int i)) (fsqrt (int i + 1)))) [0..<nat cycles] 0"

text \<open>The two readings of the clock around \<open>busy\<close>.\<close>

definition getSeconds :: "timestamp \<Rightarrow> timestamp \<Rightarrow> double" where
  "getSeconds start finish = timeDifference finish start"

text \<open>
  \<^verbatim>\<open>findCycles\<close>: \<open>secs k c\<close> is the duration measured in the \<open>k\<close>-th round for \<open>c\<close> cycles.  The
  addition may overflow, which is undefined; the model is then \<open>Some None\<close>.
\<close>

partial_function (option) calibrate :: "(nat \<Rightarrow> int \<Rightarrow> double) \<Rightarrow> nat \<Rightarrow> int \<Rightarrow> int option option" where
  "calibrate secs k c =
     (if secs k c < ddiv 1 1000
      then (if c + c div 4 < 2 ^ 31 then calibrate secs (Suc k) (c + c div 4) else Some None)
      else Some (Some c))"

definition findCycles :: "(nat \<Rightarrow> int \<Rightarrow> double) \<Rightarrow> int option option" where
  "findCycles secs = calibrate secs 0 1000"

section \<open>Open-loop control\<close>

text \<open>Each round sets \<^verbatim>\<open>g_busy\<close>, notifies and sleeps; the list is what it is set to.\<close>

fun load_loop :: "nat \<Rightarrow> int \<Rightarrow> int \<Rightarrow> int \<Rightarrow> bool list \<times> int" where
  "load_loop 0 percent err count = ([], count)"
| "load_loop (Suc n) percent err count =
     (if 0 < err
      then (case load_loop n percent (err + 2 * (percent - 100)) (count + 1) of
              (bs, c) \<Rightarrow> (True # bs, c))
      else (case load_loop n percent (err + 2 * percent) count of (bs, c) \<Rightarrow> (False # bs, c)))"

definition load :: "int \<Rightarrow> bool list res" where
  "load percent0 =
     (let percent = min 100 (max 0 percent0);
          (bs, count) = load_loop 100 percent (2 * percent - 100) 0
      in assertR (count = percent) (Inr bs))"

section \<open>Closed-loop control\<close>

text \<open>One round of \<^verbatim>\<open>fixed\<close>: the new value of \<^verbatim>\<open>su\<close>, which is then given to \<^verbatim>\<open>load\<close>.\<close>

definition fixed_step :: "int \<Rightarrow> int \<Rightarrow> int \<Rightarrow> int" where
  "fixed_step percent cpuRate su0 =
     (let su = (if percent < cpuRate then su0 - 1 else if cpuRate < percent then su0 + 1 else su0);
          su = (if su < 0 then 0 else su)
      in if 100 < su then percent else su)"

definition cosine_step :: "(nat \<Rightarrow> double) \<Rightarrow> nat \<Rightarrow> int \<Rightarrow> int" where
  "cosine_step fcos i percent =
     to_integer (dadd (dmult (ddiv (dadd 1 (fcos i)) 2) (of_int percent)) (1 / 2))"

definition sawtooth_step :: "nat \<Rightarrow> int \<Rightarrow> int" where
  "sawtooth_step i percent = to_integer (dmult (ddiv (of_nat i) 100) (of_int percent))"

section \<open>Measuring the load\<close>

record cpu_times =
  lastIdleTime :: int
  lastCpuTime :: int

definition no_times :: cpu_times where
  "no_times = \<lparr>lastIdleTime = 0, lastCpuTime = 0\<rparr>"

text \<open>\<open>undef\<close> is what converting the NaN or infinity of a division by zero gives.\<close>

definition cpu_rate :: "int \<Rightarrow> int \<Rightarrow> int \<Rightarrow> int" where
  "cpu_rate undef i a =
     (let n = to_int32 (to_int32 (a - i) * 100);
          t = (if a = 0 then undef else to_integer (ddiv (of_int n) (of_int a)))
      in if t < 0 then 0 else if 100 < t then 100 else t)"

text \<open>\<open>junk\<close> are the values of variables that \<^verbatim>\<open>sscanf\<close> has not assigned.\<close>

definition getCpuTime :: "int \<Rightarrow> int list \<Rightarrow> string \<Rightarrow> cpu_times \<Rightarrow> (int \<times> cpu_times) res" where
  "getCpuTime undef junk tmp st =
     (if tmp = [] then Inr (100, st)
      else bindR (scan_cpu junk tmp) (\<lambda>vals.
        let currIdleTime = vals ! 3;
            currCpuTime = foldl add32 (hd vals) (tl vals);
            i = to_int32 (currIdleTime - lastIdleTime st);
            a = to_int32 (currCpuTime - lastCpuTime st)
        in Inr (cpu_rate undef i a, \<lparr>lastIdleTime = currIdleTime, lastCpuTime = currCpuTime\<rparr>)))"

definition getcpunum :: "string option \<Rightarrow> int" where
  "getcpunum out =
     (let buf = (case out of None \<Rightarrow> [] | Some s \<Rightarrow> take 15 s);
          num = atoi buf
      in if num \<le> 0 then 1 else num)"

text \<open>\<^verbatim>\<open>main\<close>: the number of load threads and the address the server listens on.\<close>

definition main_config :: "(string \<Rightarrow> 32 word) \<Rightarrow> string option \<Rightarrow> string list \<Rightarrow> (int \<times> sockaddr_in) option" where
  "main_config inet_addr nproc argv =
     (case argv of
        [_, ip, port] \<Rightarrow> Some (getcpunum nproc, InetAddress_ip inet_addr ip (word_of_int (atoi port)))
      | _ \<Rightarrow> None)"

section \<open>The line of busy slots\<close>

lemma length_load_loop: "load_loop n p err c = (bs, c') \<Longrightarrow> length bs = n"
  by (induction n arbitrary: err c bs c') (auto split: if_splits prod.splits)

lemma load_loop_count:
  "load_loop n p err c = (bs, c') \<Longrightarrow> c' = c + int (length (filter id bs))"
  by (induction n arbitrary: err c bs c') (fastforce split: if_splits prod.splits)+

text \<open>The error term always stays in one window of width 200, which is what keeps the line straight.\<close>

lemma load_loop_window:
  assumes "load_loop n p err c = (bs, c')" "0 \<le> p" "p \<le> 100"
    and "2 * p - 200 < err" "err \<le> 2 * p" "k \<le> n"
  shows "2 * p - 200 < err + 2 * p * int k - 200 * int (length (filter id (take k bs))) \<and>
    err + 2 * p * int k - 200 * int (length (filter id (take k bs))) \<le> 2 * p"
  using assms
proof (induction n arbitrary: err c bs c' k)
  case (Suc n)
  show ?case
  proof (cases k)
    case 0
    with Suc.prems show ?thesis by simp
  next
    case (Suc j)
    show ?thesis
    proof (cases "0 < err")
      case True
      obtain bs1 c1 where 1: "load_loop n p (err + 2 * (p - 100)) (c + 1) = (bs1, c1)" by force
      with True Suc.prems(1) have "bs = True # bs1" by auto
      with Suc.IH [OF 1 Suc.prems(2,3), of j] Suc.prems True \<open>k = Suc j\<close> show ?thesis
        by (simp add: algebra_simps)
    next
      case False
      obtain bs1 c1 where 1: "load_loop n p (err + 2 * p) c = (bs1, c1)" by force
      with False Suc.prems(1) have "bs = False # bs1" by auto
      with Suc.IH [OF 1 Suc.prems(2,3), of j] Suc.prems False \<open>k = Suc j\<close> show ?thesis
        by (simp add: algebra_simps)
    qed
  qed
qed simp

lemma load_spread:
  "\<exists>bs. load percent = Inr bs \<and> length bs = 100 \<and>
    int (length (filter id bs)) = min 100 (max 0 percent) \<and>
    (\<forall>k \<le> 100. \<bar>100 * int (length (filter id (take k bs))) - min 100 (max 0 percent) * int k\<bar> \<le> 50)"
proof -
  let ?p = "min 100 (max 0 percent)"
  obtain bs c where 1: "load_loop 100 ?p (2 * ?p - 100) 0 = (bs, c)" by force
  have len: "length bs = 100" by (rule length_load_loop [OF 1])
  have cnt: "c = int (length (filter id bs))" using load_loop_count [OF 1] by simp
  have window: "\<bar>100 * int (length (filter id (take k bs))) - ?p * int k\<bar> \<le> 50" if "k \<le> 100" for k
    using load_loop_window [OF 1 _ _ _ _ that] by simp linarith
  from window [of 100] len have "\<bar>100 * int (length (filter id bs)) - ?p * 100\<bar> \<le> 50" by simp
  then have "c = ?p" using cnt by linarith
  with 1 have "load percent = Inr bs" by (simp add: load_def)
  with len cnt \<open>c = ?p\<close> window show ?thesis by simp
qed

text \<open>
  Property C5.  \<^verbatim>\<open>load\<close> of any percentage never fails its assertion: it sets exactly that many of
  the 100 slots busy (the percentage being limited to 0..100), and spreads them evenly: after any
  \<open>k\<close> slots the number of busy ones is within one half of \<open>k\<close> times the percentage.
\<close>

theorem load_is_bresenham:
  "\<exists>bs. load percent = Inr bs \<and> length bs = 100 \<and>
    int (length (filter id bs)) = min 100 (max 0 percent) \<and>
    (\<forall>k \<in> {0..100}. \<bar>100 * int (length (filter id (take k bs))) - min 100 (max 0 percent) * int k\<bar> \<le> 50)"
  using load_spread [of percent] by (simp add: Ball_def)

theorem load_is_bresenham_witness:
  "\<exists>bs. load 37 = Inr bs \<and> int (length (filter id bs)) = 37"
  using load_is_bresenham [of 37] by auto

section \<open>Calibration\<close>

lemma calibrate_total:
  "1000 \<le> c \<Longrightarrow> c < 2 ^ 31 \<Longrightarrow>
   \<exists>r. calibrate secs k c = Some r \<and>
     (case r of None \<Rightarrow> \<exists>k c. 1717986918 < c \<and> c < 2 ^ 31 \<and> secs k c < ddiv 1 1000
      | Some c' \<Rightarrow> c \<le> c' \<and> c' < 2 ^ 31 \<and> (\<exists>k. \<not> secs k c' < ddiv 1 1000))"
proof (induction "nat (2 ^ 31 - c)" arbitrary: k c rule: less_induct)
  case less
  show ?case
  proof (cases "secs k c < ddiv 1 1000")
    case False
    then show ?thesis using less.prems by (subst calibrate.simps) auto
  next
    case True
    show ?thesis
    proof (cases "c + c div 4 < 2 ^ 31")
      case fits: True
      have step: "nat (2 ^ 31 - (c + c div 4)) < nat (2 ^ 31 - c)" and "1000 \<le> c + c div 4"
        using less.prems fits by simp_all
      from less.hyps [OF step this(2) fits, of "Suc k"] obtain r where
        r: "calibrate secs (Suc k) (c + c div 4) = Some r"
          "case r of None \<Rightarrow> \<exists>k c. 1717986918 < c \<and> c < 2 ^ 31 \<and> secs k c < ddiv 1 1000
           | Some c' \<Rightarrow> c + c div 4 \<le> c' \<and> c' < 2 ^ 31 \<and> (\<exists>k. \<not> secs k c' < ddiv 1 1000)"
        by blast
      have "0 \<le> c div 4" using less.prems by simp
      with True fits r show ?thesis
        by (subst calibrate.simps) (auto split: option.splits)
    next
      case False
      have "1717986918 < c" using False by simp
      with True False less.prems show ?thesis
        by (subst calibrate.simps) auto
    qed
  qed
qed

text \<open>
  Fact.  The calibration ends whatever the clock shows: the number of cycles grows by a
  quarter each time, so it either finds one that took at least a millisecond or, if even more than
  1.7 billion cycles seem to take less, is about to overflow an \<^verbatim>\<open>int\<close>.
\<close>

theorem findCycles_terminates:
  "\<exists>r. findCycles secs = Some r \<and>
     (case r of
        Some c \<Rightarrow> 1000 \<le> c \<and> c < 2 ^ 31 \<and> (\<exists>k. \<not> secs k c < ddiv 1 1000)
      | None \<Rightarrow> \<exists>k c. 1717986918 < c \<and> c < 2 ^ 31 \<and> secs k c < ddiv 1 1000)"
  using calibrate_total [of 1000 secs 0] by (auto simp: findCycles_def split: option.splits)

section \<open>The measurement\<close>

lemma cpu_rate_exact:
  assumes "0 \<le> i" "i \<le> a" "0 < a" "100 * (a - i) < 2 ^ 31"
  shows "cpu_rate undef i a = 100 * (a - i) div a"
proof -
  have 32: "to_int32 (to_int32 (a - i) * 100) = 100 * (a - i)"
    using assms by (simp add: to_int32_id)
  have "to_integer (ddiv (of_int (100 * (a - i))) (of_int a)) = 100 * (a - i) div a"
    using assms by (intro to_integer_ddiv_nonneg) simp_all
  moreover have "100 * (a - i) div a \<le> 100" "0 \<le> 100 * (a - i) div a"
  proof -
    have "100 * (a - i) div a \<le> 100 * a div a" using assms by (intro zdiv_mono1) simp_all
    then show "100 * (a - i) div a \<le> 100" using assms by simp
    show "0 \<le> 100 * (a - i) div a" using assms by (simp add: pos_imp_zdiv_nonneg_iff)
  qed
  ultimately show ?thesis using assms(3) by (simp add: cpu_rate_def 32 del: of_int_mult)
qed

text \<open>
  Fact.  The load that is measured from a line of \<^verbatim>\<open>/proc/stat\<close> is the exact percentage
  of non-idle time since the last reading, rounded down, for every line of the documented form and
  whatever follows it, as long as the differences fit: the detour through \<^verbatim>\<open>double\<close> loses
  nothing.
\<close>

theorem getCpuTime_exact:
  assumes "length ns = 9" and "sum_list ns < 2 ^ 31" and "rest = [] \<or> \<not> isdigit (hd rest)"
    and "0 \<le> lastIdleTime st" and "0 \<le> lastCpuTime st"
  defines "i \<equiv> int (ns ! 3) - lastIdleTime st" and "a \<equiv> int (sum_list ns) - lastCpuTime st"
  assumes "0 \<le> i" and "i \<le> a" and "0 < a" and "100 * (a - i) < 2 ^ 31"
  shows "getCpuTime undef junk (''cpu '' @ stat_fields ns @ rest) st =
    Inr (100 * (a - i) div a, \<lparr>lastIdleTime = int (ns ! 3), lastCpuTime = int (sum_list ns)\<rparr>)"
proof -
  obtain n ns' where ns: "ns = n # ns'" using assms(1) by (cases ns) auto
  have small: "m < 2 ^ 31" if "m \<in> set ns" for m
    using member_le_sum_list [OF that] assms(2) by simp
  have scan: "scan_cpu junk (''cpu '' @ stat_fields ns @ rest) = Inr (map int ns)"
    using scan_cpu_line [OF assms(1) _ assms(3)] small by blast
  have sum: "foldl add32 (hd (map int ns)) (tl (map int ns)) = int (sum_list ns)"
    using foldl_add32 [of "int n" ns'] assms(2) ns by simp
  have "int (ns ! 3) < 2 ^ 31" using small [of "ns ! 3"] assms(1) by simp
  then have 32: "to_int32 (int (ns ! 3) - lastIdleTime st) = i"
    "to_int32 (int (sum_list ns) - lastCpuTime st) = a"
    unfolding i_def a_def using assms by (auto intro!: to_int32_id)
  have ne: "''cpu '' @ stat_fields ns @ rest \<noteq> []" by simp
  show ?thesis
    unfolding getCpuTime_def scan bindR_Inr Let_def
    using ne assms(1) sum 32 cpu_rate_exact [OF assms(8-11)] by simp
qed

definition sample_fields :: "nat list" where
  "sample_fields = [300, 0, 100, 500, 50, 0, 50, 0, 0]"

theorem getCpuTime_exact_witness:
  "bindR (getCpuTime 0 [] (''cpu '' @ stat_fields sample_fields @ '' 0'') no_times) (\<lambda>(r, st). Inr r) = Inr 50"
proof -
  have "bindR (getCpuTime 0 [] (''cpu '' @ stat_fields sample_fields @ '' 0'') no_times) (\<lambda>(r, st). Inr r) =
      Inr (100 * (1000 - 500) div 1000)"
    using getCpuTime_exact [of sample_fields "'' 0''" no_times 0 "[]"]
    by (simp add: sample_fields_def no_times_def isdigit_def)
  then show ?thesis by simp
qed

text \<open>
  Fact.  The percentage is computed in 32 bits, and wraps: whenever between 21474837 and
  42949672 ticks have passed without any idle time, as at the first reading on a machine that has
  been busy for more than 60 hours, a processor that is fully loaded is measured as idle.
\<close>

theorem busy_cpu_measured_idle:
  assumes "21474837 \<le> a" and "a \<le> 42949672"
  shows "cpu_rate undef 0 a = 0"
proof -
  have "to_int32 a = a" using assms by (simp add: to_int32_id)
  moreover have "to_int32 (a * 100) = a * 100 - 2 ^ 32"
  proof -
    have "(a * 100 - 2 ^ 31) mod 2 ^ 32 = a * 100 - 2 ^ 31"
      using assms by (intro mod_pos_pos_trivial) simp_all
    moreover have "(a * 100 + 2 ^ 31) mod 2 ^ 32 = (a * 100 - 2 ^ 31 + 2 ^ 32) mod 2 ^ 32"
      by (simp add: add.commute)
    ultimately show ?thesis unfolding to_int32_def by (simp only: mod_add_self2) simp
  qed
  moreover have "to_integer (ddiv (of_int (a * 100 - 2 ^ 32)) (of_int a)) = cdiv (a * 100 - 2 ^ 32) a"
    using assms by (intro to_integer_ddiv) auto
  moreover have "cdiv (a * 100 - 2 ^ 32) a \<le> 0"
    using assms by (simp add: cdiv_def sgn_if pos_imp_zdiv_nonneg_iff)
  ultimately show ?thesis using assms by (simp add: cpu_rate_def Let_def)
qed

theorem busy_cpu_measured_idle_witness: "cpu_rate 0 0 30000000 = 0"
  by (rule busy_cpu_measured_idle) simp_all

section \<open>The control loop\<close>

text \<open>
  What drives the controller: a request over HTTP that changes the percentage, or a round of
  \<^verbatim>\<open>fixed\<close> with the contents of \<^verbatim>\<open>/proc/stat\<close> it reads.
\<close>

datatype control_event = Request http_request http_response | Round "int list" string

record control =
  g_percent :: int
  su :: int
  cpu :: cpu_times
  slots :: "bool list"

definition new_control :: control where
  "new_control = \<lparr>g_percent = 2, su = 0, cpu = no_times, slots = []\<rparr>"

fun control_step :: "int \<Rightarrow> control_event \<Rightarrow> control \<Rightarrow> control res" where
  "control_step undef (Request req resp) c =
     Inr (c\<lparr>g_percent := fst (onRequest_load req resp (g_percent c))\<rparr>)"
| "control_step undef (Round junk stat) c =
     (let percent = g_percent c;
          su0 = su c
      in bindR (getCpuTime undef junk stat (cpu c)) (\<lambda>(cpuRate, cpu').
         bindR (load (fixed_step percent cpuRate su0)) (\<lambda>bs.
           Inr (c\<lparr>su := fixed_step percent cpuRate su0, cpu := cpu', slots := slots c @ bs\<rparr>))))"

definition control_inv :: "control \<Rightarrow> bool" where
  "control_inv c \<longleftrightarrow> 0 \<le> g_percent c \<and> g_percent c \<le> 100 \<and> 0 \<le> su c \<and> su c \<le> 100"

lemma getCpuTime_returns:
  "getCpuTime undef junk stat st = Inl OutOfBounds \<and> overlong stat \<or>
   (\<exists>r st'. getCpuTime undef junk stat st = Inr (r, st') \<and> \<not> overlong stat)"
proof (cases "stat = []")
  case True
  then show ?thesis by (simp add: getCpuTime_def overlong_def first_word_def)
next
  case False
  then show ?thesis by (simp add: getCpuTime_def scan_cpu_def Let_def)
qed

lemma fixed_step_range:
  "0 \<le> percent \<Longrightarrow> percent \<le> 100 \<Longrightarrow> 0 \<le> su0 \<Longrightarrow> su0 \<le> 100 \<Longrightarrow>
   0 \<le> fixed_step percent r su0 \<and> fixed_step percent r su0 \<le> 100"
  by (simp add: fixed_step_def Let_def)

lemma onRequest_load_range:
  "0 \<le> g \<Longrightarrow> g \<le> 100 \<Longrightarrow>
   0 \<le> fst (onRequest_load req resp g) \<and> fst (onRequest_load req resp g) \<le> 100"
  by (simp add: onRequest_load_def setGlobalPercent_def Let_def)

lemma load_total: "\<exists>bs. load p = Inr bs \<and> length bs = 100 \<and> int (length (filter id bs)) = min 100 (max 0 p)"
  using load_spread [of p] by blast

text \<open>A round whose text of \<^verbatim>\<open>/proc/stat\<close> overruns the buffer of \<^verbatim>\<open>getCpuTime\<close>.\<close>

fun overruns :: "control_event \<Rightarrow> bool" where
  "overruns (Request req resp) \<longleftrightarrow> False"
| "overruns (Round junk stat) \<longleftrightarrow> overlong stat"

lemma control_step_ok:
  assumes "control_inv c"
  shows "if overruns ev then control_step undef ev c = Inl OutOfBounds
         else \<exists>c'. control_step undef ev c = Inr c' \<and> control_inv c'"
proof (cases ev)
  case (Request req resp)
  with assms onRequest_load_range [of "g_percent c" req resp] show ?thesis
    by (simp add: control_inv_def)
next
  case (Round junk stat)
  show ?thesis
  proof (cases "overlong stat")
    case True
    with Round getCpuTime_returns [of undef junk stat "cpu c"] show ?thesis by auto
  next
    case False
    then obtain r cpu' where r: "getCpuTime undef junk stat (cpu c) = Inr (r, cpu')"
      using getCpuTime_returns [of undef junk stat "cpu c"] by blast
    obtain bs where "load (fixed_step (g_percent c) r (su c)) = Inr bs" using load_total by blast
    with Round False r assms fixed_step_range [of "g_percent c" "su c" r] show ?thesis
      by (simp add: control_inv_def)
  qed
qed

lemma control_run:
  "control_inv c \<Longrightarrow>
   if list_ex overruns evs then runR (control_step undef) evs c = Inl OutOfBounds
   else \<exists>c'. runR (control_step undef) evs c = Inr c' \<and> control_inv c'"
proof (induction evs arbitrary: c)
  case (Cons ev evs)
  from control_step_ok [OF Cons.prems, of ev undef] Cons.IH show ?case
    by (auto split: if_splits)
qed simp

text \<open>
  Property C17.  For any sequence of HTTP requests and rounds of \<^verbatim>\<open>fixed\<close>, whatever the requests ask
  for and whatever the text of \<^verbatim>\<open>/proc/stat\<close> is in each round: if no text starts with a word of 64
  bytes or more, no assertion fails, the sequence runs to its end, and the percentage asked for and
  the one being driven stay between 0 and 100.  If some text does, \<^verbatim>\<open>getCpuTime\<close> writes past its
  buffer of 64 bytes (\<open>OutOfBounds\<close>), and nothing else goes wrong.
\<close>

theorem control_stays_in_range:
  "if list_ex overruns evs then runR (control_step undef) evs new_control = Inl OutOfBounds
   else \<exists>c. runR (control_step undef) evs new_control = Inr c \<and>
     0 \<le> g_percent c \<and> g_percent c \<le> 100 \<and> 0 \<le> su c \<and> su c \<le> 100"
proof -
  have "control_inv new_control" by (simp add: control_inv_def new_control_def)
  from control_run [OF this, of evs undef] show ?thesis
    by (auto simp: control_inv_def split: if_splits)
qed

section \<open>The other curves\<close>

lemma dround_upper: "0 \<le> x \<Longrightarrow> dround x \<le> x * (1 + 1 / 2 ^ 53)"
proof -
  assume "0 \<le> x"
  with dround_error [of x] have "dround x - x \<le> x / 2 ^ 53"
    by (metis abs_le_D1 abs_of_nonneg)
  then have "dround x \<le> x + x / 2 ^ 53" by linarith
  then show ?thesis by (simp add: distrib_left)
qed

text \<open>
  Fact.  The saw-tooth never asks for more than the percentage set, nor for less than 0:
  the two roundings of \<^verbatim>\<open>i / 100.0 * percent\<close> do not reach the next integer.
\<close>

theorem sawtooth_in_range:
  assumes "i \<le> 100" and "0 \<le> p" and "p \<le> 100"
  shows "0 \<le> sawtooth_step i p \<and> sawtooth_step i p \<le> p"
proof -
  define q where "q = ddiv (of_nat i) 100"
  define e where "e = (1 + 1 / 2 ^ 53 :: rat)"
  have e: "0 \<le> e" "100 * (e * e - 1) < 1" by (simp_all add: e_def)
  have q: "0 \<le> q" by (simp add: q_def ddiv_def dround_nonneg)
  have p: "0 \<le> (of_int p :: rat)" "(of_int p :: rat) \<le> 100" using assms(2,3) by simp_all
  have nonneg: "0 \<le> dmult q (of_int p)"
    using q p by (simp add: dmult_def dround_nonneg)
  have "q \<le> of_nat i / 100 * e"
    unfolding q_def ddiv_def e_def by (rule dround_upper) simp
  also have "\<dots> \<le> 1 * e"
    using assms(1) e(1) by (intro mult_right_mono) simp_all
  finally have "q * of_int p \<le> e * of_int p"
    using p by (intro mult_right_mono) simp_all
  then have "q * of_int p * e \<le> e * of_int p * e"
    using e(1) by (rule mult_right_mono)
  moreover have "dmult q (of_int p) \<le> q * of_int p * e"
    unfolding dmult_def e_def using q p by (intro dround_upper) simp
  ultimately have "dmult q (of_int p) \<le> of_int p + of_int p * (e * e - 1)"
    by (simp add: algebra_simps)
  also have "of_int p * (e * e - 1) \<le> 100 * (e * e - 1)"
    using p by (intro mult_right_mono) (simp_all add: e_def)
  finally have "dmult q (of_int p) < of_int p + 1" using e(2) by simp
  then have "\<lfloor>dmult q (of_int p)\<rfloor> \<le> p" by linarith
  with nonneg show ?thesis by (simp add: sawtooth_step_def to_integer_def q_def)
qed

theorem sawtooth_in_range_witness: "sawtooth_step 29 100 \<le> 100"
  using sawtooth_in_range [of 29 100] by simp

section \<open>The answer to a change of the percentage\<close>

text \<open>
  Fact.  A request for \<^verbatim>\<open>/percent?n\<close>, from the bytes on the connection to the bytes of the
  answer: \<^verbatim>\<open>g_percent\<close> becomes \<open>n\<close> if that is between 0 and 100 and stays as it is
  otherwise, and the client is told \<^verbatim>\<open>ok\<close> in both cases, in a response whose status code is 0,
  since the handler does not set one.  (The answer is dropped if its direct \<^verbatim>\<open>write\<close> fails.)
\<close>

theorem percent_request:
  assumes E: "write_ok E" "writeCompleteCallback E = None" and inv: "tcp_inv s" "tcp_state s = kConnected"
    and cont: "contents (inputBuffer s) = request_text req @ rest"
    and req: "request_ok req" "length (body req) < 2 ^ 31"
    and load: "path req = ''/percent''" "query req = CHR ''?'' # dec_int n"
    and n: "- (2 ^ 31) \<le> n" "n < 2 ^ 31" and keep: "\<not> wants_close req"
  shows "\<exists>s'. onMessage E (\<lambda>r resp. Inr (snd (onRequest_load r resp g))) s = Some (Inr s') \<and>
    tcp_state s' = kConnected \<and>
    accounted E (''HTTP/1.1 0 OK'' @ kCRLF @ ''Content-Length: '' @
      dec_nat (4 + length (dec_int n)) @ kCRLF @ ''Connection: Keep-Alive'' @ kCRLF @
      ''Content-Type: text/html'' @ kCRLF @ kCRLF @ ''ok: '' @ dec_int n) s s' \<and>
    fst (onRequest_load req (new_response False) g) = (if 0 \<le> n \<and> n \<le> 100 then n else g)"
proof -
  let ?resp = "(new_response False)\<lparr>statusMessage := ''OK'',
    resp_headers := [(''Content-Type'', ''text/html'')], resp_body := ''ok: '' @ dec_int n\<rparr>"
  have "dec_int n \<noteq> []" by (simp add: dec_int_def)
  then have len: "1 < length (query req)" using load(2) by (cases "dec_int n") simp_all
  have "atoi (drop 1 (query req)) = n" using atoi_dec_int [OF n, of "[]"] load(2) by simp
  with len load(1) have h: "onRequest_load req (new_response False) g = (setGlobalPercent n g, ?resp)"
    by (simp add: onRequest_load_def setContentType_def new_response_def)
  have small: "length (dec_int n) \<le> 11" using length_dec_int [of n 10] n by simp
  then have "printable ?resp" by (simp add: printable_def new_response_def)
  moreover have zero: "dec_int 0 = ''0''" by code_simp
  have shape: "response_text ?resp = ''HTTP/1.1 0 OK'' @ kCRLF @ ''Content-Length: '' @
      dec_nat (4 + length (dec_int n)) @ kCRLF @ ''Connection: Keep-Alive'' @ kCRLF @
      ''Content-Type: text/html'' @ kCRLF @ kCRLF @ ''ok: '' @ dec_int n"
    by (simp add: response_text_def new_response_def zero header_line_def numeral_eq_Suc)
  have "length (dec_nat (4 + length (dec_int n))) \<le> 2"
    using small by (intro length_dec_nat) simp_all
  then have "length (response_text ?resp) < 2 ^ 31"
    unfolding shape using small by (simp add: kCRLF_def)
  moreover have "snd (onRequest_load req (new_response (wants_close req)) g) = ?resp"
    using keep h by simp
  ultimately obtain s' where
    "onMessage E (\<lambda>r resp. Inr (snd (onRequest_load r resp g))) s = Some (Inr s')"
    "accounted E (response_text ?resp) s s'" "tcp_state s' = kConnected"
    using onMessage_ok [where httpCallback = "\<lambda>r resp. Inr (snd (onRequest_load r resp g))" and
        resp = ?resp, OF E inv cont req] by (auto simp: new_response_def)
  with shape h show ?thesis by (simp add: setGlobalPercent_def)
qed

definition percent_sample :: http_request where
  "percent_sample =
     \<lparr>req_method = kGet, version = kHttp11, path = ''/percent'', query = CHR ''?'' # dec_int 142,
      body = [], headers = []\<rparr>"

theorem percent_request_witness:
  "\<exists>s'. onMessage sample_tcp_env (\<lambda>r resp. Inr (snd (onRequest_load r resp 7)))
      ((sample_tcp kConnected 3)\<lparr>inputBuffer := buffer_of (request_text percent_sample)\<rparr>) = Some (Inr s') \<and>
    fst (onRequest_load percent_sample (new_response False) 7) = 7"
proof -
  let ?s = "(sample_tcp kConnected 3)\<lparr>inputBuffer := buffer_of (request_text percent_sample)\<rparr>"
  have "dec_int 142 = ''142''" by code_simp
  then have ok: "request_ok percent_sample"
    by (simp add: request_ok_def percent_sample_def header_def)
  have "wants_close percent_sample = False"
    by (simp add: wants_close_def header_def percent_sample_def)
  moreover have "contents (inputBuffer ?s) = request_text percent_sample @ []" by simp
  moreover have "writeCompleteCallback sample_tcp_env = None" "tcp_state ?s = kConnected"
    by (simp_all add: sample_tcp_env_def sample_tcp_def)
  ultimately show ?thesis
    using percent_request [OF sample_tcp_env_ok(1) _ sample_conn_input [OF buffer_of_ok(1)], of _ percent_sample
        "[]" 142 7] ok
    by (simp add: percent_sample_def) blast
qed

end
