(* ===== verification/Threads.thy ===== *)
theory Threads
  imports Prelude "HOL-Library.Multiset"
begin

text \<open>
  The directory \<^verbatim>\<open>base\<close>: \<^verbatim>\<open>AtomicIntegerT\<close> of \<^verbatim>\<open>Atomic.h\<close>, \<^verbatim>\<open>Thread\<close>, and \<^verbatim>\<open>ThreadPool\<close> with
  the \<^verbatim>\<open>Mutex\<close>, \<^verbatim>\<open>LockGuard\<close> and \<^verbatim>\<open>Condition\<close> it is built from.  The pool is a step relation:
  every thread has a program counter, a step is one statement of one thread, and the steps of
  different threads interleave freely.  The fields \<open>accepted\<close>, \<open>handed\<close>, \<open>executed\<close> and
  \<open>inlined\<close> only record what happened; no statement reads them.  Not part of the program:
  which waiter \<^verbatim>\<open>pthread_cond_signal\<close> wakes, spurious wake-ups, the result of
  \<^verbatim>\<open>pthread_create\<close>.  A task is a callable \<^verbatim>\<open>std::function\<close>; the empty one that \<^verbatim>\<open>take\<close>
  returns after \<^verbatim>\<open>stop\<close> is \<open>None\<close>.
\<close>

section \<open>Atomic integers\<close>

text \<open>Each operation is one atomic step and gives its result and the new value.\<close>

definition atomic_get :: "'w::len word \<Rightarrow> 'w word \<times> 'w word" where
  "atomic_get v = (v, if v = 0 then 0 else v)"

definition getAndAdd :: "'w::len word \<Rightarrow> 'w word \<Rightarrow> 'w word \<times> 'w word" where
  "getAndAdd x v = (v, v + x)"

definition addAndGet :: "'w::len word \<Rightarrow> 'w word \<Rightarrow> 'w word \<times> 'w word" where
  "addAndGet x v = (case getAndAdd x v of (r, v') \<Rightarrow> (r + x, v'))"

definition incrementAndGet :: "'w::len word \<Rightarrow> 'w word \<times> 'w word" where
  "incrementAndGet v = addAndGet 1 v"

definition decrementAndGet :: "'w::len word \<Rightarrow> 'w word \<times> 'w word" where
  "decrementAndGet v = addAndGet (- 1) v"

definition atomic_add :: "'w::len word \<Rightarrow> 'w word \<Rightarrow> 'w word" where
  "atomic_add x v = snd (getAndAdd x v)"

definition increment :: "'w::len word \<Rightarrow> 'w word" where
  "increment v = snd (incrementAndGet v)"

definition decrement :: "'w::len word \<Rightarrow> 'w word" where
  "decrement v = snd (decrementAndGet v)"

definition getAndSet :: "'w::len word \<Rightarrow> 'w word \<Rightarrow> 'w word \<times> 'w word" where
  "getAndSet newValue v = (v, newValue)"

lemma addAndGet_returns_new: "fst (addAndGet x v) = snd (addAndGet x v)"
  by (simp add: addAndGet_def getAndAdd_def)

lemma atomic_get_id: "atomic_get v = (v, v)"
  by (simp add: atomic_get_def)

text \<open>
  The order in which concurrent increments take effect does not matter, and each of them returns
  a value of its own as long as there are fewer than \<open>2 ^ w\<close>.
\<close>

fun increments :: "nat \<Rightarrow> 'w::len word \<Rightarrow> 'w word list" where
  "increments 0 v = []"
| "increments (Suc n) v = (case incrementAndGet v of (r, v') \<Rightarrow> r # increments n v')"

lemma increments_values: "increments n v = map (\<lambda>i. v + of_nat (Suc i)) [0..<n]"
proof (induction n arbitrary: v)
  case (Suc n)
  have "[0..<Suc n] = 0 # map Suc [0..<n]" by (simp only: upt_conv_Cons map_Suc_upt)
  with Suc show ?case
    by (simp add: incrementAndGet_def addAndGet_def getAndAdd_def o_def add.assoc del: upt_Suc)
qed simp

lemma increments_distinct:
  assumes "n \<le> 2 ^ LENGTH('w::len)"
  shows "distinct (increments n (v :: 'w word))"
proof -
  have "inj_on (\<lambda>i. v + of_nat (Suc i)) {0..<n}"
  proof (rule inj_onI)
    fix i j assume ij: "i \<in> {0..<n}" "j \<in> {0..<n}"
      and eq: "v + of_nat (Suc i) = v + of_nat (Suc j)"
    then have "(of_nat i :: 'w word) = of_nat j" by simp
    then have "unat (of_nat i :: 'w word) = unat (of_nat j :: 'w word)" by simp
    with ij assms show "i = j" by (simp add: unat_of_nat)
  qed
  then show ?thesis by (simp add: increments_values distinct_map)
qed

section \<open>Threads\<close>

record thread =
  started :: bool
  joined :: bool

definition new_thread :: thread where
  "new_thread = \<lparr>started = False, joined = False\<rparr>"

text \<open>\<open>ret\<close> is what \<^verbatim>\<open>pthread_create\<close> returns.\<close>

definition thread_start :: "int \<Rightarrow> thread \<Rightarrow> thread res" where
  "thread_start ret th = (if ret \<noteq> 0 then Inl Aborted else Inr (th\<lparr>started := True\<rparr>))"

definition thread_join :: "thread \<Rightarrow> thread res" where
  "thread_join th =
     assertR (started th) (assertR (\<not> joined th) (Inr (th\<lparr>joined := True\<rparr>)))"

text \<open>Whether the destructor detaches the thread.\<close>

definition thread_detaches :: "thread \<Rightarrow> bool" where
  "thread_detaches th \<longleftrightarrow> started th \<and> \<not> joined th"

lemma thread_join_once:
  "thread_join th = Inr th' \<Longrightarrow> thread_join th' = Inl AssertionFailed \<and> \<not> thread_detaches th'"
  by (auto simp: thread_join_def thread_detaches_def assertR_def split: if_splits)

section \<open>Mutexes\<close>

text \<open>The mutex is the thread that owns it; \<open>None\<close> as a result means the thread blocks.\<close>

definition mutex_lock :: "nat \<Rightarrow> nat option \<Rightarrow> nat option option" where
  "mutex_lock t owner = (case owner of None \<Rightarrow> Some (Some t) | Some _ \<Rightarrow> None)"

definition mutex_unlock :: "nat option \<Rightarrow> nat option" where
  "mutex_unlock owner = None"

lemma mutex_lock_Some [simp]: "mutex_lock t m = Some m' \<longleftrightarrow> m = None \<and> m' = Some t"
  by (auto simp: mutex_lock_def split: option.splits)

lemma mutex_unlock_None [simp]: "mutex_unlock m = None"
  by (simp add: mutex_unlock_def)

section \<open>The thread pool\<close>

text \<open>
  Where a thread stands: \<open>Run\<dots>\<close> in \<^verbatim>\<open>ThreadPool::run\<close>, \<open>Loop\<close>, \<open>Call\<close> and \<open>Exit\<close> in
  \<^verbatim>\<open>runInThread\<close>, \<open>Take\<dots>\<close> in \<^verbatim>\<open>take\<close>, \<open>Start\<dots>\<close> in \<^verbatim>\<open>start\<close>, \<open>Stop\<dots>\<close> in \<^verbatim>\<open>stop\<close>.
  \<open>\<dots>Wait\<close> is blocked in \<^verbatim>\<open>Condition::wait\<close>, \<open>\<dots>Wake\<close> has been woken there and must take the
  mutex again.
\<close>

datatype 'a pc =
    Idle | Unborn
  | RunEntry 'a | RunLock 'a | RunTest 'a | RunWait 'a | RunWake 'a | RunPush 'a
  | RunNotify | RunUnlock
  | Loop | Call "'a option" | Exit
  | TakeLock | TakeTest | TakeWait | TakeWake | TakePop | TakeNotify 'a | TakeUnlock "'a option"
  | StartEntry nat | StartSpawn nat
  | StopEntry | StopSet | StopNotify | StopUnlock | StopJoin nat | Stopped

record 'a pool =
  owner :: "nat option"
  queue :: "'a list"
  maxQueue :: int
  running :: bool
  workers :: "nat list"
  pc :: "nat \<Rightarrow> 'a pc"
  launched :: bool
  accepted :: "'a list"
  handed :: "'a list"
  executed :: "'a list"
  inlined :: "'a list"

definition isFull :: "'a pool \<Rightarrow> bool" where
  "isFull s \<longleftrightarrow> 0 < maxQueue s \<and> maxQueue s \<le> int (length (queue s))"

abbreviation goto :: "nat \<Rightarrow> 'a pc \<Rightarrow> 'a pool \<Rightarrow> 'a pool" where
  "goto t p s \<equiv> s\<lparr>pc := (pc s)(t := p)\<rparr>"

definition new_pool :: "int \<Rightarrow> nat set \<Rightarrow> 'a pool" where
  "new_pool maxSize clients =
     \<lparr>owner = None, queue = [], maxQueue = maxSize, running = False, workers = [],
      pc = (\<lambda>t. if t \<in> clients then Idle else Unborn), launched = False,
      accepted = [], handed = [], executed = [], inlined = []\<rparr>"

inductive pool_init :: "'a pool \<Rightarrow> bool" where
  "pool_init (new_pool maxSize clients)"

inductive pool_step :: "nat \<Rightarrow> 'a pool \<Rightarrow> 'a pool \<Rightarrow> bool" where
  run_inline: "pc s t = RunEntry x \<Longrightarrow> workers s = [] \<Longrightarrow>
    pool_step t s (goto t Idle (s\<lparr>inlined := inlined s @ [x]\<rparr>))"
| run_enter: "pc s t = RunEntry x \<Longrightarrow> workers s \<noteq> [] \<Longrightarrow> pool_step t s (goto t (RunLock x) s)"
| run_lock: "pc s t = RunLock x \<Longrightarrow> mutex_lock t (owner s) = Some m \<Longrightarrow>
    pool_step t s (goto t (RunTest x) (s\<lparr>owner := m\<rparr>))"
| run_wait: "pc s t = RunTest x \<Longrightarrow> isFull s \<Longrightarrow>
    pool_step t s (goto t (RunWait x) (s\<lparr>owner := mutex_unlock (owner s)\<rparr>))"
| run_relock: "pc s t = RunWake x \<Longrightarrow> mutex_lock t (owner s) = Some m \<Longrightarrow>
    pool_step t s (goto t (RunTest x) (s\<lparr>owner := m\<rparr>))"
| run_go: "pc s t = RunTest x \<Longrightarrow> \<not> isFull s \<Longrightarrow> pool_step t s (goto t (RunPush x) s)"
| run_push: "pc s t = RunPush x \<Longrightarrow>
    pool_step t s (goto t RunNotify (s\<lparr>queue := queue s @ [x], accepted := accepted s @ [x]\<rparr>))"
| run_notify_nobody: "pc s t = RunNotify \<Longrightarrow> \<forall>u. pc s u \<noteq> TakeWait \<Longrightarrow>
    pool_step t s (goto t RunUnlock s)"
| run_notify: "pc s t = RunNotify \<Longrightarrow> pc s u = TakeWait \<Longrightarrow>
    pool_step t s (goto t RunUnlock (goto u TakeWake s))"
| run_unlock: "pc s t = RunUnlock \<Longrightarrow>
    pool_step t s (goto t Idle (s\<lparr>owner := mutex_unlock (owner s)\<rparr>))"
| loop_enter: "pc s t = Loop \<Longrightarrow> running s \<Longrightarrow> pool_step t s (goto t TakeLock s)"
| loop_exit: "pc s t = Loop \<Longrightarrow> \<not> running s \<Longrightarrow> pool_step t s (goto t Exit s)"
| take_lock: "pc s t = TakeLock \<Longrightarrow> mutex_lock t (owner s) = Some m \<Longrightarrow>
    pool_step t s (goto t TakeTest (s\<lparr>owner := m\<rparr>))"
| take_wait: "pc s t = TakeTest \<Longrightarrow> queue s = [] \<and> running s \<Longrightarrow>
    pool_step t s (goto t TakeWait (s\<lparr>owner := mutex_unlock (owner s)\<rparr>))"
| take_relock: "pc s t = TakeWake \<Longrightarrow> mutex_lock t (owner s) = Some m \<Longrightarrow>
    pool_step t s (goto t TakeTest (s\<lparr>owner := m\<rparr>))"
| take_go: "pc s t = TakeTest \<Longrightarrow> \<not> (queue s = [] \<and> running s) \<Longrightarrow>
    pool_step t s (goto t TakePop s)"
| take_nothing: "pc s t = TakePop \<Longrightarrow> queue s = [] \<Longrightarrow> pool_step t s (goto t (TakeUnlock None) s)"
| take_front: "pc s t = TakePop \<Longrightarrow> queue s = x # xs \<Longrightarrow>
    pool_step t s
      (goto t (if 0 < maxQueue s then TakeNotify x else TakeUnlock (Some x))
        (s\<lparr>queue := xs, handed := handed s @ [x]\<rparr>))"
| take_notify_nobody: "pc s t = TakeNotify x \<Longrightarrow> \<forall>u y. pc s u \<noteq> RunWait y \<Longrightarrow>
    pool_step t s (goto t (TakeUnlock (Some x)) s)"
| take_notify: "pc s t = TakeNotify x \<Longrightarrow> pc s u = RunWait y \<Longrightarrow>
    pool_step t s (goto t (TakeUnlock (Some x)) (goto u (RunWake y) s))"
| take_unlock: "pc s t = TakeUnlock r \<Longrightarrow>
    pool_step t s (goto t (Call r) (s\<lparr>owner := mutex_unlock (owner s)\<rparr>))"
| call_nothing: "pc s t = Call None \<Longrightarrow> pool_step t s (goto t Loop s)"
| call_task: "pc s t = Call (Some x) \<Longrightarrow>
    pool_step t s (goto t Loop (s\<lparr>executed := executed s @ [x]\<rparr>))"
| start_begin: "pc s t = StartEntry n \<Longrightarrow>
    pool_step t s (goto t (StartSpawn n) (s\<lparr>running := True\<rparr>))"
| start_spawn: "pc s t = StartSpawn (Suc n) \<Longrightarrow> pc s u = Unborn \<Longrightarrow>
    pool_step t s (goto t (StartSpawn n) (goto u Loop (s\<lparr>workers := workers s @ [u]\<rparr>)))"
| start_end: "pc s t = StartSpawn 0 \<Longrightarrow> pool_step t s (goto t Idle s)"
| stop_lock: "pc s t = StopEntry \<Longrightarrow> mutex_lock t (owner s) = Some m \<Longrightarrow>
    pool_step t s (goto t StopSet (s\<lparr>owner := m\<rparr>))"
| stop_set: "pc s t = StopSet \<Longrightarrow> pool_step t s (goto t StopNotify (s\<lparr>running := False\<rparr>))"
| stop_notify: "pc s t = StopNotify \<Longrightarrow>
    pool_step t s
      (goto t StopUnlock (s\<lparr>pc := (\<lambda>u. if pc s u = TakeWait then TakeWake else pc s u)\<rparr>))"
| stop_unlock: "pc s t = StopUnlock \<Longrightarrow>
    pool_step t s (goto t (StopJoin 0) (s\<lparr>owner := mutex_unlock (owner s)\<rparr>))"
| stop_join: "pc s t = StopJoin i \<Longrightarrow> i < length (workers s) \<Longrightarrow> pc s (workers s ! i) = Exit \<Longrightarrow>
    pool_step t s (goto t (StopJoin (Suc i)) s)"
| stop_end: "pc s t = StopJoin i \<Longrightarrow> length (workers s) \<le> i \<Longrightarrow>
    pool_step t s (goto t Stopped s)"

text \<open>
  What these steps leave out: \<^verbatim>\<open>setMaxQueueSize\<close> is called before the pool is used, so the bound is
  part of the initial state; in \<^verbatim>\<open>start\<close>, a thread that is put into \<^verbatim>\<open>threads_\<close> is started in the
  same step, and starting it succeeds; a task is run in one step and does not call the pool; after the
  joins \<^verbatim>\<open>stop\<close> frees the \<^verbatim>\<open>Thread\<close> objects, which no step reads.

  What the rest of the program does to the pool: a client thread calls \<^verbatim>\<open>run\<close>, \<^verbatim>\<open>start\<close> (once)
  or \<^verbatim>\<open>stop\<close>; and what the system may do: wake a waiter for no reason.
\<close>

inductive pool_env :: "'a pool \<Rightarrow> 'a pool \<Rightarrow> bool" where
  env_run: "pc s t = Idle \<Longrightarrow> pool_env s (goto t (RunEntry x) s)"
| env_start: "pc s t = Idle \<Longrightarrow> \<not> launched s \<Longrightarrow>
    pool_env s (goto t (StartEntry n) (s\<lparr>launched := True\<rparr>))"
| env_stop: "pc s t = Idle \<Longrightarrow> pool_env s (goto t StopEntry s)"
| spurious_take: "pc s t = TakeWait \<Longrightarrow> pool_env s (goto t TakeWake s)"
| spurious_run: "pc s t = RunWait x \<Longrightarrow> pool_env s (goto t (RunWake x) s)"

inductive pool_next :: "'a pool \<Rightarrow> 'a pool \<Rightarrow> bool" where
  next_thread: "pool_step t s s' \<Longrightarrow> pool_next s s'"
| next_env: "pool_env s s' \<Longrightarrow> pool_next s s'"

text \<open>The destructor, run by thread \<open>t\<close>.\<close>

definition pool_destruct :: "nat \<Rightarrow> 'a pool \<Rightarrow> 'a pool" where
  "pool_destruct t s = (if running s then goto t StopEntry s else s)"

lemma pool_destruct_next: "pc s t = Idle \<Longrightarrow> running s \<Longrightarrow> pool_next s (pool_destruct t s)"
  using next_env [OF env_stop] by (simp add: pool_destruct_def)

section \<open>The invariant of the pool\<close>

text \<open>The places inside a critical section, those of a worker, those of \<^verbatim>\<open>start\<close>.\<close>

fun holds :: "'a pc \<Rightarrow> bool" where
  "holds (RunTest x) = True" | "holds (RunPush x) = True" | "holds RunNotify = True"
| "holds RunUnlock = True" | "holds TakeTest = True" | "holds TakePop = True"
| "holds (TakeNotify x) = True" | "holds (TakeUnlock r) = True" | "holds StopSet = True"
| "holds StopNotify = True" | "holds StopUnlock = True" | "holds _ = False"

fun at_work :: "'a pc \<Rightarrow> bool" where
  "at_work Loop = True" | "at_work (Call r) = True" | "at_work Exit = True"
| "at_work TakeLock = True" | "at_work TakeTest = True" | "at_work TakeWait = True"
| "at_work TakeWake = True" | "at_work TakePop = True" | "at_work (TakeNotify x) = True"
| "at_work (TakeUnlock r) = True" | "at_work _ = False"

fun starting :: "'a pc \<Rightarrow> bool" where
  "starting (StartEntry n) = True" | "starting (StartSpawn n) = True" | "starting _ = False"

text \<open>The task a worker has taken and not yet finished.\<close>

fun in_hand :: "'a pc \<Rightarrow> 'a multiset" where
  "in_hand (TakeNotify x) = {#x#}"
| "in_hand (TakeUnlock (Some x)) = {#x#}"
| "in_hand (Call (Some x)) = {#x#}"
| "in_hand _ = {#}"

definition hands :: "'a pool \<Rightarrow> 'a multiset" where
  "hands s = (\<Sum>t\<in>set (workers s). in_hand (pc s t))"

definition mutex_inv :: "'a pool \<Rightarrow> bool" where
  "mutex_inv s \<longleftrightarrow> (\<forall>t. holds (pc s t) \<longleftrightarrow> owner s = Some t)"

definition role_inv :: "'a pool \<Rightarrow> bool" where
  "role_inv s \<longleftrightarrow> (\<forall>t. at_work (pc s t) \<longleftrightarrow> t \<in> set (workers s)) \<and> distinct (workers s)"

definition start_inv :: "'a pool \<Rightarrow> bool" where
  "start_inv s \<longleftrightarrow>
     (\<forall>t u. starting (pc s t) \<longrightarrow> starting (pc s u) \<longrightarrow> t = u) \<and>
     (\<forall>t. starting (pc s t) \<longrightarrow> launched s) \<and>
     (\<forall>t n. pc s t = StartEntry n \<longrightarrow> workers s = []) \<and>
     (\<not> launched s \<longrightarrow> workers s = []) \<and>
     (\<forall>t. pc s t = Exit \<longrightarrow> \<not> running s)"

definition queue_inv :: "'a pool \<Rightarrow> bool" where
  "queue_inv s \<longleftrightarrow> accepted s = handed s @ queue s \<and>
     (0 < maxQueue s \<longrightarrow> int (length (queue s)) \<le> maxQueue s) \<and>
     (\<forall>t x. pc s t = RunPush x \<longrightarrow> \<not> isFull s)"

definition task_inv :: "'a pool \<Rightarrow> bool" where
  "task_inv s \<longleftrightarrow> mset (handed s) = mset (executed s) + hands s"

text \<open>
  No task is forgotten: when there is one, a worker is not asleep or the thread that pushed it has
  still to notify.
\<close>

fun queueing :: "'a pc \<Rightarrow> bool" where
  "queueing (RunLock x) = True" | "queueing (RunTest x) = True" | "queueing (RunWait x) = True"
| "queueing (RunWake x) = True" | "queueing (RunPush x) = True" | "queueing RunNotify = True"
| "queueing _ = False"

definition someone_awake :: "'a pool \<Rightarrow> bool" where
  "someone_awake s \<longleftrightarrow> (\<exists>t\<in>set (workers s). pc s t \<noteq> TakeWait) \<or> (\<exists>t. pc s t = RunNotify)"

definition awake_inv :: "'a pool \<Rightarrow> bool" where
  "awake_inv s \<longleftrightarrow> (queue s \<noteq> [] \<longrightarrow> someone_awake s) \<and>
     (\<forall>t. queueing (pc s t) \<longrightarrow> workers s \<noteq> [])"

text \<open>
  No room is forgotten: when a thread waits in \<^verbatim>\<open>run\<close> for room in the queue, every free place has a
  thread of its own on the way to it, one that is awake in \<^verbatim>\<open>run\<close> before its push, or a worker that
  has still to notify.
\<close>

fun coming :: "'a pc \<Rightarrow> bool" where
  "coming (RunWake x) = True" | "coming (RunTest x) = True" | "coming (RunPush x) = True"
| "coming (TakeNotify x) = True" | "coming _ = False"

definition comers :: "'a pool \<Rightarrow> nat set" where
  "comers s = {t. coming (pc s t)}"

definition room_inv :: "'a pool \<Rightarrow> bool" where
  "room_inv s \<longleftrightarrow> finite (comers s) \<and>
     ((\<exists>t x. pc s t = RunWait x) \<longrightarrow> maxQueue s \<le> int (length (queue s)) + int (card (comers s)))"

definition pool_inv :: "'a pool \<Rightarrow> bool" where
  "pool_inv s \<longleftrightarrow> mutex_inv s \<and> role_inv s \<and> start_inv s \<and> queue_inv s \<and>
     task_inv s \<and> awake_inv s \<and> room_inv s"

lemmas pool_inv_defs = mutex_inv_def role_inv_def start_inv_def queue_inv_def

text \<open>
  Every step changes the place of one thread \<open>t\<close>; another thread it wakes or creates keeps what
  the invariant says of it.
\<close>

lemma mutex_move:
  assumes "mutex_inv s" "\<And>u. u \<noteq> t \<Longrightarrow> holds (pc s' u) = holds (pc s u)"
    and "owner s' = (if holds (pc s' t) = holds (pc s t) then owner s
                     else if holds (pc s' t) then Some t else None)"
    and "holds (pc s' t) \<Longrightarrow> holds (pc s t) \<or> owner s = None"
  shows "mutex_inv s'"
  unfolding mutex_inv_def
proof
  fix u
  have *: "holds (pc s u) \<longleftrightarrow> owner s = Some u" for u using assms(1) by (simp add: mutex_inv_def)
  show "holds (pc s' u) \<longleftrightarrow> owner s' = Some u"
  proof (cases "u = t")
    case True
    with assms(3) * show ?thesis by auto
  next
    case False
    with assms(2-4) * [of u] * [of t] show ?thesis by (auto split: if_splits)
  qed
qed

lemma mutex_same:
  "mutex_inv s \<Longrightarrow> owner s' = owner s \<Longrightarrow> (\<And>u. holds (pc s' u) = holds (pc s u)) \<Longrightarrow> mutex_inv s'"
  by (simp add: mutex_inv_def)

lemma mutex_step:
  assumes "pool_step t s s'" "mutex_inv s"
  shows "mutex_inv s'"
  using assms by (cases rule: pool_step.cases) (rule mutex_move [of s t], assumption, auto)+

lemma role_iff: "role_inv s \<Longrightarrow> at_work (pc s u) \<longleftrightarrow> u \<in> set (workers s)"
  by (simp add: role_inv_def)

lemma in_hand_Call [simp]: "in_hand (Call r) = in_hand (TakeUnlock r)"
  by (cases r) simp_all

lemma role_move:
  "role_inv s \<Longrightarrow> (\<And>u. at_work (pc s' u) = at_work (pc s u)) \<Longrightarrow> workers s' = workers s \<Longrightarrow>
   role_inv s'"
  by (simp add: role_inv_def)

lemma role_spawn:
  assumes "role_inv s" "pc s u = Unborn" "\<And>v. at_work (pc s' v) = (v = u \<or> at_work (pc s v))"
    and "workers s' = workers s @ [u]"
  shows "role_inv s'"
proof -
  have u: "u \<notin> set (workers s)" using role_iff [OF assms(1), of u] assms(2) by simp
  have "at_work (pc s' v) = (v \<in> set (workers s'))" for v
    using role_iff [OF assms(1), of v] assms(3) [of v] assms(4) by auto
  with u assms(1,4) show ?thesis by (simp add: role_inv_def)
qed

lemma role_step:
  assumes "pool_step t s s'" "role_inv s"
  shows "role_inv s'"
  using assms
proof (cases rule: pool_step.cases)
  case (start_spawn n u)
  then show ?thesis by (intro role_spawn [OF assms(2), of u]) (simp_all, auto)
qed (rule role_move [of s], assumption, auto)+

text \<open>How many tasks the workers hold changes only where a task is taken or run.\<close>

lemma hands_move:
  "workers s' = workers s \<Longrightarrow> (\<And>u. in_hand (pc s' u) = in_hand (pc s u)) \<Longrightarrow> hands s' = hands s"
  by (simp add: hands_def)

lemma hands_change:
  assumes "role_inv s" "at_work (pc s t)" "workers s' = workers s"
    and "\<And>u. u \<noteq> t \<Longrightarrow> in_hand (pc s' u) = in_hand (pc s u)"
  shows "hands s' + in_hand (pc s t) = hands s + in_hand (pc s' t)"
proof -
  have t: "t \<in> set (workers s)" using assms(1,2) by (simp add: role_inv_def)
  have "(\<Sum>u\<in>set (workers s) - {t}. in_hand (pc s' u)) = (\<Sum>u\<in>set (workers s) - {t}. in_hand (pc s u))"
    by (rule sum.cong) (use assms(4) in auto)
  with t assms(3) show ?thesis
    by (simp add: hands_def sum.remove [of _ t] ac_simps)
qed

lemma task_move:
  "task_inv s \<Longrightarrow> handed s' = handed s \<Longrightarrow> executed s' = executed s \<Longrightarrow> workers s' = workers s \<Longrightarrow>
   (\<And>u. in_hand (pc s' u) = in_hand (pc s u)) \<Longrightarrow> task_inv s'"
  using hands_move [of s' s] by (simp add: task_inv_def)

lemma task_step:
  assumes "pool_step t s s'" "task_inv s" "role_inv s"
  shows "task_inv s'"
  using assms(1)
proof (cases rule: pool_step.cases)
  case (start_spawn n u)
  then have "u \<notin> set (workers s)" using role_iff [OF assms(3), of u] by simp
  have "hands s' = (\<Sum>v\<in>set (workers s). in_hand (pc s' v))"
    using start_spawn \<open>u \<notin> set (workers s)\<close> by (auto simp: hands_def)
  also have "\<dots> = hands s"
    unfolding hands_def using start_spawn \<open>u \<notin> set (workers s)\<close> by (intro sum.cong) auto
  finally show ?thesis using start_spawn assms(2) by (simp add: task_inv_def)
next
  case (take_front x xs)
  have "hands s' + in_hand (pc s t) = hands s + in_hand (pc s' t)"
    using take_front assms(3) by (intro hands_change) auto
  with take_front assms(2) show ?thesis by (simp add: task_inv_def split: if_splits)
next
  case (call_task x)
  have "hands s' + in_hand (pc s t) = hands s + in_hand (pc s' t)"
    using call_task assms(3) by (intro hands_change) auto
  with call_task assms(2) show ?thesis by (simp add: task_inv_def)
qed (rule task_move [of s], rule assms(2), auto)+

lemma queue_move:
  "queue_inv s \<Longrightarrow> queue s' = queue s \<Longrightarrow> handed s' = handed s \<Longrightarrow> accepted s' = accepted s \<Longrightarrow>
   maxQueue s' = maxQueue s \<Longrightarrow> (\<And>u x. pc s' u = RunPush x \<Longrightarrow> pc s u = RunPush x \<or> \<not> isFull s) \<Longrightarrow>
   queue_inv s'"
  unfolding queue_inv_def isFull_def by metis

lemma queue_step:
  assumes "pool_step t s s'" "queue_inv s" "mutex_inv s"
  shows "queue_inv s'"
  using assms(1)
proof (cases rule: pool_step.cases)
  case (run_push x)
  have "u = t" if "pc s u = RunPush y" for u y
    using assms(3) that run_push(2) by (metis mutex_inv_def holds.simps(2) option.inject)
  with run_push assms(2) show ?thesis
    by (fastforce simp: queue_inv_def isFull_def split: if_splits)
next
  case (take_front x xs)
  have "pc s u \<noteq> RunPush y" if "u \<noteq> t" for u y
    using assms(3) that take_front(2) by (metis mutex_inv_def holds.simps(2,6) option.inject)
  with take_front assms(2) show ?thesis
    by (auto simp: queue_inv_def isFull_def split: if_splits)
qed (rule queue_move [of s], rule assms(2), auto split: if_splits)+

lemma start_move:
  assumes "start_inv s" "workers s' = workers s" "launched s' = launched s"
    and "running s' \<longrightarrow> running s" "\<And>u. starting (pc s' u) \<Longrightarrow> starting (pc s u)"
    and "\<And>u n. pc s' u = StartEntry n \<Longrightarrow> pc s u = StartEntry n"
    and "\<And>u. pc s' u = Exit \<Longrightarrow> pc s u = Exit \<or> \<not> running s"
  shows "start_inv s'"
  using assms(1) unfolding start_inv_def assms(2,3) using assms(4-7) by metis

lemma start_launched: "start_inv s \<Longrightarrow> starting (pc s t) \<Longrightarrow> launched s"
  unfolding start_inv_def by blast

lemma start_only: "start_inv s \<Longrightarrow> starting (pc s t) \<Longrightarrow> u \<noteq> t \<Longrightarrow> \<not> starting (pc s u)"
  unfolding start_inv_def by blast

lemma start_no_workers: "start_inv s \<Longrightarrow> pc s t = StartEntry n \<Longrightarrow> workers s = []"
  unfolding start_inv_def by blast

lemma start_exit: "start_inv s \<Longrightarrow> pc s t = Exit \<Longrightarrow> \<not> running s"
  unfolding start_inv_def by blast

lemma start_step:
  assumes "pool_step t s s'" "start_inv s" "role_inv s"
  shows "start_inv s'"
  using assms(1)
proof (cases rule: pool_step.cases)
  case (start_begin n)
  then have st: "starting (pc s t)" by simp
  have "workers s = []" using start_no_workers [OF assms(2)] start_begin by blast
  moreover from this have "pc s u \<noteq> Exit" for u
    using role_iff [OF assms(3), of u] by auto
  ultimately show ?thesis
    using start_begin start_only [OF assms(2) st] start_launched [OF assms(2) st]
    by (simp add: start_inv_def)
next
  case (start_spawn n u)
  then have st: "starting (pc s t)" by simp
  have "pc s v \<noteq> StartEntry m" for v m
    using start_spawn start_only [OF assms(2) st, of v] by (cases "v = t") auto
  moreover have "pc s v = Exit \<Longrightarrow> \<not> running s" for v by (rule start_exit [OF assms(2)])
  ultimately show ?thesis
    using start_spawn start_only [OF assms(2) st] start_launched [OF assms(2) st]
    by (auto simp: start_inv_def)
qed (rule start_move [of s], rule assms(2), auto split: if_splits)+

lemma awake_move:
  assumes "awake_inv s" "workers s' = workers s" "queue s' \<noteq> [] \<longrightarrow> queue s \<noteq> []"
    and "\<And>u. pc s' u = TakeWait \<Longrightarrow> pc s u = TakeWait \<or> queue s' = []"
    and "\<And>u. pc s u = RunNotify \<Longrightarrow> pc s' u = RunNotify"
    and "\<And>u. queueing (pc s' u) \<Longrightarrow> queueing (pc s u) \<or> workers s \<noteq> []"
  shows "awake_inv s'"
  unfolding awake_inv_def
proof (intro conjI impI allI)
  assume q: "queue s' \<noteq> []"
  with assms(1,3) have "someone_awake s" by (simp add: awake_inv_def)
  then show "someone_awake s'"
    unfolding someone_awake_def assms(2)
  proof (elim disjE bexE exE)
    fix t assume "t \<in> set (workers s)" "pc s t \<noteq> TakeWait"
    with q assms(4) [of t] show "(\<exists>t\<in>set (workers s). pc s' t \<noteq> TakeWait) \<or> (\<exists>t. pc s' t = RunNotify)"
      by blast
  qed (use assms(5) in blast)
next
  fix t assume "queueing (pc s' t)"
  with assms(1,2,6) show "workers s' \<noteq> []" unfolding awake_inv_def by metis
qed

lemma awake_someone:
  assumes "awake_inv s" "t \<in> set (workers s')" "pc s' t \<noteq> TakeWait"
  shows "awake_inv s'"
  using assms(2,3) by (auto simp: awake_inv_def someone_awake_def)

lemma awake_step:
  assumes "pool_step t s s'" "awake_inv s" "role_inv s"
  shows "awake_inv s'"
  using assms(1)
proof (cases rule: pool_step.cases)
  case (run_push x)
  then have "workers s \<noteq> []"
    using assms(2) unfolding awake_inv_def by (metis queueing.simps(5))
  moreover have "pc s' t = RunNotify" using run_push by simp
  ultimately show ?thesis
    using run_push unfolding awake_inv_def someone_awake_def by auto
next
  case run_notify_nobody
  then have "workers s \<noteq> []"
    using assms(2) unfolding awake_inv_def by (metis queueing.simps(6))
  then obtain u where "u \<in> set (workers s)" by (meson last_in_set)
  then show ?thesis
    using run_notify_nobody by (intro awake_someone [OF assms(2), of u]) auto
next
  case (run_notify u)
  then have "u \<in> set (workers s)" using role_iff [OF assms(3), of u] by simp
  then show ?thesis using run_notify by (intro awake_someone [OF assms(2), of u]) auto
next
  case (start_spawn n u)
  then show ?thesis by (intro awake_someone [OF assms(2), of u]) auto
qed (rule awake_move [of s], rule assms(2), auto split: if_splits)+

text \<open>A step leaves the threads on the way as they are, adds one, or takes one off.\<close>

lemma room_same:
  assumes "room_inv s" "comers s' = comers s" "maxQueue s' = maxQueue s" "queue s' = queue s"
    and "\<And>u x. pc s' u = RunWait x \<Longrightarrow> pc s u = RunWait x"
  shows "room_inv s'"
  using assms(1) unfolding room_inv_def assms(2-4) using assms(5) by blast

lemma room_more:
  assumes "room_inv s" "comers s' = insert u (comers s)" "u \<notin> comers s" "maxQueue s' = maxQueue s"
    and "int (length (queue s)) \<le> int (length (queue s')) + 1"
    and "\<And>u x. pc s' u = RunWait x \<Longrightarrow> pc s u = RunWait x"
  shows "room_inv s'"
proof -
  have "finite (comers s)" using assms(1) by (simp add: room_inv_def)
  then have "card (comers s') = Suc (card (comers s))" using assms(2,3) by simp
  with assms(1) show ?thesis
    unfolding room_inv_def assms(2,4) using assms(5,6) \<open>finite (comers s)\<close> by fastforce
qed

lemma room_fewer:
  assumes "room_inv s" "comers s' = comers s - {t}" "maxQueue s' = maxQueue s"
    and "(\<forall>u x. pc s' u \<noteq> RunWait x) \<or> maxQueue s \<le> int (length (queue s')) \<or>
      (length (queue s') = Suc (length (queue s)) \<and> (\<forall>u x. pc s' u = RunWait x \<longrightarrow> pc s u = RunWait x))"
  shows "room_inv s'"
proof -
  have fin: "finite (comers s)" using assms(1) by (simp add: room_inv_def)
  then have "card (comers s) \<le> Suc (card (comers s'))"
    using assms(2) card_Diff1_le [of "comers s" t] card_Suc_Diff1 [of "comers s" t]
    by (cases "t \<in> comers s") simp_all
  with assms fin show ?thesis unfolding room_inv_def by fastforce
qed

lemma room_step:
  assumes "pool_step t s s'" "room_inv s"
  shows "room_inv s'"
  using assms(1)
proof (cases rule: pool_step.cases)
  case (run_lock x m)
  then show ?thesis by (intro room_more [OF assms(2), of s' t]) (auto simp: comers_def split: if_splits)
next
  case (run_wait x)
  then show ?thesis by (intro room_fewer [OF assms(2), of s' t]) (auto simp: comers_def isFull_def)
next
  case (run_push x)
  then show ?thesis by (intro room_fewer [OF assms(2), of s' t]) (auto simp: comers_def split: if_splits)
next
  case (take_front x xs)
  show ?thesis
  proof (cases "0 < maxQueue s")
    case True
    with take_front show ?thesis
      by (intro room_more [OF assms(2), of s' t]) (auto simp: comers_def split: if_splits)
  next
    case False
    with take_front have "comers s' = comers s" by (auto simp: comers_def)
    with False take_front assms(2) show ?thesis by (auto simp: room_inv_def)
  qed
next
  case (take_notify_nobody x)
  then show ?thesis
    by (intro room_fewer [OF assms(2), of s' t]) (auto simp: comers_def split: if_splits)
next
  case (take_notify x u y)
  then have "u \<noteq> t" by auto
  with take_notify have c: "comers s' = insert u (comers s - {t})" "t \<in> comers s" "u \<notin> comers s"
    by (auto simp: comers_def)
  have "finite (comers s)" using assms(2) by (simp add: room_inv_def)
  with c have "card (comers s') = card (comers s)" by (simp add: card.insert_remove card_Diff_singleton)
    (metis Suc_pred card_gt_0_iff empty_iff)
  with take_notify assms(2) c(1) show ?thesis by (auto simp: room_inv_def split: if_splits)
qed (rule room_same [of s], rule assms(2), auto simp: comers_def split: if_splits)+

lemma pool_inv_step: "pool_step t s s' \<Longrightarrow> pool_inv s \<Longrightarrow> pool_inv s'"
  unfolding pool_inv_def
  by (intro conjI) (blast intro: mutex_step role_step start_step queue_step task_step awake_step room_step)+

lemma pool_inv_env:
  assumes "pool_env s s'" "pool_inv s"
  shows "pool_inv s'"
proof -
  from assms(2) have inv: "mutex_inv s" "role_inv s" "start_inv s" "queue_inv s" "task_inv s"
    "awake_inv s" "room_inv s"
    by (simp_all add: pool_inv_def)
  from assms(1) have "room_inv s'"
  proof (cases rule: pool_env.cases)
    case (spurious_run t x)
    then show ?thesis
      by (intro room_more [OF inv(7), of s' t]) (auto simp: comers_def split: if_splits)
  qed (rule room_same [of s], rule inv(7), auto simp: comers_def split: if_splits)+
  moreover from assms(1) have "mutex_inv s'"
    by (cases rule: pool_env.cases) (rule mutex_same [of s], rule inv(1), auto)+
  moreover from assms(1) have "role_inv s'"
    by (cases rule: pool_env.cases) (rule role_move [of s], rule inv(2), auto)+
  moreover from assms(1) have "queue_inv s'"
    by (cases rule: pool_env.cases) (rule queue_move [of s], rule inv(4), auto split: if_splits)+
  moreover from assms(1) have "task_inv s'"
    by (cases rule: pool_env.cases) (rule task_move [of s], rule inv(5), auto)+
  moreover from assms(1) have "awake_inv s'"
    by (cases rule: pool_env.cases) (rule awake_move [of s], rule inv(6), auto split: if_splits)+
  moreover from assms(1) have "start_inv s'"
  proof (cases rule: pool_env.cases)
    case (env_start t n)
    then have "\<not> starting (pc s u)" "workers s = []" for u
      using inv(3) unfolding start_inv_def by blast+
    moreover have "pc s u = Exit \<Longrightarrow> \<not> running s" for u by (rule start_exit [OF inv(3)])
    ultimately show ?thesis using env_start by (auto simp: start_inv_def)
  qed (rule start_move [of s], rule inv(3), auto split: if_splits)+
  ultimately show ?thesis by (simp add: pool_inv_def)
qed

lemma pool_inv_init: "pool_init s \<Longrightarrow> pool_inv s"
  by (auto simp: pool_init.simps new_pool_def pool_inv_def pool_inv_defs task_inv_def awake_inv_def
      room_inv_def comers_def hands_def isFull_def split: if_splits)

interpretation pool: invariant_system pool_init pool_next pool_inv
  by unfold_locales (auto intro: pool_inv_init pool_inv_step pool_inv_env elim: pool_next.cases)

section \<open>Progress\<close>

text \<open>A thread that is not asleep and does not wait for the mutex can take its next step.\<close>

definition enabled :: "nat \<Rightarrow> 'a pool \<Rightarrow> bool" where
  "enabled t s \<longleftrightarrow> (\<exists>s'. pool_step t s s')"

lemma holder_enabled: "holds (pc s t) \<Longrightarrow> enabled t s"
proof (cases "pc s t")
  case (RunTest x)
  then show ?thesis unfolding enabled_def by (cases "isFull s") (auto intro: run_wait run_go)
next
  case TakeTest
  then show ?thesis unfolding enabled_def
    by (cases "queue s = [] \<and> running s") (auto intro: take_wait take_go)
next
  case TakePop
  then show ?thesis unfolding enabled_def
    by (cases "queue s") (auto intro: take_nothing take_front)
next
  case (TakeNotify x)
  then show ?thesis unfolding enabled_def
    by (cases "\<exists>u y. pc s u = RunWait y") (auto intro: take_notify_nobody take_notify)
next
  case RunNotify
  then show ?thesis unfolding enabled_def
    by (cases "\<exists>u. pc s u = TakeWait") (auto intro: run_notify_nobody run_notify)
qed (auto simp: enabled_def intro: run_push run_unlock take_unlock stop_set stop_notify stop_unlock)

lemma worker_enabled:
  assumes "at_work (pc s t)" "pc s t \<noteq> TakeWait" "pc s t \<noteq> Exit" "owner s = None"
  shows "enabled t s"
proof (cases "holds (pc s t)")
  case False
  show ?thesis
  proof (cases "pc s t")
    case Loop
    then show ?thesis unfolding enabled_def
      by (cases "running s") (auto intro: loop_enter loop_exit)
  next
    case (Call r)
    then show ?thesis unfolding enabled_def
      by (cases r) (auto intro: call_nothing call_task)
  next
    case TakeLock
    then have "pool_step t s (goto t TakeTest (s\<lparr>owner := Some t\<rparr>))"
      using assms(4) by (intro take_lock) simp_all
    then show ?thesis unfolding enabled_def by blast
  next
    case TakeWake
    then have "pool_step t s (goto t TakeTest (s\<lparr>owner := Some t\<rparr>))"
      using assms(4) by (intro take_relock) simp_all
    then show ?thesis unfolding enabled_def by blast
  qed (use assms False in simp_all)
qed (rule holder_enabled)

section \<open>Example run\<close>

text \<open>A run of a pool with one worker (2), a queue of one task, a client that submits (1), one that stops (0).\<close>

definition demo :: "nat option \<Rightarrow> nat list \<Rightarrow> bool \<Rightarrow> nat list \<Rightarrow> nat pc \<Rightarrow> nat pc \<Rightarrow> nat pc \<Rightarrow> bool \<Rightarrow>
    nat list \<Rightarrow> nat pool" where
  "demo own q run ws p0 p1 p2 l acc =
     \<lparr>owner = own, queue = q, maxQueue = 1, running = run, workers = ws,
      pc = (\<lambda>t. if t = 0 then p0 else if t = 1 then p1 else if t = 2 then p2 else Unborn),
      launched = l, accepted = acc, handed = [], executed = [], inlined = []\<rparr>"

abbreviation pool_reach :: "nat pool \<Rightarrow> bool" where
  "pool_reach \<equiv> reach pool_init pool_next"

lemma demo_init: "pool_reach (demo None [] False [] Idle Idle Unborn False [])"
proof -
  have "new_pool 1 {0, 1} = demo None [] False [] Idle Idle Unborn False []"
    by (simp add: new_pool_def demo_def fun_eq_iff)
  then show ?thesis using pool_init.intros [of 1 "{0, 1}"] reach_init by metis
qed

lemma demo_env: "pool_reach s \<Longrightarrow> pool_env s s1 \<Longrightarrow> s1 = s2 \<Longrightarrow> pool_reach s2"
  by (blast intro: reach_step next_env)

lemma demo_thread: "pool_reach s \<Longrightarrow> pool_step t s s1 \<Longrightarrow> s1 = s2 \<Longrightarrow> pool_reach s2"
  by (blast intro: reach_step next_thread)

lemma demo_submitted: "pool_reach (demo None [7] True [2] Idle Idle Loop True [7])"
proof -
  note * = demo_def fun_eq_iff isFull_def
  from demo_init have "pool_reach (demo None [] False [] (StartEntry 1) Idle Unborn True [])"
    by (rule demo_env [OF _ env_start [where t = 0]]) (simp_all add: *)
  then have "pool_reach (demo None [] True [] (StartSpawn 1) Idle Unborn True [])"
    by (rule demo_thread [OF _ start_begin [where t = 0]]) (simp_all add: *)
  then have "pool_reach (demo None [] True [2] (StartSpawn 0) Idle Loop True [])"
    by (rule demo_thread [OF _ start_spawn [where t = 0 and u = 2]]) (simp_all add: *)
  then have "pool_reach (demo None [] True [2] Idle Idle Loop True [])"
    by (rule demo_thread [OF _ start_end [where t = 0]]) (simp_all add: *)
  then have "pool_reach (demo None [] True [2] Idle (RunEntry 7) Loop True [])"
    by (rule demo_env [OF _ env_run [where t = 1]]) (simp_all add: *)
  then have "pool_reach (demo None [] True [2] Idle (RunLock 7) Loop True [])"
    by (rule demo_thread [OF _ run_enter [where t = 1]]) (simp_all add: *)
  then have "pool_reach (demo (Some 1) [] True [2] Idle (RunTest 7) Loop True [])"
    by (rule demo_thread [OF _ run_lock [where t = 1]]) (simp_all add: *)
  then have "pool_reach (demo (Some 1) [] True [2] Idle (RunPush 7) Loop True [])"
    by (rule demo_thread [OF _ run_go [where t = 1]]) (simp_all add: *)
  then have "pool_reach (demo (Some 1) [7] True [2] Idle RunNotify Loop True [7])"
    by (rule demo_thread [OF _ run_push [where t = 1]]) (simp_all add: *)
  then have "pool_reach (demo (Some 1) [7] True [2] Idle RunUnlock Loop True [7])"
    by (rule demo_thread [OF _ run_notify_nobody [where t = 1]]) (simp_all add: *)
  then show ?thesis
    by (rule demo_thread [OF _ run_unlock [where t = 1]]) (simp_all add: *)
qed

lemma demo_waiting: "pool_reach (demo None [7] True [2] Idle (RunWait 9) Loop True [7])"
proof -
  note * = demo_def fun_eq_iff isFull_def
  from demo_submitted have "pool_reach (demo None [7] True [2] Idle (RunEntry 9) Loop True [7])"
    by (rule demo_env [OF _ env_run [where t = 1]]) (simp_all add: *)
  then have "pool_reach (demo None [7] True [2] Idle (RunLock 9) Loop True [7])"
    by (rule demo_thread [OF _ run_enter [where t = 1]]) (simp_all add: *)
  then have "pool_reach (demo (Some 1) [7] True [2] Idle (RunTest 9) Loop True [7])"
    by (rule demo_thread [OF _ run_lock [where t = 1]]) (simp_all add: *)
  then show ?thesis
    by (rule demo_thread [OF _ run_wait [where t = 1]]) (simp_all add: *)
qed

lemma demo_stranded: "pool_reach (demo None [7] False [2] Stopped (RunWait 9) Exit True [7])"
proof -
  note * = demo_def fun_eq_iff isFull_def
  from demo_waiting have "pool_reach (demo None [7] True [2] StopEntry (RunWait 9) Loop True [7])"
    by (rule demo_env [OF _ env_stop [where t = 0]]) (simp_all add: *)
  then have "pool_reach (demo (Some 0) [7] True [2] StopSet (RunWait 9) Loop True [7])"
    by (rule demo_thread [OF _ stop_lock [where t = 0]]) (simp_all add: *)
  then have "pool_reach (demo (Some 0) [7] False [2] StopNotify (RunWait 9) Loop True [7])"
    by (rule demo_thread [OF _ stop_set [where t = 0]]) (simp_all add: *)
  then have "pool_reach (demo (Some 0) [7] False [2] StopUnlock (RunWait 9) Loop True [7])"
    by (rule demo_thread [OF _ stop_notify [where t = 0]]) (simp_all add: *)
  then have "pool_reach (demo None [7] False [2] (StopJoin 0) (RunWait 9) Loop True [7])"
    by (rule demo_thread [OF _ stop_unlock [where t = 0]]) (simp_all add: *)
  then have "pool_reach (demo None [7] False [2] (StopJoin 0) (RunWait 9) Exit True [7])"
    by (rule demo_thread [OF _ loop_exit [where t = 2]]) (simp_all add: *)
  then have "pool_reach (demo None [7] False [2] (StopJoin (Suc 0)) (RunWait 9) Exit True [7])"
    by (rule demo_thread [OF _ stop_join [where t = 0 and i = 0]]) (simp_all add: *)
  then show ?thesis
    by (rule demo_thread [OF _ stop_end [where t = 0 and i = "Suc 0"]]) (simp_all add: *)
qed


section \<open>Properties\<close>

text \<open>
  Property C3.  Whatever the interleaving, no task given to the pool is lost, run twice or
  reordered in the queue: the tasks handed to workers followed by the queue are the tasks accepted,
  in order; those handed out have been run or are in the hand of exactly one worker; and the queue
  never exceeds its bound.
\<close>

theorem pool_conserves_tasks:
  assumes "reach pool_init pool_next s"
  shows "accepted s = handed s @ queue s \<and>
    mset (accepted s) = mset (executed s) + hands s + mset (queue s) \<and>
    (0 < maxQueue s \<longrightarrow> int (length (queue s)) \<le> maxQueue s)"
  using pool.reach_inv [OF assms] by (simp add: pool_inv_def queue_inv_def task_inv_def)

theorem pool_conserves_tasks_witness:
  "accepted (demo None [7] True [2] Idle Idle Loop True [7]) = [7]"
  using pool_conserves_tasks [OF demo_submitted] by (simp add: demo_def)

text \<open>
  Property C13.  No lost wake-up on either condition, in every state that any interleaving reaches.
  While the pool is running and has a task, some worker, or the thread that owns the mutex, can take a
  step of its own.  And while a thread waits in \<^verbatim>\<open>run\<close> for room and the queue has free places, each
  free place has a thread of its own on the way to it (one that is awake in \<^verbatim>\<open>run\<close> before its push,
  or a worker that has still to notify \<^verbatim>\<open>notFull_\<close>), and one of these, or the thread that owns the
  mutex, can take a step of its own.  Neither depends on a spurious wake-up or on another call from
  outside.  (Tasks are run in one step and do not themselves use the pool; the bound of the queue is
  set before the pool is used; threads can always be created.)
\<close>

theorem pool_progress:
  assumes "reach pool_init pool_next s"
  shows "(running s \<longrightarrow> queue s \<noteq> [] \<longrightarrow>
       (\<exists>t. (t \<in> set (workers s) \<or> owner s = Some t) \<and> enabled t s)) \<and>
    (pc s u = RunWait x \<longrightarrow> int (length (queue s)) < maxQueue s \<longrightarrow>
       maxQueue s - int (length (queue s)) \<le> int (card (comers s)) \<and>
       (\<exists>t. (t \<in> comers s \<or> owner s = Some t) \<and> enabled t s))"
proof -
  from pool.reach_inv [OF assms(1)] have inv: "mutex_inv s" "role_inv s" "start_inv s" "awake_inv s" "room_inv s"
    by (simp_all add: pool_inv_def)
  show ?thesis
  proof (cases "owner s")
    case (Some t)
    with inv(1) have "holds (pc s t)" by (simp add: mutex_inv_def)
    from holder_enabled [OF this] Some inv(5) show ?thesis by (auto simp: room_inv_def)
  next
    case None
    with inv(1) have free: "\<not> holds (pc s t)" for t by (simp add: mutex_inv_def)
    then have "pc s t \<noteq> RunNotify" for t by (metis holds.simps(3))
    with inv(4) have "\<exists>t\<in>set (workers s). pc s t \<noteq> TakeWait" if "queue s \<noteq> []"
      using that by (auto simp: awake_inv_def someone_awake_def)
    moreover have "at_work (pc s t)" if "t \<in> set (workers s)" for t using role_iff [OF inv(2)] that by simp
    moreover have "pc s t \<noteq> Exit" if "running s" for t using start_exit [OF inv(3)] that by blast
    ultimately have "\<exists>t\<in>set (workers s). enabled t s" if "running s" "queue s \<noteq> []"
      using None that worker_enabled by metis
    moreover have "\<exists>t\<in>comers s. enabled t s"
      if "maxQueue s - int (length (queue s)) \<le> int (card (comers s))" "int (length (queue s)) < maxQueue s"
    proof -
      from that obtain t where t: "t \<in> comers s" by (cases "comers s = {}") auto
      with free [of t] obtain y where "pc s t = RunWake y"
        by (cases "pc s t") (auto simp: comers_def)
      from run_relock [OF this, of "Some t"] None have "enabled t s" by (auto simp: enabled_def)
      with t show ?thesis by blast
    qed
    ultimately show ?thesis using inv(5) by (auto simp: room_inv_def)
  qed
qed

lemma demo_room:
  "pool_reach ((demo (Some 2) [] True [2] Idle (RunWait 9) (TakeNotify 7) True [7])\<lparr>handed := [7]\<rparr>)"
proof -
  note * = demo_def fun_eq_iff isFull_def
  from demo_waiting have "pool_reach (demo None [7] True [2] Idle (RunWait 9) TakeLock True [7])"
    by (rule demo_thread [OF _ loop_enter [where t = 2]]) (simp_all add: *)
  then have "pool_reach (demo (Some 2) [7] True [2] Idle (RunWait 9) TakeTest True [7])"
    by (rule demo_thread [OF _ take_lock [where t = 2]]) (simp_all add: *)
  then have "pool_reach (demo (Some 2) [7] True [2] Idle (RunWait 9) TakePop True [7])"
    by (rule demo_thread [OF _ take_go [where t = 2]]) (simp_all add: *)
  then show ?thesis
    by (rule demo_thread [OF _ take_front [where t = 2]]) (simp_all add: *)
qed

theorem pool_progress_witness:
  "(\<exists>t. enabled t (demo None [7] True [2] Idle Idle Loop True [7])) \<and>
   (\<exists>t. enabled t ((demo (Some 2) [] True [2] Idle (RunWait 9) (TakeNotify 7) True [7])\<lparr>handed := [7]\<rparr>))"
  using pool_progress [OF demo_submitted] pool_progress [OF demo_room, of 1 9] by (auto simp: demo_def)

text \<open>
  Fact.  \<^verbatim>\<open>stop\<close> wakes the workers but not a thread that waits in \<^verbatim>\<open>run\<close> for room in the
  queue: there is a run after which \<^verbatim>\<open>stop\<close> has returned and every worker has ended, a client
  is still blocked in \<^verbatim>\<open>run\<close>, an accepted task is never executed, and no thread of the
  program can take a step.
\<close>

theorem stop_strands_submitter:
  "\<exists>(s :: nat pool) t x y. reach pool_init pool_next s \<and> pc s t = RunWait x \<and> queue s = [y] \<and>
     (\<exists>u. pc s u = Stopped) \<and> list_all (\<lambda>u. pc s u = Exit) (workers s) \<and> (\<forall>u. \<not> enabled u s)"
proof -
  let ?s = "demo None [7] False [2] Stopped (RunWait 9) Exit True [7]"
  have "\<not> enabled u ?s" for u
  proof
    assume "enabled u ?s"
    then obtain s' where "pool_step u ?s s'" by (auto simp: enabled_def)
    then show False by (cases rule: pool_step.cases) (simp_all add: demo_def split: if_splits)
  qed
  moreover have "pc ?s 1 = RunWait 9" "queue ?s = [7]" "pc ?s 0 = Stopped"
    "list_all (\<lambda>u. pc ?s u = Exit) (workers ?s)"
    by (simp_all add: demo_def)
  ultimately show ?thesis
    by (intro exI [of _ ?s] exI [of _ "1 :: nat"] exI [of _ 9] exI [of _ 7] conjI exI [of _ "0 :: nat"])
      (use demo_stranded in blast)+
qed

text \<open>
  Fact.  Concurrent increments of an atomic integer each return a value of their own, as
  long as there are at most \<open>2 ^ w\<close> of them, and together add their number to it.
\<close>

theorem atomic_increments_unique:
  assumes "n \<le> 2 ^ LENGTH('w::len)"
  shows "distinct (increments n (v :: 'w word)) \<and> set (increments n v) = (\<lambda>i. v + of_nat i) ` {1..n} \<and>
    (increment ^^ n) v = v + of_nat n"
proof -
  have "(increment ^^ n) v = v + of_nat n"
    by (induction n) (simp_all add: increment_def incrementAndGet_def addAndGet_def getAndAdd_def)
  moreover have "{1..n} = Suc ` {0..<n}"
    by (simp add: atLeastLessThanSuc_atLeastAtMost)
  then have "set (increments n v) = (\<lambda>i. v + of_nat i) ` {1..n}"
    by (simp only: increments_values set_map set_upt image_image)
  ultimately show ?thesis using increments_distinct [OF assms] by blast
qed

theorem atomic_increments_unique_witness:
  "distinct (increments 3 (255 :: 8 word)) \<and> (increment ^^ 3) (255 :: 8 word) = 2"
  using atomic_increments_unique [of 3 "255 :: 8 word"] by simp

end
