(* ===== verification/Loaders.thy ===== *)
theory Loaders
  imports Threads
begin

text \<open>
  The threads of \<^verbatim>\<open>examples/dummyload/dummyload.cpp\<close>: the workers that run \<^verbatim>\<open>threadFunc\<close> and the
  thread that runs \<^verbatim>\<open>dummyload\<close>, with the mutex, the condition, \<^verbatim>\<open>g_busy\<close> and \<^verbatim>\<open>g_done\<close> that they
  share.  A step is what one thread does between two points where another can interfere.  The
  controller's slots are those of \<^verbatim>\<open>load\<close>; which of them are busy is left open here, so what is
  proved holds for all three curves.
\<close>

section \<open>State\<close>

text \<open>Where a worker is in \<^verbatim>\<open>threadFunc\<close>; \<open>WWait\<close> and \<open>WWake\<close> are inside \<^verbatim>\<open>g_cond.wait()\<close>.\<close>

datatype worker_pc = Absent | WTest | WLock | WCheck | WWait | WWake | WUnlock | WBusy | WExit

text \<open>
  Where the controller is in \<^verbatim>\<open>dummyload\<close>: starting the threads, at the \<^verbatim>\<open>switch\<close>, in one slot of
  \<^verbatim>\<open>load\<close> (\<open>CLock\<close> to \<open>CSleep\<close>), or in the part after the \<^verbatim>\<open>switch\<close> (\<open>CFinish\<close> to \<open>CReturn\<close>).
\<close>

datatype control_pc =
    CSpawn nat | CSwitch
  | CLock bool | CSet bool | CNotify | CUnlock | CSleep
  | CFinish | FLock | FSet | FNotify | FUnlock | CJoin nat | CReturn

record loaders =
  l_owner :: "nat option"
  g_busy :: bool
  g_done :: bool
  num_threads :: nat
  load_type :: int
  control_at :: control_pc
  worker_at :: "nat \<Rightarrow> worker_pc"

text \<open>In the mutex the controller is thread 0 and worker \<open>i\<close> thread \<open>Suc i\<close>.\<close>

inductive loaders_init :: "loaders \<Rightarrow> bool" where
  "loaders_init
     \<lparr>l_owner = None, g_busy = False, g_done = False,
      num_threads = (if n < 1 then 1 else nat n), load_type = t,
      control_at = CSpawn 0, worker_at = (\<lambda>_. Absent)\<rparr>"

abbreviation put_at :: "nat \<Rightarrow> worker_pc \<Rightarrow> loaders \<Rightarrow> loaders" where
  "put_at i p s \<equiv> s\<lparr>worker_at := (worker_at s)(i := p)\<rparr>"

section \<open>Steps\<close>

inductive threadFunc :: "nat \<Rightarrow> loaders \<Rightarrow> loaders \<Rightarrow> bool" where
  w_again: "worker_at s i = WTest \<Longrightarrow> \<not> g_done s \<Longrightarrow> threadFunc i s (put_at i WLock s)"
| w_exit: "worker_at s i = WTest \<Longrightarrow> g_done s \<Longrightarrow> threadFunc i s (put_at i WExit s)"
| w_lock: "worker_at s i = WLock \<Longrightarrow> mutex_lock (Suc i) (l_owner s) = Some m \<Longrightarrow>
    threadFunc i s (put_at i WCheck (s\<lparr>l_owner := m\<rparr>))"
| w_wait: "worker_at s i = WCheck \<Longrightarrow> \<not> g_busy s \<Longrightarrow>
    threadFunc i s (put_at i WWait (s\<lparr>l_owner := mutex_unlock (l_owner s)\<rparr>))"
| w_relock: "worker_at s i = WWake \<Longrightarrow> mutex_lock (Suc i) (l_owner s) = Some m \<Longrightarrow>
    threadFunc i s (put_at i WCheck (s\<lparr>l_owner := m\<rparr>))"
| w_go: "worker_at s i = WCheck \<Longrightarrow> g_busy s \<Longrightarrow> threadFunc i s (put_at i WUnlock s)"
| w_unlock: "worker_at s i = WUnlock \<Longrightarrow>
    threadFunc i s (put_at i WBusy (s\<lparr>l_owner := mutex_unlock (l_owner s)\<rparr>))"
| w_work: "worker_at s i = WBusy \<Longrightarrow> threadFunc i s (put_at i WTest s)"

definition notify_all :: "loaders \<Rightarrow> loaders" where
  "notify_all s =
     s\<lparr>worker_at := (\<lambda>i. if worker_at s i = WWait then WWake else worker_at s i)\<rparr>"

inductive dummyload :: "loaders \<Rightarrow> loaders \<Rightarrow> bool" where
  c_spawn: "control_at s = CSpawn k \<Longrightarrow> k < num_threads s \<Longrightarrow>
    dummyload s (put_at k WTest (s\<lparr>control_at := CSpawn (Suc k)\<rparr>))"
| c_spawned: "control_at s = CSpawn k \<Longrightarrow> num_threads s \<le> k \<Longrightarrow>
    dummyload s (s\<lparr>control_at := CSwitch\<rparr>)"
| c_control: "control_at s = CSwitch \<Longrightarrow> load_type s \<in> {1, 2, 3} \<Longrightarrow>
    dummyload s (s\<lparr>control_at := CLock b\<rparr>)"
| c_break: "control_at s = CSwitch \<Longrightarrow> load_type s \<notin> {1, 2, 3} \<Longrightarrow>
    dummyload s (s\<lparr>control_at := CFinish\<rparr>)"
| c_lock: "control_at s = CLock b \<Longrightarrow> mutex_lock 0 (l_owner s) = Some m \<Longrightarrow>
    dummyload s (s\<lparr>l_owner := m, control_at := CSet b\<rparr>)"
| c_set: "control_at s = CSet b \<Longrightarrow> dummyload s (s\<lparr>g_busy := b, control_at := CNotify\<rparr>)"
| c_notify: "control_at s = CNotify \<Longrightarrow> dummyload s (notify_all (s\<lparr>control_at := CUnlock\<rparr>))"
| c_unlock: "control_at s = CUnlock \<Longrightarrow>
    dummyload s (s\<lparr>l_owner := mutex_unlock (l_owner s), control_at := CSleep\<rparr>)"
| c_sleep: "control_at s = CSleep \<Longrightarrow> dummyload s (s\<lparr>control_at := CSwitch\<rparr>)"
| f_done: "control_at s = CFinish \<Longrightarrow> dummyload s (s\<lparr>g_done := True, control_at := FLock\<rparr>)"
| f_lock: "control_at s = FLock \<Longrightarrow> mutex_lock 0 (l_owner s) = Some m \<Longrightarrow>
    dummyload s (s\<lparr>l_owner := m, control_at := FSet\<rparr>)"
| f_set: "control_at s = FSet \<Longrightarrow> dummyload s (s\<lparr>g_busy := True, control_at := FNotify\<rparr>)"
| f_notify: "control_at s = FNotify \<Longrightarrow> dummyload s (notify_all (s\<lparr>control_at := FUnlock\<rparr>))"
| f_unlock: "control_at s = FUnlock \<Longrightarrow>
    dummyload s (s\<lparr>l_owner := mutex_unlock (l_owner s), control_at := CJoin 0\<rparr>)"
| f_join: "control_at s = CJoin i \<Longrightarrow> i < num_threads s \<Longrightarrow> worker_at s i = WExit \<Longrightarrow>
    dummyload s (s\<lparr>control_at := CJoin (Suc i)\<rparr>)"
| f_return: "control_at s = CJoin i \<Longrightarrow> num_threads s \<le> i \<Longrightarrow>
    dummyload s (s\<lparr>control_at := CReturn\<rparr>)"

text \<open>The last rule is a spurious wake-up.\<close>

inductive loaders_next :: "loaders \<Rightarrow> loaders \<Rightarrow> bool" where
  next_worker: "threadFunc i s s' \<Longrightarrow> loaders_next s s'"
| next_control: "dummyload s s' \<Longrightarrow> loaders_next s s'"
| next_spurious: "worker_at s i = WWait \<Longrightarrow> loaders_next s (put_at i WWake s)"

section \<open>The invariant\<close>

text \<open>
  The owner of the mutex is the thread in a critical section; a waiting worker has reason to wait,
  or is about to be notified; \<^verbatim>\<open>g_done\<close> and \<^verbatim>\<open>g_busy\<close> are set in the last part; the threads
  joined have ended; and the threads started are those below \<^verbatim>\<open>numThreads\<close>.
\<close>

fun control_holds :: "control_pc \<Rightarrow> bool" where
  "control_holds (CSet b) = True" | "control_holds CNotify = True" | "control_holds CUnlock = True"
| "control_holds FSet = True" | "control_holds FNotify = True" | "control_holds FUnlock = True"
| "control_holds _ = False"

definition worker_holds :: "worker_pc \<Rightarrow> bool" where
  "worker_holds p \<longleftrightarrow> p = WCheck \<or> p = WUnlock"

definition notifying :: "control_pc \<Rightarrow> bool" where
  "notifying p \<longleftrightarrow> p = CNotify \<or> p = FNotify"

fun stopping :: "control_pc \<Rightarrow> bool" where
  "stopping FLock = True" | "stopping FSet = True" | "stopping FNotify = True"
| "stopping FUnlock = True" | "stopping (CJoin i) = True" | "stopping CReturn = True"
| "stopping _ = False"

fun awakened :: "control_pc \<Rightarrow> bool" where
  "awakened FNotify = True" | "awakened FUnlock = True" | "awakened (CJoin i) = True"
| "awakened CReturn = True" | "awakened _ = False"

fun started_below :: "nat \<Rightarrow> control_pc \<Rightarrow> nat" where
  "started_below n (CSpawn k) = k" | "started_below n _ = n"

fun joined_below :: "nat \<Rightarrow> control_pc \<Rightarrow> nat" where
  "joined_below n (CJoin i) = i" | "joined_below n CReturn = n" | "joined_below n _ = 0"

definition lock_inv :: "loaders \<Rightarrow> bool" where
  "lock_inv s \<longleftrightarrow> (l_owner s = Some 0 \<longleftrightarrow> control_holds (control_at s)) \<and>
     (\<forall>i. l_owner s = Some (Suc i) \<longleftrightarrow> worker_holds (worker_at s i))"

definition wait_inv :: "loaders \<Rightarrow> bool" where
  "wait_inv s \<longleftrightarrow> (\<forall>i. worker_at s i = WWait \<longrightarrow> g_busy s \<longrightarrow> notifying (control_at s))"

definition phase_inv :: "loaders \<Rightarrow> bool" where
  "phase_inv s \<longleftrightarrow> (g_done s \<longleftrightarrow> stopping (control_at s)) \<and>
     (awakened (control_at s) \<longrightarrow> g_busy s) \<and>
     (\<forall>i. i < joined_below (num_threads s) (control_at s) \<longrightarrow> worker_at s i = WExit) \<and>
     (\<forall>i. worker_at s i = Absent \<longleftrightarrow> started_below (num_threads s) (control_at s) \<le> i) \<and>
     started_below (num_threads s) (control_at s) \<le> num_threads s \<and>
     joined_below (num_threads s) (control_at s) \<le> num_threads s"

definition loaders_inv :: "loaders \<Rightarrow> bool" where
  "loaders_inv s \<longleftrightarrow> lock_inv s \<and> wait_inv s \<and> phase_inv s"

lemmas loaders_inv_defs = lock_inv_def wait_inv_def phase_inv_def worker_holds_def notifying_def

lemma loaders_init_inv: "loaders_init s \<Longrightarrow> loaders_inv s"
  by (cases rule: loaders_init.cases) (auto simp: loaders_inv_def loaders_inv_defs)

lemma lock_worker: "threadFunc i s s' \<Longrightarrow> lock_inv s \<Longrightarrow> lock_inv s'"
  by (induction rule: threadFunc.induct)
    (auto simp: lock_inv_def worker_holds_def, (metis Suc_inject option.inject)+)

lemma lock_control:
  assumes "dummyload s s'" "lock_inv s" "phase_inv s"
  shows "lock_inv s'"
  using assms(1)
proof cases
  case (c_spawn k)
  with assms(3) have "worker_at s k = Absent" by (simp add: phase_inv_def)
  then have "l_owner s \<noteq> Some (Suc k)" using assms(2) by (simp add: lock_inv_def worker_holds_def)
  with c_spawn assms(2) show ?thesis by (simp add: lock_inv_def worker_holds_def)
qed (use assms(2) in \<open>auto simp: lock_inv_def worker_holds_def notify_all_def\<close>)

lemma wait_worker: "threadFunc i s s' \<Longrightarrow> wait_inv s \<Longrightarrow> wait_inv s'"
  by (induction rule: threadFunc.induct) (auto simp: wait_inv_def)

lemma wait_control: "dummyload s s' \<Longrightarrow> wait_inv s \<Longrightarrow> wait_inv s'"
  by (induction rule: dummyload.induct) (auto simp: wait_inv_def notifying_def notify_all_def)

lemma phase_move:
  assumes "phase_inv s" "worker_at s i \<noteq> Absent" "worker_at s i \<noteq> WExit" "q \<noteq> Absent"
    and "worker_at s' = (worker_at s)(i := q)"
    and same: "control_at s' = control_at s" "g_done s' = g_done s" "g_busy s' = g_busy s"
      "num_threads s' = num_threads s"
  shows "phase_inv s'"
proof -
  have "j \<noteq> i" if "j < joined_below (num_threads s) (control_at s)" for j
    using that assms(1,3) unfolding phase_inv_def by blast
  with assms show ?thesis unfolding phase_inv_def same by (simp del: not_le)
qed

lemma worker_moves:
  "threadFunc i s s' \<Longrightarrow>
     worker_at s i \<noteq> Absent \<and> worker_at s i \<noteq> WExit \<and> worker_at s' i \<noteq> Absent \<and>
     worker_at s' = (worker_at s)(i := worker_at s' i) \<and> control_at s' = control_at s \<and>
     g_done s' = g_done s \<and> g_busy s' = g_busy s \<and> num_threads s' = num_threads s"
  by (induction rule: threadFunc.induct) simp_all

lemma phase_worker: "threadFunc i s s' \<Longrightarrow> phase_inv s \<Longrightarrow> phase_inv s'"
  using worker_moves [of i s s'] phase_move [of s i "worker_at s' i" s'] by blast

lemma phase_waiting:
  assumes "phase_inv s" "worker_at s i = WWait"
  shows "i < started_below (num_threads s) (control_at s)"
proof (rule ccontr)
  assume "\<not> i < started_below (num_threads s) (control_at s)"
  with assms(1) have "worker_at s i = Absent" unfolding phase_inv_def by simp
  with assms(2) show False by simp
qed

lemma phase_control:
  assumes "dummyload s s'" "phase_inv s"
  shows "phase_inv s'"
  using assms(1)
proof cases
  case (c_spawn k)
  with assms(2) have "\<forall>i. worker_at s i = Absent \<longleftrightarrow> k \<le> i" by (simp add: phase_inv_def)
  then have "(if i = k then WTest else worker_at s i) = Absent \<longleftrightarrow> Suc k \<le> i" for i
    by (cases "i = k") (simp_all add: Suc_le_eq nat_less_le)
  with c_spawn assms(2) show ?thesis by (simp add: phase_inv_def)
next
  case (f_join k)
  with assms(2) show ?thesis by (auto simp: phase_inv_def less_Suc_eq Suc_le_eq)
next
  case c_notify
  with assms(2) phase_waiting [OF assms(2)] show ?thesis
    by (auto simp: phase_inv_def notify_all_def not_le)
next
  case f_notify
  with assms(2) phase_waiting [OF assms(2)] show ?thesis
    by (auto simp: phase_inv_def notify_all_def not_le)
qed (use assms(2) in \<open>simp_all add: phase_inv_def\<close>)

lemma spurious_inv:
  assumes "worker_at s i = WWait" "loaders_inv s"
  shows "loaders_inv (put_at i WWake s)"
  using assms phase_move [of s i WWake]
  by (auto simp: loaders_inv_def lock_inv_def worker_holds_def wait_inv_def)

interpretation ld: invariant_system loaders_init loaders_next loaders_inv
proof
  show "loaders_inv s'" if "loaders_inv s" "loaders_next s s'" for s s'
    using that(2)
  proof cases
    case (next_worker i)
    with that(1) show ?thesis
      by (simp add: loaders_inv_def lock_worker wait_worker phase_worker)
  next
    case next_control
    with that(1) show ?thesis
      by (simp add: loaders_inv_def lock_control wait_control phase_control)
  next
    case (next_spurious i)
    with that(1) show ?thesis by (simp add: spurious_inv)
  qed
qed (rule loaders_init_inv)

section \<open>Progress\<close>

definition worker_can :: "nat \<Rightarrow> loaders \<Rightarrow> bool" where
  "worker_can i s \<longleftrightarrow> (\<exists>s'. threadFunc i s s')"

definition control_can :: "loaders \<Rightarrow> bool" where
  "control_can s \<longleftrightarrow> (\<exists>s'. dummyload s s')"

text \<open>A worker can move exactly if it need not wait: for a notification, for the mutex, for ever.\<close>

lemma worker_can_iff:
  "worker_can i s \<longleftrightarrow> worker_at s i \<notin> {Absent, WWait, WExit} \<and>
     (worker_at s i \<in> {WLock, WWake} \<longrightarrow> l_owner s = None)"
proof
  assume "worker_can i s"
  then obtain s' where "threadFunc i s s'" by (auto simp: worker_can_def)
  then show "worker_at s i \<notin> {Absent, WWait, WExit} \<and>
     (worker_at s i \<in> {WLock, WWake} \<longrightarrow> l_owner s = None)"
    by cases simp_all
next
  assume can: "worker_at s i \<notin> {Absent, WWait, WExit} \<and>
     (worker_at s i \<in> {WLock, WWake} \<longrightarrow> l_owner s = None)"
  have "\<exists>s'. threadFunc i s s'"
  proof (cases "worker_at s i")
    case WTest
    then show ?thesis using w_again w_exit by (cases "g_done s") blast+
  next
    case WLock
    with can have "mutex_lock (Suc i) (l_owner s) = Some (Some (Suc i))" by simp
    with WLock show ?thesis by (blast intro: w_lock)
  next
    case WWake
    with can have "mutex_lock (Suc i) (l_owner s) = Some (Some (Suc i))" by simp
    with WWake show ?thesis by (blast intro: w_relock)
  next
    case WCheck
    then show ?thesis using w_wait w_go by (cases "g_busy s") blast+
  next
    case WUnlock
    then show ?thesis by (blast intro: w_unlock)
  next
    case WBusy
    then show ?thesis by (blast intro: w_work)
  qed (use can in simp_all)
  then show "worker_can i s" by (simp add: worker_can_def)
qed

lemma holder_can:
  assumes "lock_inv s" "l_owner s = Some t"
  shows "if t = 0 then control_can s else worker_can (t - 1) s"
proof (cases t)
  case 0
  with assms have "control_holds (control_at s)" by (simp add: lock_inv_def)
  then have "\<exists>s'. dummyload s s'"
    by (cases "control_at s") (auto intro: c_set c_notify c_unlock f_set f_notify f_unlock)
  with 0 show ?thesis by (simp add: control_can_def)
next
  case (Suc i)
  with assms have "worker_holds (worker_at s i)" unfolding lock_inv_def by blast
  with Suc show ?thesis by (auto simp: worker_can_iff worker_holds_def)
qed

section \<open>The end of the program\<close>

text \<open>How many steps a worker and the controller have left once all workers have been woken.\<close>

fun worker_left :: "worker_pc \<Rightarrow> nat" where
  "worker_left WLock = 5" | "worker_left WWake = 5" | "worker_left WCheck = 4"
| "worker_left WUnlock = 3" | "worker_left WBusy = 2" | "worker_left WTest = 1"
| "worker_left _ = 0"

definition steps_left :: "loaders \<Rightarrow> nat" where
  "steps_left s =
     sum_list (map (\<lambda>i. worker_left (worker_at s i)) [0..<num_threads s]) +
     (case control_at s of CJoin i \<Rightarrow> Suc (num_threads s) - i | _ \<Rightarrow> 0)"

definition joining :: "loaders \<Rightarrow> bool" where
  "joining s \<longleftrightarrow> loaders_inv s \<and> (control_at s = CReturn \<or> (\<exists>i. control_at s = CJoin i))"

lemma joining_facts:
  assumes "joining s"
  shows "g_done s" "g_busy s" "worker_at s i \<noteq> WWait" "worker_at s i = Absent \<longleftrightarrow> num_threads s \<le> i"
  using assms by (auto simp: joining_def loaders_inv_def loaders_inv_defs)

lemma sum_list_update:
  "i < n \<Longrightarrow> g p < g (f i) \<Longrightarrow>
   sum_list (map (\<lambda>j. g ((f(i := p)) j)) [0..<n]) < (sum_list (map (\<lambda>j. g (f j)) [0..<n]) :: nat)"
proof (induction n)
  case (Suc n)
  show ?case
  proof (cases "i = n")
    case True
    have "map (\<lambda>j. g ((f(n := p)) j)) [0..<n] = map (\<lambda>j. g (f j)) [0..<n]" by simp
    with True Suc.prems(2) show ?thesis by (simp del: fun_upd_apply map_eq_conv) simp
  next
    case False
    with Suc show ?thesis by simp
  qed
qed simp

lemma joining_worker:
  assumes "joining s" "threadFunc i s s'"
  shows "steps_left s' < steps_left s"
proof -
  note m = worker_moves [OF assms(2)]
  have "i < num_threads s" using m joining_facts(4) [OF assms(1), of i] by (meson not_le)
  moreover have "worker_left (worker_at s' i) < worker_left (worker_at s i)"
    using assms(2) joining_facts(1,2) [OF assms(1)] by cases simp_all
  ultimately have "sum_list (map (\<lambda>i. worker_left (worker_at s' i)) [0..<num_threads s]) <
      sum_list (map (\<lambda>i. worker_left (worker_at s i)) [0..<num_threads s])"
    using m sum_list_update [of i "num_threads s" worker_left "worker_at s' i" "worker_at s"] by metis
  moreover have "control_at s' = control_at s" "num_threads s' = num_threads s"
    using m by simp_all
  ultimately show ?thesis by (cases "control_at s") (simp_all add: steps_left_def)
qed

lemma joining_control:
  assumes "joining s" "dummyload s s'"
  shows "steps_left s' < steps_left s \<and> (control_at s' = CReturn \<or> (\<exists>i. control_at s' = CJoin i))"
  using assms(2,1) by cases (auto simp: joining_def steps_left_def loaders_inv_def phase_inv_def)

lemma joining_step:
  assumes "joining s" "loaders_next s s'"
  shows "joining s' \<and> steps_left s' < steps_left s"
proof -
  have inv: "loaders_inv s'" using ld.step_inv [OF _ assms(2)] assms(1) by (simp add: joining_def)
  from assms(2) show ?thesis
  proof cases
    case (next_worker i)
    with worker_moves [OF next_worker] joining_worker [OF assms(1)] assms(1) inv show ?thesis
      by (auto simp: joining_def)
  next
    case next_control
    with joining_control [OF assms(1)] inv show ?thesis by (simp add: joining_def)
  next
    case (next_spurious i)
    with joining_facts(3) [OF assms(1)] show ?thesis by blast
  qed
qed

lemma joining_stuck:
  assumes "joining s" "\<And>s'. \<not> loaders_next s s'"
  shows "control_at s = CReturn"
proof (rule ccontr)
  assume "control_at s \<noteq> CReturn"
  with assms(1) obtain j where j: "control_at s = CJoin j" by (auto simp: joining_def)
  have stuck: "\<not> worker_can i s" "\<not> control_can s" for i
    using assms(2) by (auto simp: worker_can_def control_can_def intro: next_worker next_control)
  have "l_owner s = None"
  proof (cases "l_owner s")
    case (Some t)
    from assms(1) have "lock_inv s" by (simp add: joining_def loaders_inv_def)
    from holder_can [OF this Some] stuck show ?thesis by (simp split: if_splits)
  qed
  with stuck(1) joining_facts(3) [OF assms(1)] have "worker_at s i = Absent \<or> worker_at s i = WExit" for i
    by (auto simp: worker_can_iff)
  with joining_facts(4) [OF assms(1), of j] have "j < num_threads s \<longrightarrow> worker_at s j = WExit"
    by (meson not_le)
  then have "control_can s"
    using j by (cases "j < num_threads s") (auto simp: control_can_def not_less intro: f_join f_return)
  with stuck(2) show False ..
qed

lemma joining_run:
  "(loaders_next ^^ k) s s' \<Longrightarrow> joining s \<Longrightarrow> joining s' \<and> k + steps_left s' \<le> steps_left s"
proof (induction k arbitrary: s')
  case (Suc k)
  then obtain t where t: "(loaders_next ^^ k) s t" "loaders_next t s'" by auto
  with Suc joining_step [of t s'] show ?case by fastforce
qed simp

section \<open>Properties\<close>

text \<open>The states of a run with one worker and no curve, by owner, flags and places.\<close>

definition ld_demo :: "nat option \<Rightarrow> bool \<Rightarrow> bool \<Rightarrow> control_pc \<Rightarrow> worker_pc \<Rightarrow> loaders" where
  "ld_demo m b d c w =
     \<lparr>l_owner = m, g_busy = b, g_done = d, num_threads = 1, load_type = 0,
      control_at = c, worker_at = (\<lambda>_. Absent)(0 := w)\<rparr>"

lemma notify_demo:
  "notify_all ((ld_demo m b d c WTest)\<lparr>control_at := c'\<rparr>) = ld_demo m b d c' WTest"
  by (auto simp: notify_all_def ld_demo_def)

lemma ld_demo_reach:
  "reach loaders_init loaders_next (ld_demo None True True (CJoin 0) WTest)"
proof -
  have ctl: "loaders_next (ld_demo m b d c w) s'" if "dummyload (ld_demo m b d c w) s'" for m b d c w s'
    using that by (rule next_control)
  have "reach loaders_init loaders_next (ld_demo None False False (CSpawn 0) Absent)"
    using loaders_init.intros [of 1 0] by (intro reach_init) (simp add: ld_demo_def fun_upd_idem)
  from reach_step [OF this ctl [OF c_spawn]]
  have "reach loaders_init loaders_next (ld_demo None False False (CSpawn 1) WTest)"
    by (simp add: ld_demo_def)
  from reach_step [OF this ctl [OF c_spawned]]
  have "reach loaders_init loaders_next (ld_demo None False False CSwitch WTest)"
    by (simp add: ld_demo_def)
  from reach_step [OF this ctl [OF c_break]]
  have "reach loaders_init loaders_next (ld_demo None False False CFinish WTest)"
    by (simp add: ld_demo_def)
  from reach_step [OF this ctl [OF f_done]]
  have "reach loaders_init loaders_next (ld_demo None False True FLock WTest)"
    by (simp add: ld_demo_def)
  from reach_step [OF this ctl [OF f_lock, where m1 = "Some 0"]]
  have "reach loaders_init loaders_next (ld_demo (Some 0) False True FSet WTest)"
    by (simp add: ld_demo_def)
  from reach_step [OF this ctl [OF f_set]]
  have "reach loaders_init loaders_next (ld_demo (Some 0) True True FNotify WTest)"
    by (simp add: ld_demo_def)
  from reach_step [OF this ctl [OF f_notify]]
  have "reach loaders_init loaders_next (ld_demo (Some 0) True True FUnlock WTest)"
    using notify_demo by (simp add: ld_demo_def)
  from reach_step [OF this ctl [OF f_unlock]]
  show ?thesis by (simp add: ld_demo_def)
qed

text \<open>
  Property C6.  While a slot is busy the load is really produced: whatever the interleaving and
  whatever spurious wake-ups there are, as soon as the controller has notified, no worker is left
  waiting for the condition, and every worker either can go on or is held up only by the mutex,
  whose owner can.
\<close>

theorem busy_slot_keeps_working:
  assumes "reach loaders_init loaders_next s" and "g_busy s" "\<not> notifying (control_at s)"
    and "worker_at s i \<noteq> Absent" "worker_at s i \<noteq> WExit"
  shows "worker_at s i \<noteq> WWait \<and>
    (worker_can i s \<or>
     (\<exists>t. l_owner s = Some t \<and> (if t = 0 then control_can s else worker_can (t - 1) s)))"
proof -
  from ld.reach_inv [OF assms(1)] have inv: "lock_inv s" "wait_inv s"
    by (simp_all add: loaders_inv_def)
  from inv(2) assms(2,3) have nw: "worker_at s i \<noteq> WWait" by (auto simp: wait_inv_def)
  show ?thesis
  proof (cases "l_owner s")
    case None
    with nw assms(4,5) show ?thesis by (simp add: worker_can_iff)
  next
    case (Some t)
    with nw holder_can [OF inv(1) Some] show ?thesis by blast
  qed
qed

theorem busy_slot_keeps_working_witness:
  "worker_can 0 (ld_demo None True True (CJoin 0) WTest)"
  using busy_slot_keeps_working [OF ld_demo_reach, of 0]
  by (simp add: ld_demo_def notifying_def)

text \<open>
  Property C7.  The program's last part ends: once the controller joins its threads, every run of
  the threads, whatever the interleaving, is at most as long as \<open>steps_left\<close> says, no worker waits
  for ever, and when no thread can take a step \<^verbatim>\<open>dummyload\<close> has returned and all its threads
  have ended.
\<close>

theorem dummyload_ends:
  assumes "reach loaders_init loaders_next s" "control_at s = CJoin j"
    and "(loaders_next ^^ k) s s'"
  shows "k \<le> steps_left s \<and> ((\<forall>s''. \<not> loaders_next s' s'') \<longrightarrow>
    control_at s' = CReturn \<and> (\<forall>i<num_threads s'. worker_at s' i = WExit))"
proof -
  from ld.reach_inv [OF assms(1)] assms(2) have "joining s" by (simp add: joining_def)
  from joining_run [OF assms(3) this] have s': "joining s'" "k + steps_left s' \<le> steps_left s"
    by simp_all
  have "control_at s' = CReturn \<and> (\<forall>i<num_threads s'. worker_at s' i = WExit)"
    if "\<forall>s''. \<not> loaders_next s' s''"
    using joining_stuck [OF s'(1)] that s'(1) by (simp add: joining_def loaders_inv_def phase_inv_def)
  with s'(2) show ?thesis by simp
qed

theorem dummyload_ends_witness:
  "(loaders_next ^^ 1) (ld_demo None True True (CJoin 0) WTest) (ld_demo None True True (CJoin 0) WExit) \<and>
   1 \<le> steps_left (ld_demo None True True (CJoin 0) WTest)"
proof -
  have "threadFunc 0 (ld_demo None True True (CJoin 0) WTest) (ld_demo None True True (CJoin 0) WExit)"
    using w_exit [of "ld_demo None True True (CJoin 0) WTest" 0] by (simp add: ld_demo_def)
  then have "(loaders_next ^^ 1) (ld_demo None True True (CJoin 0) WTest) (ld_demo None True True (CJoin 0) WExit)"
    by (auto simp: OO_def intro: next_worker)
  with dummyload_ends [OF ld_demo_reach _ this, of 0] show ?thesis by (simp add: ld_demo_def)
qed

end
