(* ===== verification/PngImages.thy ===== *)
theory PngImages
  imports Prelude
begin

text \<open>
  \<^verbatim>\<open>examples/procmon/Imagepng.h\<close> and \<^verbatim>\<open>examples/procmon/Imagepng.cpp\<close>: the encoder \<^verbatim>\<open>svpng\<close>,
  macro by macro, and the class that holds a picture and saves it.  \<^verbatim>\<open>unsigned\<close> is a word of 32
  bits and wraps.  Beside the code stand a description of the file format by chunks, check sums
  over whole byte strings, and a decoder; the encoder is proved to write the one and to be undone
  by the other.
\<close>

unbundle bit_operations_syntax

type_synonym byte = "8 word"

section \<open>The encoder\<close>

definition crc_table :: "32 word list" where
  "crc_table =
     [0, 0x1db71064, 0x3b6e20c8, 0x26d930ac, 0x76dc4190, 0x6b6b51f4, 0x4db26158, 0x5005713c,
      0xedb88320, 0xf00f9344, 0xd6d6a3e8, 0xcb61b38c, 0x9b64c2b0, 0x86d3d2d4, 0xa00ae278, 0xbdbdf21c]"

text \<open>What has been written, and the local variables \<^verbatim>\<open>c\<close>, \<^verbatim>\<open>a\<close> and \<^verbatim>\<open>b\<close> of \<^verbatim>\<open>svpng\<close>.\<close>

record png =
  out :: "byte list"
  crc :: "32 word"
  adler_a :: "32 word"
  adler_b :: "32 word"

definition crc_nibble :: "32 word \<Rightarrow> 32 word" where
  "crc_nibble c = drop_bit 4 c XOR crc_table ! unat (c AND 15)"

definition svpng_put :: "32 word \<Rightarrow> png \<Rightarrow> png" where
  "svpng_put u s = s\<lparr>out := out s @ [ucast u]\<rparr>"

definition svpng_u8a :: "32 word list \<Rightarrow> png \<Rightarrow> png" where
  "svpng_u8a ua s = fold svpng_put ua s"

definition svpng_u32 :: "32 word \<Rightarrow> png \<Rightarrow> png" where
  "svpng_u32 u s =
     svpng_u8a [drop_bit 24 u, drop_bit 16 u AND 255, drop_bit 8 u AND 255, u AND 255] s"

definition svpng_u8c :: "32 word \<Rightarrow> png \<Rightarrow> png" where
  "svpng_u8c u s = (svpng_put u s)\<lparr>crc := crc_nibble (crc_nibble (crc s XOR u))\<rparr>"

definition svpng_u8ac :: "32 word list \<Rightarrow> png \<Rightarrow> png" where
  "svpng_u8ac ua s = fold svpng_u8c ua s"

definition svpng_u16lc :: "32 word \<Rightarrow> png \<Rightarrow> png" where
  "svpng_u16lc u s = svpng_u8ac [u AND 255, drop_bit 8 u AND 255] s"

definition svpng_u32c :: "32 word \<Rightarrow> png \<Rightarrow> png" where
  "svpng_u32c u s =
     svpng_u8ac [drop_bit 24 u, drop_bit 16 u AND 255, drop_bit 8 u AND 255, u AND 255] s"

definition svpng_u8adler :: "32 word \<Rightarrow> png \<Rightarrow> png" where
  "svpng_u8adler u s =
     (let s = svpng_u8c u s;
          s = s\<lparr>adler_a := (adler_a s + u) mod 65521\<rparr>
      in s\<lparr>adler_b := (adler_b s + adler_a s) mod 65521\<rparr>)"

definition svpng_begin :: "32 word list \<Rightarrow> 32 word \<Rightarrow> png \<Rightarrow> png" where
  "svpng_begin name l s = svpng_u8ac name ((svpng_u32 l s)\<lparr>crc := NOT 0\<rparr>)"

definition svpng_end :: "png \<Rightarrow> png" where
  "svpng_end s = svpng_u32 (NOT (crc s)) s"

text \<open>The inner loop takes \<open>n\<close> bytes from the image, the outer one writes line \<open>y\<close>.\<close>

fun svpng_pixels :: "nat \<Rightarrow> png \<times> byte list \<Rightarrow> (png \<times> byte list) res" where
  "svpng_pixels 0 (s, img) = Inr (s, img)"
| "svpng_pixels (Suc n) (s, []) = Inl OutOfBounds"
| "svpng_pixels (Suc n) (s, u # img) = svpng_pixels n (svpng_u8adler (ucast u) s, img)"

definition svpng_line :: "32 word \<Rightarrow> 32 word \<Rightarrow> nat \<Rightarrow> png \<times> byte list \<Rightarrow> (png \<times> byte list) res" where
  "svpng_line h p y si =
     (let (s, img) = si;
          s = svpng_u8c (if of_nat y = h - 1 then 1 else 0) s;
          s = svpng_u16lc (NOT p) (svpng_u16lc p s);
          s = svpng_u8adler 0 s
      in svpng_pixels (unat (p - 1)) (s, img))"

definition svpng :: "32 word \<Rightarrow> 32 word \<Rightarrow> byte list \<Rightarrow> bool \<Rightarrow> byte list res" where
  "svpng w h img alpha =
     (let s = \<lparr>out = [], crc = 0, adler_a = 1, adler_b = 0\<rparr>;
          p = w * (if alpha then 4 else 3) + 1;
          s = svpng_u8a [0x89, 0x50, 0x4E, 0x47, 0x0D, 0x0A, 0x1A, 0x0A] s;
          s = svpng_begin [0x49, 0x48, 0x44, 0x52] 13 s;
          s = svpng_u32c h (svpng_u32c w s);
          s = svpng_u8c (if alpha then 6 else 2) (svpng_u8c 8 s);
          s = svpng_end (svpng_u8ac [0, 0, 0] s);
          s = svpng_begin [0x49, 0x44, 0x41, 0x54] (2 + h * (5 + p) + 4) s;
          s = svpng_u8ac [0x78, 1] s
      in bindR (runR (svpng_line h p) [0..<unat h] (s, img)) (\<lambda>(s, img).
           let s = svpng_end (svpng_u32c (push_bit 16 (adler_b s) OR adler_a s) s)
           in Inr (out (svpng_end (svpng_begin [0x49, 0x45, 0x4E, 0x44] 0 s)))))"

section \<open>The picture\<close>

text \<open>A colour is its four bytes; the picture's size is that of its array of colours.\<close>

record color =
  R :: byte
  G :: byte
  B :: byte
  A :: byte

datatype image_type = RGB | RGBA

record imagepng =
  img_type :: image_type
  width :: int
  height :: int
  color :: "color list"
  opened :: bool

text \<open>A product of two \<^verbatim>\<open>int\<close>s, and the allocation of an array.\<close>

definition int_mul :: "int \<Rightarrow> int \<Rightarrow> int res" where
  "int_mul x y = (if - (2 ^ 31) \<le> x * y \<and> x * y < 2 ^ 31 then Inr (x * y) else Inl SignedOverflow)"

definition new_array :: "int \<Rightarrow> int res" where
  "new_array n = (if 0 \<le> n then Inr n else Inl BadLength)"

text \<open>
  \<open>ok\<close> says whether \<^verbatim>\<open>fopen\<close> succeeded.  The two byte arrays are allocated here and filled by
  \<^verbatim>\<open>save\<close>.
\<close>

definition new_imagepng :: "bool \<Rightarrow> image_type \<Rightarrow> int \<Rightarrow> int \<Rightarrow> imagepng res" where
  "new_imagepng ok t w h =
     bindR (bindR (int_mul w h) (\<lambda>n. bindR (int_mul n 3) new_array)) (\<lambda>rgb.
     bindR (bindR (int_mul w h) (\<lambda>n. bindR (int_mul n 4) new_array)) (\<lambda>rgba.
     bindR (bindR (int_mul w h) new_array) (\<lambda>n.
       Inr \<lparr>img_type = t, width = w, height = h,
            color = replicate (nat n) \<lparr>R = 255, G = 255, B = 255, A = 255\<rparr>, opened = ok\<rparr>)))"

definition set_pixel :: "int \<Rightarrow> color \<Rightarrow> imagepng \<Rightarrow> imagepng res" where
  "set_pixel i c im = (if 0 \<le> i \<and> i < int (length (color im)) then Inr (im\<lparr>color := (color im)[nat i := c]\<rparr>)
                       else Inl OutOfBounds)"

definition set_pixel_at :: "int \<Rightarrow> int \<Rightarrow> color \<Rightarrow> imagepng \<Rightarrow> imagepng res" where
  "set_pixel_at i j c im = bindR (int_mul (width im) i) (\<lambda>n. set_pixel (n + j) c im)"

definition save :: "imagepng \<Rightarrow> byte list res" where
  "save im =
     (if \<not> opened im then Inl NullPointer
      else bindR (int_mul (width im) (height im)) (\<lambda>n.
        if img_type im = RGB
        then svpng (word_of_int (width im)) (word_of_int (height im))
               (concat (map (\<lambda>c. [R c, G c, B c]) (take (nat n) (color im)))) False
        else svpng (word_of_int (width im)) (word_of_int (height im))
               (concat (map (\<lambda>c. [R c, G c, B c, A c]) (take (nat n) (color im)))) True))"

section \<open>The file format\<close>

text \<open>The check sums of the format, over a whole string of bytes.\<close>

definition crc_bit :: "32 word \<Rightarrow> 32 word" where
  "crc_bit c = (if bit c 0 then drop_bit 1 c XOR 0xedb88320 else drop_bit 1 c)"

definition crc_step :: "byte \<Rightarrow> 32 word \<Rightarrow> 32 word" where
  "crc_step u c = (crc_bit ^^ 8) (c XOR ucast u)"

definition crc32 :: "byte list \<Rightarrow> 32 word" where
  "crc32 us = NOT (fold crc_step us (NOT 0))"

definition adler_sum :: "byte list \<Rightarrow> nat" where
  "adler_sum us = 1 + sum_list (map unat us)"

definition adler32 :: "byte list \<Rightarrow> 32 word" where
  "adler32 us =
     of_nat (sum_list (map (\<lambda>k. adler_sum (take (Suc k) us)) [0..<length us]) mod 65521 * 65536
             + adler_sum us mod 65521)"

definition be32 :: "32 word \<Rightarrow> byte list" where
  "be32 u = [ucast (drop_bit 24 u), ucast (drop_bit 16 u), ucast (drop_bit 8 u), ucast u]"

definition le16 :: "32 word \<Rightarrow> byte list" where
  "le16 u = [ucast u, ucast (drop_bit 8 u)]"

definition chunk :: "byte list \<Rightarrow> byte list \<Rightarrow> byte list" where
  "chunk name d = be32 (of_nat (length d)) @ name @ d @ be32 (crc32 (name @ d))"

definition stored_block :: "bool \<Rightarrow> byte list \<Rightarrow> byte list" where
  "stored_block final d =
     (if final then 1 else 0) # le16 (of_nat (length d)) @ le16 (NOT (of_nat (length d))) @ d"

fun stored_blocks :: "byte list list \<Rightarrow> byte list" where
  "stored_blocks [] = []"
| "stored_blocks (d # ds) = stored_block (ds = []) d @ stored_blocks ds"

definition zlib_stored :: "byte list list \<Rightarrow> byte list" where
  "zlib_stored ds = [0x78, 1] @ stored_blocks ds @ be32 (adler32 (concat ds))"

definition signature :: "byte list" where
  "signature = [0x89, 0x50, 0x4E, 0x47, 0x0D, 0x0A, 0x1A, 0x0A]"

definition IHDR :: "byte list" where "IHDR = [0x49, 0x48, 0x44, 0x52]"

definition IDAT :: "byte list" where "IDAT = [0x49, 0x44, 0x41, 0x54]"

definition IEND :: "byte list" where "IEND = [0x49, 0x45, 0x4E, 0x44]"

text \<open>The lines of a picture, each after the number of its filter.\<close>

fun scanlines :: "nat \<Rightarrow> nat \<Rightarrow> byte list \<Rightarrow> byte list list" where
  "scanlines n 0 img = []"
| "scanlines n (Suc h) img = (0 # take n img) # scanlines n h (drop n img)"

definition channels :: "bool \<Rightarrow> nat" where
  "channels alpha = (if alpha then 4 else 3)"

text \<open>
  The layout of a file: the numbers that do not fit into their fields are cut.  The format, which
  gives a file only if all numbers fit: a width and a height between 1 and \<open>2 ^ 31 - 1\<close>, stored blocks
  of at most 65535 bytes and a chunk of at most \<open>2 ^ 31 - 1\<close> bytes.
\<close>

definition png_layout :: "32 word \<Rightarrow> 32 word \<Rightarrow> bool \<Rightarrow> byte list \<Rightarrow> byte list" where
  "png_layout w h alpha img =
     signature @ chunk IHDR (be32 w @ be32 h @ [8, if alpha then 6 else 2, 0, 0, 0]) @
     chunk IDAT (zlib_stored (scanlines (unat w * channels alpha) (unat h) img)) @
     chunk IEND []"

definition png_file :: "nat \<Rightarrow> nat \<Rightarrow> bool \<Rightarrow> byte list \<Rightarrow> byte list option" where
  "png_file w h alpha img =
     (let ds = scanlines (w * channels alpha) h img
      in if 0 < w \<and> w < 2 ^ 31 \<and> 0 < h \<and> h < 2 ^ 31 \<and> length img = h * (w * channels alpha) \<and>
            (\<forall>d\<in>set ds. length d \<le> 65535) \<and> length (zlib_stored ds) < 2 ^ 31
         then Some (png_layout (of_nat w) (of_nat h) alpha img) else None)"

section \<open>The check sum by bits and by halves of bytes\<close>

lemma crc_bit_xor: "crc_bit (x XOR y) = crc_bit x XOR crc_bit y"
  by (auto simp: crc_bit_def bit_xor_iff drop_bit_xor ac_simps xor.assoc)

lemma crc_bits_xor: "(crc_bit ^^ n) (x XOR y) = (crc_bit ^^ n) x XOR (crc_bit ^^ n) y"
  by (induction n) (simp_all add: crc_bit_xor)

lemma crc_bit_even: "\<not> bit c 0 \<Longrightarrow> crc_bit c = drop_bit 1 c"
  by (simp add: crc_bit_def)

lemma crc_bits_high:
  assumes "\<And>i. i < n \<Longrightarrow> \<not> bit x i"
  shows "(crc_bit ^^ n) x = drop_bit n x"
  using assms
proof (induction n)
  case (Suc n)
  then have "(crc_bit ^^ Suc n) x = crc_bit (drop_bit n x)" by simp
  moreover have "\<not> bit (drop_bit n x) 0" using Suc.prems [of n] by (simp add: bit_drop_bit_eq)
  ultimately show ?case by (simp add: crc_bit_even drop_bit_drop_bit)
qed simp

lemma crc_bits_table: "map (\<lambda>k. (crc_bit ^^ 4) (word_of_nat k)) [0..<16] = crc_table"
  by code_simp

lemma crc_bits_low:
  assumes "k < 16"
  shows "(crc_bit ^^ 4) (word_of_nat k) = crc_table ! k"
proof -
  have "map (\<lambda>k. (crc_bit ^^ 4) (word_of_nat k)) [0..<16] ! k = (crc_bit ^^ 4) (word_of_nat k)"
    using assms by (subst nth_map) simp_all
  then show ?thesis by (simp only: crc_bits_table)
qed

lemma crc_nibble_bits: "crc_nibble c = (crc_bit ^^ 4) c"
proof -
  let ?m = "mask 4 :: 32 word"
  have m: "15 = ?m" by (simp add: mask_eq_exp_minus_1)
  have "c = (c AND NOT ?m) XOR (c AND ?m)"
    by (rule bit_eqI) (auto simp: bit_simps)
  then have "(crc_bit ^^ 4) c = (crc_bit ^^ 4) (c AND NOT ?m) XOR (crc_bit ^^ 4) (c AND ?m)"
    by (metis crc_bits_xor)
  moreover have "(crc_bit ^^ 4) (c AND NOT ?m) = drop_bit 4 (c AND NOT ?m)"
    by (rule crc_bits_high) (simp add: bit_simps)
  moreover have "drop_bit 4 (c AND NOT ?m) = drop_bit 4 c"
    by (rule bit_eqI) (auto simp: bit_simps dest: bit_imp_le_length)
  moreover have "unat (c AND ?m) < 16"
    using take_bit_nat_less_exp [of 4 "unat c"]
    by (simp add: take_bit_eq_mask [symmetric] unsigned_take_bit_eq)
  then have "(crc_bit ^^ 4) (c AND ?m) = crc_table ! unat (c AND ?m)"
    using crc_bits_low [of "unat (c AND ?m)"] by simp
  ultimately show ?thesis by (simp add: crc_nibble_def m del: mask_numeral)
qed

lemma crc_put_step: "crc_nibble (crc_nibble (c XOR ucast u)) = crc_step u c"
  by (simp add: crc_nibble_bits crc_step_def funpow_add [of 4 4, simplified])

section \<open>What the macros write\<close>

definition wrote :: "byte list \<Rightarrow> png \<Rightarrow> png \<Rightarrow> bool" where
  "wrote bs s s' \<longleftrightarrow> out s' = out s @ bs \<and> crc s' = fold crc_step bs (crc s)"

text \<open>The two sums of the check sum Adler-32, of the bytes \<open>us\<close>.\<close>

definition adler_total :: "byte list \<Rightarrow> nat" where
  "adler_total us = sum_list (map (\<lambda>k. adler_sum (take (Suc k) us)) [0..<length us])"

definition adler_of :: "byte list \<Rightarrow> png \<Rightarrow> bool" where
  "adler_of us s \<longleftrightarrow>
     unat (adler_a s) = adler_sum us mod 65521 \<and> unat (adler_b s) = adler_total us mod 65521"

lemma wrote_append: "wrote bs s s1 \<Longrightarrow> wrote cs s1 s2 \<Longrightarrow> wrote (bs @ cs) s s2"
  by (simp add: wrote_def)

lemma wrote_Nil [simp]: "wrote [] s s"
  by (simp add: wrote_def)

lemma byte_back [simp]: "ucast (ucast (u :: byte) :: 32 word) = u"
  by (rule bit_eqI) (simp add: bit_simps)

lemma unat_byte: "unat (u :: byte) < 256"
proof -
  have "unat u < 2 ^ LENGTH(8)" by (rule unsigned_less)
  then show ?thesis by simp
qed

lemma unat_bound: "unat (x :: 32 word) < 2 ^ 32"
proof -
  have "unat x < 2 ^ LENGTH(32)" by (rule unsigned_less)
  then show ?thesis by simp
qed

lemma word_of_nat_inj:
  "m < 2 ^ 32 \<Longrightarrow> n < 2 ^ 32 \<Longrightarrow> (of_nat m :: 32 word) = of_nat n \<longleftrightarrow> m = n"
  by (simp add: word_of_nat_eq_iff take_bit_nat_eq_self)

lemma unat_small: "m < 2 ^ 32 \<Longrightarrow> unat (of_nat m :: 32 word) = m"
  by (simp add: unat_of_nat take_bit_nat_eq_self)

lemma widen_unat [simp]: "unat (ucast (u :: byte) :: 32 word) = unat u"
  using unat_byte [of u] by (simp add: unsigned_ucast_eq take_bit_nat_eq_self)

lemma low_mask: "(255 :: 32 word) = mask 8"
  by (simp add: mask_eq_exp_minus_1)

lemma widen_byte: "ucast (ucast (x :: 32 word) :: byte) = x AND 255"
  unfolding low_mask by (rule bit_eqI) (auto simp: bit_simps simp del: mask_numeral)

lemma high_byte: "drop_bit 24 (x :: 32 word) AND 255 = drop_bit 24 x"
  unfolding low_mask
  by (rule bit_eqI) (auto simp: bit_simps simp del: mask_numeral dest: bit_imp_le_length)

lemma u8c_wrote: "wrote [u] s (svpng_u8c (ucast u) s)"
  by (simp add: wrote_def svpng_u8c_def svpng_put_def crc_put_step)

lemma u8ac_wrote: "wrote us s (svpng_u8ac (map ucast us) s)"
proof (induction us arbitrary: s)
  case (Cons u us)
  from wrote_append [OF u8c_wrote Cons.IH] show ?case by (simp add: svpng_u8ac_def)
qed (simp add: svpng_u8ac_def)

lemma be32_widen:
  "map ucast (be32 u) = [drop_bit 24 u, drop_bit 16 u AND 255, drop_bit 8 u AND 255, u AND 255]"
  by (simp add: be32_def widen_byte high_byte)

lemma u32c_wrote: "wrote (be32 u) s (svpng_u32c u s)"
  using u8ac_wrote [of "be32 u" s] by (simp only: svpng_u32c_def be32_widen)

lemma u16lc_wrote: "wrote (le16 u) s (svpng_u16lc u s)"
  using u8ac_wrote [of "le16 u" s] by (simp add: svpng_u16lc_def le16_def widen_byte)

lemma u8a_out: "svpng_u8a (map ucast us) s = s\<lparr>out := out s @ us\<rparr>"
  by (induction us arbitrary: s) (simp_all add: svpng_u8a_def svpng_put_def)

lemma u32_out: "svpng_u32 u s = s\<lparr>out := out s @ be32 u\<rparr>"
  using u8a_out [of "be32 u" s] by (simp only: svpng_u32_def be32_widen)

lemma u8ac_adler [simp]:
  "adler_a (svpng_u8ac us s) = adler_a s" "adler_b (svpng_u8ac us s) = adler_b s"
  by (induction us arbitrary: s) (simp_all add: svpng_u8ac_def svpng_u8c_def svpng_put_def)

lemma macros_adler [simp]:
  "adler_a (svpng_u8c u s) = adler_a s" "adler_b (svpng_u8c u s) = adler_b s"
  "adler_a (svpng_u32c u s) = adler_a s" "adler_b (svpng_u32c u s) = adler_b s"
  "adler_a (svpng_u16lc u s) = adler_a s" "adler_b (svpng_u16lc u s) = adler_b s"
  "adler_a (svpng_end s) = adler_a s" "adler_b (svpng_end s) = adler_b s"
  "adler_a (svpng_begin nm u s) = adler_a s" "adler_b (svpng_begin nm u s) = adler_b s"
  by (simp_all add: svpng_u8c_def svpng_put_def svpng_u32c_def svpng_u16lc_def svpng_end_def
      svpng_begin_def u32_out)

lemma adler_total_snoc: "adler_total (us @ [u]) = adler_total us + adler_sum (us @ [u])"
proof -
  have "map (\<lambda>k. adler_sum (take (Suc k) (us @ [u]))) [0..<length us] =
    map (\<lambda>k. adler_sum (take (Suc k) us)) [0..<length us]"
    by (intro map_cong) simp_all
  from arg_cong [OF this, of sum_list] show ?thesis
    by (simp add: adler_total_def del: take_append map_eq_conv)
qed

lemma add_mod_word:
  fixes x y :: "32 word"
  assumes "unat x < 65521" "unat y < 65521"
  shows "unat ((x + y) mod 65521) = (unat x + unat y) mod 65521"
  using assms by (simp add: unat_mod unat_add_lem [THEN iffD1])

lemma u8adler_step:
  assumes "adler_of us s"
  shows "wrote [u] s (svpng_u8adler (ucast u) s) \<and> adler_of (us @ [u]) (svpng_u8adler (ucast u) s)"
proof -
  let ?s = "svpng_u8c (ucast u) s" and ?a = "(adler_a s + ucast u) mod 65521"
  have a: "unat ?a = (adler_sum us + unat u) mod 65521"
    using assms unat_byte [of u] by (subst add_mod_word) (simp_all add: adler_of_def mod_simps)
  then have "unat ((adler_b s + ?a) mod 65521) = (adler_total us + (adler_sum us + unat u)) mod 65521"
    using assms by (subst add_mod_word) (simp_all add: adler_of_def mod_simps)
  with a have "adler_of (us @ [u]) (?s\<lparr>adler_a := ?a, adler_b := (adler_b s + ?a) mod 65521\<rparr>)"
    by (simp add: adler_of_def adler_total_snoc) (simp add: adler_sum_def)
  with u8c_wrote [of u s] show ?thesis by (simp add: svpng_u8adler_def Let_def wrote_def)
qed

lemma pixels_wrote:
  assumes "adler_of us s" "n \<le> length img"
  shows "\<exists>s'. svpng_pixels n (s, img) = Inr (s', drop n img) \<and> wrote (take n img) s s' \<and>
    adler_of (us @ take n img) s'"
  using assms
proof (induction n arbitrary: us s img)
  case (Suc n)
  then obtain u img' where img: "img = u # img'" by (cases img) auto
  note step = u8adler_step [OF Suc.prems(1), of u]
  from Suc.IH [OF step [THEN conjunct2], of img'] Suc.prems(2) img obtain s' where
    "svpng_pixels n (svpng_u8adler (ucast u) s, img') = Inr (s', drop n img')"
    "wrote (take n img') (svpng_u8adler (ucast u) s) s'" "adler_of ((us @ [u]) @ take n img') s'"
    by auto
  with wrote_append [OF step [THEN conjunct1]] img show ?case by fastforce
qed simp

lemma adler_of_cong:
  "adler_a s' = adler_a s \<Longrightarrow> adler_b s' = adler_b s \<Longrightarrow> adler_of us s \<Longrightarrow> adler_of us s'"
  by (simp add: adler_of_def)

lemma line_wrote:
  assumes "adler_of us s" "unat (p - 1) \<le> length img" "p \<noteq> 0"
  defines "d \<equiv> 0 # take (unat (p - 1)) img"
  shows "\<exists>s'. svpng_line h p y (s, img) = Inr (s', drop (unat (p - 1)) img) \<and>
    wrote (stored_block (of_nat y = h - 1) d) s s' \<and> adler_of (us @ d) s'"
proof -
  let ?f = "if of_nat y = h - 1 then 1 else 0 :: byte"
  let ?s1 = "svpng_u8c (if of_nat y = h - 1 then 1 else 0) s"
  let ?s2 = "svpng_u16lc (NOT p) (svpng_u16lc p ?s1)"
  have len: "of_nat (length d) = p"
    using assms(2) by (simp add: d_def)
  have "wrote [?f] s ?s1" using u8c_wrote [of ?f s] by (simp split: if_splits)
  from wrote_append [OF wrote_append [OF this u16lc_wrote [of p]] u16lc_wrote [of "NOT p"]]
  have w2: "wrote ((?f # le16 p) @ le16 (NOT p)) s ?s2" by simp
  have "adler_of us ?s2" using assms(1) by (rule adler_of_cong [rotated 2]) simp_all
  note z = u8adler_step [OF this, of 0]
  from pixels_wrote [OF z [THEN conjunct2] assms(2)] obtain s' where
    s': "svpng_pixels (unat (p - 1)) (svpng_u8adler (ucast (0 :: byte)) ?s2, img) =
           Inr (s', drop (unat (p - 1)) img)"
      "wrote (take (unat (p - 1)) img) (svpng_u8adler (ucast (0 :: byte)) ?s2) s'"
      "adler_of ((us @ [0]) @ take (unat (p - 1)) img) s'"
    by blast
  have "stored_block (of_nat y = h - 1) d =
      (((?f # le16 p) @ le16 (NOT p)) @ [0]) @ take (unat (p - 1)) img"
    by (simp only: stored_block_def len) (simp add: d_def)
  with wrote_append [OF wrote_append [OF w2 z [THEN conjunct1]] s'(2)]
  have "wrote (stored_block (of_nat y = h - 1) d) s s'" by (simp only:)
  with s'(1,3) show ?thesis by (simp add: svpng_line_def Let_def d_def)
qed

lemma lines_wrote:
  assumes "adler_of us s" "k * unat (p - 1) \<le> length img" "p \<noteq> 0" "k \<le> unat h"
  shows "\<exists>s' img'. runR (svpng_line h p) [unat h - k..<unat h] (s, img) = Inr (s', img') \<and>
    wrote (stored_blocks (scanlines (unat (p - 1)) k img)) s s' \<and>
    adler_of (us @ concat (scanlines (unat (p - 1)) k img)) s'"
  using assms
proof (induction k arbitrary: us s img)
  case (Suc k)
  let ?n = "unat (p - 1)" and ?y = "unat h - Suc k"
  let ?d = "0 # take ?n img"
  from Suc.prems(2) have n: "?n \<le> length img" "k * ?n \<le> length (drop ?n img)" by simp_all
  from line_wrote [OF Suc.prems(1) n(1) Suc.prems(3), of h ?y] obtain s1 where
    s1: "svpng_line h p ?y (s, img) = Inr (s1, drop ?n img)"
      "wrote (stored_block (of_nat ?y = h - 1) ?d) s s1" "adler_of (us @ ?d) s1"
    by blast
  from Suc.IH [OF s1(3) n(2) Suc.prems(3)] Suc.prems(4) obtain s' img' where
    s': "runR (svpng_line h p) [unat h - k..<unat h] (s1, drop ?n img) = Inr (s', img')"
      "wrote (stored_blocks (scanlines ?n k (drop ?n img))) s1 s'"
      "adler_of ((us @ ?d) @ concat (scanlines ?n k (drop ?n img))) s'"
    by auto
  have "[unat h - Suc k..<unat h] = ?y # [unat h - k..<unat h]"
    using Suc.prems(4) by (simp add: upt_conv_Cons Suc_diff_Suc)
  moreover have "of_nat ?y = h - 1 \<longleftrightarrow> scanlines ?n k (drop ?n img) = []"
  proof -
    have "of_nat ?y = h - 1 \<longleftrightarrow> (of_nat (unat h - Suc k) :: 32 word) = of_nat (unat h - 1)"
      using Suc.prems(4) by (simp add: of_nat_diff)
    also have "\<dots> \<longleftrightarrow> unat h - Suc k = unat h - 1"
      using Suc.prems(4) unat_bound [of h] by (intro word_of_nat_inj) simp_all
    also have "\<dots> \<longleftrightarrow> k = 0" using Suc.prems(4) by auto
    finally show ?thesis by (cases k) simp_all
  qed
  ultimately show ?case
    using s1(1) s' wrote_append [OF s1(2) s'(2)] by simp
qed simp

lemma adler_word:
  assumes "adler_of us s"
  shows "push_bit 16 (adler_b s) OR adler_a s = adler32 us"
proof -
  have "unat (adler_a s) < 2 ^ 16" using assms by (simp add: adler_of_def less_trans [of _ 65521])
  then have "take_bit 16 (adler_a s) = adler_a s"
    by (simp add: word_unat_eq_iff unsigned_take_bit_eq take_bit_nat_eq_self)
  then have "\<forall>i. bit (adler_a s) i \<longrightarrow> i < 16" by (metis bit_take_bit_iff)
  then have "push_bit 16 (adler_b s) AND adler_a s = 0"
    by (intro bit_eqI) (force simp: bit_simps)
  then have "push_bit 16 (adler_b s) OR adler_a s = push_bit 16 (adler_b s) + adler_a s"
    by (simp add: disjunctive_add_eq_or)
  also have "\<dots> = of_nat (unat (adler_b s) * 65536 + unat (adler_a s))"
    by (simp add: push_bit_eq_mult)
  finally show ?thesis
    using assms by (simp only: adler_of_def adler32_def adler_total_def)
qed

section \<open>The file the encoder writes\<close>

lemma chunk_wrote:
  assumes "wrote d (svpng_begin (map ucast name) l s) s'" "l = of_nat (length d)"
  shows "out (svpng_end s') = out s @ chunk name d"
proof -
  let ?s = "(svpng_u32 l s)\<lparr>crc := NOT 0\<rparr>"
  have "wrote (name @ d) ?s s'"
    using wrote_append [OF u8ac_wrote assms(1) [unfolded svpng_begin_def]] .
  then show ?thesis
    by (simp add: wrote_def svpng_end_def u32_out chunk_def crc32_def assms(2))
qed

lemma length_stored_blocks:
  "k * n \<le> length img \<Longrightarrow> length (stored_blocks (scanlines n k img)) = k * (6 + n)"
  by (induction k arbitrary: img) (simp_all add: stored_block_def le16_def)

lemma image_line: "x + y * x \<le> z \<Longrightarrow> x \<le> (z :: nat)"
  by (rule order_trans [OF le_add1])

lemma svpng_file:
  assumes size: "length img = unat h * (unat w * channels alpha)"
    and small: "unat w * channels alpha + 1 < 2 ^ 32"
  shows "svpng w h img alpha = Inr (png_layout w h alpha img)"
proof -
  let ?n = "unat w * channels alpha"
  define p where "p = w * (if alpha then 4 else 3) + 1"
  have "p = of_nat (?n + 1)" "p - 1 = of_nat ?n" by (simp_all add: p_def channels_def)
  with small have "unat p = ?n + 1" and n: "unat (p - 1) = ?n"
    by (simp_all only: unat_small)
  then have p: "unat (p - 1) = ?n" "p \<noteq> 0" by auto
  define s0 where "s0 = \<lparr>out = [], crc = 0, adler_a = 1, adler_b = 0\<rparr>"
  define s1 where "s1 = svpng_u8a (map ucast signature) s0"
  define s2 where "s2 = svpng_begin (map ucast IHDR) 13 s1"
  define s3 where "s3 = svpng_u8ac (map ucast ([8, if alpha then 6 else 2, 0, 0, 0] :: byte list))
    (svpng_u32c h (svpng_u32c w s2))"
  define s4 where "s4 = svpng_begin (map ucast IDAT) (2 + h * (5 + p) + 4) (svpng_end s3)"
  define s5 where "s5 = svpng_u8ac (map ucast ([0x78, 1] :: byte list)) s4"
  have "wrote (be32 w @ be32 h @ [8, if alpha then 6 else 2, 0, 0, 0]) s2 s3"
    unfolding s3_def append_assoc [symmetric]
    by (rule wrote_append [OF wrote_append [OF u32c_wrote u32c_wrote] u8ac_wrote])
  from chunk_wrote [OF this [unfolded s2_def]]
  have out3: "out (svpng_end s3) = signature @ chunk IHDR (be32 w @ be32 h @ [8, if alpha then 6 else 2, 0, 0, 0])"
    by (simp add: s1_def s0_def u8a_out be32_def)
  have "adler_of [] s5"
    by (simp add: s5_def s4_def s3_def s2_def s1_def s0_def u8a_out adler_of_def adler_sum_def
        adler_total_def)
  from lines_wrote [OF this, of "unat h" p img h] p size obtain s6 img' where
    s6: "runR (svpng_line h p) [0..<unat h] (s5, img) = Inr (s6, img')"
      "wrote (stored_blocks (scanlines ?n (unat h) img)) s5 s6"
      "adler_of (concat (scanlines ?n (unat h) img)) s6"
    by auto
  let ?lines = "scanlines ?n (unat h) img"
  let ?s7 = "svpng_u32c (push_bit 16 (adler_b s6) OR adler_a s6) s6"
  have w7: "wrote (zlib_stored ?lines) s4 ?s7"
    using wrote_append [OF wrote_append [OF u8ac_wrote s6(2) [unfolded s5_def]] u32c_wrote]
    by (simp add: zlib_stored_def adler_word [OF s6(3)])
  have "2 + h * (5 + p) + 4 = of_nat (length (zlib_stored ?lines))"
    using length_stored_blocks [of "unat h" ?n img] size
    by (simp add: zlib_stored_def be32_def p_def channels_def algebra_simps)
  from chunk_wrote [OF w7 [unfolded s4_def] this]
  have out7: "out (svpng_end ?s7) = out (svpng_end s3) @ chunk IDAT (zlib_stored ?lines)" .
  have "out (svpng_end (svpng_begin (map ucast IEND) 0 (svpng_end ?s7))) =
      out (svpng_end ?s7) @ chunk IEND []"
    by (rule chunk_wrote) simp_all
  with out3 out7 have "out (svpng_end (svpng_begin (map ucast IEND) 0 (svpng_end ?s7))) =
      png_layout w h alpha img"
    by (simp add: png_layout_def)
  moreover have lits: "map ucast signature = ([0x89, 0x50, 0x4E, 0x47, 0x0D, 0x0A, 0x1A, 0x0A] :: 32 word list)"
    "map ucast IHDR = ([0x49, 0x48, 0x44, 0x52] :: 32 word list)"
    "map ucast IDAT = ([0x49, 0x44, 0x41, 0x54] :: 32 word list)"
    "map ucast IEND = ([0x49, 0x45, 0x4E, 0x44] :: 32 word list)"
    by (simp_all add: signature_def IHDR_def IDAT_def IEND_def)
  moreover have "s5 = svpng_u8ac [0x78, 1] (svpng_begin [0x49, 0x44, 0x41, 0x54] (2 + h * (5 + p) + 4)
    (svpng_end (svpng_u8ac [0, 0, 0] (svpng_u8c (if alpha then 6 else 2) (svpng_u8c 8
      (svpng_u32c h (svpng_u32c w (svpng_begin [0x49, 0x48, 0x44, 0x52] 13
        (svpng_u8a [0x89, 0x50, 0x4E, 0x47, 0x0D, 0x0A, 0x1A, 0x0A] s0)))))))))"
    by (simp add: s5_def s4_def s3_def s2_def s1_def lits svpng_u8ac_def)
  ultimately show ?thesis
    using s6(1) unfolding svpng_def Let_def p_def [symmetric] s0_def [symmetric]
    by (simp only: bindR_Inr prod.case)
qed

section \<open>Reading the file back\<close>

definition read32 :: "byte list \<Rightarrow> 32 word" where
  "read32 bs = foldl (\<lambda>x u. push_bit 8 x OR ucast u) 0 bs"

definition read_chunk :: "byte list \<Rightarrow> (byte list \<times> byte list \<times> byte list) option" where
  "read_chunk bs =
     (let n = unat (read32 (take 4 bs));
          name = take 4 (drop 4 bs);
          d = take n (drop 8 bs)
      in if length bs < 12 + n \<or> read32 (take 4 (drop (8 + n) bs)) \<noteq> crc32 (name @ d) then None
         else Some (name, d, drop (12 + n) bs))"

fun inflate_stored :: "byte list \<Rightarrow> (byte list \<times> byte list) option" where
  "inflate_stored (final # l0 # l1 # n0 # n1 # bs) =
     (let n = unat l0 + 256 * unat l1
      in if n0 \<noteq> NOT l0 \<or> n1 \<noteq> NOT l1 \<or> length bs < n then None
         else if final = 1 then Some (take n bs, drop n bs)
         else if final = 0
         then map_option (\<lambda>(raw, rest). (take n bs @ raw, rest)) (inflate_stored (drop n bs))
         else None)"
| "inflate_stored _ = None"

definition zlib_decode :: "byte list \<Rightarrow> byte list option" where
  "zlib_decode bs =
     (if take 2 bs \<noteq> [0x78, 1] then None
      else Option.bind (inflate_stored (drop 2 bs))
             (\<lambda>(raw, rest). if rest = be32 (adler32 raw) then Some raw else None))"

fun unfilter :: "nat \<Rightarrow> nat \<Rightarrow> byte list \<Rightarrow> byte list option" where
  "unfilter n 0 raw = (if raw = [] then Some [] else None)"
| "unfilter n (Suc h) raw =
     (if length raw < Suc n \<or> hd raw \<noteq> 0 then None
      else map_option ((@) (take n (tl raw))) (unfilter n h (drop (Suc n) raw)))"

definition read_header :: "byte list \<Rightarrow> (32 word \<times> 32 word \<times> bool) option" where
  "read_header d =
     (if drop 8 d = [8, 2, 0, 0, 0] then Some (read32 (take 4 d), read32 (take 4 (drop 4 d)), False)
      else if drop 8 d = [8, 6, 0, 0, 0] then Some (read32 (take 4 d), read32 (take 4 (drop 4 d)), True)
      else None)"

definition png_decode :: "byte list \<Rightarrow> (32 word \<times> 32 word \<times> bool \<times> byte list) option" where
  "png_decode bs =
     (if take 8 bs \<noteq> signature then None
      else Option.bind (read_chunk (drop 8 bs)) (\<lambda>(n1, d1, bs).
           Option.bind (read_chunk bs) (\<lambda>(n2, d2, bs).
           Option.bind (read_chunk bs) (\<lambda>(n3, d3, bs).
             if n1 \<noteq> IHDR \<or> n2 \<noteq> IDAT \<or> n3 \<noteq> IEND \<or> d3 \<noteq> [] \<or> bs \<noteq> [] then None
             else Option.bind (read_header d1) (\<lambda>(w, h, alpha).
                  Option.bind (zlib_decode d2) (\<lambda>raw.
                    map_option (\<lambda>img. (w, h, alpha, img))
                      (unfilter (unat w * channels alpha) (unat h) raw)))))))"

lemma length_be32 [simp]: "length (be32 u) = 4"
  by (simp add: be32_def)

lemma take_be32 [simp]: "take 4 (be32 u @ bs) = be32 u"
  by (simp add: be32_def)

lemma join_byte: "push_bit 8 (drop_bit (8 + n) x) OR (drop_bit n x AND 255) = drop_bit n (x :: 32 word)"
  unfolding low_mask by (rule bit_eqI) (auto simp: bit_simps simp del: mask_numeral)

lemma read32_be32 [simp]: "read32 (be32 u) = u"
  using join_byte [of 0 u] join_byte [of 8 u] join_byte [of 16 u]
  by (simp add: read32_def be32_def widen_byte high_byte)

lemma read_chunk_chunk:
  assumes "length name = 4" "length d < 2 ^ 32"
  shows "read_chunk (chunk name d @ bs) = Some (name, d, bs)"
proof -
  have n: "unat (of_nat (length d) :: 32 word) = length d" using assms(2) by (rule unat_small)
  have "drop 8 (chunk name d @ bs) = d @ be32 (crc32 (name @ d)) @ bs"
    "drop 4 (chunk name d @ bs) = name @ d @ be32 (crc32 (name @ d)) @ bs"
    "take 4 (chunk name d @ bs) = be32 (of_nat (length d))"
    "drop (8 + length d) (chunk name d @ bs) = be32 (crc32 (name @ d)) @ bs"
    "drop (12 + length d) (chunk name d @ bs) = bs"
    "length (chunk name d @ bs) = 12 + length d + length bs"
    using assms(1) by (simp_all add: chunk_def)
  then show ?thesis using assms(1) n by (simp add: read_chunk_def Let_def)
qed

lemma le16_value:
  assumes "m < 65536"
  shows "unat (ucast (of_nat m :: 32 word) :: byte) +
    256 * unat (ucast (drop_bit 8 (of_nat m :: 32 word)) :: byte) = m"
proof -
  have m: "unat (of_nat m :: 32 word) = m" using assms by (intro unat_small) simp
  have "m div 256 < 256" using assms by (simp add: div_less_iff_less_mult)
  moreover have "unat (drop_bit 8 (of_nat m :: 32 word)) = m div 256"
    using assms by (simp only: unsigned_drop_bit_eq m) (simp add: drop_bit_eq_div take_bit_nat_eq_self)
  ultimately show ?thesis
    by (simp only: unsigned_ucast_eq m) (simp add: take_bit_eq_mod)
qed

lemma inflate_blocks:
  assumes "ds \<noteq> []" "\<forall>d\<in>set ds. length d < 65536"
  shows "inflate_stored (stored_blocks ds @ rest) = Some (concat ds, rest)"
  using assms
proof (induction ds)
  case (Cons d ds)
  have compl: "ucast (NOT x) = (NOT (ucast x) :: byte)"
    "ucast (drop_bit 8 (NOT x)) = (NOT (ucast (drop_bit 8 x)) :: byte)" for x :: "32 word"
    by (intro bit_eqI; auto simp: bit_simps)+
  from Cons.prems(2) have "length d < 65536" by simp
  note n = le16_value [OF this]
  show ?case
  proof (cases "ds = []")
    case True
    then show ?thesis by (simp add: stored_block_def le16_def compl n Let_def)
  next
    case False
    with Cons show ?thesis by (simp add: stored_block_def le16_def compl n Let_def)
  qed
qed simp

lemma unfilter_scanlines:
  "length img = h * n \<Longrightarrow> unfilter n h (concat (scanlines n h img)) = Some img"
  by (induction h arbitrary: img) (simp_all add: min_def)

lemma scanlines_short: "d \<in> set (scanlines n h img) \<Longrightarrow> length d \<le> Suc n"
  by (induction h arbitrary: img) auto

lemma svpng_decodes:
  assumes size: "length img = unat h * (unat w * channels alpha)" and "h \<noteq> 0"
    and line: "unat w * channels alpha + 1 < 65536"
    and total: "6 + unat h * (6 + unat w * channels alpha) < 2 ^ 32"
  shows "\<exists>bs. svpng w h img alpha = Inr bs \<and> png_decode bs = Some (w, h, alpha, img)"
proof -
  let ?n = "unat w * channels alpha"
  let ?ds = "scanlines ?n (unat h) img"
  let ?hdr = "be32 w @ be32 h @ [8, if alpha then 6 else 2, 0, 0, 0]"
  have "length (zlib_stored ?ds) < 2 ^ 32"
    using total length_stored_blocks [of "unat h" ?n img] size by (simp add: zlib_stored_def)
  then have chunks: "read_chunk (chunk IHDR ?hdr @ bs) = Some (IHDR, ?hdr, bs)"
    "read_chunk (chunk IDAT (zlib_stored ?ds) @ bs) = Some (IDAT, zlib_stored ?ds, bs)"
    "read_chunk (chunk IEND []) = Some (IEND, [], [])" for bs
    using read_chunk_chunk [of IEND "[]" "[]"]
    by (simp_all add: read_chunk_chunk IHDR_def IDAT_def IEND_def)
  have hdr: "read_header ?hdr = Some (w, h, alpha)"
    by (simp add: read_header_def)
  have "?ds \<noteq> []" using \<open>h \<noteq> 0\<close> by (cases "unat h") (simp_all add: unat_eq_0)
  moreover have "\<forall>d\<in>set ?ds. length d < 65536"
    using line scanlines_short [of _ ?n "unat h" img] by fastforce
  ultimately have "zlib_decode (zlib_stored ?ds) = Some (concat ?ds)"
    by (simp add: zlib_decode_def zlib_stored_def inflate_blocks)
  with size have "png_decode (png_layout w h alpha img) = Some (w, h, alpha, img)"
    by (simp add: png_decode_def png_layout_def signature_def chunks hdr unfilter_scanlines)
  moreover have "svpng w h img alpha = Inr (png_layout w h alpha img)"
    by (rule svpng_file) (use size line in simp_all)
  ultimately show ?thesis by blast
qed

section \<open>Properties\<close>

fun pixel_bytes :: "image_type \<Rightarrow> color \<Rightarrow> byte list" where
  "pixel_bytes RGB c = [R c, G c, B c]"
| "pixel_bytes RGBA c = [R c, G c, B c, A c]"

lemma length_pixels: "length (concat (map (pixel_bytes t) cs)) = length cs * channels (t = RGBA)"
  by (cases t; induction cs) (simp_all add: channels_def)

lemma int_mul_ok: "0 \<le> x * y \<Longrightarrow> x * y < 2 ^ 31 \<Longrightarrow> int_mul x y = Inr (x * y)"
  by (simp add: int_mul_def)

lemma save_pixels:
  assumes "opened im" "width im = int w" "height im = int h" "w * h < 2 ^ 31" "length (color im) = w * h"
  shows "save im = svpng (of_nat w) (of_nat h)
     (concat (map (pixel_bytes (img_type im)) (color im))) (img_type im = RGBA)"
proof -
  have "int_mul (width im) (height im) = Inr (int (w * h))"
    using assms(2-4) by (simp add: int_mul_def flip: of_nat_mult)
  with assms show ?thesis
    by (cases "img_type im") (simp_all add: save_def pixel_bytes.simps [abs_def] nat_mult_distrib)
qed

lemma new_imagepng_ok:
  assumes "w * h * 4 < 2 ^ 31"
  shows "new_imagepng ok t (int w) (int h) = Inr \<lparr>img_type = t, width = int w, height = int h,
    color = replicate (w * h) \<lparr>R = 255, G = 255, B = 255, A = 255\<rparr>, opened = ok\<rparr>"
proof -
  have "int (w * h * 4) < int (2 ^ 31)" using assms by (simp only: of_nat_less_iff)
  then have "int (w * h) * 4 < 2 ^ 31" by (simp only: of_nat_mult of_nat_numeral of_nat_power)
  then have b: "int (w * h) < 2 ^ 31" "int (w * h) * 3 < 2 ^ 31" "int (w * h) * 4 < 2 ^ 31" by linarith+
  have "int_mul (int w) (int h) = Inr (int (w * h))"
    using int_mul_ok [of "int w" "int h"] b(1) by (simp only: of_nat_mult) simp
  moreover have "int_mul (int (w * h)) 3 = Inr (int (w * h) * 3)" "int_mul (int (w * h)) 4 = Inr (int (w * h) * 4)"
    using b(2,3) by (intro int_mul_ok; simp only: of_nat_0_le_iff zero_le_mult_iff zero_le_numeral simp_thms)+
  ultimately show ?thesis by (simp add: new_imagepng_def new_array_def nat_mult_distrib del: of_nat_mult)
qed

lemma length_set_fold: "length (fold (\<lambda>(i, c) cs. cs[nat i := c]) ps cs) = length cs"
  by (induction ps arbitrary: cs) (simp_all split: prod.split)

lemma set_pixels:
  "runR (\<lambda>(i, c). set_pixel i c) ps im = Inr im' \<Longrightarrow>
   im' = im\<lparr>color := fold (\<lambda>(i, c) cs. cs[nat i := c]) ps (color im)\<rparr>"
  by (induction ps arbitrary: im) (fastforce simp: set_pixel_def split: if_splits)+

text \<open>
  Property C9.  \<^verbatim>\<open>svpng\<close> writes a PNG file: for every picture with at least one pixel, whose lines
  with their filter byte have at most 65535 bytes and whose image data with the framing of its blocks
  has fewer than \<open>2 ^ 31\<close> bytes, the bytes that the encoder emits one by one, with both check sums kept
  up by the half-byte table and by reduced sums, are exactly the file of the format: the signature and
  the three chunks with their true lengths, the CRC-32 of every chunk as its bitwise definition gives
  it, each line as a stored block with its true length, and the Adler-32 of all the lines.
\<close>

theorem svpng_writes_format:
  assumes "length img = h * (w * channels alpha)" "0 < w" "0 < h"
    and line: "w * channels alpha + 1 \<le> 65535" and total: "6 + h * (6 + w * channels alpha) < 2 ^ 31"
  shows "\<exists>bs. png_file w h alpha img = Some bs \<and> svpng (of_nat w) (of_nat h) img alpha = Inr bs"
proof -
  let ?ds = "scanlines (w * channels alpha) h img"
  have "w < 2 ^ 31" using line by (simp add: channels_def split: if_splits)
  moreover have "h < 2 ^ 31" using total by (simp add: add_mult_distrib2)
  moreover have "length (zlib_stored ?ds) < 2 ^ 31"
    using total length_stored_blocks [of h "w * channels alpha" img] assms(1) by (simp add: zlib_stored_def)
  moreover have "\<forall>d\<in>set ?ds. length d \<le> 65535"
    using line scanlines_short [of _ "w * channels alpha" h img] by fastforce
  ultimately have "png_file w h alpha img = Some (png_layout (of_nat w) (of_nat h) alpha img)"
    using assms(1-3) by (simp add: png_file_def Let_def)
  moreover have n: "unat (of_nat w :: 32 word) = w" "unat (of_nat h :: 32 word) = h"
    using \<open>w < 2 ^ 31\<close> \<open>h < 2 ^ 31\<close> by (simp_all add: unat_small)
  have "svpng (of_nat w) (of_nat h) img alpha = Inr (png_layout (of_nat w) (of_nat h) alpha img)"
    by (rule svpng_file) (use assms(1) line in \<open>simp_all add: n\<close>)
  ultimately show ?thesis by blast
qed

theorem svpng_writes_format_witness:
  "\<exists>bs. png_file 2 1 False [1, 2, 3, 4, 5, 6] = Some bs \<and> svpng 2 1 [1, 2, 3, 4, 5, 6] False = Inr bs"
  using svpng_writes_format [of "[1, 2, 3, 4, 5, 6]" 1 2 False] by (simp add: channels_def)

text \<open>
  Property C8.  A saved picture can be read back.  For every width and height (at least one line) whose
  product by 4 is less than \<open>2 ^ 31\<close>, so that no \<^verbatim>\<open>int\<close> product of the class overflows, the
  constructor succeeds; and whatever pixels are then set, if a line with its filter byte has fewer than
  65536 bytes, the data fits into one chunk (\<open>2 ^ 32\<close>) and \<^verbatim>\<open>fopen\<close> had succeeded, \<^verbatim>\<open>save\<close> writes
  a file from which a decoder that checks the signature, every CRC, the complements of the block
  lengths and the Adler-32 gives back the width, the height, the kind of colour and every byte of every
  pixel.
\<close>

theorem save_decodes:
  assumes small: "w * h * 4 < 2 ^ 31" and h: "0 < h" and line: "w * channels (t = RGBA) + 1 < 65536"
    and total: "6 + h * (6 + w * channels (t = RGBA)) < 2 ^ 32"
  shows "\<exists>im0. new_imagepng True t (int w) (int h) = Inr im0 \<and>
    (\<forall>ps im. runR (\<lambda>(i, c). set_pixel i c) ps im0 = Inr im \<longrightarrow>
       (\<exists>bs. save im = Inr bs \<and> png_decode bs = Some (of_nat w, of_nat h, t = RGBA,
          concat (map (pixel_bytes t) (fold (\<lambda>(i, c) cs. cs[nat i := c]) ps
            (replicate (w * h) \<lparr>R = 255, G = 255, B = 255, A = 255\<rparr>))))))"
proof -
  let ?im0 = "\<lparr>img_type = t, width = int w, height = int h,
    color = replicate (w * h) \<lparr>R = 255, G = 255, B = 255, A = 255\<rparr>, opened = True\<rparr>"
  have "\<exists>bs. save im = Inr bs \<and> png_decode bs = Some (of_nat w, of_nat h, t = RGBA,
          concat (map (pixel_bytes t) (fold (\<lambda>(i, c) cs. cs[nat i := c]) ps
            (replicate (w * h) \<lparr>R = 255, G = 255, B = 255, A = 255\<rparr>))))"
    if set: "runR (\<lambda>(i, c). set_pixel i c) ps ?im0 = Inr im" for ps im
  proof -
    let ?cs = "fold (\<lambda>(i, c) cs. cs[nat i := c]) ps (replicate (w * h) \<lparr>R = 255, G = 255, B = 255, A = 255\<rparr>)"
    from set_pixels [OF set] have im: "im = ?im0\<lparr>color := ?cs\<rparr>" by simp
    have len: "length ?cs = w * h" by (simp add: length_set_fold)
    have "w < 2 ^ 32" using line by (simp add: channels_def split: if_splits)
    moreover have "h < 2 ^ 32" using total by (simp add: add_mult_distrib2)
    ultimately have n: "unat (of_nat w :: 32 word) = w" "unat (of_nat h :: 32 word) = h"
      by (simp_all only: unat_small)
    have "(of_nat h :: 32 word) \<noteq> 0" using n(2) h by auto
    moreover have "save im = svpng (of_nat w) (of_nat h) (concat (map (pixel_bytes t) ?cs)) (t = RGBA)"
    proof -
      have "w * h < 2 ^ 31" using small by linarith
      from save_pixels [OF _ _ _ this, of im] len show ?thesis by (simp add: im)
    qed
    ultimately show ?thesis
      using svpng_decodes [of "concat (map (pixel_bytes t) ?cs)" "of_nat h" "of_nat w" "t = RGBA"]
        line total len
      by (simp add: n length_pixels)
  qed
  with new_imagepng_ok [OF small] show ?thesis by blast
qed

theorem save_decodes_witness:
  "\<exists>im0 im bs. new_imagepng True RGBA 2 1 = Inr im0 \<and>
     set_pixel 1 \<lparr>R = 7, G = 8, B = 9, A = 10\<rparr> im0 = Inr im \<and>
     save im = Inr bs \<and> png_decode bs = Some (2, 1, True, [255, 255, 255, 255, 7, 8, 9, 10])"
proof -
  from save_decodes [of 2 1 RGBA] obtain im0 where im0: "new_imagepng True RGBA 2 1 = Inr im0"
    "\<forall>ps im. runR (\<lambda>(i, c). set_pixel i c) ps im0 = Inr im \<longrightarrow>
       (\<exists>bs. save im = Inr bs \<and> png_decode bs = Some (2, 1, True,
          concat (map (pixel_bytes RGBA) (fold (\<lambda>(i, c) cs. cs[nat i := c]) ps
            (replicate 2 \<lparr>R = 255, G = 255, B = 255, A = 255\<rparr>)))))"
    by (auto simp: channels_def)
  let ?ps = "[(1, \<lparr>R = 7, G = 8, B = 9, A = 10\<rparr>)]"
  obtain im where im: "set_pixel 1 \<lparr>R = 7, G = 8, B = 9, A = 10\<rparr> im0 = Inr im"
    using im0(1) by (auto simp: set_pixel_def new_imagepng_def int_mul_def new_array_def)
  then have "runR (\<lambda>(i, c). set_pixel i c) ?ps im0 = Inr im" by simp
  from im0(2) [rule_format, OF this] obtain bs where "save im = Inr bs"
    "png_decode bs = Some (2, 1, True, [255, 255, 255, 255, 7, 8, 9, 10])"
    by (auto simp: numeral_2_eq_2)
  with im0(1) im show ?thesis by blast
qed

end
