(* ===== verification/SystemInfos.thy ===== *)
theory SystemInfos
  imports ProcText CDouble OrderedMaps
begin

text \<open>
  \<^verbatim>\<open>examples/procmon/SystemInfo.h\<close> and \<^verbatim>\<open>examples/procmon/SystemInfo.cpp\<close>: the table of
  processes and the figures of the machine that the program \<^verbatim>\<open>procmon\<close> keeps by reading \<^verbatim>\<open>/proc\<close>
  again and again.  The contents of the files, the entries of the directory and the answers of
  \<^verbatim>\<open>getpwuid\<close> are arguments, and so are the values of variables that are read before anything
  has been stored in them.
\<close>

section \<open>Histories\<close>

record process =
  ps_pid :: int
  ps_user :: string
  ps_command :: string
  ps_threads :: int
  mem_list :: "int list"
  cpu_list :: "double list"
  lastUtime :: int
  lastStime :: int
  lastCtime :: int

record min_process =
  mp_pid :: int
  mp_user :: string
  mp_command :: string
  mp_threads :: int
  mp_mem :: int
  mp_cpu :: double

definition new_process :: process where
  "new_process =
     \<lparr>ps_pid = 0, ps_user = [], ps_command = [], ps_threads = 0, mem_list = [], cpu_list = [],
      lastUtime = 0, lastStime = 0, lastCtime = 0\<rparr>"

definition push_512 :: "'a \<Rightarrow> 'a list \<Rightarrow> 'a list" where
  "push_512 x xs = (let l = x # xs in if 512 < length l then butlast l else l)"

definition pushMemory :: "int \<Rightarrow> process \<Rightarrow> process" where
  "pushMemory m ps = ps\<lparr>mem_list := push_512 m (mem_list ps)\<rparr>"

definition pushCpuRate :: "double \<Rightarrow> process \<Rightarrow> process" where
  "pushCpuRate rate ps = ps\<lparr>cpu_list := push_512 rate (cpu_list ps)\<rparr>"

text \<open>The histories of the machine are cut one sample earlier.\<close>

definition push_rate :: "'a \<Rightarrow> 'a list \<Rightarrow> 'a list" where
  "push_rate x xs = (let l = x # xs in if 512 \<le> length l then butlast l else l)"

text \<open>What all of them promise: the last samples, the newest first.\<close>

locale bounded_history =
  fixes push :: "'a \<Rightarrow> 'a list \<Rightarrow> 'a list" and bound :: nat
  assumes push_take: "length xs \<le> bound \<Longrightarrow> push x xs = take bound (x # xs)"
begin

lemma push_bound: "length xs \<le> bound \<Longrightarrow> length (push x xs) \<le> bound"
  by (simp add: push_take)

lemma push_all: "length xs \<le> bound \<Longrightarrow> fold push ys xs = take bound (rev ys @ xs)"
proof (induction ys arbitrary: xs)
  case (Cons y ys)
  then have "fold push ys (push y xs) = take bound (rev ys @ take bound (y # xs))"
    using Cons.IH [of "push y xs"] by (simp add: push_take)
  also have "\<dots> = take bound (rev ys @ y # xs)" by (simp add: take_append min_def)
  finally show ?case by simp
qed simp

end

interpretation samples: bounded_history push_512 512
proof
  show "push_512 x xs = take 512 (x # xs)" if "length xs \<le> 512" for x and xs :: "'a list"
    using that by (cases "length xs = 512") (simp_all add: push_512_def butlast_conv_take take_Cons)
qed

interpretation rates: bounded_history push_rate 511
proof
  show "push_rate x xs = take 511 (x # xs)" if "length xs \<le> 511" for x and xs :: "'a list"
    using that by (cases "length xs = 511") (simp_all add: push_rate_def butlast_conv_take take_Cons)
qed

section \<open>Reading a stream\<close>

text \<open>
  An \<^verbatim>\<open>istringstream\<close> is the text that is left, \<open>None\<close> once an extraction has failed: all later
  ones then leave their variables alone.  At the end of the text an extraction fails in the same
  way; where there is no number it stores 0, where it does not fit the nearest limit, and fails.
\<close>

type_synonym stream = "string option"

definition ext_word :: "stream \<Rightarrow> string \<times> stream" where
  "ext_word st =
     (case st of None \<Rightarrow> ([], None)
      | Some s \<Rightarrow> (first_word s, if first_word s = [] then None else Some (scan_word s)))"

definition ext_char :: "char \<Rightarrow> stream \<Rightarrow> char \<times> stream" where
  "ext_char old st =
     (case st of None \<Rightarrow> (old, None)
      | Some s \<Rightarrow> (case dropWhile isspace s of [] \<Rightarrow> (old, None) | c # cs \<Rightarrow> (c, Some cs)))"

definition signed_value :: "string \<Rightarrow> int" where
  "signed_value t =
     (if take 1 t = ''-'' then - int (digits_val 0 (drop 1 t))
      else int (digits_val 0 (if take 1 t = ''+'' then drop 1 t else t)))"

definition ext_num :: "nat \<Rightarrow> int \<Rightarrow> stream \<Rightarrow> int \<times> stream" where
  "ext_num w old st =
     (case st of None \<Rightarrow> (old, None)
      | Some s \<Rightarrow>
          if dropWhile isspace s = [] then (old, None)
          else (case int_prefix s of None \<Rightarrow> (0, None)
           | Some (t, rest) \<Rightarrow>
               (let v = signed_value t
                in if v < - (2 ^ (w - 1)) then (- (2 ^ (w - 1)), None)
                   else if 2 ^ (w - 1) \<le> v then (2 ^ (w - 1) - 1, None)
                   else (v, Some rest))))"

record stat_data =
  sd_pid :: int
  sd_state :: char
  ppid :: int
  pgrp :: int
  session :: int
  tty_nr :: int
  tpgid :: int
  sd_flags :: int
  minflt :: int
  cminflt :: int
  majflt :: int
  cmajflt :: int
  utime :: int
  stime :: int
  cutime :: int
  cstime :: int
  priority :: int
  sd_nice :: int
  sd_threads :: int
  itrealvalue :: int
  starttime :: int
  vsizeKb :: int
  rssKb :: int
  rsslim :: int

text \<open>One extraction into a field; the fields from \<^verbatim>\<open>ppid\<close> to \<^verbatim>\<open>starttime\<close> in their order.\<close>

definition ext_field ::
  "nat \<times> (stat_data \<Rightarrow> int) \<times> ((int \<Rightarrow> int) \<Rightarrow> stat_data \<Rightarrow> stat_data) \<Rightarrow>
   stat_data \<times> stream \<Rightarrow> stat_data \<times> stream" where
  "ext_field g ds =
     (case g of (w, get, put) \<Rightarrow>
        (case ds of (d, st) \<Rightarrow> (case ext_num w (get d) st of (v, st) \<Rightarrow> (put (\<lambda>_. v) d, st))))"

definition stat_fields_1 ::
  "(nat \<times> (stat_data \<Rightarrow> int) \<times> ((int \<Rightarrow> int) \<Rightarrow> stat_data \<Rightarrow> stat_data)) list" where
  "stat_fields_1 =
     [(32, ppid, ppid_update), (32, pgrp, pgrp_update), (32, session, session_update),
      (32, tty_nr, tty_nr_update), (32, tpgid, tpgid_update), (32, sd_flags, sd_flags_update),
      (64, minflt, minflt_update), (64, cminflt, cminflt_update),
      (64, majflt, majflt_update), (64, cmajflt, cmajflt_update),
      (64, utime, utime_update), (64, stime, stime_update)]"

definition stat_fields_2 ::
  "(nat \<times> (stat_data \<Rightarrow> int) \<times> ((int \<Rightarrow> int) \<Rightarrow> stat_data \<Rightarrow> stat_data)) list" where
  "stat_fields_2 =
     [(64, cutime, cutime_update), (64, cstime, cstime_update),
      (64, priority, priority_update), (64, sd_nice, sd_nice_update),
      (64, sd_threads, sd_threads_update), (64, itrealvalue, itrealvalue_update),
      (64, starttime, starttime_update)]"

text \<open>\<open>junk\<close> is the data before anything is stored, \<open>v0\<close> the value of the local \<^verbatim>\<open>vsize\<close> then.\<close>

definition parse_stat :: "int \<Rightarrow> stat_data \<Rightarrow> string \<Rightarrow> stat_data" where
  "parse_stat v0 junk procPidStat =
     (let st = Some procPidStat;
          (d, st) = ext_field (32, sd_pid, sd_pid_update) (junk, st);
          (cmd, st) = ext_word st;
          (c, st) = ext_char (sd_state d) st;
          d = d\<lparr>sd_state := c\<rparr>;
          (d, st) = fold ext_field stat_fields_1 (d, st);
          (d, st) = fold ext_field stat_fields_2 (d, st);
          (vsize, st) = ext_num 64 v0 st;
          (rss, st) = ext_num 64 v0 st;
          (d, st) = ext_field (64, rsslim, rsslim_update) (d, st)
      in d\<lparr>vsizeKb := cdiv vsize 1024\<rparr>)"

section \<open>Scanning a file of \<^verbatim>\<open>/proc\<close>\<close>

definition strstr :: "string \<Rightarrow> string \<Rightarrow> string option" where
  "strstr hay needle =
     (let s = takeWhile (\<lambda>c. c \<noteq> CHR 0x00) hay in map_option (\<lambda>k. drop k s) (search needle s))"

text \<open>\<^verbatim>\<open>sscanf(p, "%s%d", buf, &n)\<close> with \<^verbatim>\<open>char buf[64]\<close>, where \<open>n\<close> holds \<open>old\<close>.\<close>

definition sscanf_sd :: "string option \<Rightarrow> int \<Rightarrow> int res" where
  "sscanf_sd p old =
     (case p of None \<Rightarrow> Inl NullPointer
      | Some s \<Rightarrow>
          if 64 \<le> length (first_word s) then Inl OutOfBounds
          else Inr (case scan_ints 1 (scan_word s) of [] \<Rightarrow> old | v # _ \<Rightarrow> v))"

text \<open>\<^verbatim>\<open>sscanf(p, "%s%s", buf, name)\<close>.\<close>

definition sscanf_ss :: "string option \<Rightarrow> string \<Rightarrow> string res" where
  "sscanf_ss p old =
     (case p of None \<Rightarrow> Inl NullPointer
      | Some s \<Rightarrow>
          if 64 \<le> length (first_word s) \<or> 64 \<le> length (first_word (scan_word s)) then Inl OutOfBounds
          else Inr (if first_word (scan_word s) = [] then old else first_word (scan_word s)))"

section \<open>The figures of the machine\<close>

text \<open>The members of the class, and the \<^verbatim>\<open>static\<close> variables of \<^verbatim>\<open>updateCpu\<close>.\<close>

record system_info =
  processNum :: int
  threadsNum :: int
  memTotal :: int
  memFree :: int
  memCached :: int
  memSwapCached :: int
  memRate :: "double list"
  systemRate :: double
  userRate :: double
  idleRate :: double
  cpuRate :: "double list"
  processes :: "(int, process) ordered_map"
  minProcessData :: "(int, min_process) ordered_map"
  lastSysTime :: int
  lastUserTime :: int
  lastIdle :: int
  lastCpu :: int

definition no_info :: system_info where
  "no_info =
     \<lparr>processNum = 0, threadsNum = 0, memTotal = 0, memFree = 0, memCached = 0, memSwapCached = 0,
      memRate = [], systemRate = 0, userRate = 0, idleRate = 0, cpuRate = [],
      processes = [], minProcessData = [],
      lastSysTime = 0, lastUserTime = 0, lastIdle = 0, lastCpu = 0\<rparr>"

text \<open>
  The outside: the text of every file (empty if it cannot be read), the users, the entries of
  \<^verbatim>\<open>/proc\<close> (\<open>None\<close> if it cannot be opened), and the values of what is not initialised, among
  them the result of a division by zero.
\<close>

record proc_world =
  file_text :: "string \<Rightarrow> string"
  passwd :: "int \<Rightarrow> string option"
  entries :: "string list option"
  junk_ints :: "int list"
  junk_name :: string
  junk_stat :: stat_data
  junk_double :: double

definition rate :: "proc_world \<Rightarrow> int \<Rightarrow> int \<Rightarrow> double" where
  "rate W x a = (if a = 0 then junk_double W else ddiv (of_int x) (of_int a))"

definition updateMem :: "proc_world \<Rightarrow> system_info \<Rightarrow> system_info res" where
  "updateMem W si =
     (let tmp = file_text W ''/proc/meminfo''
      in if tmp = [] then Inr si
         else bindR (sscanf_sd (strstr tmp ''MemTotal:'') (memTotal si)) (\<lambda>total.
              bindR (sscanf_sd (strstr tmp ''MemFree:'') (memFree si)) (\<lambda>free.
              bindR (sscanf_sd (strstr tmp ''Buffers:'') (memSwapCached si)) (\<lambda>buffers.
              bindR (sscanf_sd (strstr tmp ''Cached:'') (memCached si)) (\<lambda>cached.
              bindR (sscanf_sd (strstr tmp ''SwapCached:'') buffers) (\<lambda>swap.
                Inr (si\<lparr>memTotal := total, memFree := free, memCached := add32 cached buffers,
                        memSwapCached := swap,
                        memRate := push_rate (rate W (to_int32 (total - free)) total) (memRate si)\<rparr>)))))))"

definition updateCpu :: "proc_world \<Rightarrow> system_info \<Rightarrow> system_info res" where
  "updateCpu W si =
     (let tmp = file_text W ''/proc/stat''
      in if tmp = [] then Inr si
         else bindR (scan_cpu (junk_ints W) tmp) (\<lambda>vals.
           let currUserTime = vals ! 0;
               currSysTime = vals ! 2;
               currIdleTime = vals ! 3;
               currCpuTime = foldl add32 (hd vals) (tl vals);
               s = to_int32 (currSysTime - lastSysTime si);
               u = to_int32 (currUserTime - lastUserTime si);
               i = to_int32 (currIdleTime - lastIdle si);
               a = to_int32 (currCpuTime - lastCpu si)
           in Inr (si\<lparr>systemRate := rate W s a, userRate := rate W u a, idleRate := rate W i a,
                       cpuRate := push_rate (dround (1 - rate W i a)) (cpuRate si),
                       lastSysTime := currSysTime, lastUserTime := currUserTime,
                       lastIdle := currIdleTime, lastCpu := currCpuTime\<rparr>)))"

definition si_readFile :: "int \<Rightarrow> string list \<Rightarrow> string" where
  "si_readFile ret reads = readFile ret reads"

definition si_getCpuTime :: "proc_world \<Rightarrow> int res" where
  "si_getCpuTime W =
     (let tmp = file_text W ''/proc/stat''
      in if tmp = [] then Inr 0
         else bindR (scan_cpu (junk_ints W) tmp) (\<lambda>vals. Inr (foldl add32 (hd vals) (tl vals))))"

section \<open>The table of processes\<close>

text \<open>What the first file of one process says.\<close>

record status =
  st_pid :: int
  st_user :: string
  st_name :: string
  st_threads :: int
  st_rss :: int

definition read_status :: "proc_world \<Rightarrow> string \<Rightarrow> status res" where
  "read_status W tmp =
     bindR (sscanf_sd (strstr tmp ''Pid:'') 0) (\<lambda>pid.
     bindR (sscanf_sd (strstr tmp ''Uid:'') pid) (\<lambda>uid.
     bindR (case passwd W uid of None \<Rightarrow> Inl NullPointer | Some u \<Rightarrow> Inr u) (\<lambda>user.
     bindR (sscanf_ss (strstr tmp ''Name:'') (junk_name W)) (\<lambda>nm.
     bindR (sscanf_sd (strstr tmp ''Threads:'') uid) (\<lambda>n.
     bindR (case strstr tmp ''VmRSS:'' of None \<Rightarrow> Inr 0 | Some p \<Rightarrow> sscanf_sd (Some p) n) (\<lambda>rss.
       Inr \<lparr>st_pid = pid, st_user = user, st_name = nm, st_threads = n, st_rss = rss\<rparr>))))))"

text \<open>What is done with a process seen for the first time, and with one seen before.\<close>

definition first_sample :: "status \<Rightarrow> stat_data \<Rightarrow> int \<Rightarrow> system_info \<Rightarrow> system_info" where
  "first_sample t data ctime si =
     (let ps = pushCpuRate 0 (pushMemory 0
                 (new_process\<lparr>ps_pid := st_pid t, ps_user := st_user t, ps_command := st_name t,
                              ps_threads := st_threads t\<rparr>));
          ps = ps\<lparr>lastUtime := to_int32 (utime data), lastStime := to_int32 (stime data),
                  lastCtime := ctime\<rparr>;
          minps = \<lparr>mp_pid = st_pid t, mp_user = st_user t, mp_command = st_name t,
                   mp_threads = st_threads t, mp_mem = 0, mp_cpu = 0\<rparr>
      in si\<lparr>processes := map_put (st_pid t) ps (processes si),
            minProcessData :=
              (case map_of (minProcessData si) (st_pid t) of
                 None \<Rightarrow> map_put (st_pid t) minps (minProcessData si) | Some _ \<Rightarrow> minProcessData si)\<rparr>)"

definition cpu_usage :: "stat_data \<Rightarrow> int \<Rightarrow> process \<Rightarrow> double" where
  "cpu_usage data ctime ps =
     (let userTime = max 0 (to_int32 (utime data - lastUtime ps));
          sysTime = max 0 (to_int32 (stime data - lastStime ps));
          cpuTime = max 1 (to_int32 (ctime - lastCtime ps))
      in ddiv (of_int (add32 userTime sysTime)) (of_int cpuTime))"

definition next_sample :: "status \<Rightarrow> stat_data \<Rightarrow> int \<Rightarrow> process \<Rightarrow> system_info \<Rightarrow> system_info" where
  "next_sample t data ctime ps si =
     (let r = cpu_usage data ctime ps;
          ps = (pushCpuRate r (pushMemory (st_rss t) ps))
                 \<lparr>lastUtime := to_int32 (utime data), lastStime := to_int32 (stime data),
                  lastCtime := ctime\<rparr>;
          m0 = (case map_of (minProcessData si) (st_pid t) of
                  None \<Rightarrow> \<lparr>mp_pid = 0, mp_user = [], mp_command = [], mp_threads = 0, mp_mem = 0, mp_cpu = 0\<rparr>
                | Some m \<Rightarrow> m)
      in si\<lparr>processes := map_put (st_pid t) ps (processes si),
            minProcessData :=
              map_put (st_pid t) (m0\<lparr>mp_mem := st_rss t, mp_cpu := r\<rparr>) (minProcessData si)\<rparr>)"

text \<open>
  One entry of the directory; the result says whether the loop goes on: when a file of a process
  cannot be read, the function returns.  The two counters are its local variables.
\<close>

definition proc_path :: "string \<Rightarrow> string \<Rightarrow> string" where
  "proc_path d_name f = snprintf_cut 64 (''/proc/'' @ d_name @ f)"

definition update_one ::
  "proc_world \<Rightarrow> string \<Rightarrow> system_info \<times> int \<times> int \<Rightarrow> (bool \<times> system_info \<times> int \<times> int) res" where
  "update_one W d_name s =
     (case s of (si, pn, tn) \<Rightarrow>
        let tmp = file_text W (proc_path d_name ''/status'')
        in if tmp = [] then Inr (False, s)
           else bindR (read_status W tmp) (\<lambda>t.
             let pn = add32 pn 1;
                 tn = add32 tn (st_threads t);
                 tmp = file_text W (proc_path d_name ''/stat'')
             in if tmp = [] then Inr (False, si, pn, tn)
                else (let data = parse_stat (vsizeKb (junk_stat W)) (junk_stat W) tmp
                      in bindR (si_getCpuTime W) (\<lambda>ctime.
                        case map_of (processes si) (st_pid t) of
                           None \<Rightarrow> Inr (True, first_sample t data ctime si, pn, tn)
                         | Some ps \<Rightarrow> Inr (True, next_sample t data ctime ps si, pn, tn)))))"

fun update_entries ::
  "proc_world \<Rightarrow> string list \<Rightarrow> system_info \<times> int \<times> int \<Rightarrow> (bool \<times> system_info \<times> int \<times> int) res" where
  "update_entries W [] s = Inr (True, s)"
| "update_entries W (d_name # ds) s =
     (if d_name \<noteq> [] \<and> isdigit (hd d_name)
      then bindR (update_one W d_name s)
             (\<lambda>(go_on, s). if go_on then update_entries W ds s else Inr (False, s))
      else update_entries W ds s)"

text \<open>The first entry of the directory is read before the loop and dropped.\<close>

definition updateProcess :: "proc_world \<Rightarrow> system_info \<Rightarrow> system_info res" where
  "updateProcess W si =
     (case entries W of None \<Rightarrow> Inl NullPointer
      | Some ds \<Rightarrow>
          bindR (update_entries W (drop 1 ds) (si, 0, 0)) (\<lambda>(go_on, si, pn, tn).
            Inr (if go_on then si\<lparr>processNum := pn, threadsNum := tn\<rparr> else si)))"

definition update_info :: "proc_world \<Rightarrow> system_info \<Rightarrow> system_info res" where
  "update_info W si = bindR (bindR (updateMem W si) (updateCpu W)) (updateProcess W)"

definition new_info :: "proc_world \<Rightarrow> system_info res" where
  "new_info W = update_info W no_info"

section \<open>The table is consistent\<close>

definition ps_ok :: "int \<Rightarrow> process \<Rightarrow> min_process option \<Rightarrow> bool" where
  "ps_ok pid p m \<longleftrightarrow>
     ps_pid p = pid \<and> cpu_list p \<noteq> [] \<and> length (cpu_list p) \<le> 512 \<and>
     length (mem_list p) = length (cpu_list p) \<and>
     m = Some \<lparr>mp_pid = pid, mp_user = ps_user p, mp_command = ps_command p,
               mp_threads = ps_threads p, mp_mem = hd (mem_list p), mp_cpu = hd (cpu_list p)\<rparr>"

fun entry_ok :: "int \<Rightarrow> process option \<Rightarrow> min_process option \<Rightarrow> bool" where
  "entry_ok pid None m = (m = None)"
| "entry_ok pid (Some p) m = ps_ok pid p m"

definition si_inv :: "system_info \<Rightarrow> bool" where
  "si_inv si \<longleftrightarrow> length (memRate si) \<le> 511 \<and> length (cpuRate si) \<le> 511 \<and>
     ordered (processes si) \<and> ordered (minProcessData si) \<and>
     (\<forall>pid. entry_ok pid (map_of (processes si) pid) (map_of (minProcessData si) pid))"

text \<open>What is listed stays listed, with the name, the user and the threads it had at first.\<close>

definition keeps_listed :: "system_info \<Rightarrow> system_info \<Rightarrow> bool" where
  "keeps_listed si si' \<longleftrightarrow>
     (\<forall>pid p. map_of (processes si) pid = Some p \<longrightarrow>
        (\<exists>p'. map_of (processes si') pid = Some p' \<and> ps_user p' = ps_user p \<and>
           ps_command p' = ps_command p \<and> ps_threads p' = ps_threads p))"

lemma keeps_listed_refl [simp]: "keeps_listed si si"
  by (simp add: keeps_listed_def)

lemma keeps_listed_trans: "keeps_listed a b \<Longrightarrow> keeps_listed b c \<Longrightarrow> keeps_listed a c"
  unfolding keeps_listed_def by metis

lemma push_512_simps [simp]:
  "length xs \<le> 512 \<Longrightarrow> length (push_512 x xs) = min 512 (Suc (length xs))"
  "length xs \<le> 512 \<Longrightarrow> hd (push_512 x xs) = x"
  "length xs \<le> 512 \<Longrightarrow> push_512 x xs \<noteq> []"
  by (simp_all add: samples.push_take min_def)

lemma si_invD:
  "si_inv si \<Longrightarrow> map_of (processes si) pid = Some p \<Longrightarrow> ps_ok pid p (map_of (minProcessData si) pid)"
  "si_inv si \<Longrightarrow> map_of (processes si) pid = None \<Longrightarrow> map_of (minProcessData si) pid = None"
  unfolding si_inv_def by (metis entry_ok.simps)+

lemma si_inv_same:
  "si_inv si \<Longrightarrow> processes si' = processes si \<Longrightarrow> minProcessData si' = minProcessData si \<Longrightarrow>
   length (memRate si') \<le> 511 \<Longrightarrow> length (cpuRate si') \<le> 511 \<Longrightarrow> si_inv si'"
  by (simp add: si_inv_def)

lemma si_inv_bounds: "si_inv si \<Longrightarrow> length (memRate si) \<le> 511" "si_inv si \<Longrightarrow> length (cpuRate si) \<le> 511"
  by (simp_all add: si_inv_def)

lemma updateMem_ok:
  assumes "si_inv si" "updateMem W si = Inr si'"
  shows "si_inv si' \<and> processes si' = processes si"
proof (cases "file_text W ''/proc/meminfo'' = []")
  case True
  with assms show ?thesis by (simp add: updateMem_def)
next
  case False
  with assms(2) obtain total free cached swap x where
    "si' = si\<lparr>memTotal := total, memFree := free, memCached := cached, memSwapCached := swap,
      memRate := push_rate x (memRate si)\<rparr>"
    by (auto simp: updateMem_def Let_def)
  with assms(1) rates.push_bound [OF si_inv_bounds(1) [OF assms(1)]] si_inv_bounds(2) show ?thesis
    by (auto intro: si_inv_same)
qed

lemma updateCpu_ok:
  assumes "si_inv si" "updateCpu W si = Inr si'"
  shows "si_inv si' \<and> processes si' = processes si"
proof (cases "file_text W ''/proc/stat'' = []")
  case True
  with assms show ?thesis by (simp add: updateCpu_def)
next
  case False
  with assms(2) rates.push_bound [OF si_inv_bounds(2) [OF assms(1)]] si_inv_bounds(1) [OF assms(1)]
  have "length (memRate si') \<le> 511" "length (cpuRate si') \<le> 511"
    "processes si' = processes si" "minProcessData si' = minProcessData si"
    by (auto simp: updateCpu_def Let_def)
  with assms(1) show ?thesis by (auto intro: si_inv_same)
qed

lemma si_inv_at:
  assumes "si_inv si" "ps_ok pid (the (map_of (processes si') pid)) (map_of (minProcessData si') pid)"
    and "map_of (processes si') pid \<noteq> None"
    and "\<And>q. q \<noteq> pid \<Longrightarrow> map_of (processes si') q = map_of (processes si) q \<and> map_of (minProcessData si') q = map_of (minProcessData si) q"
    and "ordered (processes si')" "ordered (minProcessData si')"
    and "memRate si' = memRate si" "cpuRate si' = cpuRate si"
  shows "si_inv si'"
proof -
  have "entry_ok q (map_of (processes si') q) (map_of (minProcessData si') q)" for q
  proof (cases "q = pid")
    case True
    with assms(2,3) show ?thesis by auto
  next
    case False
    with assms(1) assms(4) [of q] show ?thesis by (simp add: si_inv_def)
  qed
  with assms(1,5-8) show ?thesis by (simp add: si_inv_def)
qed

lemma si_inv_ordered: "si_inv si \<Longrightarrow> ordered (processes si)" "si_inv si \<Longrightarrow> ordered (minProcessData si)"
  by (simp_all add: si_inv_def)

lemma first_sample_ok:
  assumes "si_inv si" "map_of (processes si) (st_pid t) = None"
  shows "si_inv (first_sample t data c si) \<and> keeps_listed si (first_sample t data c si)"
proof
  from si_invD(2) [OF assms] have "map_of (minProcessData si) (st_pid t) = None" .
  then show "si_inv (first_sample t data c si)"
    by (intro si_inv_at [OF assms(1), of "st_pid t"])
      (simp_all add: first_sample_def Let_def pushMemory_def pushCpuRate_def new_process_def ps_ok_def
        si_inv_ordered [OF assms(1)])
  show "keeps_listed si (first_sample t data c si)"
    using assms(2) by (auto simp: keeps_listed_def first_sample_def Let_def)
qed

lemma next_sample_ok:
  assumes "si_inv si" "map_of (processes si) (st_pid t) = Some p"
  shows "si_inv (next_sample t data c p si) \<and> keeps_listed si (next_sample t data c p si)"
proof
  from si_invD(1) [OF assms] have "ps_ok (st_pid t) p (map_of (minProcessData si) (st_pid t))" .
  then show "si_inv (next_sample t data c p si)"
    by (intro si_inv_at [OF assms(1), of "st_pid t"])
      (simp_all add: next_sample_def Let_def pushMemory_def pushCpuRate_def ps_ok_def
        si_inv_ordered [OF assms(1)])
  show "keeps_listed si (next_sample t data c p si)"
    using assms(2) by (auto simp: keeps_listed_def next_sample_def Let_def pushMemory_def pushCpuRate_def)
qed

lemma update_one_ok:
  assumes "si_inv si" "update_one W d (si, pn, tn) = Inr (go_on, si', pn', tn')"
  shows "si_inv si' \<and> keeps_listed si si'"
  using assms first_sample_ok [OF assms(1)] next_sample_ok [OF assms(1)]
  by (auto simp: update_one_def Let_def split: if_splits option.splits)

lemma update_entries_ok:
  "si_inv si \<Longrightarrow> update_entries W ds (si, pn, tn) = Inr (go_on, si', pn', tn') \<Longrightarrow>
   si_inv si' \<and> keeps_listed si si'"
proof (induction ds arbitrary: si pn tn)
  case (Cons d ds)
  show ?case
  proof (cases "d \<noteq> [] \<and> isdigit (hd d)")
    case True
    with Cons.prems(2) obtain m si1 p1 t1 where
      one: "update_one W d (si, pn, tn) = Inr (m, si1, p1, t1)"
      and rest: "(if m then update_entries W ds (si1, p1, t1) else Inr (False, si1, p1, t1)) =
        Inr (go_on, si', pn', tn')"
      by auto
    note si1 = update_one_ok [OF Cons.prems(1) one]
    show ?thesis
    proof (cases m)
      case True
      with rest Cons.IH [of si1 p1 t1] si1 show ?thesis by (auto intro: keeps_listed_trans)
    next
      case False
      with rest si1 show ?thesis by simp
    qed
  next
    case False
    with Cons show ?thesis by auto
  qed
qed simp

lemma update_info_ok:
  assumes "si_inv si" "update_info W si = Inr si'"
  shows "si_inv si' \<and> keeps_listed si si'"
proof -
  from assms(2) obtain si1 si2 where si1: "updateMem W si = Inr si1"
    and c: "updateCpu W si1 = Inr si2" and p: "updateProcess W si2 = Inr si'"
    by (auto simp: update_info_def)
  from updateMem_ok [OF assms(1) si1] updateCpu_ok [OF _ c]
  have si2: "si_inv si2" "keeps_listed si si2" by (simp_all add: keeps_listed_def)
  from p obtain ds go_on si3 pn tn where
    si3: "update_entries W (drop 1 ds) (si2, 0, 0) = Inr (go_on, si3, pn, tn)"
      "si' = (if go_on then si3\<lparr>processNum := pn, threadsNum := tn\<rparr> else si3)"
    by (auto simp: updateProcess_def split: option.splits)
  from update_entries_ok [OF si2(1) si3(1)]
  have "si_inv si'" "keeps_listed si2 si'"
    by (simp_all add: si3(2) si_inv_def keeps_listed_def)
  with si2(2) show ?thesis by (blast intro: keeps_listed_trans)
qed

lemma updates_ok:
  "si_inv si \<Longrightarrow> runR update_info Ws si = Inr si' \<Longrightarrow> si_inv si' \<and> keeps_listed si si'"
proof (induction Ws arbitrary: si)
  case (Cons W Ws)
  then obtain si1 where "update_info W si = Inr si1" "runR update_info Ws si1 = Inr si'" by auto
  with Cons.IH [of si1] update_info_ok [OF Cons.prems(1)] show ?case
    by (blast intro: keeps_listed_trans)
qed simp

lemma no_info_inv: "si_inv no_info"
  by (simp add: si_inv_def no_info_def)

section \<open>Parsing the line of one process\<close>

definition stat_line :: "int list \<Rightarrow> string" where
  "stat_line vs = concat (map (\<lambda>v. CHR '' '' # dec_int v) vs)"

definition fits :: "nat \<Rightarrow> int \<Rightarrow> bool" where
  "fits w v \<longleftrightarrow> - (2 ^ (w - 1)) \<le> v \<and> v < 2 ^ (w - 1)"

definition no_digit :: "string \<Rightarrow> bool" where
  "no_digit rest \<longleftrightarrow> rest = [] \<or> \<not> isdigit (hd rest)"

lemma space_facts [simp]: "isspace (CHR '' '')" "\<not> isdigit (CHR '' '')" "\<not> isspace (CHR ''-'')"
  by (simp_all add: isspace_def isdigit_def)

lemma no_digit_stat_line: "no_digit rest \<Longrightarrow> no_digit (stat_line vs @ rest)"
  by (cases vs) (simp_all add: stat_line_def no_digit_def)

lemma dec_int_first: "\<exists>c cs. dec_int v = c # cs \<and> \<not> isspace c"
  using dec_nat_Cons [of "nat v"] isdigit_not_isspace by (auto simp: dec_int_def)

lemma int_prefix_dec_int:
  assumes "no_digit rest"
  shows "int_prefix (dec_int v @ rest) = Some (dec_int v, rest)"
proof -
  have digits: "takeWhile isdigit (dec_nat n @ rest) = dec_nat n" for n
    using isdigit_dec_nat [of _ n] assms by (cases rest) (auto simp: takeWhile_append no_digit_def)
  show ?thesis
  proof (cases "v < 0")
    case True
    then show ?thesis by (simp add: int_prefix_def dec_int_def digits Let_def)
  next
    case False
    obtain c cs where c: "dec_nat (nat v) = c # cs" "isdigit c" using dec_nat_Cons by blast
    with False digits [of "nat v"] isdigit_not_isspace [OF c(2)] isdigit_not_sign [OF c(2)] show ?thesis
      by (simp add: int_prefix_def dec_int_def Let_def)
  qed
qed

lemma int_prefix_space: "isspace c \<Longrightarrow> int_prefix (c # s) = int_prefix s"
  by (simp add: int_prefix_def)

lemma signed_value_dec_int: "signed_value (dec_int v) = v"
proof (cases "v < 0")
  case True
  then show ?thesis by (simp add: signed_value_def dec_int_def digits_val_dec_nat)
next
  case False
  obtain c cs where c: "dec_nat (nat v) = c # cs" "isdigit c" using dec_nat_Cons by blast
  with False isdigit_not_sign [OF c(2)] digits_val_dec_nat [of "nat v"] show ?thesis
    by (simp add: signed_value_def dec_int_def del: digits_val.simps)
qed

lemma ext_num_dec_int:
  assumes "fits w v" "no_digit rest" "sp = [] \<or> sp = '' ''"
  shows "ext_num w old (Some (sp @ dec_int v @ rest)) = (v, Some rest)"
proof -
  obtain c cs where c: "dec_int v = c # cs" "\<not> isspace c" using dec_int_first by blast
  then have "dropWhile isspace (sp @ dec_int v @ rest) \<noteq> []" using assms(3) by auto
  moreover have "int_prefix (sp @ dec_int v @ rest) = Some (dec_int v, rest)"
    using assms(3) int_prefix_dec_int [OF assms(2)] by (auto simp: int_prefix_space)
  ultimately show ?thesis
    using assms(1) by (simp add: ext_num_def signed_value_dec_int fits_def Let_def)
qed

lemma ext_fields_line:
  "list_all2 (\<lambda>g v. fits (fst g) v) gs vs \<Longrightarrow> no_digit rest \<Longrightarrow>
   fold ext_field gs (d, Some (stat_line vs @ rest)) =
     (fold (\<lambda>(g, v). snd (snd g) (\<lambda>_. v)) (zip gs vs) d, Some rest)"
proof (induction gs arbitrary: vs d)
  case (Cons g gs)
  then obtain v vs' where vs: "vs = v # vs'" "fits (fst g) v" by (auto simp: list_all2_Cons1)
  obtain w get put where g: "g = (w, get, put)" by (cases g) auto
  have "ext_num w (get d) (Some ('' '' @ dec_int v @ stat_line vs' @ rest)) =
      (v, Some (stat_line vs' @ rest))"
    using vs(2) g by (intro ext_num_dec_int no_digit_stat_line Cons.prems(2)) simp_all
  then have "ext_field g (d, Some (stat_line vs @ rest)) = (put (\<lambda>_. v) d, Some (stat_line vs' @ rest))"
    by (simp add: ext_field_def g vs(1) stat_line_def)
  with Cons vs g show ?case by simp
qed (simp add: stat_line_def)

lemma ext_fields_keep:
  "(\<And>g v d. g \<in> set gs \<Longrightarrow> sel (snd (snd g) (\<lambda>_. v) d) = sel d) \<Longrightarrow>
   sel (fst (fold ext_field gs ds)) = sel (fst ds)"
proof (induction gs arbitrary: ds)
  case (Cons g gs)
  from Cons.IH [of "ext_field g ds"] Cons.prems have
    "sel (fst (fold ext_field gs (ext_field g ds))) = sel (fst (ext_field g ds))"
    by simp
  also have "\<dots> = sel (fst ds)"
  proof -
    obtain w get put where g: "g = (w, get, put)" by (cases g) auto
    obtain d st where ds: "ds = (d, st)" by force
    obtain v st' where "ext_num w (get d) st = (v, st')" by force
    with Cons.prems [of g v d] show ?thesis by (simp add: ext_field_def g ds)
  qed
  finally show ?case by simp
qed simp

lemma later_fields [simp]:
  "utime (fst (fold ext_field stat_fields_2 ds)) = utime (fst ds)"
  "stime (fst (fold ext_field stat_fields_2 ds)) = stime (fst ds)"
proof -
  have "utime (snd (snd g) (\<lambda>_. v) d) = utime d \<and> stime (snd (snd g) (\<lambda>_. v) d) = stime d"
    if "g \<in> set stat_fields_2" for g v d
    using that by (auto simp: stat_fields_2_def)
  then show "utime (fst (fold ext_field stat_fields_2 ds)) = utime (fst ds)"
    "stime (fst (fold ext_field stat_fields_2 ds)) = stime (fst ds)"
    by (simp_all add: ext_fields_keep)
qed

lemma failed_fields: "fold ext_field gs (d, None) = (fold (\<lambda>g d. snd (snd g) (\<lambda>_. fst (snd g) d) d) gs d, None)"
  by (induction gs arbitrary: d) (simp_all add: ext_field_def ext_num_def split: prod.split)

text \<open>The rest of \<^verbatim>\<open>parse\<close> does not touch the two times.\<close>

lemma parse_stat_times:
  assumes "ext_field (32, sd_pid, sd_pid_update) (junk, Some text) = (d, st)"
    and "ext_word st = (cmd, st1)" "ext_char (sd_state d) st1 = (c, st2)"
    and "fold ext_field stat_fields_1 (d\<lparr>sd_state := c\<rparr>, st2) = (d', st3)"
  shows "utime (parse_stat v0 junk text) = utime d'" "stime (parse_stat v0 junk text) = stime d'"
proof -
  obtain d2 st4 where d2: "fold ext_field stat_fields_2 (d', st3) = (d2, st4)" by force
  with later_fields [of "(d', st3)"] have "utime d2 = utime d'" "stime d2 = stime d'" by simp_all
  moreover obtain v5 st5 where "ext_num 64 v0 st4 = (v5, st5)" by force
  moreover obtain v6 st6 where "ext_num 64 v0 st5 = (v6, st6)" by force
  moreover obtain v7 st7 where "ext_num 64 (rsslim d2) st6 = (v7, st7)" by force
  then have "ext_field (64, rsslim, rsslim_update) (d2, st6) = (d2\<lparr>rsslim := v7\<rparr>, st7)"
    by (simp add: ext_field_def)
  ultimately show "utime (parse_stat v0 junk text) = utime d'" "stime (parse_stat v0 junk text) = stime d'"
    using assms d2 unfolding parse_stat_def Let_def by (simp_all only: prod.case) simp_all
qed

section \<open>Properties\<close>

lemma first_word_app:
  "w \<noteq> [] \<Longrightarrow> \<forall>c\<in>set w. \<not> isspace c \<Longrightarrow>
   first_word (CHR '' '' # w @ CHR '' '' # rest) = w \<and> scan_word (CHR '' '' # w @ CHR '' '' # rest) = CHR '' '' # rest"
  by (cases w) (auto simp: first_word_def scan_word_def takeWhile_append2 dropWhile_append2)

text \<open>
  Property C11.  \<^verbatim>\<open>StatData::parse\<close> reads the two processor times of a process from the right
  columns of its line, for any values that fit, any command without white space and whatever
  follows the twelve columns up to them.
\<close>

theorem parse_stat_exact:
  assumes pid: "fits 32 pid" and cmd: "cmd \<noteq> []" "\<forall>c\<in>set cmd. \<not> isspace c"
    and len: "length vs = 12" and state: "\<not> isspace stc"
    and small: "\<forall>v\<in>set (take 6 vs). fits 32 v" "\<forall>v\<in>set (drop 6 vs). fits 64 v"
    and rest: "no_digit rest"
  shows "let d = parse_stat v0 junk (dec_int pid @ '' '' @ cmd @ '' '' @ [stc] @ stat_line vs @ rest)
    in utime d = vs ! 10 \<and> stime d = vs ! 11"
proof -
  let ?d1 = "junk\<lparr>sd_pid := pid\<rparr>" and ?text = "dec_int pid @ '' '' @ cmd @ '' '' @ [stc] @ stat_line vs @ rest"
  from len have "vs = [vs ! 0, vs ! 1, vs ! 2, vs ! 3, vs ! 4, vs ! 5, vs ! 6, vs ! 7, vs ! 8, vs ! 9, vs ! 10, vs ! 11]"
    by (intro nth_equalityI) (simp_all add: less_Suc_eq numeral_eq_Suc, elim disjE, simp_all)
  then obtain a b c e f g h i j k l m where vs: "vs = [a, b, c, e, f, g, h, i, j, k, l, m]" by blast
  have "ext_num 32 (sd_pid junk) (Some ([] @ ?text)) = (pid, Some ('' '' @ cmd @ '' '' @ [stc] @ stat_line vs @ rest))"
    by (rule ext_num_dec_int [OF pid]) (simp_all add: no_digit_def)
  then have 1: "ext_field (32, sd_pid, sd_pid_update) (junk, Some ?text) =
      (?d1, Some ('' '' @ cmd @ '' '' @ [stc] @ stat_line vs @ rest))"
    by (simp add: ext_field_def)
  have 2: "ext_word (Some ('' '' @ cmd @ '' '' @ [stc] @ stat_line vs @ rest)) =
      (cmd, Some ('' '' @ [stc] @ stat_line vs @ rest))"
    using first_word_app [OF cmd, of "[stc] @ stat_line vs @ rest"] cmd(1) by (simp add: ext_word_def)
  have 3: "ext_char (sd_state ?d1) (Some ('' '' @ [stc] @ stat_line vs @ rest)) = (stc, Some (stat_line vs @ rest))"
    using state by (simp add: ext_char_def)
  have "list_all2 (\<lambda>g v. fits (fst g) v) stat_fields_1 vs"
    using small by (simp add: vs stat_fields_1_def)
  from ext_fields_line [OF this rest, of "?d1\<lparr>sd_state := stc\<rparr>"] parse_stat_times [OF 1 2 3]
  show ?thesis by (simp add: Let_def vs stat_fields_1_def)
qed

theorem parse_stat_exact_witness:
  "\<forall>junk. utime (parse_stat 0 junk (dec_int 3770 @ '' '' @ ''(cat)'' @ '' '' @ ''R'' @
     stat_line [3718, 3770, 3718, 34818, 3770, 4202496, 214, 0, 0, 0, 7, 9] @ '' 0'')) = 7"
  using parse_stat_exact [of 3770 "''(cat)''" "[3718, 3770, 3718, 34818, 3770, 4202496, 214, 0, 0, 0, 7, 9]"
      "CHR ''R''" "'' 0''" 0]
  by (simp add: fits_def no_digit_def isspace_def Let_def)

text \<open>
  Fact.  A command with a space in it, as the kernel puts between the parentheses whatever
  the process calls itself, derails the parser: the second word is taken for the state and the
  parent, and both processor times are left as they were, uninitialised.
\<close>

theorem parse_stat_space:
  assumes pid: "fits 32 pid" and cmd: "w \<noteq> []" "\<forall>c\<in>set w. \<not> isspace c"
    and "\<not> isspace c1" "\<not> isspace c2" "\<not> isdigit c2" "c2 \<noteq> CHR ''-''" "c2 \<noteq> CHR ''+''"
  shows "let d = parse_stat v0 junk (dec_int pid @ '' '' @ w @ '' '' @ [c1, c2] @ rest)
    in utime d = utime junk \<and> stime d = stime junk"
proof -
  let ?d1 = "junk\<lparr>sd_pid := pid\<rparr>" and ?text = "dec_int pid @ '' '' @ w @ '' '' @ [c1, c2] @ rest"
  have "ext_num 32 (sd_pid junk) (Some ([] @ ?text)) = (pid, Some ('' '' @ w @ '' '' @ [c1, c2] @ rest))"
    by (rule ext_num_dec_int [OF pid]) (simp_all add: no_digit_def)
  then have 1: "ext_field (32, sd_pid, sd_pid_update) (junk, Some ?text) =
      (?d1, Some ('' '' @ w @ '' '' @ [c1, c2] @ rest))"
    by (simp add: ext_field_def)
  have 2: "ext_word (Some ('' '' @ w @ '' '' @ [c1, c2] @ rest)) = (w, Some ('' '' @ [c1, c2] @ rest))"
    using first_word_app [OF cmd, of "[c1, c2] @ rest"] cmd(1) by (simp add: ext_word_def)
  have 3: "ext_char (sd_state ?d1) (Some ('' '' @ [c1, c2] @ rest)) = (c1, Some (c2 # rest))"
    using assms(4) by (simp add: ext_char_def)
  have "int_prefix (c2 # rest) = None" using assms(5-8) by (simp add: int_prefix_def)
  then have "ext_field (32, ppid, ppid_update) (d', Some (c2 # rest)) = (d'\<lparr>ppid := 0\<rparr>, None)" for d'
    using assms(5) by (simp add: ext_field_def ext_num_def)
  then have "fold ext_field stat_fields_1 (?d1\<lparr>sd_state := c1\<rparr>, Some (c2 # rest)) =
      fold ext_field (tl stat_fields_1) (?d1\<lparr>sd_state := c1, ppid := 0\<rparr>, None)"
    by (simp add: stat_fields_1_def)
  then show ?thesis
    using parse_stat_times [OF 1 2 3] by (simp add: Let_def failed_fields) (simp add: stat_fields_1_def)
qed

theorem parse_stat_space_witness:
  "\<forall>junk. utime (parse_stat 0 junk (dec_int 5 @ '' '' @ ''(tmux:'' @ '' '' @ ''se'' @ ''rver) S 1 5 5'')) = utime junk"
  using parse_stat_space [of 5 "''(tmux:''" "CHR ''s''" "CHR ''e''" 0 _ "''rver) S 1 5 5''"]
  by (simp add: fits_def isspace_def isdigit_def Let_def)

text \<open>
  Property C10.  The table of processes is consistent and its histories are bounded: after any number
  of updates, whatever the files say, both maps have the same processes, each under its number, the
  short entry has the newest sample of the long one, and no history is longer than 512 samples (511
  for the machine); and what is listed once stays listed, under the name and the user of the process
  that had the number first.
\<close>

theorem table_consistent:
  assumes "runR update_info Ws no_info = Inr si" and "runR update_info Ws' si = Inr si'"
  shows "si_inv si' \<and> keeps_listed si si'"
proof -
  from updates_ok [OF no_info_inv assms(1)] have "si_inv si" by simp
  from updates_ok [OF this assms(2)] show ?thesis .
qed

definition sample_world :: proc_world where
  "sample_world =
     \<lparr>file_text = (\<lambda>path.
        if path = ''/proc/5/status''
        then ''Name: cat'' @ [CHR 0x0A] @ ''Pid: 5'' @ [CHR 0x0A] @ ''Uid: 0'' @ [CHR 0x0A] @
             ''Threads: 1'' @ [CHR 0x0A]
        else if path = ''/proc/5/stat''
        then ''5 (cat) R 1 5 5 0 5 0 1 0 0 0 7 9''
        else []),
      passwd = (\<lambda>uid. if uid = 0 then Some ''root'' else None),
      entries = Some [''.'', ''..'', ''5''], junk_ints = [], junk_name = [],
      junk_stat = \<lparr>sd_pid = 0, sd_state = CHR ''R'', ppid = 0, pgrp = 0, session = 0, tty_nr = 0,
        tpgid = 0, sd_flags = 0, minflt = 0, cminflt = 0, majflt = 0, cmajflt = 0, utime = 0,
        stime = 0, cutime = 0, cstime = 0, priority = 0, sd_nice = 0, sd_threads = 0,
        itrealvalue = 0, starttime = 0, vsizeKb = 0, rssKb = 0, rsslim = 0\<rparr>,
      junk_double = 0\<rparr>"

definition listed :: "system_info res \<Rightarrow> int \<Rightarrow> (string \<times> int) option" where
  "listed r pid =
     (case r of Inl _ \<Rightarrow> None
      | Inr si \<Rightarrow> map_option (\<lambda>p. (ps_command p, lastUtime p)) (map_of (processes si) pid))"

lemma sample_listed:
  "listed (update_info sample_world no_info) 5 = Some (''cat'', 7)"
  "listed (runR update_info [sample_world, sample_world] no_info) 5 = Some (''cat'', 7)"
  by code_simp+

theorem table_consistent_witness:
  "\<exists>si si' m. runR update_info [sample_world] no_info = Inr si \<and>
     runR update_info [sample_world] si = Inr si' \<and> map_of (minProcessData si') 5 = Some m \<and> mp_command m = ''cat''"
proof -
  obtain si where si: "runR update_info [sample_world] no_info = Inr si"
    using sample_listed(1) by (auto simp: listed_def split: sum.splits)
  with sample_listed(2) obtain si' where si': "runR update_info [sample_world] si = Inr si'"
    by (auto simp: listed_def split: sum.splits)
  with si sample_listed(2) obtain p where p: "map_of (processes si') 5 = Some p" "ps_command p = ''cat''"
    by (auto simp: listed_def)
  have "si_inv si'" using table_consistent [OF si si'] by simp
  from si_invD(1) [OF this p(1)] si si' p(2) show ?thesis by (auto simp: ps_ok_def)
qed

end
