(* ===== verification/SmallFiles.thy ===== *)
theory SmallFiles
  imports ByteBuffer
begin

text \<open>
  \<^verbatim>\<open>examples/procmon/ReadSmallFile.h\<close> and \<^verbatim>\<open>examples/procmon/ReadSmallFile.cpp\<close>: a file is read
  into a string of bounded size.  What \<^verbatim>\<open>open\<close>, \<^verbatim>\<open>fstat\<close>, \<^verbatim>\<open>pread\<close> and \<^verbatim>\<open>read\<close> do are arguments;
  \<open>read pos n\<close> is the answer to a request for \<open>n\<close> bytes when \<open>pos\<close> bytes have been read before.
\<close>

definition kBufferSize :: nat where
  "kBufferSize = 64 * 1024"

record small_file =
  rf_fd :: int
  rf_err :: int
  rf_buf :: string

definition new_small_file :: "int \<Rightarrow> int \<Rightarrow> small_file" where
  "new_small_file open_ret errno =
     \<lparr>rf_fd = open_ret, rf_err = (if open_ret < 0 then errno else 0), rf_buf = [CHR 0x00]\<rparr>"

text \<open>The error, what is stored through \<^verbatim>\<open>size\<close>, and the file; the rest of \<^verbatim>\<open>buf_\<close> is left out.\<close>

definition readToBuffer :: "(nat \<Rightarrow> readv_result) \<Rightarrow> small_file \<Rightarrow> int \<times> int option \<times> small_file" where
  "readToBuffer pread f =
     (if 0 \<le> rf_fd f
      then (case pread (kBufferSize - 1) of
              ReadData d \<Rightarrow> (rf_err f, Some (int (length d)), f\<lparr>rf_buf := d @ [CHR 0x00]\<rparr>)
            | ReadErr e \<Rightarrow> (e, None, f))
      else (rf_err f, None, f))"

datatype file_kind = Regular | Directory | Other

record file_stat =
  kind :: file_kind
  st_size :: int
  st_mtime :: int
  st_ctime :: int

definition EISDIR :: int where "EISDIR = 21"

text \<open>The loop: the text so far grows by what each call delivers, until it has \<open>m\<close> bytes.\<close>

function read_text :: "(nat \<Rightarrow> nat \<Rightarrow> readv_result) \<Rightarrow> nat \<Rightarrow> int \<Rightarrow> string \<Rightarrow> int \<times> string" where
  "read_text read m err content =
     (if length content < m
      then (case read (length content) (min (m - length content) kBufferSize) of
              ReadErr e \<Rightarrow> (e, content)
            | ReadData d \<Rightarrow> if d = [] then (err, content) else read_text read m err (content @ d))
      else (err, content))"
  by auto

termination
  by (relation "measure (\<lambda>(read, m, err, content). m - length content)")
     (auto intro!: diff_less_mono2 simp: length_greater_0_conv simp del: length_0_conv)

declare read_text.simps [simp del]

text \<open>
  \<open>stat\<close> is \<open>None\<close> if the caller passes no pointer for the size; otherwise the answer of \<^verbatim>\<open>fstat\<close>.
  The results are the error, the text, and the size, if it is stored.  \<^verbatim>\<open>content->reserve\<close> does
  not show, and the two times are copied from the same answer.
\<close>

definition readToString ::
  "(nat \<Rightarrow> nat \<Rightarrow> readv_result) \<Rightarrow> (int + file_stat) option \<Rightarrow> int \<Rightarrow> string \<Rightarrow> small_file \<Rightarrow>
   int \<times> string \<times> int option" where
  "readToString read stat maxSize content f =
     (if 0 \<le> rf_fd f
      then (let (err, size) =
                  (case stat of
                     None \<Rightarrow> (rf_err f, None)
                   | Some (Inl e) \<Rightarrow> (e, None)
                   | Some (Inr st) \<Rightarrow>
                       (case kind st of
                          Regular \<Rightarrow> (rf_err f, Some (st_size st))
                        | Directory \<Rightarrow> (EISDIR, None)
                        | Other \<Rightarrow> (rf_err f, None)));
                (err, content) = read_text read (nat (as_size maxSize)) err []
            in (err, content, size))
      else (rf_err f, content, None))"

definition read_small_file ::
  "int \<Rightarrow> int \<Rightarrow> (nat \<Rightarrow> nat \<Rightarrow> readv_result) \<Rightarrow> (int + file_stat) option \<Rightarrow> int \<Rightarrow> string \<Rightarrow>
   int \<times> string \<times> int option" where
  "read_small_file open_ret errno read stat maxSize content =
     readToString read stat maxSize content (new_small_file open_ret errno)"

section \<open>What is read\<close>

text \<open>
  The law of \<^verbatim>\<open>read\<close> on a file with the text \<open>t\<close>: it delivers at least a byte and at most what is
  asked for of what is left, and nothing at the end.
\<close>

definition reads_text :: "string \<Rightarrow> (nat \<Rightarrow> nat \<Rightarrow> readv_result) \<Rightarrow> bool" where
  "reads_text t read \<longleftrightarrow>
     (\<forall>pos n. 0 < n \<longrightarrow>
        (if pos < length t
         then \<exists>k. 0 < k \<and> k \<le> n \<and> k \<le> length t - pos \<and> read pos n = ReadData (take k (drop pos t))
         else read pos n = ReadData []))"

lemma reads_text_whole: "reads_text t (\<lambda>pos n. ReadData (take n (drop pos t)))"
proof -
  have "\<exists>k. 0 < k \<and> k \<le> n \<and> k \<le> length t - pos \<and> take n (drop pos t) = take k (drop pos t)"
    if "0 < n" "pos < length t" for pos n
    using that by (intro exI [of _ "min n (length t - pos)"]) (simp add: min_def)
  then show ?thesis by (simp add: reads_text_def)
qed

lemma read_text_prefix:
  assumes "reads_text t read" "p \<le> m"
  shows "read_text read m err (take p t) = (err, take m t)"
  using assms(2)
proof (induction "m - p" arbitrary: p rule: less_induct)
  case less
  show ?case
  proof (cases "p < m \<and> p < length t")
    case True
    then have n: "0 < min (m - p) kBufferSize" by (simp add: kBufferSize_def)
    from True have "length (take p t) = p" by simp
    moreover from assms(1) n True obtain k where
      k: "0 < k" "k \<le> min (m - p) kBufferSize" "k \<le> length t - p"
        "read p (min (m - p) kBufferSize) = ReadData (take k (drop p t))"
      unfolding reads_text_def by meson
    moreover have "take k (drop p t) \<noteq> []" using k(1) True by simp
    moreover have "take p t @ take k (drop p t) = take (p + k) t" by (simp add: take_add)
    moreover have "read_text read m err (take (p + k) t) = (err, take m t)"
    proof (rule less.hyps)
      from k(2) have "k \<le> m - p" by simp
      with k(1) True show "m - (p + k) < m - p" "p + k \<le> m" by linarith+
    qed
    ultimately show ?thesis using True by (subst read_text.simps) simp
  next
    case False
    show ?thesis
    proof (cases "length (take p t) < m")
      case True
      with False less.prems have t: "take p t = t" "take m t = t" "length t < m" by auto
      then have "0 < min (m - length t) kBufferSize" by (simp add: kBufferSize_def)
      then have "read (length t) (min (m - length t) kBufferSize) = ReadData []"
        using assms(1) unfolding reads_text_def by (meson less_irrefl)
      with t show ?thesis by (subst read_text.simps) simp
    next
      case full: False
      with less.prems have "p = m" by simp
      then have "take p t = take m t" by simp
      with full show ?thesis by (subst read_text.simps) simp
    qed
  qed
qed

lemma read_small_file_prefix:
  assumes "reads_text t read" "0 \<le> maxSize" "maxSize < 2 ^ 31" "0 \<le> open_ret"
  shows "read_small_file open_ret errno read None maxSize content = (0, take (nat maxSize) t, None)"
  using read_text_prefix [OF assms(1), of 0 "nat maxSize" 0] assms(2-4)
  by (simp add: read_small_file_def readToString_def new_small_file_def as_size_nonneg)

text \<open>
  Property C40.  \<^verbatim>\<open>readFile\<close> returns, and what it returns is the file, cut to the size asked for,
  however the kernel splits it into pieces; no error is reported.
\<close>

theorem read_small_file_exact:
  assumes "reads_text t read" "0 \<le> maxSize" "maxSize < 2 ^ 31" "0 \<le> open_ret"
  shows "read_small_file open_ret errno read None maxSize content = (0, take (nat maxSize) t, None)"
  by (rule read_small_file_prefix [OF assms])

theorem read_small_file_exact_witness:
  "read_small_file 3 0 (\<lambda>pos n. ReadData (take (min n 2) (drop pos ''abcde''))) None 4 [] = (0, ''abcd'', None)"
proof -
  have "reads_text ''abcde'' (\<lambda>pos n. ReadData (take (min n 2) (drop pos ''abcde'')))"
    unfolding reads_text_def
  proof (intro allI impI)
    fix pos n :: nat
    assume "0 < n"
    then show "if pos < length ''abcde''
      then \<exists>k. 0 < k \<and> k \<le> n \<and> k \<le> length ''abcde'' - pos \<and>
        ReadData (take (min n 2) (drop pos ''abcde'')) = ReadData (take k (drop pos ''abcde''))
      else ReadData (take (min n 2) (drop pos ''abcde'')) = ReadData []"
      by (auto intro: exI [of _ "min (min n 2) (length ''abcde'' - pos)"] simp: min_def)
  qed
  from read_small_file_exact [OF this, of 4 3 0 "[]"] show ?thesis by simp
qed

end
