(* ===== verification/JsonValues.thy ===== *)
theory JsonValues
  imports OrderedMaps CDouble
begin

text \<open>
  The values of \<^verbatim>\<open>examples/procmon/jsonxx.h\<close> and \<^verbatim>\<open>jsonxx.cc\<close>: \<^verbatim>\<open>Value\<close>, \<^verbatim>\<open>Array\<close> and \<^verbatim>\<open>Object\<close> with the
  operations that build and inspect them.  Every container owns what it holds and copies what is put
  into it, so a container is the list of its values.  \<^verbatim>\<open>Number\<close> is a \<^verbatim>\<open>long double\<close>, which holds every
  \<^verbatim>\<open>int\<close> and every \<^verbatim>\<open>double\<close> exactly; a finite one is a rational.  \<^verbatim>\<open>JSONXX_ASSERT\<close> stops the program
  in every build.
\<close>

section \<open>Values\<close>

datatype json =
    NUMBER rat
  | STRING string
  | BOOL bool
  | NULL
  | ARRAY "json list"
  | OBJECT "(string \<times> json) list"
  | INVALID

record json_object =
  value_map :: "json string_map"
  odd_key :: string

definition number_of_int :: "int \<Rightarrow> json" where
  "number_of_int n = NUMBER (of_int n)"

definition is_number :: "json \<Rightarrow> bool" where
  "is_number v \<longleftrightarrow> (case v of NUMBER _ \<Rightarrow> True | _ \<Rightarrow> False)"

definition is_string :: "json \<Rightarrow> bool" where
  "is_string v \<longleftrightarrow> (case v of STRING _ \<Rightarrow> True | _ \<Rightarrow> False)"

definition is_bool :: "json \<Rightarrow> bool" where
  "is_bool v \<longleftrightarrow> (case v of BOOL _ \<Rightarrow> True | _ \<Rightarrow> False)"

definition is_null :: "json \<Rightarrow> bool" where
  "is_null v \<longleftrightarrow> (case v of NULL \<Rightarrow> True | _ \<Rightarrow> False)"

definition is_array :: "json \<Rightarrow> bool" where
  "is_array v \<longleftrightarrow> (case v of ARRAY _ \<Rightarrow> True | _ \<Rightarrow> False)"

definition is_object :: "json \<Rightarrow> bool" where
  "is_object v \<longleftrightarrow> (case v of OBJECT _ \<Rightarrow> True | _ \<Rightarrow> False)"

definition get_number :: "json \<Rightarrow> rat res" where
  "get_number v = (case v of NUMBER x \<Rightarrow> Inr x | _ \<Rightarrow> Inl AssertionFailed)"

definition get_string :: "json \<Rightarrow> string res" where
  "get_string v = (case v of STRING s \<Rightarrow> Inr s | _ \<Rightarrow> Inl AssertionFailed)"

definition get_bool :: "json \<Rightarrow> bool res" where
  "get_bool v = (case v of BOOL b \<Rightarrow> Inr b | _ \<Rightarrow> Inl AssertionFailed)"

definition get_array :: "json \<Rightarrow> json list res" where
  "get_array v = (case v of ARRAY vs \<Rightarrow> Inr vs | _ \<Rightarrow> Inl AssertionFailed)"

definition get_object :: "json \<Rightarrow> json string_map res" where
  "get_object v = (case v of OBJECT m \<Rightarrow> Inr m | _ \<Rightarrow> Inl AssertionFailed)"

section \<open>Objects\<close>

definition new_object :: json_object where
  "new_object = \<lparr>value_map = [], odd_key = []\<rparr>"

definition put_member :: "string \<Rightarrow> json \<Rightarrow> json_object \<Rightarrow> json_object" where
  "put_member key v ob = ob\<lparr>odd_key := [], value_map := map_put key v (value_map ob)\<rparr>"

definition import_object :: "json_object \<Rightarrow> json_object \<Rightarrow> json_object" where
  "import_object other ob =
     ob\<lparr>odd_key := [], value_map := foldl (\<lambda>m (k, v). map_put k v m) (value_map ob) (value_map other)\<rparr>"

definition object_of :: "string \<Rightarrow> json \<Rightarrow> json_object" where
  "object_of key v = put_member key v new_object"

definition reset_object :: "json_object \<Rightarrow> json_object" where
  "reset_object ob = ob\<lparr>value_map := []\<rparr>"

definition assign_object :: "json_object \<Rightarrow> json_object \<Rightarrow> json_object" where
  "assign_object other ob = import_object other (reset_object (ob\<lparr>odd_key := []\<rparr>))"

text \<open>\<^verbatim>\<open>o << x\<close>: keys and values alternate; a key must be a string.\<close>

definition shift_value :: "json \<Rightarrow> json_object \<Rightarrow> json_object res" where
  "shift_value v ob =
     (if odd_key ob = [] then bindR (get_string v) (\<lambda>s. Inr (ob\<lparr>odd_key := s\<rparr>))
      else Inr ((import_object (object_of (odd_key ob) v) ob)\<lparr>odd_key := []\<rparr>))"

definition shift_object :: "json_object \<Rightarrow> json_object \<Rightarrow> json_object" where
  "shift_object other ob = (put_member (odd_key ob) (OBJECT (value_map other)) ob)\<lparr>odd_key := []\<rparr>"

definition object_size :: "json_object \<Rightarrow> nat" where
  "object_size ob = length (value_map ob)"

definition object_has :: "(json \<Rightarrow> bool) \<Rightarrow> string \<Rightarrow> json_object \<Rightarrow> bool" where
  "object_has is_type key ob \<longleftrightarrow>
     (case map_of (value_map ob) key of None \<Rightarrow> False | Some v \<Rightarrow> is_type v)"

definition object_get :: "(json \<Rightarrow> bool) \<Rightarrow> (json \<Rightarrow> 'a res) \<Rightarrow> string \<Rightarrow> json_object \<Rightarrow> 'a res" where
  "object_get is_type get key ob =
     assertR (object_has is_type key ob)
       (case map_of (value_map ob) key of None \<Rightarrow> Inl UseAfterFree | Some v \<Rightarrow> get v)"

definition object_get_or ::
  "(json \<Rightarrow> bool) \<Rightarrow> (json \<Rightarrow> 'a res) \<Rightarrow> string \<Rightarrow> 'a \<Rightarrow> json_object \<Rightarrow> 'a res" where
  "object_get_or is_type get key dflt ob =
     (if object_has is_type key ob
      then (case map_of (value_map ob) key of None \<Rightarrow> Inl UseAfterFree | Some v \<Rightarrow> get v)
      else Inr dflt)"

section \<open>Arrays\<close>

definition shift_element :: "json \<Rightarrow> json list \<Rightarrow> json list" where
  "shift_element v a = a @ [v]"

definition import_array :: "json list \<Rightarrow> json list \<Rightarrow> json list" where
  "import_array other a = a @ other"

definition append_array :: "json list \<Rightarrow> json list \<Rightarrow> json list" where
  "append_array other a = a @ [ARRAY other]"

definition array_has :: "(json \<Rightarrow> bool) \<Rightarrow> nat \<Rightarrow> json list \<Rightarrow> bool" where
  "array_has is_type i a \<longleftrightarrow> (if length a \<le> i then False else is_type (a ! i))"

definition array_get :: "(json \<Rightarrow> 'a res) \<Rightarrow> nat \<Rightarrow> json list \<Rightarrow> 'a res" where
  "array_get get i a = assertR (i < length a) (get (a ! i))"

definition array_get_or :: "(json \<Rightarrow> bool) \<Rightarrow> (json \<Rightarrow> 'a res) \<Rightarrow> nat \<Rightarrow> 'a \<Rightarrow> json list \<Rightarrow> 'a res" where
  "array_get_or is_type get i dflt a =
     (if array_has is_type i a then get (a ! i) else Inr dflt)"

section \<open>Typed access\<close>

text \<open>What \<^verbatim>\<open>is<T>\<close> and \<^verbatim>\<open>get<T>\<close> promise each other, for the five types that have a content.\<close>

locale typed_access =
  fixes is_type :: "json \<Rightarrow> bool" and get :: "json \<Rightarrow> 'a res" and make :: "'a \<Rightarrow> json"
  assumes is_make: "is_type (make x)"
    and get_make: "get (make x) = Inr x"
    and get_other: "\<not> is_type v \<Longrightarrow> get v = Inl AssertionFailed"
    and is_exhaustive: "is_type v \<Longrightarrow> \<exists>x. v = make x"
begin

lemma get_ok: "is_type v \<Longrightarrow> \<exists>x. get v = Inr x \<and> v = make x"
  using is_exhaustive [of v] by (auto simp: get_make)

lemma get_member:
  "object_get is_type get key ob =
     (case map_of (value_map ob) key of
        None \<Rightarrow> Inl AssertionFailed
      | Some v \<Rightarrow> if is_type v then get v else Inl AssertionFailed)"
  by (auto simp: object_get_def object_has_def assertR_def split: option.split)

lemma get_after_put: "object_get is_type get key (put_member key (make x) ob) = Inr x"
  by (simp add: get_member put_member_def is_make get_make)

lemma get_or_after_put: "object_get_or is_type get key dflt (put_member key (make x) ob) = Inr x"
  by (simp add: object_get_or_def object_has_def put_member_def is_make get_make)

lemma get_or_total: "\<exists>y. object_get_or is_type get key dflt ob = Inr y"
  using get_ok by (auto simp: object_get_or_def object_has_def split: option.splits)

lemma array_get_ok: "array_has is_type i a \<Longrightarrow> \<exists>x. array_get get i a = Inr x \<and> a ! i = make x"
  using get_ok [of "a ! i"] by (simp add: array_has_def array_get_def split: if_splits)

end

interpretation numbers: typed_access is_number get_number NUMBER
  by unfold_locales (auto simp: is_number_def get_number_def split: json.splits)

interpretation strings: typed_access is_string get_string STRING
  by unfold_locales (auto simp: is_string_def get_string_def split: json.splits)

interpretation bools: typed_access is_bool get_bool BOOL
  by unfold_locales (auto simp: is_bool_def get_bool_def split: json.splits)

interpretation arrays: typed_access is_array get_array ARRAY
  by unfold_locales (auto simp: is_array_def get_array_def split: json.splits)

interpretation objects: typed_access is_object get_object OBJECT
  by unfold_locales (auto simp: is_object_def get_object_def split: json.splits)

section \<open>Well-formed objects\<close>

text \<open>The members stand in the order of \<^verbatim>\<open>std::map\<close>, in every object at every depth.\<close>

fun json_ok :: "json \<Rightarrow> bool" where
  "json_ok (ARRAY vs) \<longleftrightarrow> (\<forall>v\<in>set vs. json_ok v)"
| "json_ok (OBJECT m) \<longleftrightarrow> ordered m \<and> (\<forall>(k, v)\<in>set m. json_ok v)"
| "json_ok _ \<longleftrightarrow> True"

definition object_ok :: "json_object \<Rightarrow> bool" where
  "object_ok ob \<longleftrightarrow> json_ok (OBJECT (value_map ob))"

lemma set_map_put: "set (map_put k v m) \<subseteq> insert (k, v) (set m)"
  by (induction m) (auto split: if_splits)

lemma put_member_ok: "object_ok ob \<Longrightarrow> json_ok v \<Longrightarrow> object_ok (put_member k v ob)"
  using set_map_put [of k v "value_map ob"] by (fastforce simp: object_ok_def put_member_def)

lemma put_all_ok:
  "json_ok (OBJECT m) \<Longrightarrow> \<forall>(k, v)\<in>set m'. json_ok v \<Longrightarrow>
   json_ok (OBJECT (foldl (\<lambda>m (k, v). map_put k v m) m m'))"
proof (induction m' arbitrary: m)
  case (Cons p m')
  obtain k v where p: "p = (k, v)" by force
  with Cons.prems put_member_ok [of "\<lparr>value_map = m, odd_key = []\<rparr>" v k] have "json_ok (OBJECT (map_put k v m))"
    by (simp add: object_ok_def put_member_def)
  from Cons.IH [OF this] Cons.prems(2) show ?case unfolding p by (simp del: json_ok.simps)
qed simp

lemma import_object_ok: "object_ok ob \<Longrightarrow> object_ok other \<Longrightarrow> object_ok (import_object other ob)"
  using put_all_ok [of "value_map ob" "value_map other"] by (simp add: object_ok_def import_object_def)

lemma new_object_ok: "object_ok new_object"
  by (simp add: object_ok_def new_object_def)

lemma shift_value_eq:
  "shift_value v ob =
     (if odd_key ob = [] then bindR (get_string v) (\<lambda>s. Inr (ob\<lparr>odd_key := s\<rparr>))
      else Inr (put_member (odd_key ob) v ob))"
  by (simp add: shift_value_def import_object_def object_of_def put_member_def new_object_def)

lemma shift_value_ok: "shift_value v ob = Inr ob' \<Longrightarrow> object_ok ob \<Longrightarrow> json_ok v \<Longrightarrow> object_ok ob'"
  using put_member_ok [of ob v "odd_key ob"]
  by (auto simp: shift_value_eq object_ok_def split: if_splits)

text \<open>Assigning copies the members, whatever was there before.\<close>

lemma assign_object_copies: "object_ok other \<Longrightarrow> value_map (assign_object other ob) = value_map other"
  using put_all_ordered [of "[]" "value_map other"]
  by (simp add: assign_object_def import_object_def reset_object_def object_ok_def)

section \<open>Writing an object member by member\<close>

definition shift_pairs :: "(string \<times> json) list \<Rightarrow> json_object \<Rightarrow> json_object res" where
  "shift_pairs kvs ob = runR (\<lambda>(k, v) ob. bindR (shift_value (STRING k) ob) (shift_value v)) kvs ob"

lemma shift_pair:
  "odd_key ob = [] \<Longrightarrow> k \<noteq> [] \<Longrightarrow>
   bindR (shift_value (STRING k) ob) (shift_value v) = Inr (put_member k v ob)"
  by (simp add: shift_value_eq get_string_def put_member_def)

text \<open>
  Fact.  \<^verbatim>\<open>o << k << v << \<dots>\<close> with keys that are not empty builds the object in which the last value
  written for a key is the one that is found, with nothing left over.
\<close>

theorem shift_pairs_builds:
  assumes "list_all (\<lambda>(k, v). k \<noteq> []) kvs"
  shows "\<exists>ob. shift_pairs kvs new_object = Inr ob \<and> odd_key ob = [] \<and>
     map_of (value_map ob) = map_of (rev kvs) \<and> ordered (value_map ob)"
proof -
  have "\<exists>ob'. shift_pairs kvs ob = Inr ob' \<and> odd_key ob' = [] \<and>
      map_of (value_map ob') = map_of (value_map ob) ++ map_of (rev kvs) \<and> ordered (value_map ob')"
    if "odd_key ob = []" "ordered (value_map ob)" "list_all (\<lambda>(k, v). k \<noteq> []) kvs" for ob
    using that
  proof (induction kvs arbitrary: ob)
    case (Cons p kvs)
    obtain k v where p: "p = (k, v)" by force
    let ?ob = "put_member k v ob"
    from Cons.IH [of ?ob] Cons.prems p shift_pair [of ob k v] show ?case
      by (auto simp: shift_pairs_def put_member_def map_add_assoc fun_eq_iff map_add_def split: option.split)
  qed (simp add: shift_pairs_def)
  from this [of new_object] assms show ?thesis by (simp add: new_object_def)
qed

end
