(* ===== verification/FloatText.thy ===== *)
theory FloatText
  imports CText CDouble
begin

text \<open>
  How a stream prints a floating-point number with \<^verbatim>\<open>std::setprecision(p)\<close> and the default
  notation, which is \<^verbatim>\<open>printf\<close>'s \<^verbatim>\<open>%.pLg\<close>: the exact value is rounded to \<open>p\<close> significant digits,
  ties to even; the exponent of the result decides between positional and scientific notation;
  zeros at the end of the fraction are dropped.  \<open>number_text\<close> is the grammar of a number in JSON
  (RFC 8259, section 6) together with its value.
\<close>

section \<open>Printing\<close>

definition decexp :: "rat \<Rightarrow> int" where
  "decexp x =
     (let (n, d) = quotient_of x;
          e = int (length (dec_nat (nat n))) - int (length (dec_nat (nat d)))
      in if 10 powi e \<le> x then e else e - 1)"

text \<open>The significant digits, as a number below \<open>10 ^ p\<close>, and the exponent of the first of them.\<close>

definition sig_digits :: "nat \<Rightarrow> rat \<Rightarrow> nat \<times> int" where
  "sig_digits p x =
     (let e = decexp x; m = nat (round_even (x * 10 powi (int p - 1 - e)))
      in if m = 10 ^ p then (10 ^ (p - 1), e + 1) else (m, e))"

definition drop_zeros :: "string \<Rightarrow> string" where
  "drop_zeros s = rev (dropWhile (\<lambda>c. c = CHR ''0'') (rev s))"

definition with_fraction :: "string \<Rightarrow> string \<Rightarrow> string" where
  "with_fraction i f = (if drop_zeros f = [] then i else i @ CHR ''.'' # drop_zeros f)"

definition exponent_text :: "int \<Rightarrow> string" where
  "exponent_text e =
     CHR ''e'' # (if e < 0 then CHR ''-'' else CHR ''+'') # pad_left 2 (CHR ''0'') (dec_nat (nat \<bar>e\<bar>))"

definition print_pos :: "nat \<Rightarrow> rat \<Rightarrow> string" where
  "print_pos p x =
     (let (m, e) = sig_digits p x; ds = dec_nat m
      in if - 4 \<le> e \<and> e < int p
         then (if 0 \<le> e then with_fraction (take (nat e + 1) ds) (drop (nat e + 1) ds)
               else with_fraction ''0'' (replicate (nat (- e - 1)) (CHR ''0'') @ ds))
         else with_fraction (take 1 ds) (drop 1 ds) @ exponent_text e)"

definition print_g :: "nat \<Rightarrow> rat \<Rightarrow> string" where
  "print_g p x =
     (if x = 0 then ''0'' else if x < 0 then CHR ''-'' # print_pos p (- x) else print_pos p x)"

section \<open>The grammar of a number\<close>

definition int_part :: "string \<Rightarrow> bool" where
  "int_part i \<longleftrightarrow> i \<noteq> [] \<and> list_all isdigit i \<and> (hd i = CHR ''0'' \<longrightarrow> i = ''0'')"

inductive frac_part :: "string \<Rightarrow> string \<Rightarrow> bool" where
  no_frac: "frac_part [] []"
| frac: "f \<noteq> [] \<Longrightarrow> list_all isdigit f \<Longrightarrow> frac_part (CHR ''.'' # f) f"

inductive exp_part :: "string \<Rightarrow> int \<Rightarrow> bool" where
  no_exp: "exp_part [] 0"
| exp_plain: "c \<in> {CHR ''e'', CHR ''E''} \<Longrightarrow> k \<noteq> [] \<Longrightarrow> list_all isdigit k \<Longrightarrow>
    exp_part (c # k) (int (digits_val 0 k))"
| exp_plus: "c \<in> {CHR ''e'', CHR ''E''} \<Longrightarrow> k \<noteq> [] \<Longrightarrow> list_all isdigit k \<Longrightarrow>
    exp_part (c # CHR ''+'' # k) (int (digits_val 0 k))"
| exp_minus: "c \<in> {CHR ''e'', CHR ''E''} \<Longrightarrow> k \<noteq> [] \<Longrightarrow> list_all isdigit k \<Longrightarrow>
    exp_part (c # CHR ''-'' # k) (- int (digits_val 0 k))"

inductive unsigned_text :: "string \<Rightarrow> rat \<Rightarrow> bool" where
  unsigned: "int_part i \<Longrightarrow> frac_part fr f \<Longrightarrow> exp_part ex k \<Longrightarrow>
    unsigned_text (i @ fr @ ex) (of_nat (digits_val 0 (i @ f)) * 10 powi (k - int (length f)))"

inductive number_text :: "string \<Rightarrow> rat \<Rightarrow> bool" where
  nonneg: "unsigned_text t v \<Longrightarrow> number_text t v"
| negative: "unsigned_text t v \<Longrightarrow> number_text (CHR ''-'' # t) (- v)"

section \<open>The decimal exponent\<close>

lemma dec_nat_length_pos: "0 < length (dec_nat n)"
  by simp

lemma dec_nat_bounds: "n < 10 ^ length (dec_nat n) \<and> (0 < n \<longrightarrow> 10 ^ (length (dec_nat n) - 1) \<le> n)"
proof (induction n rule: dec_nat.induct)
  case (1 n)
  show ?case
  proof (cases "n < 10")
    case True
    then show ?thesis by (subst (1 2) dec_nat.simps) auto
  next
    case False
    let ?k = "length (dec_nat (n div 10))"
    from 1 [OF False] False have "n div 10 < 10 ^ ?k" "10 ^ (?k - 1) \<le> n div 10" by auto
    then have "n < 10 * 10 ^ ?k" "10 * 10 ^ (?k - 1) \<le> n" by linarith+
    moreover have "10 * 10 ^ (?k - 1) = (10::nat) ^ ?k" by (metis dec_nat_length_pos power_eq_if not_gr_zero)
    moreover have "length (dec_nat n) = Suc ?k" using False by (subst dec_nat.simps) simp
    ultimately show ?thesis by simp
  qed
qed

lemma one_less_numeral_ten: "1 < (10::nat)"
  by simp

lemma dec_nat_length: "10 ^ k \<le> n \<Longrightarrow> n < 10 ^ Suc k \<Longrightarrow> length (dec_nat n) = Suc k"
proof -
  assume n: "10 ^ k \<le> n" "n < 10 ^ Suc k"
  moreover have "0 < n" using n(1) by (metis less_le_trans zero_less_numeral zero_less_power)
  ultimately have "(10::nat) ^ k < 10 ^ length (dec_nat n)" "(10::nat) ^ (length (dec_nat n) - 1) < 10 ^ Suc k"
    using dec_nat_bounds [of n] by linarith+
  then have "k < length (dec_nat n)" "length (dec_nat n) - 1 < Suc k"
    unfolding power_strict_increasing_iff [OF one_less_numeral_ten] by blast+
  then show ?thesis by simp
qed

lemma decexp_bounds:
  assumes "0 < x"
  shows "10 powi decexp x \<le> x \<and> x < 10 powi (decexp x + 1)"
proof -
  obtain n d where q: "quotient_of x = (n, d)" by force
  then have x: "x = of_int n / of_int d" and d: "0 < d"
    using quotient_of_div quotient_of_denom_pos by blast+
  with assms have n: "0 < n" by (simp add: zero_less_divide_iff)
  let ?a = "length (dec_nat (nat n))" and ?b = "length (dec_nat (nat d))"
  have nat: "nat n < 10 ^ ?a" "10 ^ (?a - 1) \<le> nat n" "nat d < 10 ^ ?b" "10 ^ (?b - 1) \<le> nat d"
    using dec_nat_bounds [of "nat n"] dec_nat_bounds [of "nat d"] n d by simp_all
  have cast: "(of_nat (nat n) :: rat) = of_int n" "(of_nat (nat d) :: rat) = of_int d"
    using n d by (simp_all add: of_nat_nat)
  have bn: "of_int n < (10 ^ ?a :: rat)" "10 ^ ?a \<le> 10 * (of_int n :: rat)"
    and bd: "of_int d < (10 ^ ?b :: rat)" "10 ^ ?b \<le> 10 * (of_int d :: rat)"
  proof -
    have "10 ^ ?a = (10 * 10 ^ (?a - 1) :: rat)" "10 ^ ?b = (10 * 10 ^ (?b - 1) :: rat)"
      by (metis dec_nat_length_pos power_eq_if not_gr_zero)+
    moreover from nat have "(of_nat (nat n) :: rat) < of_nat (10 ^ ?a)" "(of_nat (10 ^ (?a - 1)) :: rat) \<le> of_nat (nat n)"
      "(of_nat (nat d) :: rat) < of_nat (10 ^ ?b)" "(of_nat (10 ^ (?b - 1)) :: rat) \<le> of_nat (nat d)"
      unfolding of_nat_le_iff of_nat_less_iff by blast+
    ultimately show "of_int n < (10 ^ ?a :: rat)" "10 ^ ?a \<le> 10 * (of_int n :: rat)"
      "of_int d < (10 ^ ?b :: rat)" "10 ^ ?b \<le> 10 * (of_int d :: rat)"
      by (simp_all add: cast)
  qed
  have d0: "(0::rat) < of_int d" using d by simp
  have e: "10 powi (int ?a - int ?b) = (10 ^ ?a / 10 ^ ?b :: rat)"
    by (simp add: power_int_diff)
  have upper: "x < 10 * (10 ^ ?a / 10 ^ ?b)"
  proof -
    have "x * 10 ^ ?b \<le> x * (10 * of_int d)" using bd(2) assms by (intro mult_left_mono) auto
    also have "\<dots> = 10 * of_int n" using d0 by (simp add: x)
    also have "\<dots> < 10 * 10 ^ ?a" using bn(1) by simp
    finally show ?thesis by (simp add: pos_less_divide_eq)
  qed
  have lower: "10 ^ ?a / 10 ^ ?b \<le> 10 * x"
  proof -
    have "10 ^ ?a \<le> 10 * (x * of_int d)" using bn(2) d0 by (simp add: x)
    also have "\<dots> \<le> 10 * (x * 10 ^ ?b)" using bd(1) assms by simp
    finally show ?thesis by (simp add: pos_divide_le_eq)
  qed
  show ?thesis
    using upper lower q e
    by (auto simp: decexp_def power_int_add power_int_diff not_le Let_def mult.commute)
qed

lemma decexp_unique:
  assumes "10 powi e \<le> x" and "x < 10 powi (e + 1)"
  shows "decexp x = e"
proof -
  have "0 < x" using assms(1) by (meson less_le_trans zero_less_numeral zero_less_power_int)
  from decexp_bounds [OF this] assms
  have "(10::rat) powi e < 10 powi (decexp x + 1)" "(10::rat) powi decexp x < 10 powi (e + 1)"
    by linarith+
  then have "e < decexp x + 1" "decexp x < e + 1"
    by (meson power_int_increasing not_less one_le_numeral)+
  then show ?thesis by simp
qed

section \<open>Rounding to significant digits\<close>

definition rounded_pos :: "nat \<Rightarrow> rat \<Rightarrow> rat" where
  "rounded_pos p x = (case sig_digits p x of (m, e) \<Rightarrow> of_nat m * 10 powi (e - (int p - 1)))"

definition rounded :: "nat \<Rightarrow> rat \<Rightarrow> rat" where
  "rounded p x = (if x = 0 then 0 else if x < 0 then - rounded_pos p (- x) else rounded_pos p x)"

lemma powi_pred: "0 < p \<Longrightarrow> 10 powi (int p - 1) = (10 ^ (p - 1) :: rat)"
  by (cases p) simp_all

lemma powi_neg: "10 powi (a - b) = 1 / (10 powi (b - a) :: rat)"
  using power_int_minus [of "10 :: rat" "b - a"] by (simp add: divide_inverse)

lemma scaled_bounds:
  assumes "0 < x" "0 < p"
  shows "10 ^ (p - 1) \<le> x * 10 powi (int p - 1 - decexp x) \<and> x * 10 powi (int p - 1 - decexp x) < 10 ^ p"
proof -
  let ?s = "10 powi (int p - 1 - decexp x) :: rat"
  have s: "0 < ?s" by simp
  have p: "10 ^ (p - 1) = (10 powi (int p - 1) :: rat)" "10 ^ p = (10 powi int p :: rat)"
    using powi_pred [OF assms(2)] by simp_all
  have "10 powi decexp x * ?s \<le> x * ?s" "x * ?s < 10 powi (decexp x + 1) * ?s"
    using decexp_bounds [OF assms(1)] s by (auto intro: mult_right_mono mult_strict_right_mono)
  moreover have "10 powi decexp x * ?s = 10 powi (int p - 1)" "10 powi (decexp x + 1) * ?s = 10 powi int p"
    by (simp_all flip: power_int_add)
  ultimately show ?thesis by (simp only: p)
qed

lemma sig_digits_ok:
  assumes "0 < x" "0 < p" "sig_digits p x = (m, e)"
  shows "10 ^ (p - 1) \<le> m \<and> m < 10 ^ p"
    and "\<bar>of_nat m * 10 powi (e - (int p - 1)) - x\<bar> \<le> 10 powi (decexp x - (int p - 1)) / 2"
    and "e = decexp x \<or> e = decexp x + 1"
proof -
  define s where "s = (10 powi (int p - 1 - decexp x) :: rat)"
  define y where "y = x * s"
  define r where "r = round_even y"
  have s: "0 < s" "1 / s = 10 powi (decexp x - (int p - 1))"
    using powi_neg [of "decexp x" "int p - 1"] by (simp_all add: s_def)
  have y: "10 ^ (p - 1) \<le> y" "y < 10 ^ p"
    using scaled_bounds [OF assms(1,2)] by (simp_all add: y_def s_def)
  have near: "\<bar>of_int r - y\<bar> \<le> 1 / 2" unfolding r_def by (rule round_even_error)
  have "of_int (10 ^ (p - 1)) < (of_int r + 1 :: rat)" "(of_int r :: rat) < of_int (10 ^ p) + 1"
    using near y unfolding abs_le_iff by (simp_all only: of_int_power of_int_numeral) linarith+
  then have r: "10 ^ (p - 1) \<le> r" "r \<le> 10 ^ p"
    by (metis of_int_1 of_int_add of_int_less_iff zless_add1_eq order_le_less)+
  have r0: "0 \<le> r" using r(1) by (meson order_trans zero_le_numeral zero_le_power)
  have m: "sig_digits p x = (if nat r = 10 ^ p then (10 ^ (p - 1), decexp x + 1) else (nat r, decexp x))"
    by (simp add: sig_digits_def Let_def r_def y_def s_def)
  have nat_r: "10 ^ (p - 1) \<le> nat r" "nat r \<le> 10 ^ p"
    using r r0 by (simp_all add: le_nat_iff nat_le_iff)
  show "10 ^ (p - 1) \<le> m \<and> m < 10 ^ p"
    using m assms(2,3) nat_r by (auto split: if_splits)
  show "e = decexp x \<or> e = decexp x + 1"
    using m assms(3) by (auto split: if_splits)
  have "of_nat m * 10 powi (e - (int p - 1)) = of_int r / s"
  proof (cases "nat r = 10 ^ p")
    case True
    then have "(of_int r :: rat) = 10 ^ p" using r0 by (metis of_int_of_nat_eq int_nat_eq of_nat_numeral of_nat_power)
    moreover have "(10::rat) ^ (p - 1) * 10 powi (decexp x + 1 - (int p - 1)) = 10 ^ p * 10 powi (decexp x - (int p - 1))"
      using assms(2) by (cases p) (simp_all add: power_int_add power_int_diff)
    ultimately show ?thesis
      using True m assms(3) s(2) by (simp add: divide_inverse)
  next
    case False
    then show ?thesis using m assms(3) s(2) r0 by (simp add: divide_inverse)
  qed
  then have "of_nat m * 10 powi (e - (int p - 1)) - x = (of_int r - y) / s"
    using s(1) by (simp add: y_def field_simps)
  then have "\<bar>of_nat m * 10 powi (e - (int p - 1)) - x\<bar> = \<bar>of_int r - y\<bar> / s"
    using s(1) by (simp add: abs_divide)
  also have "\<dots> \<le> 1 / 2 / s" using near s(1) by (intro divide_right_mono) auto
  finally show "\<bar>of_nat m * 10 powi (e - (int p - 1)) - x\<bar> \<le> 10 powi (decexp x - (int p - 1)) / 2"
    by (simp add: s(2) [symmetric])
qed

text \<open>The relative error of \<open>p\<close> digits.\<close>

lemma rounded_pos_error:
  assumes "0 < x" "0 < p"
  shows "\<bar>rounded_pos p x - x\<bar> \<le> x / (2 * 10 ^ (p - 1))"
proof -
  obtain m e where me: "sig_digits p x = (m, e)" by force
  have "\<bar>rounded_pos p x - x\<bar> \<le> 10 powi (decexp x - (int p - 1)) / 2"
    using sig_digits_ok(2) [OF assms me] by (simp add: rounded_pos_def me)
  also have "\<dots> = 10 powi decexp x / (2 * 10 ^ (p - 1))"
    using powi_pred [OF assms(2)] by (simp add: power_int_diff)
  also have "\<dots> \<le> x / (2 * 10 ^ (p - 1))"
    using decexp_bounds [OF assms(1)] by (simp add: divide_right_mono)
  finally show ?thesis .
qed

lemma rounded_error: "0 < p \<Longrightarrow> \<bar>rounded p x - x\<bar> \<le> \<bar>x\<bar> / (2 * 10 ^ (p - 1))"
  using rounded_pos_error [of x p] rounded_pos_error [of "- x" p]
  by (cases x "0 :: rat" rule: linorder_cases) (simp_all add: rounded_def abs_le_iff)

section \<open>What is printed is the rounded number\<close>

lemma digit_facts [simp]: "isdigit (CHR ''0'')" "digit_val (CHR ''0'') = 0"
  by (simp_all add: isdigit_def digit_val_def)

lemma digits_val_zeros: "digits_val 0 (replicate k (CHR ''0'') @ s) = digits_val 0 s"
  by (induction k) simp_all

lemma digits_val_append_zeros:
  "list_all isdigit s \<Longrightarrow> digits_val a (s @ replicate k (CHR ''0'')) = digits_val a s * 10 ^ k"
proof (induction k)
  case (Suc k)
  have "digits_val a ((s @ replicate k (CHR ''0'')) @ [CHR ''0'']) =
      digits_val (digits_val a (s @ replicate k (CHR ''0''))) [CHR ''0'']"
    using Suc.prems by (intro digits_val_append) (auto simp: list_all_iff)
  with Suc show ?case by (simp add: replicate_append_same)
qed simp

lemma takeWhile_replicate:
  "takeWhile (\<lambda>c. c = x) xs = replicate (length (takeWhile (\<lambda>c. c = x) xs)) x"
  by (induction xs) auto

lemma drop_zeros_split: "\<exists>k. s = drop_zeros s @ replicate k (CHR ''0'')"
proof -
  let ?z = "takeWhile (\<lambda>c. c = CHR ''0'') (rev s)"
  have "?z = replicate (length ?z) (CHR ''0'')"
    by (rule takeWhile_replicate)
  moreover have "s = drop_zeros s @ rev ?z"
    unfolding drop_zeros_def by (metis rev_append rev_rev_ident takeWhile_dropWhile_id)
  ultimately show ?thesis by (metis rev_replicate)
qed

lemma with_fraction_text:
  assumes "int_part i" "list_all isdigit f" "exp_part ex k"
  shows "unsigned_text (with_fraction i f @ ex) (of_nat (digits_val 0 (i @ f)) * 10 powi (k - int (length f)))"
proof -
  obtain z g where g: "drop_zeros f = g" "f = g @ replicate z (CHR ''0'')"
    using drop_zeros_split by blast
  have digits: "list_all isdigit g" using assms(2) by (simp add: g(2))
  have "with_fraction i f = i @ (if g = [] then [] else CHR ''.'' # g)"
    by (simp add: with_fraction_def g(1))
  moreover have "frac_part (if g = [] then [] else CHR ''.'' # g) g"
    using digits by (auto intro: frac_part.intros)
  moreover have "(of_nat (digits_val 0 (i @ g)) * 10 powi (k - int (length g)) :: rat) =
      of_nat (digits_val 0 (i @ f)) * 10 powi (k - int (length f))"
  proof -
    have "digits_val 0 (i @ f) = digits_val 0 (i @ g) * 10 ^ z"
      using digits_val_append_zeros [of "i @ g" 0 z] assms(1) digits by (simp add: int_part_def g(2))
    moreover have "10 powi (k - int (length f)) = (10 powi (k - int (length g)) / 10 ^ z :: rat)"
    proof -
      have e: "k - int (length f) = (k - int (length g)) - int z" by (simp add: g(2))
      show ?thesis unfolding e using power_int_diff [of "10 :: rat" "k - int (length g)" "int z"] by simp
    qed
    ultimately show ?thesis by simp
  qed
  ultimately show ?thesis
    using unsigned [OF assms(1) _ assms(3), of _ g] by simp
qed

lemma dec_nat_hd: "0 < n \<Longrightarrow> hd (dec_nat n) \<noteq> CHR ''0''"
proof (induction n rule: dec_nat.induct)
  case (1 n)
  show ?case
  proof (cases "n < 10")
    case True
    then have "of_char (hd (dec_nat n)) = 48 + n" by (subst dec_nat.simps) simp
    with "1.prems" show ?thesis by auto
  next
    case False
    with "1.IH" show ?thesis by (subst dec_nat.simps) simp
  qed
qed

lemma list_all_dec_nat: "list_all isdigit (dec_nat n)"
  by (simp add: list_all_iff isdigit_dec_nat)

lemma exponent_text_part: "exp_part (exponent_text e) e"
proof -
  let ?k = "pad_left 2 (CHR ''0'') (dec_nat (nat \<bar>e\<bar>))"
  have k: "?k \<noteq> []" "list_all isdigit ?k" "int (digits_val 0 ?k) = \<bar>e\<bar>"
    using isdigit_dec_nat by (auto simp: pad_left_def list_all_iff digits_val_zeros digits_val_dec_nat)
  show ?thesis
  proof (cases "e < 0")
    case True
    with exp_minus [OF _ k(1,2), of "CHR ''e''"] k(3) show ?thesis by (simp add: exponent_text_def)
  next
    case False
    with exp_plus [OF _ k(1,2), of "CHR ''e''"] k(3) show ?thesis by (simp add: exponent_text_def)
  qed
qed

lemma print_pos_text:
  assumes "0 < x" "0 < p"
  shows "unsigned_text (print_pos p x) (rounded_pos p x)"
proof -
  obtain m e where me: "sig_digits p x = (m, e)" by force
  let ?ds = "dec_nat m"
  from sig_digits_ok(1) [OF assms me] have m: "10 ^ (p - 1) \<le> m" "m < 10 ^ p" by simp_all
  with assms(2) have len: "length ?ds = p" using dec_nat_length [of "p - 1" m] by simp
  have m0: "0 < m" using m(1) by (metis less_le_trans zero_less_numeral zero_less_power)
  have lead: "int_part (take (Suc j) ?ds)" for j
  proof -
    obtain c cs where c: "?ds = c # cs" using dec_nat_Cons by blast
    with dec_nat_hd [OF m0] list_all_dec_nat [of m] show ?thesis
      by (auto simp: int_part_def list_all_iff dest: in_set_takeD)
  qed
  have tail: "list_all isdigit (drop j ?ds)" for j
    using list_all_dec_nat [of m] by (auto simp: list_all_iff dest: in_set_dropD)
  have val: "digits_val 0 (take j ?ds @ drop j ?ds) = m" for j
    by (simp add: digits_val_dec_nat)
  consider "0 \<le> e" "e < int p" | "- 4 \<le> e" "e < 0" | "\<not> (- 4 \<le> e \<and> e < int p)" by linarith
  then show ?thesis
  proof cases
    case 1
    have "int (length (drop (Suc (nat e)) ?ds)) = int p - 1 - e" using 1 by (simp add: len)
    with with_fraction_text [OF lead tail no_exp, of "nat e" "Suc (nat e)"] 1 show ?thesis
      by (simp add: print_pos_def rounded_pos_def me digits_val_dec_nat Let_def)
  next
    case 2
    let ?f = "replicate (nat (- e - 1)) (CHR ''0'') @ ?ds"
    have "int_part ''0''" "list_all isdigit ?f"
      using isdigit_dec_nat by (auto simp: int_part_def list_all_iff)
    from with_fraction_text [OF this no_exp] have
      "unsigned_text (with_fraction ''0'' ?f) (of_nat m * 10 powi (- int (length ?f)))"
      by (simp add: digits_val_zeros digits_val_dec_nat)
    moreover have "- int (length ?f) = e - (int p - 1)" using 2 by (simp add: len)
    ultimately show ?thesis
      using 2 assms(2) by (simp add: print_pos_def rounded_pos_def me del: length_append)
  next
    case 3
    have "int (length (drop 1 ?ds)) = int p - 1" using assms(2) by (simp add: len)
    with with_fraction_text [OF lead tail exponent_text_part, of 0 1 e] 3 val [of 1] show ?thesis
      by (auto simp: print_pos_def rounded_pos_def me Let_def)
  qed
qed

lemma print_g_text: "0 < p \<Longrightarrow> number_text (print_g p x) (rounded p x)"
proof (cases x "0 :: rat" rule: linorder_cases)
  case equal
  have "int_part ''0''" by (simp add: int_part_def)
  from unsigned [OF this no_frac no_exp] have "unsigned_text ''0'' 0" by simp
  with equal show ?thesis by (simp add: print_g_def rounded_def nonneg)
qed (simp_all add: print_g_def rounded_def print_pos_text negative nonneg)

text \<open>An integer that has at most \<open>p\<close> digits is printed as it is.\<close>

lemma sig_digits_int:
  assumes "0 < n" "n < 10 ^ p"
  shows "sig_digits p (of_nat n) = (n * 10 ^ (p - length (dec_nat n)), int (length (dec_nat n)) - 1)"
proof -
  let ?l = "length (dec_nat n)"
  have l: "0 < ?l" "?l \<le> p"
    using assms length_dec_nat [of n p] by (cases p; simp)+
  have b: "10 ^ (?l - 1) \<le> n" "n < 10 ^ ?l" using dec_nat_bounds [of n] assms(1) by simp_all
  have "(of_nat (10 ^ (?l - 1)) :: rat) \<le> of_nat n" "(of_nat n :: rat) < of_nat (10 ^ ?l)"
    using b unfolding of_nat_le_iff of_nat_less_iff by blast+
  then have e: "decexp (of_nat n) = int ?l - 1"
    using powi_pred [OF l(1)] by (intro decexp_unique) simp_all
  have "int p - 1 - (int ?l - 1) = int (p - ?l)" using l(2) by simp
  then have "(of_nat n :: rat) * 10 powi (int p - 1 - (int ?l - 1)) = of_int (int (n * 10 ^ (p - ?l)))"
    by (simp only: power_int_of_nat) simp
  then have "nat (round_even ((of_nat n :: rat) * 10 powi (int p - 1 - (int ?l - 1)))) = n * 10 ^ (p - ?l)"
    by (simp only: round_even_of_int nat_int)
  moreover have "n * 10 ^ (p - ?l) < 10 ^ p"
  proof -
    have "n * 10 ^ (p - ?l) < 10 ^ ?l * 10 ^ (p - ?l)" using b(2) by simp
    also have "\<dots> = 10 ^ p" using l(2) by (simp flip: power_add)
    finally show ?thesis .
  qed
  moreover have "sig_digits p (of_nat n) =
      (let m = nat (round_even ((of_nat n :: rat) * 10 powi (int p - 1 - (int ?l - 1))))
       in if m = 10 ^ p then (10 ^ (p - 1), int ?l) else (m, int ?l - 1))"
    unfolding sig_digits_def e by (simp add: Let_def)
  ultimately show ?thesis by (simp only: Let_def) simp
qed

lemma digit_char_0 [simp]: "digit_char 0 = CHR ''0''"
  by (simp add: digit_char_def char_of_eq_iff)

lemma dec_nat_shift: "0 < n \<Longrightarrow> dec_nat (n * 10 ^ k) = dec_nat n @ replicate k (CHR ''0'')"
proof (induction k)
  case (Suc k)
  let ?m = "n * 10 ^ k"
  have "\<not> 10 * ?m < 10" using Suc.prems by simp
  then have "dec_nat (10 * ?m) = dec_nat ?m @ [digit_char 0]"
    using dec_nat.simps [of "10 * ?m"] by (simp del: mult_less_cancel2)
  moreover have "n * 10 ^ Suc k = 10 * ?m" by simp
  ultimately show ?case using Suc by (simp add: replicate_append_same mult.left_commute)
qed simp

lemma drop_zeros_replicate [simp]: "drop_zeros (replicate k (CHR ''0'')) = []"
  by (simp add: drop_zeros_def)

lemma print_pos_int:
  assumes "0 < n" "n < 10 ^ p"
  shows "print_pos p (of_nat n) = dec_nat n"
proof -
  let ?l = "length (dec_nat n)"
  have l: "0 < ?l" "?l \<le> p"
    using assms length_dec_nat [of n p] by (cases p; simp)+
  then have "- 4 \<le> int ?l - 1 \<and> int ?l - 1 < int p" "nat (int ?l - 1) + 1 = ?l" by linarith+
  with l(1) show ?thesis
    unfolding print_pos_def sig_digits_int [OF assms] prod.case
    by (simp add: dec_nat_shift [OF assms(1)] with_fraction_def Let_def)
qed

lemma of_nat_abs: "(of_nat (nat \<bar>n\<bar>) :: rat) = of_int \<bar>n\<bar>"
  by (simp add: of_nat_nat)

lemma print_g_int: "\<bar>n\<bar> < 10 ^ p \<Longrightarrow> print_g p (of_int n) = dec_int n"
proof (cases "n = 0")
  case True
  then show ?thesis by (simp add: print_g_def dec_int_def dec_nat.simps [of 0])
next
  case False
  assume "\<bar>n\<bar> < 10 ^ p"
  then have "0 < nat \<bar>n\<bar>" "nat \<bar>n\<bar> < 10 ^ p" using False by (simp_all only: nat_less_iff abs_ge_zero) simp_all
  from print_pos_int [OF this] have "print_pos p (of_int \<bar>n\<bar>) = dec_nat (nat \<bar>n\<bar>)"
    by (simp only: of_nat_abs)
  with False show ?thesis by (simp add: print_g_def dec_int_def abs_if split: if_splits)
qed

section \<open>Reading a printed \<^verbatim>\<open>double\<close> back\<close>

text \<open>
  Eighteen digits are enough: a \<^verbatim>\<open>double\<close> is the nearest one to what is printed for it.
\<close>

lemma round_even_near: "\<bar>z - of_int k\<bar> < 1 / 2 \<Longrightarrow> round_even z = k"
proof -
  assume "\<bar>z - of_int k\<bar> < 1 / 2"
  moreover have "\<bar>of_int (round_even z) - z\<bar> \<le> 1 / 2" by (rule round_even_error)
  ultimately have "of_int (round_even z) < (of_int k + 1 :: rat)" "of_int k < (of_int (round_even z) + 1 :: rat)"
    unfolding abs_le_iff abs_less_iff by linarith+
  then have "round_even z < k + 1" "k < round_even z + 1"
    by (metis of_int_1 of_int_add of_int_less_iff)+
  then show ?thesis by simp
qed

lemma dround_near:
  assumes "0 < x" "dround_pos x = x" "\<bar>y - x\<bar> < x / 2 ^ 55"
  shows "dround_pos y = x"
proof -
  let ?b = "binexp x"
  define u where "u = (2 powi (?b - 52) :: rat)"
  have u: "0 < u" "2 powi ?b = 2 ^ 52 * u" "2 powi (?b + 1) = 2 ^ 53 * u"
    by (simp_all add: u_def power_int_add power_int_diff)
  have b: "2 ^ 52 * u \<le> x" "x < 2 ^ 53 * u" using binexp_bounds [OF assms(1)] u by simp_all
  define k where "k = round_even (x / u)"
  have xk: "x = of_int k * u" using assms(2) by (simp add: dround_pos_eq k_def u_def Let_def)
  with b u(1) have "of_int (2 ^ 52) \<le> (of_int k :: rat)" "(of_int k :: rat) < of_int (2 ^ 53)" by simp_all
  then have k: "2 ^ 52 \<le> k" "k < 2 ^ 53" unfolding of_int_le_iff of_int_less_iff by blast+
  then have k1: "(of_int k :: rat) \<le> of_int (2 ^ 53 - 1)" unfolding of_int_le_iff by simp
  have near: "\<bar>y - x\<bar> < u / 4" using assms(3) b(2) by simp
  have top: "y < 2 ^ 53 * u"
  proof -
    have "x \<le> (2 ^ 53 - 1) * u" unfolding xk using k1 u(1) by (intro mult_right_mono) simp_all
    with near u(1) show ?thesis unfolding abs_less_iff left_diff_distrib mult_1 by linarith
  qed
  show ?thesis
  proof (cases "2 ^ 52 * u \<le> y")
    case True
    then have "binexp y = ?b" using top u by (intro binexp_unique) simp_all
    moreover have "\<bar>y / u - of_int k\<bar> < 1 / 2"
    proof -
      have "y / u - of_int k = (y - x) / u" using u(1) by (simp add: xk field_simps)
      then have "\<bar>y / u - of_int k\<bar> = \<bar>y - x\<bar> / u" using u(1) by (simp add: abs_divide)
      also have "\<dots> < (u / 4) / u" using near u(1) by (intro divide_strict_right_mono)
      finally show ?thesis using u(1) by simp
    qed
    moreover from this have "round_even (y / u) = k" by (rule round_even_near)
    ultimately have "dround_pos y = of_int k * u" unfolding dround_pos_eq Let_def by (simp flip: u_def)
    then show ?thesis by (simp add: xk)
  next
    case False
    have "k = 2 ^ 52"
    proof (rule ccontr)
      assume "k \<noteq> 2 ^ 52"
      with k(1) have "of_int (2 ^ 52 + 1) \<le> (of_int k :: rat)" unfolding of_int_le_iff by simp
      then have "(2 ^ 52 + 1) * u \<le> x" unfolding xk using u(1) by (intro mult_right_mono) simp_all
      with near False u(1) show False by (simp add: abs_less_iff distrib_right)
    qed
    with xk have x: "x = 2 ^ 52 * u" by simp
    have v: "2 powi (?b - 1) = 2 ^ 51 * u" "2 powi (?b - 1 - 52) = u / 2"
      by (simp_all add: u_def power_int_diff)
    have "2 ^ 51 * u \<le> y" using near u(1) unfolding x abs_less_iff by simp
    then have "binexp y = ?b - 1" using False u(2) v(1) by (intro binexp_unique) simp_all
    moreover have "\<bar>y / (u / 2) - of_int (2 ^ 53)\<bar> < 1 / 2"
    proof -
      have "y / (u / 2) - of_int (2 ^ 53) = (y - x) / (u / 2)" using u(1) by (simp add: x field_simps)
      then have "\<bar>y / (u / 2) - of_int (2 ^ 53)\<bar> = \<bar>y - x\<bar> / (u / 2)"
        using u(1) by (simp only: abs_divide abs_of_pos half_gt_zero_iff)
      also have "\<dots> < (u / 4) / (u / 2)"
        using assms(3) x u(1) by (intro divide_strict_right_mono) simp_all
      finally show ?thesis using u(1) by simp
    qed
    moreover from this have "round_even (y / (u / 2)) = 2 ^ 53" by (rule round_even_near)
    ultimately show ?thesis unfolding dround_pos_eq Let_def by (simp only: v(2)) (simp add: x)
  qed
qed

lemma rounded_double:
  assumes "dround x = x" "18 \<le> p"
  shows "dround (rounded p x) = x"
proof -
  have "dround_pos (rounded_pos p y) = y \<and> 0 < rounded_pos p y" if "0 < y" "dround_pos y = y" for y
  proof -
    have "(10::rat) ^ 17 \<le> 10 ^ (p - 1)" using assms(2) by (intro power_increasing) auto
    then have "y / (2 * 10 ^ (p - 1)) \<le> y / (2 * 10 ^ 17)"
      using that(1) by (intro divide_left_mono) auto
    also have "\<dots> < y / 2 ^ 55" using that(1) by simp
    finally have "\<bar>rounded_pos p y - y\<bar> < y / 2 ^ 55"
      using rounded_pos_error [OF that(1), of p] assms(2) by simp
    moreover have "y / 2 ^ 55 < y" using that(1) by simp
    ultimately show ?thesis using dround_near [OF that] unfolding abs_less_iff by auto
  qed
  from this [of x] this [of "- x"] assms(1) show ?thesis
    by (cases x "0 :: rat" rule: linorder_cases) (simp_all add: dround_def rounded_def)
qed

end
