(* ===== verification/JsonTexts.thy ===== *)
theory JsonTexts
  imports JsonValues FloatText
begin

text \<open>
  The writers of \<^verbatim>\<open>examples/procmon/jsonxx.cc\<close>: \<^verbatim>\<open>json()\<close> of an object and of an array, which indents,
  and \<^verbatim>\<open>operator<<\<close> on an output stream.  \<open>value_text\<close> is the grammar of RFC 8259, less the escapes
  \<^verbatim>\<open>\u\<close> of characters from 128 on, together with the
  value of a text, as far as the writers need it; the properties say that what is written is JSON for
  the value, with numbers rounded to the digits printed.
\<close>

section \<open>Escaping\<close>

fun hex_nat :: "nat \<Rightarrow> string" where
  "hex_nat n =
     (if n < 16 then [if n < 10 then digit_char n else char_of (87 + n)]
      else hex_nat (n div 16) @ [if n mod 16 < 10 then digit_char (n mod 16) else char_of (87 + n mod 16)])"

declare hex_nat.simps [simp del]

abbreviation quote_mark :: char where "quote_mark \<equiv> CHR 0x22"

abbreviation backslash :: char where "backslash \<equiv> CHR 0x5C"

definition u_escape :: "nat \<Rightarrow> string" where
  "u_escape n = backslash # CHR ''u'' # pad_left 4 (CHR ''0'') (hex_nat n)"

text \<open>The letter that stands for a character after a backslash.\<close>

definition short_escape :: "char \<Rightarrow> char option" where
  "short_escape c =
     (if c = quote_mark \<or> c = backslash \<or> c = CHR ''/'' then Some c
      else if c = CHR 0x08 then Some (CHR ''b'')
      else if c = CHR 0x0C then Some (CHR ''f'')
      else if c = CHR 0x0A then Some (CHR ''n'')
      else if c = CHR 0x0D then Some (CHR ''r'')
      else if c = CHR 0x09 then Some (CHR ''t'')
      else None)"

definition escape_char :: "char \<Rightarrow> string" where
  "escape_char c =
     (case short_escape c of
        Some e \<Rightarrow> [backslash, e]
      | None \<Rightarrow> if (of_char c :: nat) < 32 then u_escape (of_char c) else [c])"

definition escape_string :: "string \<Rightarrow> bool \<Rightarrow> string" where
  "escape_string input quot =
     (if quot then [quote_mark] else []) @ concat (map escape_char input) @
     (if quot then [quote_mark] else [])"

text \<open>
  \<^verbatim>\<open>stream_string\<close> compares a \<^verbatim>\<open>char\<close>, which is signed here, with 32, and prints it as an
  \<^verbatim>\<open>int\<close> in hexadecimal.
\<close>

definition stream_char :: "char \<Rightarrow> string" where
  "stream_char c =
     (case short_escape c of
        Some e \<Rightarrow> [backslash, e]
      | None \<Rightarrow>
          (let i = (of_char c :: nat)
           in if i < 32 then u_escape i
              else if 128 \<le> i then u_escape (2 ^ 32 - 256 + i)
              else [c]))"

definition stream_string :: "string \<Rightarrow> string" where
  "stream_string s = quote_mark # concat (map stream_char s) @ [quote_mark]"

section \<open>Writing\<close>

definition remove_last_comma :: "string \<Rightarrow> string" where
  "remove_last_comma input =
     (let size = length input
      in if 2 < size \<and> input ! (size - 2) = CHR '','' then input[size - 2 := CHR '' ''] else input)"

definition json_digits :: nat where "json_digits = 19"

definition tabs :: "nat \<Rightarrow> string" where
  "tabs depth = replicate depth (CHR 0x09)"

definition name_text :: "string \<Rightarrow> string" where
  "name_text nm = (if nm \<noteq> [] then quote_mark # escape_string nm False @ [quote_mark] @ '': '' else [])"

fun tag :: "nat \<Rightarrow> string \<Rightarrow> json \<Rightarrow> string" where
  "tag depth nm (BOOL b) =
     tabs depth @ name_text nm @ (if b then ''true'' else ''false'') @ '','' @ [CHR 0x0A]"
| "tag depth nm (ARRAY vs) =
     remove_last_comma (tabs depth @ name_text nm @ ''['' @ [CHR 0x0A] @ concat (map (tag (depth + 1) []) vs)) @
     tabs depth @ '']'' @ '','' @ [CHR 0x0A]"
| "tag depth nm (STRING s) =
     tabs depth @ name_text nm @ quote_mark # escape_string s False @ [quote_mark] @ '','' @ [CHR 0x0A]"
| "tag depth nm (OBJECT m) =
     remove_last_comma
       (tabs depth @ name_text nm @ ''{'' @ [CHR 0x0A] @ concat (map (\<lambda>(k, v). tag (depth + 1) k v) m)) @
     tabs depth @ ''}'' @ '','' @ [CHR 0x0A]"
| "tag depth nm (NUMBER x) = tabs depth @ name_text nm @ print_g json_digits x @ '','' @ [CHR 0x0A]"
| "tag depth nm NULL = tabs depth @ name_text nm @ ''null'' @ '','' @ [CHR 0x0A]"
| "tag depth nm INVALID = tabs depth @ name_text nm @ ''null'' @ '','' @ [CHR 0x0A]"

definition object_json :: "json string_map \<Rightarrow> string" where
  "object_json m = remove_last_comma (tag 0 [] (OBJECT m))"

definition array_json :: "json list \<Rightarrow> string" where
  "array_json vs = remove_last_comma (tag 0 [] (ARRAY vs))"

fun separated :: "string list \<Rightarrow> string" where
  "separated [] = []"
| "separated [t] = t"
| "separated (t # ts) = t @ '', '' @ separated ts"

definition stream_digits :: nat where "stream_digits = 6"

fun put_value :: "json \<Rightarrow> string" where
  "put_value (NUMBER x) = print_g stream_digits x"
| "put_value (STRING s) = stream_string s"
| "put_value (BOOL b) = (if b then ''true'' else ''false'')"
| "put_value NULL = ''null''"
| "put_value (OBJECT m) =
     ''{'' @ separated (map (\<lambda>(k, v). stream_string k @ '': '' @ put_value v) m) @ ''}''"
| "put_value (ARRAY vs) = ''['' @ separated (map put_value vs) @ '']''"
| "put_value INVALID = []"

section \<open>The grammar\<close>

text \<open>
  The grammar of RFC 8259 with the values of its texts, with one restriction: the escapes with four
  digits are those of characters below 128.  The strings of the model are bytes, and bytes from 128 on
  stand for themselves; the parser of the library keeps only one byte of a larger escape, so texts with
  such escapes are outside the grammar here, and what is proved for it says nothing about them.
\<close>

inductive chars_text :: "string \<Rightarrow> string \<Rightarrow> bool" where
  no_char: "chars_text [] []"
| plain_char: "32 \<le> (of_char c :: nat) \<Longrightarrow> c \<noteq> quote_mark \<Longrightarrow> c \<noteq> backslash \<Longrightarrow> chars_text t s \<Longrightarrow>
    chars_text (c # t) (c # s)"
| short_char: "short_escape c = Some e \<Longrightarrow> chars_text t s \<Longrightarrow> chars_text (backslash # e # t) (c # s)"
| u_char: "hex_val d1 = Some 0 \<Longrightarrow> hex_val d2 = Some 0 \<Longrightarrow> hex_val d3 = Some n3 \<Longrightarrow> hex_val d4 = Some n4 \<Longrightarrow>
    n3 < 8 \<Longrightarrow> chars_text t s \<Longrightarrow>
    chars_text (backslash # CHR ''u'' # d1 # d2 # d3 # d4 # t) (char_of (16 * n3 + n4) # s)"

definition string_text :: "string \<Rightarrow> string \<Rightarrow> bool" where
  "string_text t s \<longleftrightarrow> (\<exists>cs. t = quote_mark # cs @ [quote_mark] \<and> chars_text cs s)"

definition json_ws :: "string \<Rightarrow> bool" where
  "json_ws w \<longleftrightarrow> list_all (\<lambda>c. c \<in> {CHR '' '', CHR 0x09, CHR 0x0A, CHR 0x0D}) w"

inductive value_text :: "string \<Rightarrow> json \<Rightarrow> bool"
  and padded_text :: "string \<Rightarrow> json \<Rightarrow> bool"
  and elements_text :: "string \<Rightarrow> json list \<Rightarrow> bool"
  and member_text :: "string \<Rightarrow> string \<times> json \<Rightarrow> bool"
  and members_text :: "string \<Rightarrow> (string \<times> json) list \<Rightarrow> bool" where
  null_text: "value_text ''null'' NULL"
| true_text: "value_text ''true'' (BOOL True)"
| false_text: "value_text ''false'' (BOOL False)"
| num_text: "number_text t x \<Longrightarrow> value_text t (NUMBER x)"
| str_text: "string_text t s \<Longrightarrow> value_text t (STRING s)"
| empty_array: "json_ws w \<Longrightarrow> value_text (CHR ''['' # w @ '']'') (ARRAY [])"
| full_array: "elements_text t vs \<Longrightarrow> value_text (CHR ''['' # t @ '']'') (ARRAY vs)"
| empty_object: "json_ws w \<Longrightarrow> value_text (CHR ''{'' # w @ ''}'') (OBJECT [])"
| full_object: "members_text t m \<Longrightarrow> value_text (CHR ''{'' # t @ ''}'') (OBJECT m)"
| padded: "json_ws w \<Longrightarrow> value_text t v \<Longrightarrow> json_ws w' \<Longrightarrow> padded_text (w @ t @ w') v"
| one_element: "padded_text t v \<Longrightarrow> elements_text t [v]"
| more_elements: "padded_text t v \<Longrightarrow> elements_text t' vs \<Longrightarrow> elements_text (t @ CHR '','' # t') (v # vs)"
| member: "json_ws w \<Longrightarrow> string_text t k \<Longrightarrow> json_ws w' \<Longrightarrow> padded_text t' v \<Longrightarrow>
    member_text (w @ t @ w' @ CHR '':'' # t') (k, v)"
| one_member: "member_text t p \<Longrightarrow> members_text t [p]"
| more_members: "member_text t p \<Longrightarrow> members_text t' m \<Longrightarrow> members_text (t @ CHR '','' # t') (p # m)"

text \<open>The value that \<open>d\<close> digits of every number stand for; a value without a type is written as null.\<close>

fun printed :: "nat \<Rightarrow> json \<Rightarrow> json" where
  "printed d (NUMBER x) = NUMBER (rounded d x)"
| "printed d (ARRAY vs) = ARRAY (map (printed d) vs)"
| "printed d (OBJECT m) = OBJECT (map (\<lambda>(k, v). (k, printed d v)) m)"
| "printed d INVALID = NULL"
| "printed d (STRING s) = STRING s"
| "printed d (BOOL b) = BOOL b"
| "printed d NULL = NULL"

section \<open>Strings are written in the grammar\<close>

lemma hex_digit_val:
  "n < 16 \<Longrightarrow> hex_val (if n < 10 then digit_char n else char_of (87 + n)) = Some n"
  by (auto simp: hex_val_def digit_char_def Let_def)

lemma pad_left_4 [simp]: "pad_left 4 c [a] = [c, c, c, a]" "pad_left 4 c [a, b] = [c, c, a, b]"
  by (simp_all add: pad_left_def eval_nat_numeral)

lemma u_escape_small:
  assumes "n < 32"
  shows "\<exists>d3 d4. u_escape n = [backslash, CHR ''u'', CHR ''0'', CHR ''0'', d3, d4] \<and>
    hex_val d3 = Some (n div 16) \<and> hex_val d4 = Some (n mod 16)"
proof -
  have zero: "hex_val (CHR ''0'') = Some 0" by (simp add: hex_val_def)
  show ?thesis
  proof (cases "n < 16")
    case True
    then have "hex_nat n = [if n < 10 then digit_char n else char_of (87 + n)]"
      by (subst hex_nat.simps) simp
    with True hex_digit_val [OF True] zero show ?thesis
      by (simp add: u_escape_def)
  next
    case False
    with assms have d: "n div 16 = 1" by (simp add: div_nat_eqI)
    have m: "n mod 16 < 16" by simp
    have "hex_nat 1 = [CHR ''1'']" by (subst hex_nat.simps) (simp add: digit_char_def char_of_eq_iff)
    with False d have
      "hex_nat n = [CHR ''1'', if n mod 16 < 10 then digit_char (n mod 16) else char_of (87 + n mod 16)]"
      using hex_nat.simps [of n] by simp
    with d hex_digit_val [OF m] show ?thesis
      by (simp add: u_escape_def hex_val_def)
  qed
qed

lemma short_escape_None: "short_escape c = None \<Longrightarrow> c \<noteq> quote_mark \<and> c \<noteq> backslash"
  by (auto simp: short_escape_def split: if_splits)

lemma escape_char_text:
  assumes "chars_text t s"
  shows "chars_text (escape_char c @ t) (c # s)"
proof (cases "short_escape c")
  case (Some e)
  with assms show ?thesis by (simp add: escape_char_def short_char)
next
  case None
  show ?thesis
  proof (cases "(of_char c :: nat) < 32")
    case True
    let ?n = "of_char c :: nat"
    obtain d3 d4 where d: "u_escape ?n = [backslash, CHR ''u'', CHR ''0'', CHR ''0'', d3, d4]"
      "hex_val d3 = Some (?n div 16)" "hex_val d4 = Some (?n mod 16)"
      using u_escape_small [OF True] by blast
    have "?n div 16 < 8" using True by simp
    moreover have "hex_val (CHR ''0'') = Some 0" by (simp add: hex_val_def)
    ultimately have "chars_text (u_escape ?n @ t) (char_of (16 * (?n div 16) + ?n mod 16) # s)"
      using u_char [OF _ _ d(2,3) _ assms] by (simp add: d(1))
    with True None show ?thesis by (simp add: escape_char_def)
  next
    case False
    with None assms short_escape_None [OF None] show ?thesis
      by (simp add: escape_char_def plain_char)
  qed
qed

lemma escaped_text: "string_text (quote_mark # escape_string s False @ [quote_mark]) s"
proof -
  have "chars_text (concat (map escape_char s)) s"
    by (induction s) (simp_all add: no_char escape_char_text)
  then show ?thesis by (simp add: string_text_def escape_string_def)
qed

definition ascii :: "string \<Rightarrow> bool" where
  "ascii s \<longleftrightarrow> list_all (\<lambda>c. (of_char c :: nat) < 128) s"

lemma stream_char_ascii: "(of_char c :: nat) < 128 \<Longrightarrow> stream_char c = escape_char c"
  by (simp add: stream_char_def escape_char_def Let_def split: option.split)

lemma stream_string_text: "ascii s \<Longrightarrow> string_text (stream_string s) s"
proof -
  assume "ascii s"
  then have "concat (map stream_char s) = concat (map escape_char s)"
    by (induction s) (simp_all add: ascii_def stream_char_ascii)
  with escaped_text [of s] show ?thesis by (simp add: stream_string_def escape_string_def)
qed

section \<open>\<^verbatim>\<open>json()\<close> writes JSON\<close>

fun named :: "json \<Rightarrow> bool" where
  "named (ARRAY vs) \<longleftrightarrow> (\<forall>v\<in>set vs. named v)"
| "named (OBJECT m) \<longleftrightarrow> (\<forall>(k, v)\<in>set m. k \<noteq> [] \<and> named v)"
| "named _ \<longleftrightarrow> True"

lemma json_ws_facts [simp]:
  "json_ws []" "json_ws (tabs d)" "json_ws (c # w) \<longleftrightarrow> c \<in> {CHR '' '', CHR 0x09, CHR 0x0A, CHR 0x0D} \<and> json_ws w"
  "json_ws (w @ w') \<longleftrightarrow> json_ws w \<and> json_ws w'"
  by (simp_all add: json_ws_def tabs_def) (simp add: list_all_iff)

lemma name_text_Nil [simp]: "name_text [] = []"
  by (simp add: name_text_def)

lemma remove_last_comma_cut:
  "p \<noteq> [] \<Longrightarrow> remove_last_comma (p @ [CHR '','', c]) = p @ [CHR '' '', c]"
  by (simp add: remove_last_comma_def Let_def nth_append list_update_append)

lemma remove_last_comma_keep: "a \<noteq> CHR '','' \<Longrightarrow> remove_last_comma (p @ [a, c]) = p @ [a, c]"
  by (simp add: remove_last_comma_def Let_def nth_append)

definition entry_of :: "nat \<Rightarrow> string \<Rightarrow> json \<Rightarrow> string \<Rightarrow> bool" where
  "entry_of d nm v t \<longleftrightarrow>
     tag d nm v = tabs d @ name_text nm @ t @ '','' @ [CHR 0x0A] \<and> value_text t (printed json_digits v)"

lemma tag_elements:
  assumes "vs \<noteq> []" "\<And>v. v \<in> set vs \<Longrightarrow> \<exists>t. entry_of d [] v t"
  shows "\<exists>E. concat (map (tag d []) vs) = E @ '','' @ [CHR 0x0A] \<and>
    (\<forall>w w'. json_ws w \<longrightarrow> json_ws w' \<longrightarrow> elements_text (w @ E @ w') (map (printed json_digits) vs))"
  using assms
proof (induction vs)
  case (Cons v vs)
  obtain t where t: "tag d [] v = tabs d @ t @ '','' @ [CHR 0x0A]" "value_text t (printed json_digits v)"
    using Cons.prems(2) [of v] by (auto simp: entry_of_def)
  have pad: "padded_text ((w @ tabs d) @ t @ w') (printed json_digits v)" if "json_ws w" "json_ws w'" for w w'
    using that t(2) by (intro padded) simp_all
  show ?case
  proof (cases "vs = []")
    case True
    with t(1) pad show ?thesis by (intro exI [of _ "tabs d @ t"]) (auto intro: one_element)
  next
    case False
    with Cons obtain E where E: "concat (map (tag d []) vs) = E @ '','' @ [CHR 0x0A]"
      "\<And>w w'. json_ws w \<Longrightarrow> json_ws w' \<Longrightarrow> elements_text (w @ E @ w') (map (printed json_digits) vs)"
      by (metis list.set_intros(2))
    have "elements_text (((w @ tabs d) @ t @ []) @ CHR '','' # [CHR 0x0A] @ E @ w')
        (printed json_digits v # map (printed json_digits) vs)" if "json_ws w" "json_ws w'" for w w'
      using that by (intro more_elements pad E(2)) simp_all
    with t(1) E(1) show ?thesis
      by (intro exI [of _ "tabs d @ t @ '','' @ [CHR 0x0A] @ E"]) simp
  qed
qed simp

lemma tag_members:
  assumes "m \<noteq> []" "\<And>k v. (k, v) \<in> set m \<Longrightarrow> k \<noteq> [] \<and> (\<exists>t. entry_of d k v t)"
  shows "\<exists>E. concat (map (\<lambda>(k, v). tag d k v) m) = E @ '','' @ [CHR 0x0A] \<and>
    (\<forall>w w'. json_ws w \<longrightarrow> json_ws w' \<longrightarrow>
       members_text (w @ E @ w') (map (\<lambda>(k, v). (k, printed json_digits v)) m))"
  using assms
proof (induction m)
  case (Cons p m)
  obtain k v where p: "p = (k, v)" by force
  let ?k = "quote_mark # escape_string k False @ [quote_mark]"
  obtain t where t: "tag d k v = tabs d @ ?k @ '': '' @ t @ '','' @ [CHR 0x0A]" "value_text t (printed json_digits v)"
    using Cons.prems(2) [of k v] p by (auto simp: entry_of_def name_text_def)
  have one: "member_text ((w @ tabs d) @ ?k @ [] @ CHR '':'' # '' '' @ t @ w') (k, printed json_digits v)"
    if "json_ws w" "json_ws w'" for w w'
    using that t(2) by (intro member padded escaped_text) simp_all
  show ?case
  proof (cases "m = []")
    case True
    with t(1) p one show ?thesis by (intro exI [of _ "tabs d @ ?k @ '': '' @ t"]) (auto dest: one_member)
  next
    case False
    with Cons obtain E where E: "concat (map (\<lambda>(k, v). tag d k v) m) = E @ '','' @ [CHR 0x0A]"
      "\<And>w w'. json_ws w \<Longrightarrow> json_ws w' \<Longrightarrow>
         members_text (w @ E @ w') (map (\<lambda>(k, v). (k, printed json_digits v)) m)"
      by (metis list.set_intros(2))
    have "members_text (((w @ tabs d) @ ?k @ [] @ CHR '':'' # '' '' @ t @ []) @ CHR '','' # [CHR 0x0A] @ E @ w')
        ((k, printed json_digits v) # map (\<lambda>(k, v). (k, printed json_digits v)) m)"
      if "json_ws w" "json_ws w'" for w w'
      using that by (intro more_members one E(2)) simp_all
    with t(1) p E(1) show ?thesis
      by (intro exI [of _ "tabs d @ ?k @ '': '' @ t @ '','' @ [CHR 0x0A] @ E"]) simp
  qed
qed simp

lemma tag_entry: "named v \<Longrightarrow> \<exists>t. entry_of d nm v t"
proof (induction v arbitrary: d nm)
  case (ARRAY vs)
  show ?case
  proof (cases "vs = []")
    case True
    let ?t = "CHR ''['' # ([CHR 0x0A] @ tabs d) @ '']''"
    have "tag d nm (ARRAY vs) = tabs d @ name_text nm @ ?t @ '','' @ [CHR 0x0A]"
      using True remove_last_comma_keep [of "CHR ''[''" "tabs d @ name_text nm" "CHR 0x0A"] by simp
    moreover have "value_text ?t (ARRAY [])" by (rule empty_array) simp
    ultimately show ?thesis using True by (auto simp: entry_of_def)
  next
    case False
    from ARRAY have "\<And>v. v \<in> set vs \<Longrightarrow> \<exists>t. entry_of (d + 1) [] v t" by simp
    from tag_elements [OF False this] obtain E where
      E: "concat (map (tag (d + 1) []) vs) = E @ '','' @ [CHR 0x0A]"
      "\<And>w w'. json_ws w \<Longrightarrow> json_ws w' \<Longrightarrow> elements_text (w @ E @ w') (map (printed json_digits) vs)"
      by blast
    let ?t = "CHR ''['' # ([CHR 0x0A] @ E @ '' '' @ [CHR 0x0A] @ tabs d) @ '']''"
    have "tag d nm (ARRAY vs) = tabs d @ name_text nm @ ?t @ '','' @ [CHR 0x0A]"
      using E(1) remove_last_comma_cut [of "tabs d @ name_text nm @ ''['' @ [CHR 0x0A] @ E" "CHR 0x0A"] by simp
    moreover have "value_text ?t (printed json_digits (ARRAY vs))"
      unfolding printed.simps by (rule full_array, rule E(2)) simp_all
    ultimately show ?thesis by (auto simp: entry_of_def)
  qed
next
  case (OBJECT m)
  show ?case
  proof (cases "m = []")
    case True
    let ?t = "CHR ''{'' # ([CHR 0x0A] @ tabs d) @ ''}''"
    have "tag d nm (OBJECT m) = tabs d @ name_text nm @ ?t @ '','' @ [CHR 0x0A]"
      using True remove_last_comma_keep [of "CHR ''{''" "tabs d @ name_text nm" "CHR 0x0A"] by simp
    moreover have "value_text ?t (OBJECT [])" by (rule empty_object) simp
    ultimately show ?thesis using True by (auto simp: entry_of_def)
  next
    case False
    from OBJECT have "k \<noteq> [] \<and> (\<exists>t. entry_of (d + 1) k v t)" if "(k, v) \<in> set m" for k v
      using that by fastforce
    from tag_members [OF False this] obtain E where
      E: "concat (map (\<lambda>(k, v). tag (d + 1) k v) m) = E @ '','' @ [CHR 0x0A]"
      "\<And>w w'. json_ws w \<Longrightarrow> json_ws w' \<Longrightarrow>
         members_text (w @ E @ w') (map (\<lambda>(k, v). (k, printed json_digits v)) m)"
      by blast
    let ?t = "CHR ''{'' # ([CHR 0x0A] @ E @ '' '' @ [CHR 0x0A] @ tabs d) @ ''}''"
    have "tag d nm (OBJECT m) = tabs d @ name_text nm @ ?t @ '','' @ [CHR 0x0A]"
      using E(1) remove_last_comma_cut [of "tabs d @ name_text nm @ ''{'' @ [CHR 0x0A] @ E" "CHR 0x0A"] by simp
    moreover have "value_text ?t (printed json_digits (OBJECT m))"
      unfolding printed.simps by (rule full_object, rule E(2)) simp_all
    ultimately show ?thesis by (auto simp: entry_of_def)
  qed
next
  case (STRING s)
  show ?case using str_text [OF escaped_text, of s] by (auto simp: entry_of_def)
next
  case (NUMBER x)
  show ?case using num_text [OF print_g_text, of json_digits x] by (auto simp: entry_of_def json_digits_def)
next
  case (BOOL b)
  then show ?case by (cases b) (auto simp: entry_of_def intro: value_text_padded_text_elements_text_member_text_members_text.intros)
next
  case NULL
  show ?case using null_text by (auto simp: entry_of_def)
next
  case INVALID
  show ?case using null_text by (auto simp: entry_of_def)
qed

lemma value_nonempty: "value_text t v \<Longrightarrow> t \<noteq> []"
  by (auto simp: string_text_def int_part_def elim!: value_text.cases number_text.cases unsigned_text.cases)

lemma tag_json:
  assumes "entry_of 0 [] v t"
  shows "padded_text (remove_last_comma (tag 0 [] v)) (printed json_digits v)"
proof -
  have "t \<noteq> []" using assms value_nonempty by (auto simp: entry_of_def)
  then have "remove_last_comma (tag 0 [] v) = [] @ t @ [CHR '' '', CHR 0x0A]"
    using assms remove_last_comma_cut [of t "CHR 0x0A"] by (simp add: entry_of_def tabs_def)
  moreover have "padded_text ([] @ t @ [CHR '' '', CHR 0x0A]) (printed json_digits v)"
    using assms by (intro padded) (simp_all add: entry_of_def)
  ultimately show ?thesis by simp
qed

lemma object_json_text:
  "named (OBJECT m) \<Longrightarrow> padded_text (object_json m) (printed json_digits (OBJECT m))"
  unfolding object_json_def using tag_entry [of "OBJECT m" 0 "[]"] by (blast intro: tag_json)

lemma array_json_text:
  "named (ARRAY vs) \<Longrightarrow> padded_text (array_json vs) (printed json_digits (ARRAY vs))"
  unfolding array_json_def using tag_entry [of "ARRAY vs" 0 "[]"] by (blast intro: tag_json)

text \<open>
  Property C39.  What \<^verbatim>\<open>json()\<close> writes for an object is JSON for that object, with white space at the
  most around it and each number rounded to 19 digits, if no key in it is empty.
\<close>

theorem object_json_valid:
  "named (OBJECT m) \<Longrightarrow> padded_text (object_json m) (printed json_digits (OBJECT m))"
  by (rule object_json_text)

theorem object_json_valid_witness:
  "padded_text (object_json [(''cpu'', ARRAY [NUMBER 0]), (''mem'', ARRAY [])])
     (OBJECT [(''cpu'', ARRAY [NUMBER 0]), (''mem'', ARRAY [])])"
  using object_json_valid [of "[(''cpu'', ARRAY [NUMBER 0]), (''mem'', ARRAY [])]"] by (simp add: rounded_def)

text \<open>
  Fact.  What \<^verbatim>\<open>json()\<close> writes for an array is JSON for that array, each number rounded to 19
  digits, if no object in it has an empty key.
\<close>

theorem array_json_valid:
  "named (ARRAY vs) \<Longrightarrow> padded_text (array_json vs) (printed json_digits (ARRAY vs))"
  by (rule array_json_text)

theorem array_json_valid_witness:
  "padded_text (array_json [OBJECT [(''user'', STRING ''a/b'')], NULL, INVALID])
     (ARRAY [OBJECT [(''user'', STRING ''a/b'')], NULL, NULL])"
  using array_json_valid [of "[OBJECT [(''user'', STRING ''a/b'')], NULL, INVALID]"] by simp

text \<open>
  Fact.  A number is written with an error of at most one part in \<open>2 * 10 ^ 18\<close>, so a reader that
  rounds to the nearest \<^verbatim>\<open>double\<close> gets every \<^verbatim>\<open>double\<close> back as it was.
\<close>

theorem json_number_reads_back:
  "dround x = x \<Longrightarrow> \<exists>y. number_text (print_g json_digits x) y \<and> dround y = x \<and> \<bar>y - x\<bar> \<le> \<bar>x\<bar> / (2 * 10 ^ 18)"
  using print_g_text [of json_digits x] rounded_double [of x json_digits] rounded_error [of json_digits x]
  by (auto simp: json_digits_def)

theorem json_number_reads_back_witness: "\<exists>y. number_text (print_g json_digits 8062460) y \<and> dround y = 8062460"
  using json_number_reads_back [of 8062460] dround_of_int [of 8062460] by auto

text \<open>
  Fact.  Nineteen digits are not all that a \<^verbatim>\<open>long double\<close> with its 64 bits can have: two of
  them that differ in the last bit are written alike.
\<close>

theorem json_digits_collide: "print_g json_digits ((2 ^ 63 + 1) / 2 ^ 63) = print_g json_digits 1"
proof -
  have "decexp ((2 ^ 63 + 1) / 2 ^ 63) = 0" by (rule decexp_unique) simp_all
  moreover have "round_even ((2 ^ 63 + 1) / 2 ^ 63 * 10 ^ 18) = 10 ^ 18" by (rule round_even_near) simp
  ultimately have "sig_digits 19 ((2 ^ 63 + 1) / 2 ^ 63) = (10 ^ 18, 0)"
    by (simp add: sig_digits_def Let_def)
  moreover have "sig_digits 19 1 = (10 ^ 18, 0)"
    using sig_digits_int [of 1 19] dec_nat.simps [of 1] by simp
  ultimately have "print_pos 19 ((2 ^ 63 + 1) / 2 ^ 63) = print_pos 19 1" by (simp add: print_pos_def)
  then show ?thesis by (simp add: print_g_def json_digits_def)
qed

section \<open>An empty key is not written\<close>

lemma number_first: "number_text t x \<Longrightarrow> hd t = CHR ''-'' \<or> isdigit (hd t)"
  by (auto simp: int_part_def neq_Nil_conv elim!: number_text.cases unsigned_text.cases)

lemma value_first:
  "value_text t v \<Longrightarrow> \<not> json_ws [hd t] \<and> hd t \<noteq> CHR ''}'' \<and> (\<not> is_string v \<longrightarrow> hd t \<noteq> quote_mark)"
  by (auto simp: is_string_def string_text_def isdigit_def dest!: number_first elim!: value_text.cases)

inductive_cases brace_valueE: "value_text (CHR ''{'' # t) v"

text \<open>The first character of a text that is not white space.\<close>

definition first_char :: "string \<Rightarrow> char option" where
  "first_char t = (case dropWhile (\<lambda>c. json_ws [c]) t of [] \<Rightarrow> None | c # _ \<Rightarrow> Some c)"

lemma first_char_ws: "json_ws w \<Longrightarrow> first_char (w @ t) = first_char t"
proof -
  assume "json_ws w"
  then have "\<forall>c\<in>set w. json_ws [c]" by (simp add: json_ws_def list_all_iff)
  then show ?thesis by (simp add: first_char_def dropWhile_append2)
qed

lemma first_char_hd: "t \<noteq> [] \<Longrightarrow> \<not> json_ws [hd t] \<Longrightarrow> first_char (t @ s) = Some (hd t)"
  by (cases t) (simp_all add: first_char_def del: json_ws_facts)

lemma first_char_value: "json_ws w \<Longrightarrow> value_text t v \<Longrightarrow> first_char (w @ t @ s) = Some (hd t)"
  using value_first [of t v] value_nonempty [of t v] by (simp add: first_char_ws first_char_hd del: json_ws_facts)

lemma first_char_member: "member_text t p \<Longrightarrow> first_char (t @ s) = Some quote_mark"
proof (erule member_text.cases)
  fix w t' k w' t'' v
  assume "t = w @ t' @ w' @ CHR '':'' # t''" "json_ws w" "string_text t' k"
  then show ?thesis by (auto simp: first_char_ws string_text_def) (simp add: first_char_def)
qed

lemma first_char_members: "members_text t m \<Longrightarrow> first_char (t @ s) = Some quote_mark"
  by (erule members_text.cases) (simp_all add: first_char_member)

lemma object_text_first:
  assumes "value_text (CHR ''{'' # t) v"
  shows "first_char (t @ s) = Some quote_mark \<or> first_char (t @ s) = Some (CHR ''}'')"
proof (rule brace_valueE [OF assms])
  fix x
  assume "number_text (CHR ''{'' # t) x"
  then show ?thesis using number_first [of "CHR ''{'' # t" x] by (simp add: isdigit_def)
next
  fix s'
  assume "string_text (CHR ''{'' # t) s'"
  then show ?thesis by (simp add: string_text_def)
next
  fix w
  assume "t = w @ ''}''" "json_ws w"
  then show ?thesis by (simp add: first_char_ws) (simp add: first_char_def)
next
  fix u m
  assume "t = u @ ''}''" "members_text u m"
  then show ?thesis using first_char_members [of u m "''}'' @ s"] by simp
qed

text \<open>
  Fact.  A member whose key is empty is written without its key: unless the value is a string,
  the text is not JSON for anything.
\<close>

theorem empty_key_not_json:
  assumes "named v" "\<not> is_string v"
  shows "\<not> padded_text (object_json [([], v)]) u"
proof
  assume json: "padded_text (object_json [([], v)]) u"
  obtain t where t: "entry_of 1 [] v t" using tag_entry [OF assms(1)] by blast
  let ?rest = "[CHR 0x0A] @ tabs 1 @ t @ '' '' @ [CHR 0x0A] @ ''}'' @ '' '' @ [CHR 0x0A]"
  have whole: "object_json [([], v)] = CHR ''{'' # ?rest"
    using t remove_last_comma_cut [of "''{'' @ [CHR 0x0A] @ tabs 1 @ t" "CHR 0x0A"]
      remove_last_comma_cut [of "''{'' @ [CHR 0x0A] @ tabs 1 @ t @ '' '' @ [CHR 0x0A] @ ''}''" "CHR 0x0A"]
    by (simp add: object_json_def entry_of_def tabs_def)
  have val: "value_text t (printed json_digits v)" "\<not> is_string (printed json_digits v)"
    using t assms(2) by (simp_all add: entry_of_def is_string_def split: json.splits)
  have "first_char ?rest = Some (hd t)"
    using first_char_value [of "[CHR 0x0A] @ tabs 1" t _ "'' '' @ [CHR 0x0A] @ ''}'' @ '' '' @ [CHR 0x0A]"] val(1) by simp
  moreover from json obtain w t' w' where u: "object_json [([], v)] = w @ t' @ w'" "json_ws w" "value_text t' u"
    by (auto elim: padded_text.cases)
  from u(1) whole u(2) have "w = []" by (cases w) simp_all
  with u(1) whole value_nonempty [OF u(3)] obtain t'' where t'': "t' = CHR ''{'' # t''" "?rest = t'' @ w'"
    by (cases t') simp_all
  from object_text_first [of t'' u w'] u(3) t'' have
    "first_char ?rest = Some quote_mark \<or> first_char ?rest = Some (CHR ''}'')" by simp
  ultimately show False using value_first [OF val(1)] val(2) by simp
qed

theorem empty_key_not_json_witness: "\<not> padded_text (object_json [([], NULL)]) (OBJECT [([], NULL)])"
  using empty_key_not_json [of NULL] by (simp add: is_string_def)

section \<open>What \<^verbatim>\<open>operator<<\<close> writes\<close>

fun streamable :: "json \<Rightarrow> bool" where
  "streamable (STRING s) \<longleftrightarrow> ascii s"
| "streamable (ARRAY vs) \<longleftrightarrow> (\<forall>v\<in>set vs. streamable v)"
| "streamable (OBJECT m) \<longleftrightarrow> (\<forall>(k, v)\<in>set m. ascii k \<and> streamable v)"
| "streamable INVALID \<longleftrightarrow> False"
| "streamable _ \<longleftrightarrow> True"

lemma separated_Cons: "ts \<noteq> [] \<Longrightarrow> separated (t # ts) = t @ '', '' @ separated ts"
  by (cases ts) simp_all

lemma separated_elements:
  "vs \<noteq> [] \<Longrightarrow> json_ws w \<Longrightarrow> \<forall>v\<in>set vs. value_text (put_value v) (f v) \<Longrightarrow>
   elements_text (w @ separated (map put_value vs)) (map f vs)"
proof (induction vs arbitrary: w)
  case (Cons v vs)
  have one: "padded_text (w @ put_value v @ []) (f v)" using Cons.prems by (intro padded) simp_all
  show ?case
  proof (cases "vs = []")
    case True
    with one show ?thesis by (simp add: one_element)
  next
    case False
    with Cons.IH [of "'' ''"] Cons.prems have "elements_text ('' '' @ separated (map put_value vs)) (map f vs)" by simp
    from more_elements [OF one this] False show ?thesis by (simp add: separated_Cons)
  qed
qed simp

lemma separated_members:
  "m \<noteq> [] \<Longrightarrow> json_ws w \<Longrightarrow> \<forall>(k, v)\<in>set m. ascii k \<and> value_text (put_value v) (f v) \<Longrightarrow>
   members_text (w @ separated (map (\<lambda>(k, v). stream_string k @ '': '' @ put_value v) m))
     (map (\<lambda>(k, v). (k, f v)) m)"
proof (induction m arbitrary: w)
  case (Cons p m)
  obtain k v where p: "p = (k, v)" by force
  have one: "member_text (w @ stream_string k @ [] @ CHR '':'' # '' '' @ put_value v @ []) (k, f v)"
    using Cons.prems p by (intro member padded stream_string_text) simp_all
  show ?case
  proof (cases "m = []")
    case True
    with one p show ?thesis by (auto dest: one_member)
  next
    case False
    with Cons.IH [of "'' ''"] Cons.prems have "members_text ('' '' @ separated (map (\<lambda>(k, v). stream_string k @ '': '' @ put_value v) m))
        (map (\<lambda>(k, v). (k, f v)) m)" by simp
    from more_members [OF one this] False p show ?thesis by (simp add: separated_Cons)
  qed
qed simp

text \<open>
  Fact.  What \<^verbatim>\<open>operator<<\<close> writes is JSON for the value, with numbers rounded to the six digits
  of a stream, if every value has a type and no string has a byte above 127.
\<close>

theorem put_value_valid: "streamable v \<Longrightarrow> value_text (put_value v) (printed stream_digits v)"
proof (induction v)
  case (ARRAY vs)
  show ?case
  proof (cases "vs = []")
    case True
    then show ?thesis using empty_array [of "[]"] by simp
  next
    case False
    with ARRAY full_array [OF separated_elements [of vs "[]" "printed stream_digits"]] show ?thesis by simp
  qed
next
  case (OBJECT m)
  show ?case
  proof (cases "m = []")
    case True
    then show ?thesis using empty_object [of "[]"] by simp
  next
    case False
    from OBJECT have "\<forall>(k, v)\<in>set m. ascii k \<and> value_text (put_value v) (printed stream_digits v)"
      by fastforce
    from full_object [OF separated_members [OF False _ this, of "[]"]] show ?thesis by simp
  qed
next
  case (BOOL b)
  show ?case by (cases b) (simp_all add: true_text false_text)
qed (simp_all add: null_text num_text print_g_text str_text stream_string_text stream_digits_def)

theorem put_value_valid_witness:
  "value_text (put_value (OBJECT [([], ARRAY [STRING ''x'', BOOL True])])) (OBJECT [([], ARRAY [STRING ''x'', BOOL True])])"
  using put_value_valid [of "OBJECT [([], ARRAY [STRING ''x'', BOOL True])]"] by (simp add: ascii_def)

lemma short_escape_ascii: "short_escape c = Some e \<Longrightarrow> (of_char c :: nat) < 128"
  by (auto simp: short_escape_def split: if_splits)

text \<open>
  Fact.  A byte above 127 is compared as a negative number and written with eight digits: a
  reader takes the first four for the character U+FFFF and the others as they stand.
\<close>

theorem stream_breaks_bytes:
  assumes "128 \<le> (of_char c :: nat)"
  shows "\<exists>d d'. stream_string [c] = quote_mark # backslash # ''uffffff'' @ [d, d', quote_mark]"
proof -
  let ?i = "of_char c :: nat"
  have i: "?i < 256" by simp
  have none: "short_escape c = None" using assms short_escape_ascii [of c] by (cases "short_escape c") auto
  let ?n = "2 ^ 32 - 256 + ?i"
  have "(4294967040 + ?i) div 256 = 16777215" using i by (intro div_nat_eqI) simp_all
  then have "?n div 16 div 16 = 16777215" by (simp add: div_mult2_eq [symmetric])
  moreover have "hex_nat 16777215 = ''ffffff''" by (simp add: hex_nat.simps char_of_eq_iff)
  moreover have "\<not> ?n < 16" "\<not> ?n div 16 < 16" using i by simp_all
  ultimately have "\<exists>d d'. hex_nat ?n = ''ffffff'' @ [d, d']"
    using hex_nat.simps [of ?n] hex_nat.simps [of "?n div 16"] by simp
  then obtain d d' where "hex_nat ?n = ''ffffff'' @ [d, d']" by blast
  then have "stream_char c = backslash # ''uffffff'' @ [d, d']"
    using assms none by (simp add: stream_char_def u_escape_def pad_left_def Let_def)
  then show ?thesis by (simp add: stream_string_def)
qed

theorem stream_breaks_bytes_witness:
  "\<exists>d d'. stream_string [CHR 0xE9] = quote_mark # backslash # ''uffffff'' @ [d, d', quote_mark]"
  by (rule stream_breaks_bytes) simp

end
