(* ===== verification/Procmons.thy ===== *)
theory Procmons
  imports HttpServers Servers SystemInfos SmallFiles JsonTexts "HOL-Library.Multiset"
    "HOL-Library.Product_Lexorder"
begin

text \<open>
  \<^verbatim>\<open>examples/procmon/main.cpp\<close>: the program that shows over HTTP what \<open>SystemInfos\<close> has collected, as
  JSON.  \<^verbatim>\<open>std::sort\<close> is an argument, of which the law \<open>sorts_by\<close> says what the standard promises:
  the order of processes that compare equal is not known.
\<close>

section \<open>The program\<close>

text \<open>What opening and reading a file gives.\<close>

record html_file =
  hf_open :: int
  hf_errno :: int
  hf_read :: "nat \<Rightarrow> nat \<Rightarrow> readv_result"

definition readHtmlFile :: "(string \<Rightarrow> html_file) \<Rightarrow> string \<Rightarrow> string" where
  "readHtmlFile files filename =
     (let f = files filename
      in fst (snd (read_small_file (hf_open f) (hf_errno f) (hf_read f) None (1024 * 1024) [])))"

definition c_str :: "string \<Rightarrow> string" where
  "c_str s = takeWhile (\<lambda>c. c \<noteq> CHR 0x00) s"

text \<open>The comparison that is given to \<^verbatim>\<open>std::sort\<close>.\<close>

definition cpu_rank :: "min_process \<Rightarrow> int" where
  "cpu_rank p = to_int32 (to_integer (dmult (mp_cpu p) 10000))"

definition ranks_before :: "min_process \<Rightarrow> min_process \<Rightarrow> bool" where
  "ranks_before p1 p2 \<longleftrightarrow>
     (let c1 = cpu_rank p1; c2 = cpu_rank p2; m1 = mp_mem p1; m2 = mp_mem p2
      in c2 < c1 \<or> c1 = c2 \<and> m2 < m1)"

text \<open>The processes that a query asks for.\<close>

definition selected :: "string \<Rightarrow> (int, min_process) ordered_map \<Rightarrow> min_process list" where
  "selected q tmp =
     (if q = [] \<or> q = ''?all'' then map snd tmp
      else (let pidUserCommand = drop 1 q;
                pid = atoi (c_str pidUserCommand)
            in map snd (filter (\<lambda>(k, m).
                 let f1 = strstr (mp_command m) (c_str pidUserCommand);
                     f2 = strstr (mp_user m) (c_str pidUserCommand)
                 in k = pid \<or> f1 \<noteq> None \<or> f2 \<noteq> None) tmp)))"

definition process_object :: "min_process \<Rightarrow> json_object res" where
  "process_object m =
     runR shift_value
       [STRING ''pid'', number_of_int (mp_pid m), STRING ''user'', STRING (mp_user m),
        STRING ''command'', STRING (mp_command m), STRING ''threads'', number_of_int (mp_threads m),
        STRING ''mem'', number_of_int (mp_mem m), STRING ''cpu'', NUMBER (mp_cpu m)]
       new_object"

fun process_rows :: "int \<Rightarrow> min_process list \<Rightarrow> json list \<Rightarrow> json list res" where
  "process_rows num [] a = Inr a"
| "process_rows num (m # ms) a =
     bindR (process_object m) (\<lambda>ob.
       let a = shift_element (OBJECT (value_map ob)) a;
           num = num + 1
       in if 20 \<le> num then Inr a else process_rows num ms a)"

definition json_page :: "string \<Rightarrow> http_response \<Rightarrow> http_response" where
  "json_page text resp =
     (setContentType ''text/html'' (resp\<lparr>statusCode := k200Ok, statusMessage := ''OK''\<rparr>))
       \<lparr>resp_body := text\<rparr>"

text \<open>The two series that \<^verbatim>\<open>/pid\<close> and \<^verbatim>\<open>/host\<close> show, after the newest figures of the machine.\<close>

definition series_object :: "system_info \<Rightarrow> json list \<Rightarrow> json list \<Rightarrow> json_object res" where
  "series_object si cpu mem =
     (let a = shift_element (NUMBER (dround (1 - idleRate si))) [];
          b = shift_element (number_of_int (memTotal si)) [];
          a = foldl (\<lambda>a c. shift_element c a) a cpu;
          b = foldl (\<lambda>b m. shift_element m b) b mem
      in runR shift_value [STRING ''cpu'', ARRAY a, STRING ''mem'', ARRAY b] new_object)"

definition onRequest_procmon ::
  "(string \<Rightarrow> html_file) \<Rightarrow> (min_process list \<Rightarrow> min_process list) \<Rightarrow> system_info \<Rightarrow> http_callback" where
  "onRequest_procmon files std_sort si req resp =
     (if path req = ''/''
      then Inr (json_page (readHtmlFile files ''phone.html'') resp)
      else if path req = ''/proc''
      then (let process = std_sort (selected (query req) (minProcessData si))
            in bindR (process_rows 0 process []) (\<lambda>a. Inr (json_page (array_json a) resp)))
      else if path req = ''/pid''
      then (if query req = [] then Inl OutOfBounds
            else (let pid = atoi (c_str (drop 1 (query req)));
                      (cpu, mem) = (case map_of (processes si) pid of
                                      None \<Rightarrow> ([], [])
                                    | Some ps \<Rightarrow> (cpu_list ps, mem_list ps))
                  in bindR (series_object si (map NUMBER cpu) (map number_of_int mem))
                       (\<lambda>ob. Inr (json_page (object_json (value_map ob)) resp))))
      else if path req = ''/host''
      then bindR (series_object si (map NUMBER (cpuRate si)) (map NUMBER (memRate si)))
             (\<lambda>ob. Inr (json_page (object_json (value_map ob)) resp))
      else Inr (resp\<lparr>statusCode := k404NotFound, statusMessage := ''Not Found'', closeConnection := True\<rparr>))"

text \<open>The start: the table is brought up to date every two seconds by a timer of the server's loop.\<close>

datatype procmon_task = Update

definition procmon_start ::
  "env \<Rightarrow> nat \<Rightarrow> 'k epoll_ctl \<Rightarrow> int \<Rightarrow> (procmon_task, 'w) event_loop \<times> 'k tcp_server \<Rightarrow>
   ((procmon_task, 'w) event_loop \<times> 'k tcp_server) res" where
  "procmon_start E a ectl listen_ret s =
     (case s of (l, sv) \<Rightarrow>
        bindR (runEvery E a 2 Update l) (\<lambda>l.
        bindR (serv_start ectl listen_ret sv) (\<lambda>sv. Inr (l, sv))))"

definition procmon_main :: "(string \<Rightarrow> 32 word) \<Rightarrow> string list \<Rightarrow> sockaddr_in option" where
  "procmon_main inet_addr argv =
     (case argv of
        [_, ip, port] \<Rightarrow> Some (InetAddress_ip inet_addr ip (word_of_int (atoi port)))
      | _ \<Rightarrow> None)"

section \<open>Sorting\<close>

definition sorts_by :: "('a \<Rightarrow> 'a \<Rightarrow> bool) \<Rightarrow> ('a list \<Rightarrow> 'a list) \<Rightarrow> bool" where
  "sorts_by before std_sort \<longleftrightarrow>
     (\<forall>xs. mset (std_sort xs) = mset xs \<and> sorted_wrt (\<lambda>x y. \<not> before y x) (std_sort xs))"

lemma sorts_byD:
  assumes "sorts_by before std_sort"
  shows "mset (std_sort xs) = mset xs" "sorted_wrt (\<lambda>x y. \<not> before y x) (std_sort xs)"
  using assms by (simp_all add: sorts_by_def)

definition load_key :: "min_process \<Rightarrow> int \<times> int" where
  "load_key p = (- cpu_rank p, - mp_mem p)"

lemma ranks_before_key: "ranks_before p q \<longleftrightarrow> load_key p < load_key q"
  by (auto simp: ranks_before_def load_key_def Let_def less_prod_def)

lemma sort_key_sorts: "sorts_by ranks_before (sort_key load_key)"
proof -
  have "sorted_wrt (\<lambda>x y. \<not> ranks_before y x) (sort_key load_key xs)" for xs
    using sorted_sort_key [of load_key xs] by (simp add: ranks_before_key not_less sorted_map)
  then show ?thesis by (simp add: sorts_by_def)
qed

section \<open>What the loops build\<close>

definition row_value :: "min_process \<Rightarrow> json" where
  "row_value m =
     OBJECT [(''command'', STRING (mp_command m)), (''cpu'', NUMBER (mp_cpu m)),
             (''mem'', number_of_int (mp_mem m)), (''pid'', number_of_int (mp_pid m)),
             (''threads'', number_of_int (mp_threads m)), (''user'', STRING (mp_user m))]"

lemma process_object_row: "\<exists>ob. process_object m = Inr ob \<and> OBJECT (value_map ob) = row_value m"
  by (simp add: process_object_def shift_value_eq get_string_def put_member_def new_object_def row_value_def)

lemma process_rows_take:
  "0 \<le> num \<Longrightarrow> num < 20 \<Longrightarrow> process_rows num ms a = Inr (a @ map row_value (take (nat (20 - num)) ms))"
proof (induction ms arbitrary: num a)
  case (Cons m ms)
  obtain ob where "process_object m = Inr ob" "OBJECT (value_map ob) = row_value m"
    using process_object_row by blast
  moreover have "nat (20 - num) = Suc (nat (20 - (num + 1)))" using Cons.prems by simp
  ultimately show ?case
    using Cons.IH [of "num + 1" "a @ [row_value m]"] Cons.prems by (simp add: shift_element_def Let_def)
qed simp

lemma foldl_shift: "foldl (\<lambda>a c. a @ [c]) a cs = a @ cs"
  by (induction cs arbitrary: a) simp_all

lemma series_object_value:
  "\<exists>ob. series_object si cpu mem = Inr ob \<and>
     value_map ob = [(''cpu'', ARRAY (NUMBER (dround (1 - idleRate si)) # cpu)),
                     (''mem'', ARRAY (number_of_int (memTotal si) # mem))]"
  by (simp add: series_object_def foldl_shift shift_element_def shift_value_eq get_string_def
      put_member_def new_object_def Let_def)

lemma named_rows: "named (ARRAY (map row_value ms))"
  by (auto simp: row_value_def number_of_int_def)

section \<open>The pages\<close>

text \<open>The process of which a line of the table shows the newest sample.\<close>

definition shows_newest :: "system_info \<Rightarrow> min_process \<Rightarrow> bool" where
  "shows_newest si m \<longleftrightarrow>
     (case map_of (processes si) (mp_pid m) of
        None \<Rightarrow> False
      | Some p \<Rightarrow> mp_user m = ps_user p \<and> mp_command m = ps_command p \<and>
          mp_mem m = hd (mem_list p) \<and> mp_cpu m = hd (cpu_list p))"

lemma selected_sub: "\<exists>P. selected q tmp = map snd (filter P tmp)"
  by (auto simp: selected_def Let_def intro: exI [of _ "\<lambda>_. True"])

lemma si_inv_entry:
  assumes "si_inv si" "(k, m) \<in> set (minProcessData si)"
  shows "mp_pid m = k \<and> shows_newest si m"
proof -
  have lookup: "map_of (minProcessData si) k = Some m"
    using assms ordered_distinct [OF si_inv_ordered(2) [OF assms(1)]] by simp
  obtain p where p: "map_of (processes si) k = Some p"
    using si_invD(2) [OF assms(1), of k] lookup by fastforce
  from si_invD(1) [OF assms(1) p] lookup p show ?thesis
    by (simp add: ps_ok_def shows_newest_def)
qed

lemma selected_table:
  assumes "si_inv si"
  shows "distinct (map mp_pid (selected q (minProcessData si)))"
    and "m \<in> set (selected q (minProcessData si)) \<Longrightarrow> shows_newest si m"
proof -
  obtain P where P: "selected q (minProcessData si) = map snd (filter P (minProcessData si))"
    using selected_sub by blast
  then show "m \<in> set (selected q (minProcessData si)) \<Longrightarrow> shows_newest si m"
    using si_inv_entry [OF assms] by auto
  have "map mp_pid (map snd (filter P (minProcessData si))) = map fst (filter P (minProcessData si))"
    using si_inv_entry [OF assms] by auto
  moreover have "distinct (map fst (filter P (minProcessData si)))"
    using ordered_distinct [OF si_inv_ordered(2) [OF assms]] by (rule distinct_map_filter)
  ultimately show "distinct (map mp_pid (selected q (minProcessData si)))"
    by (simp add: P del: map_map)
qed

lemma json_page_body [simp]: "resp_body (json_page text resp) = text"
  by (simp add: json_page_def)

lemma proc_page:
  "path req = ''/proc'' \<Longrightarrow>
   onRequest_procmon files srt si req resp =
     Inr (json_page (array_json (map row_value (take 20 (srt (selected (query req) (minProcessData si)))))) resp)"
  by (simp add: onRequest_procmon_def process_rows_take Let_def)


text \<open>Two processes that idle, of which the second uses more memory, and one that is busy.\<close>

definition busy_world :: "string \<Rightarrow> proc_world" where
  "busy_world ticks7 = sample_world\<lparr>file_text := (\<lambda>path.
     if path = ''/proc/5/status'' then ''Pid: 5 Uid: 0 Name: a Threads: 1 VmRSS: 1 ''
     else if path = ''/proc/6/status'' then ''Pid: 6 Uid: 0 Name: b Threads: 1 VmRSS: 2 ''
     else if path = ''/proc/7/status'' then ''Pid: 7 Uid: 0 Name: c Threads: 1 ''
     else if path = ''/proc/7/stat'' then ''7 (c) R 1 5 5 0 5 0 1 0 0 0 '' @ ticks7 @ '' 9''
     else if path = ''/proc/5/stat'' \<or> path = ''/proc/6/stat'' then ''5 (a) R 1 5 5 0 5 0 1 0 0 0 7 9''
     else []),
   entries := Some [''.'', ''5'', ''6'', ''7'']\<rparr>"

definition table_of :: "system_info res \<Rightarrow> (int, min_process) ordered_map" where
  "table_of r = (case r of Inl _ \<Rightarrow> [] | Inr si \<Rightarrow> minProcessData si)"

definition idle_row :: min_process where
  "idle_row = \<lparr>mp_pid = 5, mp_user = ''root'', mp_command = ''a'', mp_threads = 1, mp_mem = 1, mp_cpu = 0\<rparr>"

definition fat_row :: min_process where
  "fat_row = \<lparr>mp_pid = 6, mp_user = ''root'', mp_command = ''b'', mp_threads = 1, mp_mem = 2, mp_cpu = 0\<rparr>"

definition busy_row :: min_process where
  "busy_row = \<lparr>mp_pid = 7, mp_user = ''root'', mp_command = ''c'', mp_threads = 1, mp_mem = 0, mp_cpu = 2\<rparr>"

lemma busy_table:
  "table_of (runR update_info [busy_world ''7'', busy_world ''9''] no_info) =
     [(5, idle_row), (6, fat_row), (7, busy_row)]"
  by code_simp

lemma busy_ranks: "cpu_rank idle_row = 0" "cpu_rank fat_row = 0" "cpu_rank busy_row = 20000"
  using dround_of_int [of 20000] to_integer_of_int [of 20000] to_integer_of_int [of 0]
  by (simp_all add: cpu_rank_def dmult_def dround_def [of 0] idle_row_def fat_row_def busy_row_def to_int32_id)

lemma busy_order:
  assumes "mset xs = {#idle_row, fat_row, busy_row#}"
    and "sorted_wrt (\<lambda>p p'. cpu_rank p' < cpu_rank p \<or> cpu_rank p' = cpu_rank p \<and> mp_mem p' \<le> mp_mem p) xs"
  shows "xs = [busy_row, fat_row, idle_row]"
proof -
  have mem: "mp_mem idle_row = 1" "mp_mem fat_row = 2" by (simp_all add: idle_row_def fat_row_def)
  have set: "set xs = {idle_row, fat_row, busy_row}" "size (mset xs) = 3" unfolding set_mset_mset [symmetric] assms(1) by auto
  then obtain a b c where abc: "xs = [a, b, c]" by (auto simp: numeral_eq_Suc length_Suc_conv)
  have ne: "idle_row \<noteq> fat_row" "fat_row \<noteq> busy_row" "idle_row \<noteq> busy_row"
    by (simp_all add: idle_row_def fat_row_def busy_row_def)
  have "mset xs = mset [idle_row, fat_row, busy_row]" using assms(1) by simp
  from mset_eq_imp_distinct_iff [OF this] ne have "distinct xs" by simp
  then have "a \<noteq> b" "b \<noteq> c" "a \<noteq> c" unfolding abc by simp_all
  moreover have "a \<in> {idle_row, fat_row, busy_row}" "b \<in> {idle_row, fat_row, busy_row}"
    "c \<in> {idle_row, fat_row, busy_row}" unfolding set(1) [symmetric] by (simp_all add: abc)
  moreover have "cpu_rank b < cpu_rank a \<or> cpu_rank b = cpu_rank a \<and> mp_mem b \<le> mp_mem a"
    "cpu_rank c < cpu_rank b \<or> cpu_rank c = cpu_rank b \<and> mp_mem c \<le> mp_mem b"
    using assms(2) unfolding abc by simp_all
  ultimately show ?thesis
    unfolding abc by (elim insertE emptyE) (simp_all add: busy_ranks mem)
qed


text \<open>
  Fact.  \<^verbatim>\<open>/host\<close>, and \<^verbatim>\<open>/pid\<close> with a number, answer with JSON for two series: the processor
  time and the memory of the whole machine, and after them the history of the machine or of the
  process with that number, the newest sample first, at most 512 of each; a number that is not in
  the table has no history.
\<close>

theorem series_pages:
  assumes si: "runR update_info Ws no_info = Inr si"
    and req: "path req = ''/host'' \<and> cpu = cpuRate si \<and> mem = map NUMBER (memRate si) \<or>
      path req = ''/pid'' \<and> query req = CHR ''?'' # dec_int n \<and> - (2 ^ 31) \<le> n \<and> n < 2 ^ 31 \<and>
      (case map_of (processes si) n of
         None \<Rightarrow> cpu = [] \<and> mem = []
       | Some p \<Rightarrow> cpu = cpu_list p \<and> mem = map number_of_int (mem_list p))"
  shows "\<exists>r. onRequest_procmon files srt si req resp = Inr r \<and> statusCode r = k200Ok \<and>
    padded_text (resp_body r) (printed json_digits
      (OBJECT [(''cpu'', ARRAY (NUMBER (dround (1 - idleRate si)) # map NUMBER cpu)),
               (''mem'', ARRAY (number_of_int (memTotal si) # mem))])) \<and>
    length cpu \<le> 512 \<and> length mem \<le> 512"
proof -
  have inv: "si_inv si" using updates_ok [OF no_info_inv si] by simp
  let ?m = "[(''cpu'', ARRAY (NUMBER (dround (1 - idleRate si)) # map NUMBER cpu)),
    (''mem'', ARRAY (number_of_int (memTotal si) # mem))]"
  obtain ob where ob: "series_object si (map NUMBER cpu) mem = Inr ob" "value_map ob = ?m"
    using series_object_value by blast
  have num: "c_str (dec_int n) = dec_int n"
  proof -
    have "c \<noteq> CHR 0x00" if "c \<in> set (dec_int n)" for c
      using that isdigit_dec_nat [of c] by (auto simp: dec_int_def isdigit_def split: if_splits)
    then show ?thesis by (simp add: c_str_def)
  qed
  have "onRequest_procmon files srt si req resp = Inr (json_page (object_json ?m) resp)"
    using req
  proof
    assume "path req = ''/host'' \<and> cpu = cpuRate si \<and> mem = map NUMBER (memRate si)"
    with ob show ?thesis by (simp add: onRequest_procmon_def)
  next
    assume pid: "path req = ''/pid'' \<and> query req = CHR ''?'' # dec_int n \<and> - (2 ^ 31) \<le> n \<and> n < 2 ^ 31 \<and>
      (case map_of (processes si) n of
         None \<Rightarrow> cpu = [] \<and> mem = []
       | Some p \<Rightarrow> cpu = cpu_list p \<and> mem = map number_of_int (mem_list p))"
    then have "atoi (c_str (drop 1 (query req))) = n"
      using atoi_dec_int [of n "[]"] num by simp
    with pid ob show ?thesis
      by (cases "map_of (processes si) n") (simp_all add: onRequest_procmon_def)
  qed
  moreover have "named (OBJECT ?m)"
    using req by (auto simp: number_of_int_def split: option.splits)
  from object_json_text [OF this] have "padded_text (object_json ?m) (printed json_digits (OBJECT ?m))" .
  moreover have "length cpu \<le> 512 \<and> length mem \<le> 512"
    using req si_inv_bounds [OF inv] si_invD(1) [OF inv, of n]
    by (auto simp: ps_ok_def split: option.splits)
  ultimately show ?thesis by (auto simp: json_page_def setContentType_def)
qed

theorem series_pages_witness:
  "\<exists>r. onRequest_procmon (\<lambda>_. \<lparr>hf_open = -1, hf_errno = 2, hf_read = (\<lambda>_ _. ReadData [])\<rparr>)
       (sort_key load_key) no_info (new_request\<lparr>path := ''/pid'', query := CHR ''?'' # dec_int 7\<rparr>)
       (new_response False) = Inr r \<and>
     padded_text (resp_body r) (printed json_digits
       (OBJECT [(''cpu'', ARRAY [NUMBER (dround (1 - idleRate no_info))]), (''mem'', ARRAY [number_of_int 0])]))"
  using series_pages [of "[]" no_info "new_request\<lparr>path := ''/pid'', query := CHR ''?'' # dec_int 7\<rparr>" "[]" "[]" 7
      "\<lambda>_. \<lparr>hf_open = -1, hf_errno = 2, hf_read = (\<lambda>_ _. ReadData [])\<rparr>" "sort_key load_key" "new_response False"]
  by (auto simp: no_info_def)

section \<open>Over a connection\<close>

text \<open>
  Fact.  A request for the front page is answered, whatever the state of the connection's
  buffers, with the file's first megabyte: the chain from the bytes of the request over the parser,
  the program, the file and the response to the bytes that are sent (or dropped as a whole, if their
  direct \<^verbatim>\<open>write\<close> fails).
\<close>

theorem front_page_served:
  assumes E: "write_ok E" "writeCompleteCallback E = None" and inv: "tcp_inv s" "tcp_state s = kConnected"
    and cont: "contents (inputBuffer s) = request_text req @ rest"
    and req: "request_ok req" "length (body req) < 2 ^ 31" "path req = ''/''" "\<not> wants_close req"
    and html: "reads_text t (hf_read (files ''phone.html''))" "0 \<le> hf_open (files ''phone.html'')"
  shows "\<exists>s'. onMessage E (onRequest_procmon files srt si) s = Some (Inr s') \<and> tcp_inv s' \<and>
    contents (inputBuffer s') = rest \<and> tcp_state s' = kConnected \<and>
    accounted E (''HTTP/1.1 '' @ dec_int 200 @ '' OK'' @ kCRLF @
      ''Content-Length: '' @ dec_nat (min 1048576 (length t)) @ kCRLF @ ''Connection: Keep-Alive'' @ kCRLF @
      ''Content-Type: text/html'' @ kCRLF @ kCRLF @ take 1048576 t) s s'"
proof -
  let ?resp = "(new_response False)\<lparr>statusCode := 200, statusMessage := ''OK'',
    resp_headers := [(''Content-Type'', ''text/html'')], resp_body := take 1048576 t\<rparr>"
  have "readHtmlFile files ''phone.html'' = take 1048576 t"
    using read_small_file_prefix [OF html(1) _ _ html(2), of "1024 * 1024" "hf_errno (files ''phone.html'')" "[]"]
    by (simp add: readHtmlFile_def Let_def)
  then have cb: "onRequest_procmon files srt si req (new_response (wants_close req)) = Inr ?resp"
    using req(3,4) by (simp add: onRequest_procmon_def json_page_def setContentType_def new_response_def k200Ok_def)
  have size: "length (take 1048576 t) \<le> 1048576" by simp
  then have p: "printable ?resp" by (simp add: printable_def new_response_def del: length_take)
  have shape: "response_text ?resp = ''HTTP/1.1 '' @ dec_int 200 @ '' OK'' @ kCRLF @
      ''Content-Length: '' @ dec_nat (min 1048576 (length t)) @ kCRLF @ ''Connection: Keep-Alive'' @ kCRLF @
      ''Content-Type: text/html'' @ kCRLF @ kCRLF @ take 1048576 t"
    by (simp add: response_text_def new_response_def header_line_def min.commute)
  have "length (dec_int 200) \<le> 4" using length_dec_int [of 200 3] by simp
  moreover have "length (dec_nat (min 1048576 (length t))) \<le> 7" by (intro length_dec_nat) simp_all
  ultimately have "length (response_text ?resp) < 2 ^ 31"
    unfolding shape using size by (simp add: kCRLF_def del: length_take)
  from onMessage_ok [where httpCallback = "onRequest_procmon files srt si" and req = req and resp = ?resp,
      OF E inv cont req(1,2) cb p this]
  show ?thesis unfolding shape by (auto simp: new_response_def)
qed

definition page_request :: "string \<Rightarrow> http_request" where
  "page_request p = new_request\<lparr>req_method := kGet, version := kHttp11, path := p\<rparr>"

lemma page_request_ok:
  assumes "p = ''/'' \<or> p = ''/pid''"
  shows "request_ok (page_request p)" "length (body (page_request p)) < 2 ^ 31" "path (page_request p) = p"
    "query (page_request p) = []" "\<not> wants_close (page_request p)"
  using assms by (auto simp: request_ok_def page_request_def new_request_def header_def wants_close_def kCRLF_def)

definition sample_files :: "string \<Rightarrow> html_file" where
  "sample_files = (\<lambda>_. \<lparr>hf_open = 3, hf_errno = 0, hf_read = (\<lambda>pos n. ReadData (take n (drop pos ''<html>'')))\<rparr>)"

theorem front_page_served_witness:
  "\<exists>s'. onMessage sample_tcp_env (onRequest_procmon sample_files (sort_key load_key) no_info)
      ((sample_tcp kConnected 3)\<lparr>inputBuffer := buffer_of (request_text (page_request ''/''))\<rparr>) = Some (Inr s') \<and>
    tcp_state s' = kConnected"
proof -
  let ?s = "(sample_tcp kConnected 3)\<lparr>inputBuffer := buffer_of (request_text (page_request ''/''))\<rparr>"
  have env: "writeCompleteCallback sample_tcp_env = None" by (simp add: sample_tcp_env_def)
  have state: "tcp_state ?s = kConnected" by (simp add: sample_tcp_def)
  have cont: "contents (inputBuffer ?s) = request_text (page_request ''/'') @ []" by simp
  have html: "reads_text ''<html>'' (hf_read (sample_files ''phone.html''))"
    "0 \<le> hf_open (sample_files ''phone.html'')"
    using reads_text_whole [of "''<html>''"] by (simp_all add: sample_files_def)
  from front_page_served [where files = sample_files and srt = "sort_key load_key" and si = no_info,
      OF sample_tcp_env_ok(1) env sample_conn_input [OF buffer_of_ok(1)] state cont
      page_request_ok(1,2,3,5) [of "''/''"] html]
  show ?thesis by auto
qed

text \<open>
  Fact.  A request for \<^verbatim>\<open>/pid\<close> without a query, from anyone who can connect, makes the program read
  beyond the end of the empty string.
\<close>

theorem pid_without_query:
  assumes inv: "tcp_inv s" and cont: "contents (inputBuffer s) = request_text req @ rest"
    and req: "request_ok req" "length (body req) < 2 ^ 31" "path req = ''/pid''" "query req = []"
  shows "onMessage E (onRequest_procmon files srt si) s = Some (Inl OutOfBounds)"
proof -
  have "buf_inv (inputBuffer s)" using inv by (simp add: tcp_inv_def stream_inv_def)
  from parse_text [OF this cont req(1,2)] obtain b where
    "parseRequest new_context (inputBuffer s) = Some (Inr (True, \<lparr>parse_state = kGotAll, request = req\<rparr>, b))"
    by blast
  moreover obtain b0 where "new_buffer kInitialSize = Inr b0" using new_buffer_ok by blast
  ultimately show ?thesis
    using req(3,4) by (simp add: onMessage_def gotAll_def HttpServers.onRequest_def onRequest_procmon_def)
qed

theorem pid_without_query_witness:
  "onMessage sample_tcp_env (onRequest_procmon sample_files (sort_key load_key) no_info)
     ((sample_tcp kConnected 3)\<lparr>inputBuffer := buffer_of (request_text (page_request ''/pid''))\<rparr>) =
     Some (Inl OutOfBounds)"
proof -
  let ?s = "(sample_tcp kConnected 3)\<lparr>inputBuffer := buffer_of (request_text (page_request ''/pid''))\<rparr>"
  have cont: "contents (inputBuffer ?s) = request_text (page_request ''/pid'') @ []" by simp
  from pid_without_query [OF sample_conn_input [OF buffer_of_ok(1)] cont page_request_ok(1-4) [of "''/pid''"]]
  show ?thesis by simp
qed

section \<open>The start\<close>

text \<open>
  Fact.  \<^verbatim>\<open>start\<close> leaves the server listening, and the loop with a timer that first runs the update two
  seconds later and then every two seconds, if \<^verbatim>\<open>listen\<close> does not fail.
\<close>

theorem procmon_start_ok:
  assumes "tq_inv X (timerQueue l)" "a \<notin> dom (heap (timerQueue l))" "a < UINTPTR_MAX"
    and "settime_ok E" "armed E (timerQueue l)" and "0 \<le> listen_ret"
  shows "\<exists>l' sv'. procmon_start E a ectl listen_ret (l, sv) = Inr (l', sv') \<and> serv_started sv' \<and>
    heap (timerQueue l') a =
      Some \<lparr>callback = Update, expiration = addTime (clock E (ticks (timerQueue l))) 2, interval = 2,
            repeats = True\<rparr> \<and>
    tq_inv X (timerQueue l') \<and> armed E (timerQueue l')"
proof -
  let ?q = "(timerQueue l)\<lparr>ticks := Suc (ticks (timerQueue l))\<rparr>"
  let ?due = "addTime (clock E (ticks (timerQueue l))) 2"
  have q: "tq_inv X ?q" "a \<notin> dom (heap ?q)" "armed E ?q"
    using assms(1,2,5) tq_inv_cong [of ?q "timerQueue l" X] armed_cong [of ?q "timerQueue l" E] by simp_all
  from addTimer_armed [OF q(1,2) assms(3,4) q(3), of Update ?due 2] obtain q' where q':
    "addTimer E a Update ?due 2 ?q = Inr q'" "tq_inv X q'" "armed E q'"
    "heap q' a = Some (new_timer Update ?due 2)"
    by blast
  have "\<exists>sv'. serv_start ectl listen_ret sv = Inr sv' \<and> serv_started sv'"
    using assms(6) by (cases "serv_started sv")
      (auto simp: serv_start_def acc_listen_def sock_listen_def split: prod.split)
  with q' show ?thesis
    by (auto simp: procmon_start_def runEvery_def read_clock_def new_timer_def)
qed

theorem procmon_start_ok_witness:
  "\<exists>l' sv'. procmon_start sample_env 32 (\<lambda>op f ev k. k) 0
      (new_event_loop (9::nat),
       \<lparr>serv_started = False, nextId = 0, connections = (\<lambda>_. None),
        serv_acceptor = \<lparr>acc_socket = new_socket 3, acc_channel = new_channel 3, acc_kernel = (0::nat)\<rparr>\<rparr>) =
      Inr (l', sv') \<and> serv_started sv'"
proof -
  let ?l = "new_event_loop 9 :: (procmon_task, nat) event_loop"
  have "tq_inv {} (timerQueue ?l)" "32 \<notin> dom (heap (timerQueue ?l))" "32 < UINTPTR_MAX"
    "armed sample_env (timerQueue ?l)"
    by (simp_all add: new_event_loop_def tq_inv_def new_timer_queue_def armed_def UINTPTR_MAX_def)
  from procmon_start_ok [OF this(1-3) sample_env_ok this(4), of 0] show ?thesis by blast
qed

end
