(* ===== verification/InputStreams.thy ===== *)
theory InputStreams
  imports FloatText
begin

text \<open>
  \<^verbatim>\<open>std::istringstream\<close> as the JSON parser uses it: the text, the position of the next character and the
  three bits of the state.  Every operation first builds its sentry, which sets \<open>failbit\<close> unless the
  stream is good; \<^verbatim>\<open>putback\<close>, \<^verbatim>\<open>unget\<close> and \<^verbatim>\<open>seekg\<close> clear \<open>eofbit\<close> before that, as they do since
  C++11.  The text cannot be written, so a character that is put back must be the one that was read.
\<close>

section \<open>Characters\<close>

record istream =
  buf :: string
  pos :: nat
  eofbit :: bool
  failbit :: bool
  badbit :: bool

definition new_stream :: "string \<Rightarrow> istream" where
  "new_stream s = \<lparr>buf = s, pos = 0, eofbit = False, failbit = False, badbit = False\<rparr>"

definition good :: "istream \<Rightarrow> bool" where
  "good st \<longleftrightarrow> \<not> eofbit st \<and> \<not> failbit st \<and> \<not> badbit st"

definition fails :: "istream \<Rightarrow> bool" where
  "fails st \<longleftrightarrow> failbit st \<or> badbit st"

text \<open>\<^verbatim>\<open>get(ch)\<close> leaves \<^verbatim>\<open>ch\<close> alone when there is no character.\<close>

definition get_char :: "char \<Rightarrow> istream \<Rightarrow> char \<times> istream" where
  "get_char ch st =
     (if \<not> good st then (ch, st\<lparr>failbit := True\<rparr>)
      else if pos st < length (buf st) then (buf st ! pos st, st\<lparr>pos := Suc (pos st)\<rparr>)
      else (ch, st\<lparr>eofbit := True, failbit := True\<rparr>))"

definition peek_char :: "istream \<Rightarrow> char option \<times> istream" where
  "peek_char st =
     (if \<not> good st then (None, st\<lparr>failbit := True\<rparr>)
      else if pos st < length (buf st) then (Some (buf st ! pos st), st)
      else (None, st\<lparr>eofbit := True\<rparr>))"

definition putback :: "char \<Rightarrow> istream \<Rightarrow> istream" where
  "putback c st =
     (let st = st\<lparr>eofbit := False\<rparr>
      in if \<not> good st then st\<lparr>failbit := True\<rparr>
         else if 0 < pos st \<and> buf st ! (pos st - 1) = c then st\<lparr>pos := pos st - 1\<rparr>
         else st\<lparr>badbit := True\<rparr>)"

definition unget :: "istream \<Rightarrow> istream" where
  "unget st =
     (let st = st\<lparr>eofbit := False\<rparr>
      in if \<not> good st then st\<lparr>failbit := True\<rparr>
         else if 0 < pos st then st\<lparr>pos := pos st - 1\<rparr>
         else st\<lparr>badbit := True\<rparr>)"

definition clear_state :: "istream \<Rightarrow> istream" where
  "clear_state st = st\<lparr>eofbit := False, failbit := False, badbit := False\<rparr>"

definition tellg :: "istream \<Rightarrow> nat option \<times> istream" where
  "tellg st = (if good st then (Some (pos st), st) else (None, st\<lparr>failbit := True\<rparr>))"

definition seekg :: "nat option \<Rightarrow> istream \<Rightarrow> istream" where
  "seekg p st =
     (let st = st\<lparr>eofbit := False\<rparr>
      in if \<not> good st then st\<lparr>failbit := True\<rparr>
         else case p of Some k \<Rightarrow> st\<lparr>pos := k\<rparr> | None \<Rightarrow> st\<lparr>failbit := True\<rparr>)"

text \<open>\<^verbatim>\<open>in >> std::ws\<close>.\<close>

definition skip_ws :: "istream \<Rightarrow> istream" where
  "skip_ws st =
     (if \<not> good st then st\<lparr>failbit := True\<rparr>
      else (let st = st\<lparr>pos := pos st + length (takeWhile isspace (drop (pos st) (buf st)))\<rparr>
            in if pos st < length (buf st) then st else st\<lparr>eofbit := True\<rparr>))"

section \<open>Numbers\<close>

text \<open>
  \<^verbatim>\<open>in >> x\<close> for a \<^verbatim>\<open>long double\<close>, as the GNU library reads it: a sign, digits with at most one point
  among them, and an exponent if there was a digit; then \<^verbatim>\<open>strtold\<close> must accept all of it.  The
  result is the exact value, if there is one, and the rest.  The value is rounded to 64 bits.
\<close>

definition scan_sign :: "string \<Rightarrow> bool \<times> string" where
  "scan_sign s =
     (case s of
        [] \<Rightarrow> (False, [])
      | c # cs \<Rightarrow> if c = CHR ''-'' then (True, cs) else if c = CHR ''+'' then (False, cs) else (False, s))"

definition scan_fraction :: "string \<Rightarrow> string \<times> string" where
  "scan_fraction s =
     (case s of
        [] \<Rightarrow> ([], [])
      | c # cs \<Rightarrow> if c = CHR ''.'' then (takeWhile isdigit cs, dropWhile isdigit cs) else ([], s))"

definition scan_exponent :: "string \<Rightarrow> int option \<times> string" where
  "scan_exponent s =
     (case s of
        [] \<Rightarrow> (Some 0, [])
      | c # cs \<Rightarrow>
          if c = CHR ''e'' \<or> c = CHR ''E''
          then (case scan_sign cs of (neg, cs) \<Rightarrow>
                  let k = takeWhile isdigit cs
                  in (if k = [] then None
                      else Some (if neg then - int (digits_val 0 k) else int (digits_val 0 k)),
                      dropWhile isdigit cs))
          else (Some 0, s))"

definition scan_float :: "string \<Rightarrow> rat option \<times> string" where
  "scan_float s =
     (case scan_sign s of (neg, s) \<Rightarrow>
        let i = takeWhile isdigit s
        in case scan_fraction (dropWhile isdigit s) of (f, s) \<Rightarrow>
             if i = [] \<and> f = [] then (None, s)
             else (case scan_exponent s of (e, s) \<Rightarrow>
                     (case e of
                        None \<Rightarrow> None
                      | Some e \<Rightarrow>
                          let v = of_nat (digits_val 0 (i @ f)) * 10 powi (e - int (length f))
                          in Some (if neg then - v else v), s)))"

text \<open>Below the smallest normal number the digits end at the fixed place \<open>2 ^ -16445\<close>.\<close>

definition ldround_pos :: "rat \<Rightarrow> rat" where
  "ldround_pos x =
     (if x < 1 / 2 ^ 16382 then of_int (round_even (x * 2 ^ 16445)) / 2 ^ 16445 else fround_pos 64 x)"

definition ldround :: "rat \<Rightarrow> rat" where
  "ldround x = (if x = 0 then 0 else if 0 < x then ldround_pos x else - ldround_pos (- x))"

definition long_double_max :: rat where
  "long_double_max = 2 ^ 16384 - 2 ^ 16320"

definition extract_float :: "istream \<Rightarrow> rat option \<times> istream" where
  "extract_float st =
     (if \<not> good st then (None, st\<lparr>failbit := True\<rparr>)
      else let st = skip_ws st
           in if eofbit st then (None, st\<lparr>failbit := True\<rparr>)
              else (case scan_float (drop (pos st) (buf st)) of (v, rest) \<Rightarrow>
                      let st = st\<lparr>pos := length (buf st) - length rest, eofbit := (rest = [])\<rparr>
                      in (case v of
                            None \<Rightarrow> (None, st\<lparr>failbit := True\<rparr>)
                          | Some v \<Rightarrow>
                              if long_double_max < \<bar>ldround v\<bar> then (None, st\<lparr>failbit := True\<rparr>)
                              else (Some (ldround v), st))))"

text \<open>\<^verbatim>\<open>ss >> i\<close> for an \<^verbatim>\<open>int\<close> in hexadecimal, from a stream that holds a few characters.\<close>

fun hex_digits_val :: "nat \<Rightarrow> string \<Rightarrow> nat" where
  "hex_digits_val acc [] = acc"
| "hex_digits_val acc (c # cs) =
     (case hex_val c of None \<Rightarrow> acc | Some d \<Rightarrow> hex_digits_val (16 * acc + d) cs)"

definition extract_hex :: "string \<Rightarrow> int option" where
  "extract_hex s =
     (case scan_sign (dropWhile isspace s) of (neg, t) \<Rightarrow>
        let t = (if take 2 t = ''0x'' \<or> take 2 t = ''0X'' then drop 2 t else t)
        in if t = [] \<or> hex_val (hd t) = None then None
           else Some (if neg then - int (hex_digits_val 0 t) else int (hex_digits_val 0 t)))"

section \<open>Good streams\<close>

text \<open>\<open>rest st s\<close>: the stream is good and \<open>s\<close> is what is left to read.\<close>

definition rest :: "istream \<Rightarrow> string \<Rightarrow> bool" where
  "rest st s \<longleftrightarrow> good st \<and> pos st \<le> length (buf st) \<and> drop (pos st) (buf st) = s"

definition advance :: "nat \<Rightarrow> istream \<Rightarrow> istream" where
  "advance k st = st\<lparr>pos := pos st + k\<rparr>"

named_theorems stream_rules \<open>what the operations do on a good stream\<close>

lemma rest_new [simp]: "rest (new_stream s) s"
  by (simp add: rest_def new_stream_def good_def)

lemma good_advance [simp]: "good (advance k st) = good st"
  by (simp add: advance_def good_def)

lemma advance_advance [simp]: "advance j (advance k st) = advance (k + j) st"
  by (simp add: advance_def)

lemma advance_0 [simp]: "advance 0 st = st"
  by (simp add: advance_def)

lemma rest_good: "rest st s \<Longrightarrow> good st"
  by (simp add: rest_def)

lemma rest_length: "rest st s \<Longrightarrow> length (buf st) = pos st + length s"
  by (auto simp: rest_def)

lemma rest_advance: "rest st (w @ s) \<Longrightarrow> rest (advance (length w) st) s"
proof -
  assume r: "rest st (w @ s)"
  have "drop (pos st + length w) (buf st) = drop (length w) (drop (pos st) (buf st))"
    by (simp add: add.commute)
  also have "\<dots> = s" using r by (simp add: rest_def)
  finally show ?thesis using r rest_length [OF r] by (simp add: rest_def advance_def good_def)
qed

lemma rest_Cons: "rest st (c # s) \<Longrightarrow> rest (advance (Suc 0) st) s"
  using rest_advance [of st "[c]" s] by simp

lemma rest_nth:
  assumes "rest st (c # s)"
  shows "pos st < length (buf st) \<and> buf st ! pos st = c"
proof
  show "pos st < length (buf st)" using rest_length [OF assms] by simp
  from assms have "drop (pos st) (buf st) = c # s" by (simp add: rest_def)
  then show "buf st ! pos st = c" by (rule nth_via_drop)
qed

lemma get_rest [stream_rules]: "rest st (c # s) \<Longrightarrow> get_char ch st = (c, advance (Suc 0) st)"
  using rest_nth [of st c s] rest_good [of st "c # s"] by (simp add: get_char_def advance_def)

lemma peek_rest [stream_rules]: "rest st (c # s) \<Longrightarrow> peek_char st = (Some c, st)"
  using rest_nth [of st c s] rest_good [of st "c # s"] by (simp add: peek_char_def)

lemma putback_rest [stream_rules]: "rest st (c # s) \<Longrightarrow> putback c (advance (Suc 0) st) = st"
  using rest_nth [of st c s] rest_good [of st "c # s"]
  by (simp add: putback_def advance_def good_def Let_def)

lemma tellg_rest [stream_rules]: "rest st s \<Longrightarrow> tellg st = (Some (pos st), st)"
  by (simp add: tellg_def rest_good)

lemma skip_ws_rest [stream_rules]:
  assumes "rest st (w @ c # s)" "list_all isspace w" "\<not> isspace c"
  shows "skip_ws st = advance (length w) st"
proof -
  have "takeWhile isspace (w @ c # s) = w" using assms(2,3) by (simp add: list_all_iff takeWhile_append)
  then have "takeWhile isspace (drop (pos st) (buf st)) = w" using assms(1) by (simp add: rest_def)
  with rest_good [OF assms(1)] rest_length [OF assms(1)] show ?thesis
    by (simp add: skip_ws_def advance_def)
qed

text \<open>A failed extraction is undone: the state is cleared and the position set back.\<close>

lemma rollback_rest:
  "rest st s \<Longrightarrow> buf st' = buf st \<Longrightarrow> seekg (Some (pos st)) (clear_state st') = st"
  by (cases st, cases st') (simp add: seekg_def clear_state_def rest_def good_def)

section \<open>Positions\<close>

text \<open>
  What is left to read of a stream in any state, and the number of reads that can still succeed.
  \<open>reads_on st st'\<close>: \<open>st'\<close> is the same text, not before the position of \<open>st\<close>.
\<close>

definition left :: "istream \<Rightarrow> nat" where
  "left st = length (buf st) - pos st"

definition reads :: "istream \<Rightarrow> nat" where
  "reads st = (if good st then Suc (left st) else 0)"

definition reads_on :: "istream \<Rightarrow> istream \<Rightarrow> bool" where
  "reads_on st st' \<longleftrightarrow> buf st' = buf st \<and> left st' \<le> left st"

lemma reads_on_refl [simp]: "reads_on st st"
  by (simp add: reads_on_def)

lemma reads_on_trans: "reads_on a b \<Longrightarrow> reads_on b c \<Longrightarrow> reads_on a c"
  by (simp add: reads_on_def)

lemma flags_left [simp]:
  "left (st\<lparr>eofbit := e\<rparr>) = left st" "left (st\<lparr>failbit := f\<rparr>) = left st" "left (st\<lparr>badbit := b\<rparr>) = left st"
  by (simp_all add: left_def)

lemma get_char_left:
  assumes "get_char ch st = (c, st')"
  shows "reads_on st st'" "good st \<Longrightarrow> reads st' < reads st" "reads st' \<le> reads st"
    and "good st' \<Longrightarrow> left st = Suc (left st') \<and> pos st < length (buf st) \<and> pos st' = Suc (pos st)"
    and "\<not> good st' \<Longrightarrow> c = ch \<and> failbit st' \<and> left st' = left st"
  using assms by (auto simp: get_char_def reads_on_def left_def reads_def good_def split: if_splits)

lemma peek_char_left:
  assumes "peek_char st = (c, st')"
  shows "reads_on st st'" "left st' = left st" "reads st' \<le> reads st" "c = Some x \<Longrightarrow> st' = st \<and> good st"
  using assms by (auto simp: peek_char_def reads_on_def reads_def good_def split: if_splits)

lemma skip_ws_left: "reads_on st (skip_ws st)" "reads (skip_ws st) \<le> reads st"
  by (auto simp: skip_ws_def reads_on_def reads_def left_def good_def Let_def)

end
