(* ===== verification/JsonParsers.thy ===== *)
theory JsonParsers
  imports InputStreams JsonTexts
begin

text \<open>
  The parser of \<^verbatim>\<open>examples/procmon/jsonxx.cc\<close>, with the settings of \<^verbatim>\<open>jsonxx.h\<close>: permissive, and keys in
  quotes (so \<^verbatim>\<open>parse_identifier\<close> is never called; it stands in \<open>JsonKeys\<close>).  Every function takes the stream and
  returns it with its result.  The mutual recursion of values, arrays and objects takes a bound on
  the number of calls; \<open>None\<close> is a bound that was too small, and it is proved which bound is enough.
\<close>

section \<open>Comments and patterns\<close>

text \<open>
  The loop that skips a line, on a stream that is good, as it is where it is called: up to a line end,
  or to the end of the text, where \<^verbatim>\<open>peek\<close> and \<^verbatim>\<open>get\<close> set both bits.
\<close>

definition skip_line :: "istream \<Rightarrow> istream" where
  "skip_line st =
     (if eofbit st then st
      else (let st = st\<lparr>pos := pos st + length (takeWhile (\<lambda>c. c \<noteq> CHR 0x0D \<and> c \<noteq> CHR 0x0A) (drop (pos st) (buf st)))\<rparr>
            in if pos st < length (buf st) then st else st\<lparr>eofbit := True, failbit := True\<rparr>))"

definition parse_comment :: "istream \<Rightarrow> bool \<times> istream" where
  "parse_comment st =
     (if eofbit st then (False, st)
      else case peek_char st of (c, st) \<Rightarrow>
        if c \<noteq> Some (CHR ''/'') then (False, st)
        else case get_char (CHR 0x00) st of (ch0, st) \<Rightarrow>
          if eofbit st then (False, clear_state (unget st))
          else case get_char (CHR 0x00) st of (ch1, st) \<Rightarrow>
            if ch0 = CHR ''/'' \<and> ch1 = CHR ''/''
            then (let st = skip_line st in (True, if \<not> eofbit st then skip_ws st else st))
            else (False, clear_state (unget (clear_state (unget st)))))"

lemma skip_line_left: "reads_on st (skip_line st)"
  by (auto simp: skip_line_def reads_on_def left_def Let_def)

lemma comment_back:
  assumes "good st" "peek_char st = (Some (CHR ''/''), st1)" "get_char (CHR 0x00) st1 = (ch0, st2)"
    and "get_char (CHR 0x00) st2 = (ch1, st3)"
  shows "\<not> eofbit st2" "clear_state (unget (clear_state (unget st3))) = st"
proof -
  have st: "st1 = st" "good st" using peek_char_left [OF assms(2)] by simp_all
  have p: "pos st < length (buf st)" using assms(1,2) by (auto simp: peek_char_def split: if_splits)
  with st assms(3) have st2: "st2 = st\<lparr>pos := Suc (pos st)\<rparr>" by (simp add: get_char_def)
  then show "\<not> eofbit st2" using st(2) by (simp add: good_def)
  show "clear_state (unget (clear_state (unget st3))) = st"
    using assms(4) st(2) unfolding st2
    by (cases st) (auto simp: get_char_def unget_def clear_state_def good_def Let_def split: if_splits)
qed

lemma comment_progress:
  assumes "parse_comment st = (b, st')"
  shows "reads_on st st'" "b \<Longrightarrow> good st \<and> left st' < left st" "\<not> b \<Longrightarrow> good st \<Longrightarrow> left st' = left st"
proof -
  obtain c st1 where 1: "peek_char st = (c, st1)" by force
  obtain ch0 st2 where 2: "get_char (CHR 0x00) st1 = (ch0, st2)" by force
  obtain ch1 st3 where 3: "get_char (CHR 0x00) st2 = (ch1, st3)" by force
  have "reads_on st st' \<and> (b \<longrightarrow> good st \<and> left st' < left st) \<and> (\<not> b \<longrightarrow> good st \<longrightarrow> left st' = left st)"
  proof (cases "eofbit st \<or> c \<noteq> Some (CHR ''/'')")
    case True
    with assms 1 peek_char_left(1,2) [OF 1] show ?thesis
      by (auto simp: parse_comment_def split: if_splits)
  next
    case False
    then have c: "c = Some (CHR ''/'')" by simp
    from peek_char_left(4) [OF 1 c] have st: "st1 = st" "good st" by simp_all
    note undone = comment_back [OF st(2) 1 [unfolded c] 2 3]
    show ?thesis
    proof (cases "ch0 = CHR ''/'' \<and> ch1 = CHR ''/''")
      case True
      then have "good st3" using get_char_left(5) [OF 3] by auto
      then have "reads_on st st3" "left st3 < left st"
        using get_char_left(4) [OF 3] get_char_left(1) [OF 3] get_char_left(1) [OF 2] st(1)
        by (auto simp: reads_on_def)
      moreover have "st' = (if \<not> eofbit (skip_line st3) then skip_ws (skip_line st3) else skip_line st3)" "b"
        using assms False 1 2 3 undone(1) True c by (auto simp: parse_comment_def Let_def)
      ultimately show ?thesis
        using skip_line_left [of st3] skip_ws_left(1) [of "skip_line st3"] st(2) by (auto simp: reads_on_def)
    next
      case diff: False
      then have "st' = st" "\<not> b" using assms False 1 2 3 undone c by (auto simp: parse_comment_def Let_def split: if_splits)
      then show ?thesis by simp
    qed
  qed
  then show "reads_on st st'" "b \<Longrightarrow> good st \<and> left st' < left st" "\<not> b \<Longrightarrow> good st \<Longrightarrow> left st' = left st"
    by blast+
qed

text \<open>
  \<open>k\<close> characters of the pattern have been matched.  Where the text ends, \<^verbatim>\<open>get\<close> fails and leaves the
  previous character in \<^verbatim>\<open>ch\<close>, which is compared all the same.
\<close>

lemma putback_left:
  "buf (putback c st) = buf st" "left (putback c st) \<le> Suc (left st)"
  "failbit st \<Longrightarrow> left (putback c st) = left st \<and> failbit (putback c st)"
  by (auto simp: putback_def left_def good_def Let_def)

lemma failed_putback_comment:
  "failbit st \<Longrightarrow> \<not> fst (parse_comment (putback ch st)) \<and> left (snd (parse_comment (putback ch st))) = left st \<and>
     failbit (snd (parse_comment (putback ch st)))"
  by (auto simp: putback_def parse_comment_def peek_char_def good_def left_def Let_def)

function match_loop :: "string \<Rightarrow> nat \<Rightarrow> char \<Rightarrow> istream \<Rightarrow> bool \<times> istream" where
  "match_loop pattern k ch st =
     (if \<not> fails st \<and> \<not> eofbit st \<and> k < length pattern
      then (case get_char ch st of (ch, st) \<Rightarrow>
              if ch \<noteq> pattern ! k
              then (case parse_comment (putback ch st) of (comment, st) \<Rightarrow>
                      if comment then match_loop pattern k ch st
                      else (False, foldl (\<lambda>st c. putback c st) st (rev (take k pattern))))
              else match_loop pattern (Suc k) ch st)
      else (k = length pattern, st))"
  by auto

termination
proof (relation "measure (\<lambda>(pattern, k, ch, st). length pattern - k + left st)", goal_cases)
  case (2 pattern k ch st c st1 comment st2)
  then have g: "get_char ch st = (c, st1)" and cm: "parse_comment (putback c st1) = (True, st2)" by simp_all
  have "\<not> failbit st1" using failed_putback_comment [of st1 c] cm by auto
  then have "good st1" using get_char_left(5) [OF g] by blast
  then have "left st = Suc (left st1)" using get_char_left(4) [OF g] by blast
  then have "left st2 < left st" using putback_left(2) [of c st1] comment_progress(2) [OF cm] by simp
  then show ?case by simp
next
  case (3 pattern k ch st c st1)
  then have "left st1 \<le> left st" "k < length pattern"
    using get_char_left(1) [of ch st c st1] by (simp_all add: reads_on_def)
  then show ?case by auto
qed simp

declare match_loop.simps [simp del]

text \<open>\<^verbatim>\<open>match\<close>.\<close>

definition match :: "string \<Rightarrow> istream \<Rightarrow> bool \<times> istream" where
  "match pattern st = match_loop pattern 0 (CHR 0x00) (skip_ws st)"

section \<open>Strings\<close>

text \<open>The four characters after \<^verbatim>\<open>\u\<close>: what is collected, the last character, the stream.\<close>

fun hex_loop :: "nat \<Rightarrow> char \<Rightarrow> istream \<Rightarrow> string \<times> char \<times> istream" where
  "hex_loop 0 ch st = ([], ch, st)"
| "hex_loop (Suc n) ch st =
     (if \<not> eofbit st \<and> good st
      then (case get_char ch st of (ch, st) \<Rightarrow>
              case hex_loop n ch st of (ss, ch', st) \<Rightarrow> (ch # ss, ch', st))
      else ([], ch, st))"

definition parse_escape :: "char \<Rightarrow> char \<Rightarrow> string \<Rightarrow> istream \<Rightarrow> char \<times> string \<times> istream" where
  "parse_escape delimiter ch val st =
     (case get_char ch st of (ch, st) \<Rightarrow>
        if ch = backslash \<or> ch = CHR ''/'' then (ch, val @ [ch], st)
        else if ch = CHR ''b'' then (ch, val @ [CHR 0x08], st)
        else if ch = CHR ''f'' then (ch, val @ [CHR 0x0C], st)
        else if ch = CHR ''n'' then (ch, val @ [CHR 0x0A], st)
        else if ch = CHR ''r'' then (ch, val @ [CHR 0x0D], st)
        else if ch = CHR ''t'' then (ch, val @ [CHR 0x09], st)
        else if ch = CHR ''u''
        then (case hex_loop 4 ch st of (ss, ch, st) \<Rightarrow>
                (ch,
                 (if good st
                  then (case extract_hex ss of None \<Rightarrow> val | Some i \<Rightarrow> val @ [char_of (nat (i mod 256))])
                  else val),
                 st))
        else if ch \<noteq> delimiter then (ch, val @ [backslash, ch], st)
        else (ch, val @ [ch], st))"

lemma hex_loop_left:
  "hex_loop n ch st = (ss, c, st') \<Longrightarrow> reads_on st st' \<and> reads st' \<le> reads st"
proof (induction n arbitrary: ch st ss)
  case (Suc n)
  show ?case
  proof (cases "\<not> eofbit st \<and> good st")
    case True
    obtain ch1 st1 where 1: "get_char ch st = (ch1, st1)" by force
    with True Suc.prems obtain ss1 where "hex_loop n ch1 st1 = (ss1, c, st')"
      by (auto split: prod.splits)
    from Suc.IH [OF this] get_char_left(1,3) [OF 1] show ?thesis by (auto intro: reads_on_trans)
  qed (use Suc.prems in auto)
qed simp

lemma parse_escape_left:
  assumes "parse_escape d ch v st = (c, v', st')"
  shows "reads_on st st'" "reads st' \<le> reads st"
proof -
  obtain ch1 st1 where 1: "get_char ch st = (ch1, st1)" by force
  obtain ss ch2 st2 where 2: "hex_loop 4 ch1 st1 = (ss, ch2, st2)" by (metis prod_cases3)
  have "st' = st1 \<or> st' = st2" using assms 1 2 by (auto simp: parse_escape_def split: if_splits)
  with get_char_left(1,3) [OF 1] hex_loop_left [OF 2]
  show "reads_on st st'" "reads st' \<le> reads st" by (auto intro: reads_on_trans)
qed

function string_loop :: "char \<Rightarrow> char \<Rightarrow> string \<Rightarrow> istream \<Rightarrow> bool \<times> string \<times> istream" where
  "string_loop delimiter ch val st =
     (if \<not> eofbit st \<and> good st
      then (case get_char ch st of (ch, st) \<Rightarrow>
              if ch = delimiter then (\<not> fails st, val, st)
              else if ch = backslash
              then (case parse_escape delimiter ch val st of (ch, val, st) \<Rightarrow> string_loop delimiter ch val st)
              else string_loop delimiter ch (val @ [ch]) st)
      else (\<not> fails st \<and> ch = delimiter, val, st))"
  by auto

termination
proof (relation "measure (\<lambda>(delimiter, ch, val, st). reads st)", goal_cases)
  case (2 d ch v st c st1 ch2 y v2 st2)
  then have g: "get_char ch st = (c, st1)" and e: "parse_escape d c v st1 = (ch2, v2, st2)" by simp_all
  have "reads st1 < reads st" using 2 get_char_left(2) [OF g] by simp
  with parse_escape_left(2) [OF e] show ?case by simp
next
  case (3 d ch v st c st1)
  then show ?case using get_char_left(2) [of ch st c st1] by simp
qed simp

declare string_loop.simps [simp del]

definition parse_string :: "string \<Rightarrow> istream \<Rightarrow> bool \<times> string \<times> istream" where
  "parse_string val st =
     (case match [quote_mark] st of (ok, st) \<Rightarrow>
        if ok then string_loop quote_mark (CHR 0x00) val st
        else case peek_char st of (c, st) \<Rightarrow>
          if c \<noteq> Some (CHR 0x27) then (False, val, st)
          else case get_char (CHR 0x00) st of (ch, st) \<Rightarrow> string_loop (CHR 0x27) ch val st)"

section \<open>Scalars\<close>

definition parse_number :: "istream \<Rightarrow> rat option \<times> istream" where
  "parse_number st =
     (case tellg (skip_ws st) of (rollback, st) \<Rightarrow>
        case extract_float st of (v, st) \<Rightarrow>
          if fails st then (None, seekg rollback (clear_state st)) else (v, st))"

definition parse_bool :: "istream \<Rightarrow> bool option \<times> istream" where
  "parse_bool st =
     (case match ''true'' st of (ok, st) \<Rightarrow>
        if ok then (Some True, st)
        else case match ''false'' st of (ok, st) \<Rightarrow> if ok then (Some False, st) else (None, st))"

definition parse_null :: "istream \<Rightarrow> bool \<times> istream" where
  "parse_null st =
     (case match ''null'' st of (ok, st) \<Rightarrow>
        if ok then (True, st)
        else case peek_char st of (c, st) \<Rightarrow> (c = Some (CHR '',''), st))"

section \<open>Values, arrays and objects\<close>

text \<open>The types of \<^verbatim>\<open>Value::parse\<close> that do not contain others, in the order in which they are tried.\<close>

definition parse_scalar :: "istream \<Rightarrow> json option \<times> istream" where
  "parse_scalar st =
     (case parse_string [] st of (ok, s, st) \<Rightarrow>
        if ok then (Some (STRING s), st)
        else case parse_number st of (x, st) \<Rightarrow>
        (case x of
           Some x \<Rightarrow> (Some (NUMBER x), st)
         | None \<Rightarrow>
             case parse_bool st of (b, st) \<Rightarrow>
             (case b of
                Some b \<Rightarrow> (Some (BOOL b), st)
              | None \<Rightarrow> case parse_null st of (ok, st) \<Rightarrow> (if ok then Some NULL else None, st))))"

text \<open>
  The first argument bounds the depth of the calls.  The loops are given the elements that they have
  read so far.  A failed parse leaves those in the container.
\<close>

fun parse_value :: "nat \<Rightarrow> istream \<Rightarrow> (json option \<times> istream) option"
  and parse_array :: "nat \<Rightarrow> istream \<Rightarrow> (bool \<times> json list \<times> istream) option"
  and array_loop :: "nat \<Rightarrow> json list \<Rightarrow> istream \<Rightarrow> (bool \<times> json list \<times> istream) option"
  and parse_object :: "nat \<Rightarrow> istream \<Rightarrow> (bool \<times> json string_map \<times> istream) option"
  and object_loop :: "nat \<Rightarrow> json string_map \<Rightarrow> istream \<Rightarrow> (bool \<times> json string_map \<times> istream) option" where
  "parse_value 0 st = None"
| "parse_value (Suc n) st =
     (case parse_scalar st of
        (Some v, st) \<Rightarrow> Some (Some v, st)
      | (None, st) \<Rightarrow>
          case peek_char st of (c, st) \<Rightarrow>
          case (if c = Some (CHR ''['') then parse_array n st else Some (False, [], st)) of
            None \<Rightarrow> None
          | Some (True, vs, st) \<Rightarrow> Some (Some (ARRAY vs), st)
          | Some (False, vs, st) \<Rightarrow>
              (case parse_object n st of
                 None \<Rightarrow> None
               | Some (True, m, st) \<Rightarrow> Some (Some (OBJECT m), st)
               | Some (False, m, st) \<Rightarrow> Some (None, st)))"
| "parse_array 0 st = None"
| "parse_array (Suc n) st =
     (case match ''['' st of
        (False, st) \<Rightarrow> Some (False, [], st)
      | (True, st) \<Rightarrow>
          case match '']'' st of
            (True, st) \<Rightarrow> Some (True, [], st)
          | (False, st) \<Rightarrow> array_loop n [] st)"
| "array_loop 0 vs st = None"
| "array_loop (Suc n) vs st =
     (case parse_value n st of
        None \<Rightarrow> None
      | Some (None, st) \<Rightarrow> (case match '']'' st of (ok, st) \<Rightarrow> Some (ok, vs, st))
      | Some (Some v, st) \<Rightarrow>
          case match '','' st of
            (True, st) \<Rightarrow> array_loop n (vs @ [v]) st
          | (False, st) \<Rightarrow> (case match '']'' st of (ok, st) \<Rightarrow> Some (ok, vs @ [v], st)))"
| "parse_object 0 st = None"
| "parse_object (Suc n) st =
     (case match ''{'' st of
        (False, st) \<Rightarrow> Some (False, [], st)
      | (True, st) \<Rightarrow>
          case match ''}'' st of
            (True, st) \<Rightarrow> Some (True, [], st)
          | (False, st) \<Rightarrow> object_loop n [] st)"
| "object_loop 0 m st = None"
| "object_loop (Suc n) m st =
     (case parse_string [] st of
        (False, key, st) \<Rightarrow>
          (case peek_char st of (c, st) \<Rightarrow>
             if c = Some (CHR ''}'') then (case match ''}'' st of (ok, st) \<Rightarrow> Some (ok, m, st))
             else Some (False, m, st))
      | (True, key, st) \<Rightarrow>
          case match '':'' st of
            (False, st) \<Rightarrow> Some (False, m, st)
          | (True, st) \<Rightarrow>
              case parse_value n st of
                None \<Rightarrow> None
              | Some (None, st) \<Rightarrow> (case match ''}'' st of (ok, st) \<Rightarrow> Some (ok, m, st))
              | Some (Some v, st) \<Rightarrow>
                  case match '','' st of
                    (True, st) \<Rightarrow> object_loop n (map_put key v m) st
                  | (False, st) \<Rightarrow> (case match ''}'' st of (ok, st) \<Rightarrow> Some (ok, map_put key v m, st)))"

text \<open>The fuel that the wrappers give.\<close>

definition enough :: "istream \<Rightarrow> nat" where
  "enough st = 3 * left st + 4"

definition parse_value_text :: "string \<Rightarrow> (bool \<times> json) option" where
  "parse_value_text input =
     (let st = new_stream input
      in case parse_value (enough st) st of
           None \<Rightarrow> None
         | Some (None, st) \<Rightarrow> Some (False, INVALID)
         | Some (Some v, st) \<Rightarrow> Some (True, v))"

definition parse_object_text :: "string \<Rightarrow> (bool \<times> json string_map) option" where
  "parse_object_text input =
     (let st = new_stream input
      in case parse_object (enough st) st of None \<Rightarrow> None | Some (ok, m, st) \<Rightarrow> Some (ok, m))"

definition parse_array_text :: "string \<Rightarrow> (bool \<times> json list) option" where
  "parse_array_text input =
     (let st = new_stream input
      in case parse_array (enough st) st of None \<Rightarrow> None | Some (ok, vs, st) \<Rightarrow> Some (ok, vs))"

text \<open>
  The loop that skips blanks and control characters, on a good stream, as a new one is: where the text
  ends, \<^verbatim>\<open>peek\<close> gives \<^verbatim>\<open>EOF\<close>, which is less than 32, and \<^verbatim>\<open>get\<close> fails.
\<close>

definition trim :: "istream \<Rightarrow> istream" where
  "trim st =
     (let st = st\<lparr>pos := pos st + length (takeWhile (\<lambda>c. (of_char c :: nat) \<le> 32) (drop (pos st) (buf st)))\<rparr>
      in if pos st < length (buf st) then st else st\<lparr>eofbit := True, failbit := True\<rparr>)"

definition validate :: "string \<Rightarrow> bool option" where
  "validate input =
     (case peek_char (trim (new_stream input)) of (c, st) \<Rightarrow>
        if c = Some (CHR ''{'')
        then (case parse_object (enough st) st of None \<Rightarrow> None | Some (ok, m, st) \<Rightarrow> Some ok)
        else case peek_char st of (c, st) \<Rightarrow>
          if c = Some (CHR ''['')
          then (case parse_array (enough st) st of None \<Rightarrow> None | Some (ok, vs, st) \<Rightarrow> Some ok)
          else Some False)"

definition reformat :: "string \<Rightarrow> string option" where
  "reformat input =
     (case peek_char (trim (new_stream input)) of (c, st) \<Rightarrow>
        if c = Some (CHR ''{'')
        then (case parse_object (enough st) st of
                None \<Rightarrow> None
              | Some (ok, m, st) \<Rightarrow> Some (if ok then object_json m else []))
        else case peek_char st of (c, st) \<Rightarrow>
          if c = Some (CHR ''['')
          then (case parse_array (enough st) st of
                  None \<Rightarrow> None
                | Some (ok, vs, st) \<Rightarrow> Some (if ok then array_json vs else []))
          else Some [])"

section \<open>Positions\<close>

lemma putbacks_left:
  "buf (foldl (\<lambda>st c. putback c st) st cs) = buf st \<and> left (foldl (\<lambda>st c. putback c st) st cs) \<le> left st + length cs"
proof (induction cs arbitrary: st)
  case (Cons c cs)
  from Cons.IH [of "putback c st"] putback_left(1,2) [of c st] show ?case by simp
qed simp

text \<open>A character that was read and put back, and no comment after it.\<close>

lemma get_putback_left:
  assumes "get_char ch st = (c, st1)"
  shows "reads_on st (putback c st1)"
proof (cases "good st1")
  case True
  with get_char_left(1,4) [OF assms] putback_left(1,2) [of c st1] show ?thesis by (auto simp: reads_on_def)
next
  case False
  with get_char_left(1,5) [OF assms] putback_left(1) [of c st1] putback_left(3) [of st1 c] show ?thesis by (auto simp: reads_on_def)
qed

lemma match_loop_left:
  assumes "match_loop pattern k ch st = (ok, st')" "k \<le> length pattern"
  shows "buf st' = buf st \<and> left st' \<le> left st + k \<and> (ok \<longrightarrow> left st' \<le> left st)"
  using assms
proof (induction pattern k ch st rule: match_loop.induct)
  case (1 pattern k ch st)
  show ?case
  proof (cases "\<not> fails st \<and> \<not> eofbit st \<and> k < length pattern")
    case True
    obtain c st1 where g: "get_char ch st = (c, st1)" by force
    obtain comment st2 where cm: "parse_comment (putback c st1) = (comment, st2)" by force
    have r: "reads_on st st1" "reads_on st st2"
      using get_char_left(1) [OF g] get_putback_left [OF g] comment_progress(1) [OF cm] reads_on_trans by blast+
    consider "c = pattern ! k" | "c \<noteq> pattern ! k" comment | "c \<noteq> pattern ! k" "\<not> comment" by blast
    then show ?thesis
    proof cases
      case 1
      then have "match_loop pattern (Suc k) c st1 = (ok, st')"
        using "1.prems"(1) True g by (simp add: match_loop.simps [of pattern k])
      with "1.IH"(2) [OF True g [symmetric]] 1 True
      have "buf st' = buf st1 \<and> left st' \<le> left st1 + Suc k \<and> (ok \<longrightarrow> left st' \<le> left st1)" by simp
      moreover have "left st' \<le> left st + k"
      proof (cases "good st1")
        case True
        with get_char_left(4) [OF g] calculation show ?thesis by simp
      next
        case False
        then have "st' = st1" using get_char_left(5) [OF g] \<open>match_loop pattern (Suc k) c st1 = (ok, st')\<close>
          by (simp add: match_loop.simps fails_def)
        with r(1) show ?thesis by (simp add: reads_on_def)
      qed
      ultimately show ?thesis using r(1) by (auto simp: reads_on_def)
    next
      case 2
      then have "match_loop pattern k c st2 = (ok, st')"
        using "1.prems"(1) True g cm by (simp add: match_loop.simps [of pattern k])
      with "1.IH"(1) [OF True g [symmetric] 2(1) cm [symmetric] 2(2)] True r(2) show ?thesis
        by (auto simp: reads_on_def)
    next
      case 3
      then have "ok = False" "st' = foldl (\<lambda>st c. putback c st) st2 (rev (take k pattern))"
        using "1.prems"(1) True g cm by (simp_all add: match_loop.simps [of pattern k])
      with putbacks_left [of st2 "rev (take k pattern)"] r(2) True show ?thesis by (auto simp: reads_on_def)
    qed
  qed (use "1.prems" in \<open>auto simp: match_loop.simps [of pattern k]\<close>)
qed

lemma match_left: "match pattern st = (ok, st') \<Longrightarrow> reads_on st st'"
  using match_loop_left [of pattern 0 "CHR 0x00" "skip_ws st" ok st'] skip_ws_left(1) [of st]
  by (auto simp: match_def reads_on_def)

text \<open>A pattern that is found is taken off the text, unless its first character is the null character.\<close>

lemma match_loop_progress:
  assumes "match_loop pattern k ch st = (True, st')" "k < length pattern" "ch \<noteq> pattern ! k"
  shows "left st' < left st"
  using assms
proof (induction pattern k ch st rule: match_loop.induct)
  case (1 pattern k ch st)
  have go: "\<not> fails st \<and> \<not> eofbit st \<and> k < length pattern"
    using "1.prems" by (auto simp: match_loop.simps [of pattern k] split: if_splits)
  obtain c st1 where g: "get_char ch st = (c, st1)" by force
  obtain comment st2 where cm: "parse_comment (putback c st1) = (comment, st2)" by force
  have r: "reads_on st st2"
    using get_putback_left [OF g] comment_progress(1) [OF cm] reads_on_trans by blast
  show ?case
  proof (cases "c = pattern ! k")
    case True
    then have "good st1" using get_char_left(5) [OF g] "1.prems"(3) by blast
    then have "left st1 < left st" using get_char_left(4) [OF g] by simp
    moreover have "match_loop pattern (Suc k) c st1 = (True, st')"
      using "1.prems"(1) go g True by (simp add: match_loop.simps [of pattern k])
    then have "left st' \<le> left st1" using match_loop_left [of pattern "Suc k" c st1 True st'] go by simp
    ultimately show ?thesis by simp
  next
    case False
    then have comment "match_loop pattern k c st2 = (True, st')"
      using "1.prems"(1) go g cm by (auto simp: match_loop.simps [of pattern k] split: if_splits)
    with "1.IH"(1) [OF go g [symmetric] False cm [symmetric]] False go r show ?thesis
      by (simp add: reads_on_def)
  qed
qed

lemma match_progress:
  "match (p # ps) st = (True, st') \<Longrightarrow> p \<noteq> CHR 0x00 \<Longrightarrow> left st' < left st"
  using match_loop_progress [of "p # ps" 0 "CHR 0x00" "skip_ws st" st'] skip_ws_left(1) [of st]
  by (auto simp: match_def reads_on_def)

lemma string_loop_left: "string_loop d ch v st = (ok, v', st') \<Longrightarrow> reads_on st st'"
proof (induction d ch v st rule: string_loop.induct)
  case (1 d ch v st)
  show ?case
  proof (cases "\<not> eofbit st \<and> good st")
    case True
    obtain c st1 where g: "get_char ch st = (c, st1)" by force
    obtain c2 v2 st2 where e: "parse_escape d c v st1 = (c2, v2, st2)" by (metis prod_cases3)
    note left = get_char_left(1) [OF g] parse_escape_left(1) [OF e]
    consider "c = d" | "c \<noteq> d" "c = backslash" | "c \<noteq> d" "c \<noteq> backslash" by blast
    then show ?thesis
    proof cases
      case 1
      with "1.prems" True g left show ?thesis by (simp add: string_loop.simps [of d ch])
    next
      case 2
      then have "string_loop d c2 v2 st2 = (ok, v', st')"
        using "1.prems" True g e by (simp add: string_loop.simps [of d ch])
      from "1.IH"(1) [OF True g [symmetric] 2 e [symmetric] refl this] left show ?thesis
        by (blast intro: reads_on_trans)
    next
      case 3
      then have "string_loop d c (v @ [c]) st1 = (ok, v', st')"
        using "1.prems" True g by (simp add: string_loop.simps [of d ch])
      from "1.IH"(2) [OF True g [symmetric] 3 this] left show ?thesis
        by (blast intro: reads_on_trans)
    qed
  qed (use "1.prems" in \<open>auto simp: string_loop.simps [of d ch]\<close>)
qed

lemma parse_string_left:
  assumes "parse_string v st = (ok, v', st')"
  shows "reads_on st st'"
proof -
  obtain found st1 where m: "match [quote_mark] st = (found, st1)" by force
  obtain c st2 where p: "peek_char st1 = (c, st2)" by force
  obtain ch st3 where g: "get_char (CHR 0x00) st2 = (ch, st3)" by force
  note left = match_left [OF m] peek_char_left(1) [OF p] get_char_left(1) [OF g]
  consider found "string_loop quote_mark (CHR 0x00) v st1 = (ok, v', st')"
    | "st' = st2" | "string_loop (CHR 0x27) ch v st3 = (ok, v', st')"
    using assms m p g by (auto simp: parse_string_def split: if_splits)
  then show ?thesis
    by cases (use left string_loop_left reads_on_trans in \<open>blast+\<close>)
qed

lemma scan_sign_length: "scan_sign s = (neg, r) \<Longrightarrow> length r \<le> length s"
  by (auto simp: scan_sign_def split: list.splits if_splits)

lemma scan_fraction_length: "scan_fraction s = (f, r) \<Longrightarrow> length r \<le> length s"
  using length_dropWhile_le [of isdigit]
  by (auto simp: scan_fraction_def le_SucI split: list.splits if_splits)

lemma scan_exponent_length:
  assumes "scan_exponent s = (e, r)"
  shows "length r \<le> length s"
proof (cases s)
  case (Cons c cs)
  obtain neg cs' where "scan_sign cs = (neg, cs')" by force
  with assms Cons scan_sign_length [OF this] length_dropWhile_le [of isdigit cs'] show ?thesis
    by (auto simp: scan_exponent_def Let_def split: if_splits)
qed (use assms in \<open>simp add: scan_exponent_def\<close>)

lemma scan_float_length:
  assumes "scan_float s = (x, r)"
  shows "length r \<le> length s"
proof -
  obtain neg s1 where 1: "scan_sign s = (neg, s1)" by force
  obtain f s2 where 2: "scan_fraction (dropWhile isdigit s1) = (f, s2)" by force
  obtain e s3 where 3: "scan_exponent s2 = (e, s3)" by force
  have "r = s2 \<or> r = s3" using assms 1 2 3 by (auto simp: scan_float_def Let_def split: if_splits)
  with scan_sign_length [OF 1] scan_fraction_length [OF 2] scan_exponent_length [OF 3]
    length_dropWhile_le [of isdigit s1] show ?thesis by auto
qed

lemma extract_float_left:
  assumes "extract_float st = (x, st')"
  shows "reads_on st st'"
proof (cases "good st \<and> \<not> eofbit (skip_ws st)")
  case True
  let ?st = "skip_ws st"
  obtain v r where f: "scan_float (drop (pos ?st) (buf ?st)) = (v, r)" by force
  then have "buf st' = buf ?st" "left st' \<le> left ?st"
    using assms True scan_float_length [OF f] by (auto simp: extract_float_def Let_def left_def split: option.splits if_splits)
  with skip_ws_left(1) [of st] show ?thesis by (simp add: reads_on_def)
qed (use assms skip_ws_left(1) [of st] in \<open>auto simp: extract_float_def Let_def reads_on_def split: if_splits\<close>)

lemma parse_number_left:
  assumes "parse_number st = (x, st')"
  shows "reads_on st st'"
proof -
  obtain p st1 where t: "tellg (skip_ws st) = (p, st1)" by force
  obtain v st2 where e: "extract_float st1 = (v, st2)" by force
  have 1: "reads_on st st1" "p = None \<or> p = Some (pos st1)"
    using t skip_ws_left(1) [of st] by (auto simp: tellg_def reads_on_def split: if_splits)
  note 2 = extract_float_left [OF e]
  have "st' = st2 \<or> st' = seekg p (clear_state st2)"
    using assms t e by (auto simp: parse_number_def split: if_splits)
  moreover have "reads_on st1 (seekg p (clear_state st2))"
    using 1(2) 2 by (auto simp: seekg_def clear_state_def reads_on_def left_def Let_def good_def)
  ultimately show ?thesis using 1(1) 2 reads_on_trans by blast
qed

lemma parse_bool_left:
  assumes "parse_bool st = (b, st')"
  shows "reads_on st st'"
proof -
  obtain t st1 where 1: "match ''true'' st = (t, st1)" by force
  obtain f st2 where 2: "match ''false'' st1 = (f, st2)" by force
  have "st' = st1 \<or> st' = st2" using assms 1 2 by (auto simp: parse_bool_def split: if_splits)
  then show ?thesis using match_left [OF 1] match_left [OF 2] reads_on_trans by blast
qed

lemma parse_null_left:
  assumes "parse_null st = (ok, st')"
  shows "reads_on st st'"
proof -
  obtain t st1 where 1: "match ''null'' st = (t, st1)" by force
  obtain c st2 where 2: "peek_char st1 = (c, st2)" by force
  have "st' = st1 \<or> st' = st2" using assms 1 2 by (auto simp: parse_null_def split: if_splits)
  then show ?thesis using match_left [OF 1] peek_char_left(1) [OF 2] reads_on_trans by blast
qed

lemma parse_scalar_left:
  assumes "parse_scalar st = (v, st')"
  shows "reads_on st st'"
proof -
  obtain ok s st1 where 1: "parse_string [] st = (ok, s, st1)" by (metis prod_cases3)
  obtain x st2 where 2: "parse_number st1 = (x, st2)" by force
  obtain b st3 where 3: "parse_bool st2 = (b, st3)" by force
  obtain n st4 where 4: "parse_null st3 = (n, st4)" by force
  have "st' = st1 \<or> st' = st2 \<or> st' = st3 \<or> st' = st4"
    using assms 1 2 3 4 by (auto simp: parse_scalar_def split: if_splits option.splits)
  then show ?thesis
    using parse_string_left [OF 1] parse_number_left [OF 2] parse_bool_left [OF 3] parse_null_left [OF 4]
      reads_on_trans by blast
qed

section \<open>The parser always returns\<close>

definition ends_value :: "istream \<Rightarrow> (json option \<times> istream) option \<Rightarrow> bool" where
  "ends_value st r \<longleftrightarrow> (\<exists>v st'. r = Some (v, st') \<and> reads_on st st')"

definition ends_with :: "istream \<Rightarrow> (bool \<times> 'a \<times> istream) option \<Rightarrow> bool" where
  "ends_with st r \<longleftrightarrow> (\<exists>ok x st'. r = Some (ok, x, st') \<and> reads_on st st')"

lemma ends_with_later: "reads_on st st1 \<Longrightarrow> ends_with st1 r \<Longrightarrow> ends_with st r"
  unfolding ends_with_def using reads_on_trans by blast

lemma ends_with_match:
  "reads_on st st1 \<Longrightarrow> ends_with st (case match p st1 of (ok, st2) \<Rightarrow> Some (ok, x, st2))"
  using match_left [of p st1] by (auto simp: ends_with_def intro: reads_on_trans split: prod.split)

lemma value_step:
  assumes arr: "\<And>st1. reads_on st st1 \<Longrightarrow> ends_with st1 (parse_array n st1)"
    and obj: "\<And>st1. reads_on st st1 \<Longrightarrow> ends_with st1 (parse_object n st1)"
  shows "ends_value st (parse_value (Suc n) st)"
proof -
  obtain v st1 where s: "parse_scalar st = (v, st1)" by force
  obtain c st2 where p: "peek_char st1 = (c, st2)" by force
  have r1: "reads_on st st1" and r2: "reads_on st st2"
    using parse_scalar_left [OF s] peek_char_left(1) [OF p] reads_on_trans by blast+
  obtain ok vs st3 where a: "(if c = Some (CHR ''['') then parse_array n st2 else Some (False, [], st2)) = Some (ok, vs, st3)"
    and r3: "reads_on st st3"
    using arr [OF r2] r2 reads_on_trans by (cases "c = Some (CHR ''['')") (auto simp: ends_with_def)
  obtain ok' m st4 where o: "parse_object n st3 = Some (ok', m, st4)" and r4: "reads_on st st4"
    using obj [OF r3] r3 reads_on_trans by (auto simp: ends_with_def)
  show ?thesis
    by (cases v; cases ok; cases ok') (use s p a o r1 r3 r4 in \<open>simp_all add: ends_value_def\<close>)
qed

lemma array_step:
  assumes "\<And>st1. reads_on st st1 \<Longrightarrow> left st1 < left st \<Longrightarrow> ends_with st1 (array_loop n [] st1)"
  shows "ends_with st (parse_array (Suc n) st)"
proof -
  obtain ok st1 where 1: "match ''['' st = (ok, st1)" by force
  obtain ok2 st2 where 2: "match '']'' st1 = (ok2, st2)" by force
  have r: "reads_on st st1" "reads_on st st2" using match_left [OF 1] match_left [OF 2] reads_on_trans by blast+
  have "left st2 < left st" if ok
    using that 1 match_left [OF 2] match_progress [of "CHR ''[''" "[]" st st1] by (simp add: reads_on_def)
  then have "ok \<Longrightarrow> ends_with st (array_loop n [] st2)" using assms [OF r(2)] ends_with_later [OF r(2)] by blast
  with 1 2 r show ?thesis by (cases ok; cases ok2) (auto simp: ends_with_def)
qed

lemma array_loop_step:
  assumes val: "ends_value st (parse_value n st)"
    and more_elements: "\<And>st1 vs. reads_on st st1 \<Longrightarrow> left st1 < left st \<Longrightarrow> ends_with st1 (array_loop n vs st1)"
  shows "ends_with st (array_loop (Suc n) vs st)"
proof -
  obtain v st1 where v: "parse_value n st = Some (v, st1)" and r1: "reads_on st st1"
    using val by (auto simp: ends_value_def)
  obtain ok st2 where c: "match '','' st1 = (ok, st2)" by force
  have r2: "reads_on st st2" using r1 match_left [OF c] reads_on_trans by blast
  have "left st2 < left st" if ok
    using that c r1 match_progress [of "CHR '',''" "[]" st1 st2] by (simp add: reads_on_def)
  then have "ok \<Longrightarrow> ends_with st (array_loop n vs' st2)" for vs'
    using more_elements [OF r2] ends_with_later [OF r2] by blast
  with v c ends_with_match [OF r1] ends_with_match [OF r2] show ?thesis by (cases v; cases ok) simp_all
qed

lemma object_step:
  assumes "\<And>st1. reads_on st st1 \<Longrightarrow> left st1 < left st \<Longrightarrow> ends_with st1 (object_loop n [] st1)"
  shows "ends_with st (parse_object (Suc n) st)"
proof -
  obtain ok st1 where 1: "match ''{'' st = (ok, st1)" by force
  obtain ok2 st2 where 2: "match ''}'' st1 = (ok2, st2)" by force
  have r: "reads_on st st1" "reads_on st st2" using match_left [OF 1] match_left [OF 2] reads_on_trans by blast+
  have "left st2 < left st" if ok
    using that 1 match_left [OF 2] match_progress [of "CHR ''{''" "[]" st st1] by (simp add: reads_on_def)
  then have "ok \<Longrightarrow> ends_with st (object_loop n [] st2)" using assms [OF r(2)] ends_with_later [OF r(2)] by blast
  with 1 2 r show ?thesis by (cases ok; cases ok2) (auto simp: ends_with_def)
qed

lemma object_loop_step:
  assumes val: "\<And>st1. reads_on st st1 \<Longrightarrow> left st1 < left st \<Longrightarrow> ends_value st1 (parse_value n st1)"
    and more_members: "\<And>st1 m. reads_on st st1 \<Longrightarrow> left st1 < left st \<Longrightarrow> ends_with st1 (object_loop n m st1)"
  shows "ends_with st (object_loop (Suc n) m st)"
proof -
  obtain found key st1 where k: "parse_string [] st = (found, key, st1)" by (metis prod_cases3)
  note r1 = parse_string_left [OF k]
  show ?thesis
  proof (cases found)
    case False
    obtain c st2 where p: "peek_char st1 = (c, st2)" by force
    have r2: "reads_on st st2" using r1 peek_char_left(1) [OF p] reads_on_trans by blast
    with False k p ends_with_match [OF r2, where p = "''}''" and x = m] show ?thesis
      by (cases "c = Some (CHR ''}'')") (auto simp: ends_with_def)
  next
    case True
    obtain ok st2 where c: "match '':'' st1 = (ok, st2)" by force
    have r2: "reads_on st st2" using r1 match_left [OF c] reads_on_trans by blast
    show ?thesis
    proof (cases ok)
      case False
      with True k c r2 show ?thesis by (auto simp: ends_with_def)
    next
      case ok: True
      have l2: "left st2 < left st"
        using ok c r1 match_progress [of "CHR '':''" "[]" st1 st2] by (simp add: reads_on_def)
      obtain v st3 where v: "parse_value n st2 = Some (v, st3)" and "reads_on st2 st3"
        using val [OF r2 l2] by (auto simp: ends_value_def)
      then have r3: "reads_on st st3" "left st3 < left st" using r2 l2 by (auto simp: reads_on_def)
      obtain ok' st4 where c4: "match '','' st3 = (ok', st4)" by force
      have r4: "reads_on st st4" "left st4 < left st"
        using r3 match_left [OF c4] by (auto simp: reads_on_def)
      note ends = ends_with_match [OF r3(1)] ends_with_match [OF r4(1)]
        ends_with_later [OF r4(1) more_members [OF r4]]
      show ?thesis by (cases v; cases ok') (use True ok k c v c4 ends in simp_all)
    qed
  qed
qed

lemma parser_ends:
  "(\<forall>st. 3 * left st + 3 \<le> n \<longrightarrow> ends_value st (parse_value n st)) \<and>
   (\<forall>st. 3 * left st + 2 \<le> n \<longrightarrow> ends_with st (parse_array n st)) \<and>
   (\<forall>vs st. 3 * left st + 4 \<le> n \<longrightarrow> ends_with st (array_loop n vs st)) \<and>
   (\<forall>st. 3 * left st + 2 \<le> n \<longrightarrow> ends_with st (parse_object n st)) \<and>
   (\<forall>m st. 3 * left st + 4 \<le> n \<longrightarrow> ends_with st (object_loop n m st))"
proof (induction n)
  case (Suc n)
  have "ends_value st (parse_value (Suc n) st)" if "3 * left st + 3 \<le> Suc n" for st
    using Suc that by (intro value_step) (auto simp: reads_on_def)
  moreover have "ends_with st (parse_array (Suc n) st)" if "3 * left st + 2 \<le> Suc n" for st
    using Suc that by (intro array_step) auto
  moreover have "ends_with st (array_loop (Suc n) vs st)" if "3 * left st + 4 \<le> Suc n" for vs st
    using Suc that by (intro array_loop_step) auto
  moreover have "ends_with st (parse_object (Suc n) st)" if "3 * left st + 2 \<le> Suc n" for st
    using Suc that by (intro object_step) auto
  moreover have "ends_with st (object_loop (Suc n) m st)" if "3 * left st + 4 \<le> Suc n" for m st
    using Suc that by (intro object_loop_step) auto
  ultimately show ?case by blast
qed simp

text \<open>More fuel than is needed changes nothing: \<open>refines r r'\<close> is the order of results.\<close>

definition refines :: "'a option \<Rightarrow> 'a option \<Rightarrow> bool" where
  "refines r r' \<longleftrightarrow> r = None \<or> r = r'"

named_theorems refines_rules \<open>refinement goes into the branches of a program\<close>

lemma refines_refl [refines_rules]: "refines r r"
  by (simp add: refines_def)

lemma refines_None [refines_rules]: "refines None r"
  by (simp add: refines_def)

lemma refines_result [refines_rules]:
  "refines r r' \<Longrightarrow> (\<And>x. refines (f x) (g x)) \<Longrightarrow>
   refines (case r of None \<Rightarrow> None | Some x \<Rightarrow> f x) (case r' of None \<Rightarrow> None | Some x \<Rightarrow> g x)"
  by (cases r; cases r') (simp_all add: refines_def)

lemma refines_branches [refines_rules]:
  "refines a a' \<Longrightarrow> (\<And>x. refines (f x) (g x)) \<Longrightarrow>
     refines (case v of None \<Rightarrow> a | Some x \<Rightarrow> f x) (case v of None \<Rightarrow> a' | Some x \<Rightarrow> g x)"
  "(\<And>x y. refines (h x y) (k x y)) \<Longrightarrow> refines (case p of (x, y) \<Rightarrow> h x y) (case p of (x, y) \<Rightarrow> k x y)"
  "refines t t' \<Longrightarrow> refines e e' \<Longrightarrow> refines (case b of True \<Rightarrow> t | False \<Rightarrow> e) (case b of True \<Rightarrow> t' | False \<Rightarrow> e')"
  "refines t t' \<Longrightarrow> refines e e' \<Longrightarrow> refines (if b then t else e) (if b then t' else e')"
  by (simp_all split: option.split prod.split bool.split)

lemma parser_more_fuel:
  "(\<forall>st. refines (parse_value n st) (parse_value (Suc n) st)) \<and>
   (\<forall>st. refines (parse_array n st) (parse_array (Suc n) st)) \<and>
   (\<forall>vs st. refines (array_loop n vs st) (array_loop (Suc n) vs st)) \<and>
   (\<forall>st. refines (parse_object n st) (parse_object (Suc n) st)) \<and>
   (\<forall>m st. refines (object_loop n m st) (object_loop (Suc n) m st))"
proof (induction n)
  case (Suc n)
  note IH = Suc.IH [THEN conjunct1, rule_format]
    Suc.IH [THEN conjunct2, THEN conjunct1, rule_format]
    Suc.IH [THEN conjunct2, THEN conjunct2, THEN conjunct1, rule_format]
    Suc.IH [THEN conjunct2, THEN conjunct2, THEN conjunct2, THEN conjunct1, rule_format]
    Suc.IH [THEN conjunct2, THEN conjunct2, THEN conjunct2, THEN conjunct2, rule_format]
  have "refines (parse_value (Suc n) st) (parse_value (Suc (Suc n)) st)" for st
    unfolding parse_value.simps(2) [of n st] parse_value.simps(2) [of "Suc n" st] by (intro refines_rules IH)
  moreover have "refines (parse_array (Suc n) st) (parse_array (Suc (Suc n)) st)" for st
    unfolding parse_array.simps(2) [of n st] parse_array.simps(2) [of "Suc n" st] by (intro refines_rules IH)
  moreover have "refines (array_loop (Suc n) vs st) (array_loop (Suc (Suc n)) vs st)" for vs st
    unfolding array_loop.simps(2) [of n vs st] array_loop.simps(2) [of "Suc n" vs st] by (intro refines_rules IH)
  moreover have "refines (parse_object (Suc n) st) (parse_object (Suc (Suc n)) st)" for st
    unfolding parse_object.simps(2) [of n st] parse_object.simps(2) [of "Suc n" st] by (intro refines_rules IH)
  moreover have "refines (object_loop (Suc n) m st) (object_loop (Suc (Suc n)) m st)" for m st
    unfolding object_loop.simps(2) [of n m st] object_loop.simps(2) [of "Suc n" m st] by (intro refines_rules IH)
  ultimately show ?case by blast
qed (simp add: refines_def)

lemma parser_any_fuel:
  "parse_value (enough st + k) st = parse_value (enough st) st \<and> parse_value (enough st) st \<noteq> None"
  "parse_array (enough st + k) st = parse_array (enough st) st \<and> parse_array (enough st) st \<noteq> None"
  "parse_object (enough st + k) st = parse_object (enough st) st \<and> parse_object (enough st) st \<noteq> None"
proof -
  have some: "parse_value (enough st + k) st \<noteq> None \<and> parse_array (enough st + k) st \<noteq> None \<and>
      parse_object (enough st + k) st \<noteq> None" for k
  proof -
    have f: "3 * left st + 3 \<le> enough st + k" "3 * left st + 2 \<le> enough st + k" by (simp_all add: enough_def)
    note ends = parser_ends [THEN conjunct1, rule_format, OF f(1)]
      parser_ends [THEN conjunct2, THEN conjunct1, rule_format, OF f(2)]
      parser_ends [THEN conjunct2, THEN conjunct2, THEN conjunct2, THEN conjunct1, rule_format, OF f(2)]
    then show ?thesis by (auto simp only: ends_value_def ends_with_def)
  qed
  have same: "f (enough st + k) st = f (enough st) st"
    if "\<And>n. refines (f n st) (f (Suc n) st)" "\<And>k. f (enough st + k) st \<noteq> None"
    for f :: "nat \<Rightarrow> istream \<Rightarrow> 'a option"
  proof (induction k)
    case (Suc k)
    then show ?case using that(1) [of "enough st + k"] that(2) [of k] by (auto simp: refines_def)
  qed simp
  have step: "refines (parse_value n st) (parse_value (Suc n) st)" "refines (parse_array n st) (parse_array (Suc n) st)"
    "refines (parse_object n st) (parse_object (Suc n) st)" for n
    using parser_more_fuel [of n] by blast+
  have same_value: "parse_value (enough st + k) st = parse_value (enough st) st" by (rule same) (use step some in blast)+
  have same_array: "parse_array (enough st + k) st = parse_array (enough st) st" by (rule same) (use step some in blast)+
  have same_object: "parse_object (enough st + k) st = parse_object (enough st) st" by (rule same) (use step some in blast)+
  from same_value some show "parse_value (enough st + k) st = parse_value (enough st) st \<and> parse_value (enough st) st \<noteq> None"
    by metis
  from same_array some show "parse_array (enough st + k) st = parse_array (enough st) st \<and> parse_array (enough st) st \<noteq> None"
    by metis
  from same_object some show "parse_object (enough st + k) st = parse_object (enough st) st \<and> parse_object (enough st) st \<noteq> None"
    by metis
qed

text \<open>
  Property C36.  The parser returns on every stream, whatever its text and its state: a depth of three
  calls for each character that is left is enough, and a greater bound changes no result.
\<close>

theorem parser_returns:
  "parse_value (enough st + k) st = parse_value (enough st) st \<and> parse_value (enough st) st \<noteq> None \<and>
   parse_array (enough st + k) st = parse_array (enough st) st \<and> parse_array (enough st) st \<noteq> None \<and>
   parse_object (enough st + k) st = parse_object (enough st) st \<and> parse_object (enough st) st \<noteq> None"
  using parser_any_fuel by blast

section \<open>What the parser builds\<close>

text \<open>Every value has a type, and every object is a map.\<close>

fun well_formed :: "json \<Rightarrow> bool" where
  "well_formed (ARRAY vs) \<longleftrightarrow> (\<forall>v\<in>set vs. well_formed v)"
| "well_formed (OBJECT m) \<longleftrightarrow> ordered m \<and> (\<forall>(k, v)\<in>set m. well_formed v)"
| "well_formed INVALID \<longleftrightarrow> False"
| "well_formed v \<longleftrightarrow> True"

lemma well_formed_json_ok: "well_formed v \<Longrightarrow> json_ok v"
  by (induction v rule: well_formed.induct) auto

lemma well_formed_put: "well_formed (OBJECT m) \<Longrightarrow> well_formed v \<Longrightarrow> well_formed (OBJECT (map_put k v m))"
  using set_map_put [of k v m] by fastforce

lemma parse_scalar_well_formed: "parse_scalar st = (Some v, st') \<Longrightarrow> well_formed v"
  by (auto simp: parse_scalar_def split: prod.splits option.splits if_splits)

lemma parse_value_parts:
  assumes "parse_value (Suc n) st = Some (Some v, st')"
  shows "parse_scalar st = (Some v, st') \<or> (\<exists>st1 vs. parse_array n st1 = Some (True, vs, st') \<and> v = ARRAY vs) \<or>
    (\<exists>st1 m. parse_object n st1 = Some (True, m, st') \<and> v = OBJECT m)"
proof (cases "parse_scalar st")
  case (Pair s st1)
  obtain c st2 where p: "peek_char st1 = (c, st2)" by force
  show ?thesis
  proof (cases s)
    case None
    with Pair p assms show ?thesis
      by (cases "c = Some (CHR ''['')") (auto split: option.splits prod.splits bool.splits)
  qed (use Pair assms in auto)
qed

lemma array_loop_parts:
  assumes "array_loop (Suc n) vs st = Some (ok, vs', st')"
  shows "vs' = vs \<or> (\<exists>v st1. parse_value n st = Some (Some v, st1) \<and>
    (vs' = vs @ [v] \<or> (\<exists>st2. array_loop n (vs @ [v]) st2 = Some (ok, vs', st'))))"
proof (cases "parse_value n st")
  case (Some r)
  obtain v st1 where r: "r = (v, st1)" by force
  show ?thesis
    by (cases v; cases "match '','' st1") (use Some r assms in \<open>auto split: prod.splits bool.splits\<close>)
qed (use assms in simp)

lemma object_loop_parts:
  assumes "object_loop (Suc n) m st = Some (ok, m', st')"
  shows "m' = m \<or> (\<exists>v key st1 st2. parse_value n st1 = Some (Some v, st2) \<and>
    (m' = map_put key v m \<or> (\<exists>st3. object_loop n (map_put key v m) st3 = Some (ok, m', st'))))"
proof -
  obtain found key st1 where k: "parse_string [] st = (found, key, st1)" by (metis prod_cases3)
  obtain c st2 where p: "peek_char st1 = (c, st2)" by force
  obtain colon st3 where c: "match '':'' st1 = (colon, st3)" by force
  show ?thesis
  proof (cases "found \<and> colon")
    case False
    with k p c assms show ?thesis by (auto split: if_splits prod.splits bool.splits)
  next
    case True
    then obtain v st4 where v: "parse_value n st3 = Some (v, st4)"
      using k c assms by (auto split: option.splits)
    show ?thesis
      by (cases v; cases "match '','' st4") (use True k c v assms in \<open>auto split: prod.splits bool.splits\<close>)
  qed
qed

lemma parser_well_formed:
  "(\<forall>st v st'. parse_value n st = Some (Some v, st') \<longrightarrow> well_formed v) \<and>
   (\<forall>st ok vs st'. parse_array n st = Some (ok, vs, st') \<longrightarrow> well_formed (ARRAY vs)) \<and>
   (\<forall>vs st ok vs' st'. well_formed (ARRAY vs) \<longrightarrow> array_loop n vs st = Some (ok, vs', st') \<longrightarrow> well_formed (ARRAY vs')) \<and>
   (\<forall>st ok m st'. parse_object n st = Some (ok, m, st') \<longrightarrow> well_formed (OBJECT m)) \<and>
   (\<forall>m st ok m' st'. well_formed (OBJECT m) \<longrightarrow> object_loop n m st = Some (ok, m', st') \<longrightarrow> well_formed (OBJECT m'))"
proof (induction n)
  case (Suc n)
  note IH = Suc.IH [THEN conjunct1, rule_format]
    Suc.IH [THEN conjunct2, THEN conjunct1, rule_format]
    Suc.IH [THEN conjunct2, THEN conjunct2, THEN conjunct1, rule_format]
    Suc.IH [THEN conjunct2, THEN conjunct2, THEN conjunct2, THEN conjunct1, rule_format]
    Suc.IH [THEN conjunct2, THEN conjunct2, THEN conjunct2, THEN conjunct2, rule_format]
  have "well_formed v" if "parse_value (Suc n) st = Some (Some v, st')" for st v st'
    using parse_value_parts [OF that] parse_scalar_well_formed IH(2,4) by metis
  moreover have "well_formed (ARRAY vs)" if "parse_array (Suc n) st = Some (ok, vs, st')" for st ok vs st'
  proof -
    have "vs = [] \<or> (\<exists>st1. array_loop n [] st1 = Some (ok, vs, st'))"
      using that by (auto split: prod.splits bool.splits)
    moreover have "well_formed (ARRAY [])" by simp
    ultimately show ?thesis using IH(3) by metis
  qed
  moreover have "well_formed (ARRAY vs')"
    if "well_formed (ARRAY vs)" "array_loop (Suc n) vs st = Some (ok, vs', st')" for vs st ok vs' st'
  proof -
    have "well_formed (ARRAY (vs @ [v]))" if "well_formed v" for v
      using that \<open>well_formed (ARRAY vs)\<close> by simp
    then show ?thesis using array_loop_parts [OF that(2)] that(1) IH(1,3) by metis
  qed
  moreover have "well_formed (OBJECT m)" if "parse_object (Suc n) st = Some (ok, m, st')" for st ok m st'
  proof -
    have "m = [] \<or> (\<exists>st1. object_loop n [] st1 = Some (ok, m, st'))"
      using that by (auto split: prod.splits bool.splits)
    moreover have "well_formed (OBJECT [])" by simp
    ultimately show ?thesis using IH(5) by metis
  qed
  moreover have "well_formed (OBJECT m')"
    if "well_formed (OBJECT m)" "object_loop (Suc n) m st = Some (ok, m', st')" for m st ok m' st'
    using object_loop_parts [OF that(2)] that(1) well_formed_put [OF that(1)] IH(1,5) by metis
  ultimately show ?case by blast
qed simp

text \<open>
  Property C37.  Whatever the text, what the parser leaves in an object is well formed, also when it
  returns \<^verbatim>\<open>false\<close>: the keys are in order and each there once, and every value in it has a type.
\<close>

theorem parsed_object_well_formed:
  assumes "parse_object_text input = Some (ok, m)"
  shows "well_formed (OBJECT m)"
proof -
  obtain st' where "parse_object (enough (new_stream input)) (new_stream input) = Some (ok, m, st')"
    using assms by (auto simp: parse_object_text_def Let_def split: option.splits)
  then show ?thesis
    using parser_well_formed [THEN conjunct2, THEN conjunct2, THEN conjunct2, THEN conjunct1, rule_format] by metis
qed

theorem parsed_object_well_formed_witness:
  "parse_object_text ''{true'' = Some (False, []) \<and> well_formed (OBJECT [])"
proof -
  have "parse_object_text ''{true'' = Some (False, [])" by code_simp
  with parsed_object_well_formed [OF this] show ?thesis by blast
qed

section \<open>Texts that are not JSON\<close>

text \<open>
  Fact.  A text that ends before the last \<^verbatim>\<open>l\<close> of \<^verbatim>\<open>null\<close> is taken for \<^verbatim>\<open>null\<close>: \<^verbatim>\<open>match\<close> compares the
  character that the failed \<^verbatim>\<open>get\<close> left behind.
\<close>

theorem nul_is_null: "parse_value_text ''nul'' = Some (True, NULL)"
  by code_simp

text \<open>
  Fact.  An element that is missing before a comma is read as null, and one that is missing at the
  end is left out.
\<close>

theorem missing_elements: "parse_array_text ''[,true,]'' = Some (True, [NULL, BOOL True])"
  by code_simp

text \<open>
  Fact.  An escape for a character beyond Latin-1 is cut to its last byte, so two different keys can
  become one.
\<close>

theorem escape_is_cut:
  "parse_array_text (''['' @ quote_mark # backslash # ''u0141'' @ quote_mark # '']'') = Some (True, [STRING ''A''])"
  by code_simp

section \<open>The loops of the source\<close>

text \<open>\<open>skip_line\<close> and \<open>trim\<close> are the loops that they stand for, on the streams on which these are run.\<close>

lemma skip_line_loop:
  assumes "good st"
  shows "skip_line st =
    (case peek_char st of
       (Some c, st) \<Rightarrow> if c = CHR 0x0D \<or> c = CHR 0x0A then st else skip_line (snd (get_char ch st))
     | (None, st) \<Rightarrow> snd (get_char ch st))"
proof (cases "drop (pos st) (buf st)")
  case Nil
  with assms show ?thesis by (auto simp: skip_line_def peek_char_def get_char_def good_def)
next
  case (Cons c s)
  then have p: "pos st < length (buf st)" by (cases "pos st < length (buf st)") simp_all
  with Cons have c: "buf st ! pos st = c" "drop (Suc (pos st)) (buf st) = s"
    using Cons_nth_drop_Suc [OF p] by simp_all
  with assms Cons p show ?thesis
    by (auto simp: skip_line_def peek_char_def get_char_def good_def Let_def)
qed

lemma trim_loop:
  assumes "good st"
  shows "trim st =
    (case peek_char st of
       (Some c, st) \<Rightarrow> if 32 < (of_char c :: nat) then st else trim (snd (get_char ch st))
     | (None, st) \<Rightarrow> snd (get_char ch st))"
proof (cases "drop (pos st) (buf st)")
  case Nil
  with assms show ?thesis by (auto simp: trim_def peek_char_def get_char_def good_def)
next
  case (Cons c s)
  then have p: "pos st < length (buf st)" by (cases "pos st < length (buf st)") simp_all
  with Cons have c: "buf st ! pos st = c" "drop (Suc (pos st)) (buf st) = s"
    using Cons_nth_drop_Suc [OF p] by simp_all
  with assms Cons p show ?thesis
    by (auto simp: trim_def peek_char_def get_char_def good_def Let_def)
qed

end
