(* ===== verification/JsonReads.thy ===== *)
theory JsonReads
  imports JsonParsers
begin

text \<open>
  What the parser does on a text of the grammar: for each function, its result on a stream with such a
  text ahead, up to the mutual induction over the grammar at the end, which gives the fuel as well.
\<close>

section \<open>The text ahead\<close>

text \<open>
  \<open>to_rest st s\<close> is the stream at the place where \<open>s\<close> is left; \<open>ahead st s\<close> says that \<open>s\<close> is left up to
  the space before it, which every operation of the parser skips.
\<close>

definition to_rest :: "istream \<Rightarrow> string \<Rightarrow> istream" where
  "to_rest st s = st\<lparr>pos := length (buf st) - length s\<rparr>"

abbreviation lead :: "string \<Rightarrow> string" where "lead \<equiv> dropWhile isspace"

definition ahead :: "istream \<Rightarrow> string \<Rightarrow> bool" where
  "ahead st s \<longleftrightarrow> (\<exists>w. rest st (w @ lead s) \<and> list_all isspace w)"

lemma to_rest_to_rest [simp]: "to_rest (to_rest st s) s' = to_rest st s'"
  by (simp add: to_rest_def)

lemma to_rest_advanced [simp]: "to_rest (advance k st) s = to_rest st s"
  by (simp add: to_rest_def advance_def)

lemma to_rest_advance: "rest st (w @ s) \<Longrightarrow> advance (length w) st = to_rest st s"
  using rest_length [of st "w @ s"] by (simp add: advance_def to_rest_def)

lemma rest_to_rest: "rest st (w @ s) \<Longrightarrow> rest (to_rest st s) s"
  using rest_advance [of st w s] by (simp add: to_rest_advance)

lemma to_rest_here: "rest st s \<Longrightarrow> to_rest st s = st"
  using to_rest_advance [of st "[]" s] by simp

lemma rest_ahead: "rest st s \<Longrightarrow> ahead st s"
  unfolding ahead_def
  by (intro exI [of _ "takeWhile isspace s"]) (auto simp: list_all_iff dest: set_takeWhileD)

lemma ahead_lead: "lead s = lead s' \<Longrightarrow> ahead st s \<longleftrightarrow> ahead st s'"
  by (simp add: ahead_def)

lemma lead_idem [simp]: "lead (lead s) = lead s"
  by (induction s) simp_all

lemma stays_ahead:
  assumes "rest (to_rest st (c # s)) (c # s)" "lead u = c # s"
  shows "ahead (to_rest st (c # s)) u"
proof -
  have "lead (c # s) = lead u" using assms(2) lead_idem [of u] by simp
  with rest_ahead [OF assms(1)] ahead_lead show ?thesis by blast
qed

lemma skip_ws_ahead:
  assumes "ahead st u" "lead u = c # s"
  shows "skip_ws st = to_rest st (c # s)" "rest (to_rest st (c # s)) (c # s)"
proof -
  obtain w where w: "rest st (w @ c # s)" "list_all isspace w" using assms by (auto simp: ahead_def)
  have "\<not> isspace c" using hd_dropWhile [of isspace u] assms(2) by auto
  with w show "skip_ws st = to_rest st (c # s)" by (simp add: skip_ws_rest to_rest_advance)
  show "rest (to_rest st (c # s)) (c # s)" using rest_to_rest [OF w(1)] .
qed

section \<open>Patterns\<close>

lemma match_loop_found:
  assumes "rest st (w @ s)" "pattern = p @ w"
  shows "match_loop pattern (length p) ch st = (True, advance (length w) st)"
  using assms
proof (induction w arbitrary: st ch p)
  case (Cons c w)
  have good: "\<not> fails st" "\<not> eofbit st" using rest_good [OF Cons.prems(1)] by (simp_all add: good_def fails_def)
  have "rest (advance (Suc 0) st) (w @ s)" using Cons.prems(1) by (simp add: rest_Cons)
  from Cons.IH [OF this, of "p @ [c]" c] Cons.prems have
    "match_loop pattern (Suc (length p)) c (advance (Suc 0) st) = (True, advance (Suc (length w)) st)" by simp
  with good Cons.prems get_rest [of st c "w @ s" ch] show ?case
    by (simp add: match_loop.simps [of "p @ c # w" "length p" ch st])
qed (simp add: match_loop.simps)

lemma match_found:
  assumes "ahead st u" "lead u = (p # ps) @ s"
  shows "match (p # ps) st = (True, to_rest st s)" "rest (to_rest st s) s"
proof -
  note here = skip_ws_ahead [OF assms(1), of p "ps @ s"]
  have r: "rest (skip_ws st) ((p # ps) @ s)" using here assms(2) by simp
  from match_loop_found [OF r, of "p # ps" "[]"] here(1) assms(2) to_rest_advance [OF r]
  show "match (p # ps) st = (True, to_rest st s)" by (simp add: match_def)
  show "rest (to_rest st s) s" using rest_to_rest [OF r] here(1) assms(2) by simp
qed

lemma parse_comment_none:
  "rest st (c # s) \<Longrightarrow> c \<noteq> CHR ''/'' \<Longrightarrow> parse_comment st = (False, st)"
  using rest_good [of st "c # s"] by (auto simp: parse_comment_def peek_rest good_def)

lemma match_absent:
  assumes "ahead st u" "lead u = c # s" "c \<noteq> p" "c \<noteq> CHR ''/''"
  shows "match (p # ps) st = (False, to_rest st (c # s))" "ahead (to_rest st (c # s)) u"
proof -
  note here = skip_ws_ahead [OF assms(1,2)]
  have "\<not> fails (skip_ws st)" "\<not> eofbit (skip_ws st)"
    using rest_good [OF here(2)] here(1) by (simp_all add: good_def fails_def)
  with here assms(3,4) show "match (p # ps) st = (False, to_rest st (c # s))"
    by (simp add: match_def match_loop.simps [of "p # ps" 0] get_rest putback_rest parse_comment_none)
  show "ahead (to_rest st (c # s)) u" using stays_ahead [OF here(2) assms(2)] .
qed

section \<open>Strings\<close>

lemma string_loop_quote:
  "rest st (d # s) \<Longrightarrow> string_loop d ch v st = (True, v, advance (Suc 0) st)"
  using rest_good [of st "d # s"] rest_good [OF rest_Cons, of st d s]
  by (simp add: string_loop.simps [of d ch] get_rest) (simp add: good_def fails_def advance_def)

lemma string_loop_plain:
  "rest st (c # s) \<Longrightarrow> c \<noteq> d \<Longrightarrow> c \<noteq> backslash \<Longrightarrow>
   string_loop d ch v st = string_loop d c (v @ [c]) (advance (Suc 0) st)"
  using rest_good [of st "c # s"] by (simp add: string_loop.simps [of d ch] get_rest good_def)

lemma string_loop_escape:
  assumes "rest st (backslash # s)" "parse_escape quote_mark backslash v (advance (Suc 0) st) = (c, v', st')"
  shows "string_loop quote_mark ch v st = string_loop quote_mark c v' st'"
  using rest_good [OF assms(1)] assms
  by (simp add: string_loop.simps [of quote_mark ch] get_rest good_def)

lemma parse_escape_short:
  "rest st (e # s) \<Longrightarrow> short_escape c = Some e \<Longrightarrow>
   parse_escape quote_mark ch v st = (e, v @ [c], advance (Suc 0) st)"
  by (auto simp: parse_escape_def get_rest short_escape_def split: if_splits)

lemma hex_loop_rest: "rest st (ds @ s) \<Longrightarrow> ds \<noteq> [] \<Longrightarrow>
  hex_loop (length ds) ch st = (ds, last ds, advance (length ds) st)"
proof (induction ds arbitrary: ch st)
  case (Cons d ds)
  have r: "rest (advance (Suc 0) st) (ds @ s)" using Cons.prems(1) by (simp add: rest_Cons)
  have "\<not> eofbit st" "good st" using rest_good [OF Cons.prems(1)] by (simp_all add: good_def)
  with Cons.IH [OF r, of d] Cons.prems get_rest [of st d "ds @ s" ch] show ?case
    by (cases "ds = []") simp_all
qed simp

lemma hex_val_range: "hex_val c = Some n \<Longrightarrow> n < 16 \<and> \<not> isspace c \<and> c \<noteq> CHR ''-'' \<and> c \<noteq> CHR ''+''"
  by (auto simp: hex_val_def isspace_def Let_def split: if_splits)

lemma hex_val_zero: "hex_val c = Some 0 \<Longrightarrow> c = CHR ''0''"
  using of_char_eq_iff [of c "CHR ''0''", where ?'a = nat] by (auto simp: hex_val_def Let_def split: if_splits)

lemma extract_hex_digits:
  assumes "hex_val d1 = Some 0" "hex_val d2 = Some 0" "hex_val d3 = Some n3" "hex_val d4 = Some n4"
  shows "extract_hex [d1, d2, d3, d4] = Some (int (16 * n3 + n4))"
proof -
  have "d1 = CHR ''0''" "d2 = CHR ''0''" using assms(1,2) hex_val_zero by blast+
  with assms show ?thesis by (simp add: extract_hex_def scan_sign_def isspace_def)
qed

lemma parse_escape_u:
  assumes "rest st (CHR ''u'' # d1 # d2 # d3 # d4 # s)" "n3 < 8"
    and "hex_val d1 = Some 0" "hex_val d2 = Some 0" "hex_val d3 = Some n3" "hex_val d4 = Some n4"
  shows "parse_escape quote_mark ch v st = (d4, v @ [char_of (16 * n3 + n4)], advance 5 st)"
proof -
  have r: "rest (advance (Suc 0) st) ([d1, d2, d3, d4] @ s)" using assms(1) by (simp add: rest_Cons)
  from hex_loop_rest [OF r, of "CHR ''u''"] have
    "hex_loop 4 (CHR ''u'') (advance (Suc 0) st) = ([d1, d2, d3, d4], d4, advance 5 st)" by (simp add: numeral_eq_Suc)
  moreover have "nat (int (16 * n3 + n4) mod 256) = 16 * n3 + n4"
    using assms(2) hex_val_range [OF assms(6)] by simp
  ultimately show ?thesis
    using get_rest [OF assms(1)] rest_good [OF assms(1)] extract_hex_digits [OF assms(3-6)]
    by (simp add: parse_escape_def)
qed

lemma string_loop_text:
  assumes "chars_text cs k" "rest st (cs @ quote_mark # s)"
  shows "string_loop quote_mark ch v st = (True, v @ k, to_rest st s)"
  using assms
proof (induction cs k arbitrary: ch v st)
  case no_char
  then show ?case using to_rest_advance [of st "[quote_mark]" s] by (simp add: string_loop_quote)
next
  case (plain_char c t k)
  have "rest (advance (Suc 0) st) (t @ quote_mark # s)" using plain_char.prems by (simp add: rest_Cons)
  from plain_char.IH [OF this, of c "v @ [c]"] plain_char.hyps plain_char.prems show ?case
    by (simp add: string_loop_plain)
next
  case (short_char c e t k)
  have r: "rest (advance (Suc 0) st) (e # t @ quote_mark # s)" using short_char.prems by (simp add: rest_Cons)
  have "rest (advance 2 st) (t @ quote_mark # s)" using rest_Cons [OF r] by (simp add: numeral_2_eq_2)
  from short_char.IH [OF this, of e "v @ [c]"] parse_escape_short [OF r short_char.hyps(1), of backslash v]
  show ?case
    using short_char.prems by (simp add: string_loop_escape numeral_2_eq_2)
next
  case (u_char d1 d2 d3 n3 d4 n4 t k)
  have r: "rest (advance (Suc 0) st) (CHR ''u'' # d1 # d2 # d3 # d4 # t @ quote_mark # s)"
    using u_char.prems by (simp add: rest_Cons)
  then have "rest (advance 6 st) (t @ quote_mark # s)"
    using rest_advance [of "advance (Suc 0) st" "[CHR ''u'', d1, d2, d3, d4]" "t @ quote_mark # s"]
    by (simp add: numeral_eq_Suc)
  from u_char.IH [OF this, of d4 "v @ [char_of (16 * n3 + n4)]"]
    parse_escape_u [OF r u_char.hyps(5,1-4), of backslash v]
  show ?case
    using u_char.prems by (simp add: string_loop_escape)
qed

lemma parse_string_found:
  assumes "ahead st u" "lead u = t @ s" "string_text t k"
  shows "parse_string v st = (True, v @ k, to_rest st s)" "rest (to_rest st s) s"
proof -
  from assms(3) obtain cs where t: "t = quote_mark # cs @ [quote_mark]" "chars_text cs k"
    by (auto simp: string_text_def)
  have l: "lead u = [quote_mark] @ cs @ quote_mark # s" using assms(2) t(1) by simp
  note m = match_found [OF assms(1) l]
  from m string_loop_text [OF t(2) m(2)] show "parse_string v st = (True, v @ k, to_rest st s)"
    by (simp add: parse_string_def)
  show "rest (to_rest st s) s"
    using rest_to_rest [of "to_rest st (cs @ quote_mark # s)" "cs @ [quote_mark]" s] m(2) by simp
qed

lemma parse_string_absent:
  assumes "ahead st u" "lead u = c # s" "c \<notin> {quote_mark, CHR 0x27, CHR ''/''}"
  shows "parse_string v st = (False, v, to_rest st (c # s))" "ahead (to_rest st (c # s)) u"
proof -
  have "c \<noteq> quote_mark" "c \<noteq> CHR ''/''" using assms(3) by simp_all
  note m = match_absent(1) [OF assms(1,2) this, of "[]"] match_absent(2) [OF assms(1,2) this]
  note here = skip_ws_ahead [OF assms(1,2)]
  from m(1) here assms(3) show "parse_string v st = (False, v, to_rest st (c # s))"
    by (simp add: parse_string_def peek_rest)
  show "ahead (to_rest st (c # s)) u" by (fact m(2))
qed

section \<open>Numbers\<close>

definition ends_number :: "string \<Rightarrow> bool" where
  "ends_number s \<longleftrightarrow>
     (case s of [] \<Rightarrow> True | c # _ \<Rightarrow> \<not> isdigit c \<and> c \<notin> {CHR ''.'', CHR ''e'', CHR ''E''})"

lemma scan_digits:
  assumes "list_all isdigit d" "s = [] \<or> \<not> isdigit (hd s)"
  shows "takeWhile isdigit (d @ s) = d" "dropWhile isdigit (d @ s) = s"
  using assms by (induction d; cases s; simp)+

lemma scan_fraction_text:
  assumes "frac_part fr f" "s = [] \<or> \<not> isdigit (hd s) \<and> hd s \<noteq> CHR ''.''"
  shows "scan_fraction (fr @ s) = (f, s)"
  using assms
proof cases
  case no_frac
  with assms(2) show ?thesis by (cases s) (simp_all add: scan_fraction_def)
next
  case frac
  with assms(2) scan_digits [of f s] show ?thesis by (auto simp: scan_fraction_def)
qed

lemma digit_not_sign: "isdigit c \<Longrightarrow> c \<noteq> CHR ''-'' \<and> c \<noteq> CHR ''+'' \<and> c \<noteq> CHR ''.'' \<and> c \<noteq> CHR ''e'' \<and> c \<noteq> CHR ''E''"
  by (auto simp: isdigit_def)

lemma scan_exponent_text:
  assumes "exp_part ex k" "ends_number s"
  shows "scan_exponent (ex @ s) = (Some k, s)"
  using assms(1)
proof cases
  case no_exp
  with assms(2) show ?thesis by (cases s) (auto simp: scan_exponent_def ends_number_def)
next
  case (exp_plain c ds)
  have e: "s = [] \<or> \<not> isdigit (hd s)" using assms(2) by (cases s) (auto simp: ends_number_def)
  have "scan_sign (ds @ s) = (False, ds @ s)"
    using exp_plain digit_not_sign by (cases ds) (auto simp: scan_sign_def)
  with exp_plain scan_digits [OF exp_plain(5) e] show ?thesis by (auto simp: scan_exponent_def Let_def)
next
  case (exp_plus c ds)
  have e: "s = [] \<or> \<not> isdigit (hd s)" using assms(2) by (cases s) (auto simp: ends_number_def)
  from exp_plus scan_digits [OF exp_plus(5) e] show ?thesis by (auto simp: scan_exponent_def scan_sign_def Let_def)
next
  case (exp_minus c ds)
  have e: "s = [] \<or> \<not> isdigit (hd s)" using assms(2) by (cases s) (auto simp: ends_number_def)
  from exp_minus scan_digits [OF exp_minus(5) e] show ?thesis by (auto simp: scan_exponent_def scan_sign_def Let_def)
qed

lemma exp_part_first: "exp_part ex k \<Longrightarrow> ends_number s \<Longrightarrow>
  ex @ s = [] \<or> \<not> isdigit (hd (ex @ s)) \<and> hd (ex @ s) \<noteq> CHR ''.''"
  by (cases s; erule exp_part.cases) (auto simp: ends_number_def isdigit_def)

lemma frac_part_first:
  "frac_part fr f \<Longrightarrow> s = [] \<or> \<not> isdigit (hd s) \<and> hd s \<noteq> CHR ''.'' \<Longrightarrow> fr @ s = [] \<or> \<not> isdigit (hd (fr @ s))"
  by (erule frac_part.cases) (auto simp: isdigit_def)

text \<open>The scan after the sign.\<close>

lemma scan_unsigned:
  assumes "unsigned_text t v" "ends_number s" "scan_sign u = (neg, t @ s)"
  shows "scan_float u = (Some (if neg then - v else v), s)"
  using assms(1)
proof cases
  case (unsigned i fr f ex k)
  have i: "list_all isdigit i" "i \<noteq> []" using unsigned(3) by (simp_all add: int_part_def)
  note e = exp_part_first [OF unsigned(5) assms(2)]
  note d = scan_digits [OF i(1) frac_part_first [OF unsigned(4) e]]
  show ?thesis
    using assms(3) unsigned(1,2) i(2) d scan_fraction_text [OF unsigned(4) e] scan_exponent_text [OF unsigned(5) assms(2)]
    by (simp add: scan_float_def Let_def)
qed

lemma unsigned_first: "unsigned_text t v \<Longrightarrow> t \<noteq> [] \<and> isdigit (hd t)"
  by (erule unsigned_text.cases) (auto simp: int_part_def list_all_iff)

lemma scan_number:
  assumes "number_text t x" "ends_number s"
  shows "scan_float (t @ s) = (Some x, s)"
  using assms(1)
proof cases
  case nonneg
  obtain c t' where t: "t = c # t'" "isdigit c" using unsigned_first [OF nonneg] by (cases t) simp_all
  then have "scan_sign (t @ s) = (False, t @ s)" using digit_not_sign [of c] by (simp add: scan_sign_def)
  from scan_unsigned [OF nonneg assms(2) this] show ?thesis by simp
next
  case (negative t' v)
  have "scan_sign (t @ s) = (True, t' @ s)" by (simp add: negative scan_sign_def)
  from scan_unsigned [OF negative(3) assms(2) this] negative(2) show ?thesis by simp
qed

definition in_range :: "rat \<Rightarrow> bool" where
  "in_range x \<longleftrightarrow> \<bar>ldround x\<bar> \<le> long_double_max"

lemma number_text_first: "number_text t x \<Longrightarrow> t \<noteq> [] \<and> (hd t = CHR ''-'' \<or> isdigit (hd t))"
  by (erule number_text.cases) (auto dest: unsigned_first)

lemma extract_float_rest:
  assumes "rest st (c # u)" "\<not> isspace c" "scan_float (c # u) = (v, s)" "s \<noteq> []"
  shows "extract_float st =
    (case v of
       None \<Rightarrow> (None, (to_rest st s)\<lparr>failbit := True\<rparr>)
     | Some x \<Rightarrow> if in_range x then (Some (ldround x), to_rest st s)
                 else (None, (to_rest st s)\<lparr>failbit := True\<rparr>))"
proof -
  have good: "good st" "\<not> eofbit st" using rest_good [OF assms(1)] by (simp_all add: good_def)
  have "skip_ws st = st"
    using skip_ws_rest [of st "[]" c u] assms(1,2) by simp
  moreover have "drop (pos st) (buf st) = c # u" using assms(1) by (simp add: rest_def)
  moreover have "st\<lparr>pos := length (buf st) - length s, eofbit := False\<rparr> = to_rest st s"
    using good(2) by (cases st) (simp add: to_rest_def)
  ultimately show ?thesis
    using good assms(3,4) by (simp add: extract_float_def Let_def in_range_def not_le split: option.split)
qed

lemma parse_number_at:
  assumes "ahead st u" "lead u = c # s'" "scan_float (c # s') = (v, s)" "s \<noteq> []" "length s \<le> length (c # s')"
  shows "parse_number st =
    (case v of
       None \<Rightarrow> (None, to_rest st (c # s'))
     | Some x \<Rightarrow> if in_range x then (Some (ldround x), to_rest st s) else (None, to_rest st (c # s')))"
proof -
  note here = skip_ws_ahead [OF assms(1,2)]
  let ?st = "to_rest st (c # s')"
  have "\<not> isspace c" using hd_dropWhile [of isspace u] assms(2) by auto
  note e = extract_float_rest [OF here(2) this assms(3,4)]
  have t: "tellg ?st = (Some (pos ?st), ?st)" using here(2) by (rule tellg_rest)
  have ok: "\<not> fails (to_rest st s)" using rest_good [OF here(2)] by (simp add: good_def fails_def to_rest_def)
  have undo: "seekg (Some (pos ?st)) (clear_state ((to_rest st s)\<lparr>failbit := True\<rparr>)) = ?st"
    using here(2) by (rule rollback_rest) (simp add: to_rest_def)
  show ?thesis
    using here(1) e t ok undo by (simp add: parse_number_def fails_def split: option.split)
qed

lemma parse_number_found:
  assumes "ahead st u" "lead u = t @ s" "number_text t x" "in_range x" "ends_number s" "s \<noteq> []"
  shows "parse_number st = (Some (ldround x), to_rest st s)" "rest (to_rest st s) s"
proof -
  obtain c t' where t: "t = c # t'" using number_text_first [OF assms(3)] by (cases t) auto
  have l: "lead u = c # t' @ s" using assms(2) t by simp
  show "parse_number st = (Some (ldround x), to_rest st s)"
    using parse_number_at [OF assms(1) l] scan_number [OF assms(3,5)] assms(4,6) t by simp
  show "rest (to_rest st s) s"
    using rest_to_rest [of "to_rest st (t @ s)" t s] skip_ws_ahead(2) [OF assms(1) l] t by simp
qed

lemma parse_number_absent:
  assumes "ahead st u" "lead u = c # s" "\<not> isdigit c" "c \<notin> {CHR ''-'', CHR ''+'', CHR ''.''}"
  shows "parse_number st = (None, to_rest st (c # s))" "ahead (to_rest st (c # s)) u"
proof -
  have "scan_float (c # s) = (None, c # s)"
    using assms(3,4) by (simp add: scan_float_def scan_sign_def scan_fraction_def)
  then show "parse_number st = (None, to_rest st (c # s))" using parse_number_at [OF assms(1,2)] by simp
  show "ahead (to_rest st (c # s)) u"
    using stays_ahead [OF skip_ws_ahead(2) [OF assms(1,2)] assms(2)] .
qed

section \<open>Scalars\<close>

lemma parse_bool_absent:
  assumes "ahead st u" "lead u = c # s" "c \<notin> {CHR ''t'', CHR ''f'', CHR ''/''}"
  shows "parse_bool st = (None, to_rest st (c # s))" "ahead (to_rest st (c # s)) u"
proof -
  have c: "c \<noteq> CHR ''t''" "c \<noteq> CHR ''f''" "c \<noteq> CHR ''/''" using assms(3) by simp_all
  note t = match_absent(1) [OF assms(1,2) c(1,3), of "''rue''"] match_absent(2) [OF assms(1,2) c(1,3)]
  note f = match_absent(1) [OF t(2) assms(2) c(2,3), of "''alse''"]
  from t f show "parse_bool st = (None, to_rest st (c # s))" "ahead (to_rest st (c # s)) u"
    by (simp_all add: parse_bool_def)
qed

lemma parse_bool_found:
  assumes "ahead st u" "lead u = (if b then ''true'' else ''false'') @ s"
  shows "parse_bool st = (Some b, to_rest st s)" "rest (to_rest st s) s"
proof -
  have "parse_bool st = (Some b, to_rest st s) \<and> rest (to_rest st s) s"
  proof (cases b)
    case True
    with assms(2) have l: "lead u = (CHR ''t'' # ''rue'') @ s" by simp
    from match_found [OF assms(1) l] True show ?thesis by (simp add: parse_bool_def)
  next
    case False
    with assms(2) have l: "lead u = CHR ''f'' # ''alse'' @ s" and l': "lead u = (CHR ''f'' # ''alse'') @ s" by simp_all
    have "match ''true'' st = (False, to_rest st (CHR ''f'' # ''alse'' @ s))"
      "ahead (to_rest st (CHR ''f'' # ''alse'' @ s)) u"
      using match_absent [OF assms(1) l, of "CHR ''t''"] by simp_all
    with match_found [OF this(2) l'] False show ?thesis by (simp add: parse_bool_def)
  qed
  then show "parse_bool st = (Some b, to_rest st s)" "rest (to_rest st s) s" by blast+
qed

lemma parse_null_absent:
  assumes "ahead st u" "lead u = c # s" "c \<notin> {CHR ''n'', CHR '','', CHR ''/''}"
  shows "parse_null st = (False, to_rest st (c # s))" "ahead (to_rest st (c # s)) u"
proof -
  have "c \<noteq> CHR ''n''" "c \<noteq> CHR ''/''" using assms(3) by simp_all
  note m = match_absent(1) [OF assms(1,2) this, of "''ull''"] match_absent(2) [OF assms(1,2) this]
  from m peek_rest [OF skip_ws_ahead(2) [OF assms(1,2)]] assms(3)
  show "parse_null st = (False, to_rest st (c # s))" "ahead (to_rest st (c # s)) u"
    by (simp_all add: parse_null_def)
qed

text \<open>A character that none of the scalars begins with.\<close>

definition opens :: "char \<Rightarrow> bool" where
  "opens c \<longleftrightarrow> c \<in> {CHR ''['', CHR ''{''}"

lemma parse_scalar_absent:
  assumes "ahead st u" "lead u = c # s" "opens c"
  shows "parse_scalar st = (None, to_rest st (c # s))" "ahead (to_rest st (c # s)) u" "rest (to_rest st (c # s)) (c # s)"
proof -
  have c: "c \<notin> {quote_mark, CHR 0x27, CHR ''/''}" "\<not> isdigit c" "c \<notin> {CHR ''-'', CHR ''+'', CHR ''.''}"
    "c \<notin> {CHR ''t'', CHR ''f'', CHR ''/''}" "c \<notin> {CHR ''n'', CHR '','', CHR ''/''}"
    using assms(3) by (auto simp: opens_def isdigit_def)
  note 1 = parse_string_absent(1) [OF assms(1,2) c(1), of "[]"] parse_string_absent(2) [OF assms(1,2) c(1)]
  note 2 = parse_number_absent [OF 1(2) assms(2) c(2,3)]
  note 3 = parse_bool_absent [OF 2(2) assms(2) c(4), simplified]
  note 4 = parse_null_absent [OF 3(2) assms(2) c(5), simplified]
  from 1 2 3 4 show "parse_scalar st = (None, to_rest st (c # s))" "ahead (to_rest st (c # s)) u"
    by (simp_all add: parse_scalar_def)
  show "rest (to_rest st (c # s)) (c # s)" by (rule skip_ws_ahead(2) [OF assms(1,2)])
qed

text \<open>The values that are read: each number as a \<^verbatim>\<open>long double\<close>, of two members with one key the last.\<close>

abbreviation put_members :: "json string_map \<Rightarrow> (string \<times> json) list \<Rightarrow> json string_map" where
  "put_members \<equiv> foldl (\<lambda>m (k, v). map_put k v m)"

fun reread :: "json \<Rightarrow> json" where
  "reread (NUMBER x) = NUMBER (ldround x)"
| "reread (ARRAY vs) = ARRAY (map reread vs)"
| "reread (OBJECT m) = OBJECT (put_members [] (map (\<lambda>(k, v). (k, reread v)) m))"
| "reread v = v"

fun readable :: "json \<Rightarrow> bool" where
  "readable (NUMBER x) \<longleftrightarrow> in_range x"
| "readable (ARRAY vs) \<longleftrightarrow> (\<forall>v\<in>set vs. readable v)"
| "readable (OBJECT m) \<longleftrightarrow> (\<forall>(k, v)\<in>set m. readable v)"
| "readable _ \<longleftrightarrow> True"

definition scalar :: "json \<Rightarrow> bool" where
  "scalar v \<longleftrightarrow> \<not> is_array v \<and> \<not> is_object v"

lemma parse_scalar_found:
  assumes "value_text t v" "scalar v" "readable v"
    and "ahead st u" "lead u = t @ s" "ends_number s" "s \<noteq> []"
  shows "parse_scalar st = (Some (reread v), to_rest st s) \<and> rest (to_rest st s) s"
  using assms(1)
proof cases
  case null_text
  with assms(5) have l: "lead u = CHR ''n'' # ''ull'' @ s" and l': "lead u = (CHR ''n'' # ''ull'') @ s" by simp_all
  note 1 = parse_string_absent(1) [OF assms(4) l, of "[]", simplified] parse_string_absent(2) [OF assms(4) l, simplified]
  note 2 = parse_number_absent [OF 1(2) l, simplified, unfolded isdigit_def, simplified]
  note 3 = parse_bool_absent [OF 2(2) l, simplified]
  note 4 = match_found [OF 3(2) l', simplified]
  from 1 2 3 4 null_text show ?thesis by (simp add: parse_scalar_def parse_null_def)
next
  case true_text
  with assms(5) have l: "lead u = CHR ''t'' # ''rue'' @ s" by simp
  note 1 = parse_string_absent(1) [OF assms(4) l, of "[]", simplified] parse_string_absent(2) [OF assms(4) l, simplified]
  note 2 = parse_number_absent [OF 1(2) l, simplified, unfolded isdigit_def, simplified]
  have "parse_bool (to_rest st (CHR ''t'' # ''rue'' @ s)) = (Some True, to_rest st s) \<and> rest (to_rest st s) s"
    using parse_bool_found [OF 2(2), of True s] l by simp
  with 1 2 true_text show ?thesis by (simp add: parse_scalar_def)
next
  case false_text
  with assms(5) have l: "lead u = CHR ''f'' # ''alse'' @ s" by simp
  note 1 = parse_string_absent(1) [OF assms(4) l, of "[]", simplified] parse_string_absent(2) [OF assms(4) l, simplified]
  note 2 = parse_number_absent [OF 1(2) l, simplified, unfolded isdigit_def, simplified]
  have "parse_bool (to_rest st (CHR ''f'' # ''alse'' @ s)) = (Some False, to_rest st s) \<and> rest (to_rest st s) s"
    using parse_bool_found [OF 2(2), of False s] l by simp
  with 1 2 false_text show ?thesis by (simp add: parse_scalar_def)
next
  case (num_text x)
  obtain c t' where t: "t = c # t'" "c = CHR ''-'' \<or> isdigit c"
    using number_text_first [OF num_text(2)] by (cases t) auto
  then have l: "lead u = c # t' @ s" and c: "c \<notin> {quote_mark, CHR 0x27, CHR ''/''}"
    using assms(5) by (auto simp: isdigit_def)
  note 1 = parse_string_absent(1) [OF assms(4) l c, of "[]"] parse_string_absent(2) [OF assms(4) l c]
  have "in_range x" using assms(3) num_text(1) by simp
  note 2 = parse_number_found [OF 1(2) assms(5) num_text(2) this assms(6,7), simplified]
  from 1 2 num_text(1) show ?thesis by (simp add: parse_scalar_def)
next
  case (str_text k)
  from parse_string_found [OF assms(4,5) str_text(2)] str_text(1) show ?thesis by (simp add: parse_scalar_def)
qed (use assms(2) in \<open>simp_all add: scalar_def is_array_def is_object_def\<close>)

section \<open>Containers\<close>

definition starts :: "char \<Rightarrow> bool" where
  "starts c \<longleftrightarrow> isdigit c \<or> c \<in> {CHR ''-'', quote_mark, CHR ''n'', CHR ''t'', CHR ''f'', CHR ''['', CHR ''{''}"

lemma starts_facts: "starts c \<Longrightarrow> \<not> isspace c \<and> c \<noteq> CHR ''/'' \<and> c \<noteq> CHR '']'' \<and> c \<noteq> CHR ''}''"
  by (auto simp: starts_def isdigit_def isspace_def)

lemma value_starts:
  assumes "value_text t v"
  obtains c t' where "t = c # t'" "starts c"
proof -
  have "t \<noteq> []" "starts (hd t)"
    using assms by (cases; auto simp: starts_def string_text_def dest!: number_text_first)+
  then show thesis using that by (cases t) auto
qed

lemma lead_ws: "list_all isspace w \<Longrightarrow> lead (w @ s) = lead s"
  by (induction w) simp_all

lemma json_ws_space: "json_ws w \<Longrightarrow> list_all isspace w"
  by (induction w) (auto simp: isspace_def)

lemma lead_padded: "json_ws w \<Longrightarrow> value_text t v \<Longrightarrow> lead (w @ t @ s) = t @ s"
  by (erule value_starts) (simp add: lead_ws json_ws_space starts_facts)

lemma lead_string: "json_ws w \<Longrightarrow> string_text t k \<Longrightarrow> lead (w @ t @ s) = t @ s"
  by (auto simp: lead_ws json_ws_space string_text_def isspace_def)

text \<open>What may follow a value.\<close>

definition delimits :: "string \<Rightarrow> bool" where
  "delimits s \<longleftrightarrow> s \<noteq> [] \<and> hd s \<in> {CHR '','', CHR '']'', CHR ''}''}"

lemma delimits_ws: "delimits s \<Longrightarrow> json_ws w \<Longrightarrow> ends_number (w @ s) \<and> w @ s \<noteq> []"
  by (cases w; cases s) (auto simp: delimits_def ends_number_def isdigit_def)

lemma delimits_lead: "delimits s \<Longrightarrow> json_ws w \<Longrightarrow> lead (w @ s) = s"
  by (cases s) (auto simp: lead_ws json_ws_space delimits_def isspace_def)

lemma rest_left: "rest st s \<Longrightarrow> left st = length s"
  using rest_length [of st s] by (simp add: left_def)

lemma ahead_left: "ahead st u \<Longrightarrow> length (lead u) \<le> left st"
  by (auto simp: ahead_def dest: rest_left)

text \<open>What the grammar promises of the parser, for each of its parts.\<close>

definition reads_value :: "string \<Rightarrow> json \<Rightarrow> bool" where
  "reads_value t v \<longleftrightarrow>
     (\<forall>st u s n. readable v \<longrightarrow> ahead st u \<longrightarrow> lead u = t @ s \<longrightarrow> ends_number s \<longrightarrow> s \<noteq> [] \<longrightarrow> 3 * left st + 3 \<le> n \<longrightarrow>
        parse_value n st = Some (Some (reread v), to_rest st s) \<and> rest (to_rest st s) s)"

definition reads_padded :: "string \<Rightarrow> json \<Rightarrow> bool" where
  "reads_padded t v \<longleftrightarrow>
     (\<forall>st u s n. readable v \<longrightarrow> ahead st u \<longrightarrow> lead u = lead (t @ s) \<longrightarrow> delimits s \<longrightarrow> 3 * left st + 3 \<le> n \<longrightarrow>
        (\<exists>st' u'. parse_value n st = Some (Some (reread v), st') \<and> to_rest st' = to_rest st \<and>
           ahead st' u' \<and> lead u' = s \<and> left st' < left st))"

definition reads_elements :: "string \<Rightarrow> json list \<Rightarrow> bool" where
  "reads_elements t vs \<longleftrightarrow>
     (\<forall>st u s n acc. list_all readable vs \<longrightarrow> ahead st u \<longrightarrow> lead u = lead (t @ CHR '']'' # s) \<longrightarrow> 3 * left st + 4 \<le> n \<longrightarrow>
        array_loop n acc st = Some (True, acc @ map reread vs, to_rest st s) \<and> rest (to_rest st s) s)"

definition reads_member :: "string \<Rightarrow> string \<times> json \<Rightarrow> bool" where
  "reads_member t p \<longleftrightarrow>
     (\<forall>st u s n. readable (snd p) \<longrightarrow> ahead st u \<longrightarrow> lead u = lead (t @ s) \<longrightarrow> delimits s \<longrightarrow> 3 * left st + 3 \<le> n \<longrightarrow>
        (\<exists>st1 st2 st' u'. parse_string [] st = (True, fst p, st1) \<and> match '':'' st1 = (True, st2) \<and>
           parse_value n st2 = Some (Some (reread (snd p)), st') \<and> to_rest st' = to_rest st \<and>
           ahead st' u' \<and> lead u' = s \<and> left st' < left st))"

definition reads_members :: "string \<Rightarrow> (string \<times> json) list \<Rightarrow> bool" where
  "reads_members t m \<longleftrightarrow>
     (\<forall>st u s n acc. list_all (\<lambda>(k, v). readable v) m \<longrightarrow> ahead st u \<longrightarrow> lead u = lead (t @ CHR ''}'' # s) \<longrightarrow> 3 * left st + 4 \<le> n \<longrightarrow>
        object_loop n acc st = Some (True, put_members acc (map (\<lambda>(k, v). (k, reread v)) m), to_rest st s) \<and>
        rest (to_rest st s) s)"

lemma reads_scalar: "value_text t v \<Longrightarrow> scalar v \<Longrightarrow> reads_value t v"
  unfolding reads_value_def
proof (intro allI impI)
  fix st u s n
  assume "value_text t v" "scalar v" "readable v" "ahead st u" "lead u = t @ s" "ends_number s" "s \<noteq> []"
    "3 * left st + 3 \<le> n"
  with parse_scalar_found [of t v st u s] show
    "parse_value n st = Some (Some (reread v), to_rest st s) \<and> rest (to_rest st s) s"
    by (cases n) simp_all
qed

text \<open>An opening bracket is taken by the branch for it.\<close>

lemma opens_array:
  assumes "ahead st u" "lead u = CHR ''['' # r" "3 * left st + 3 \<le> n"
    and "parse_array (n - 1) (to_rest st (CHR ''['' # r)) = Some (True, vs, st')"
  shows "parse_value n st = Some (Some (ARRAY vs), st')"
proof (cases n)
  case (Suc k)
  have "opens (CHR ''['')" by (simp add: opens_def)
  note s = parse_scalar_absent [OF assms(1,2) this]
  from s peek_rest [OF s(3)] assms(4) Suc show ?thesis by simp
qed (use assms(3) in simp)

lemma opens_object:
  assumes "ahead st u" "lead u = CHR ''{'' # r" "3 * left st + 3 \<le> n"
    and "parse_object (n - 1) (to_rest st (CHR ''{'' # r)) = Some (True, m, st')"
  shows "parse_value n st = Some (Some (OBJECT m), st')"
proof (cases n)
  case (Suc k)
  have "opens (CHR ''{'')" by (simp add: opens_def)
  note s = parse_scalar_absent [OF assms(1,2) this]
  from s peek_rest [OF s(3)] assms(4) Suc show ?thesis by simp
qed (use assms(3) in simp)

text \<open>After a bracket: white space and the closing one, or something else, which stays ahead.\<close>

lemma bracket_empty:
  assumes "ahead st u" "lead u = p # w @ e # s" "json_ws w" "\<not> isspace e"
  shows "\<exists>st1. match [p] st = (True, st1) \<and> match [e] st1 = (True, to_rest st s)" "rest (to_rest st s) s"
proof -
  have l: "lead u = (p # []) @ w @ e # s" using assms(2) by simp
  note 1 = match_found [OF assms(1) l]
  have l2: "lead (w @ e # s) = (e # []) @ s" using assms(3,4) by (simp add: lead_ws json_ws_space)
  note 2 = match_found [OF rest_ahead [OF 1(2)] l2, simplified]
  show "\<exists>st1. match [p] st = (True, st1) \<and> match [e] st1 = (True, to_rest st s)" using 1(1) 2(1) by blast
  show "rest (to_rest st s) s" by (rule 2(2))
qed

lemma bracket_full:
  assumes "ahead st u" "lead u = p # t @ e # s" "e \<in> {CHR '']'', CHR ''}''}"
    and "lead (t @ e # s) = c # r" "starts c"
  shows "\<exists>st1 st2. match [p] st = (True, st1) \<and> match [e] st1 = (False, st2) \<and> ahead st2 (t @ e # s) \<and>
    to_rest st2 = to_rest st \<and> left st2 < left st"
proof -
  have l: "lead u = (p # []) @ t @ e # s" using assms(2) by simp
  note 1 = match_found [OF assms(1) l]
  have c: "c \<noteq> e" "c \<noteq> CHR ''/''" using starts_facts [OF assms(5)] assms(3) by auto
  note 2 = match_absent(1) [OF rest_ahead [OF 1(2)] assms(4) c, of "[]", simplified]
    match_absent(2) [OF rest_ahead [OF 1(2)] assms(4) c, simplified]
  have r: "rest (to_rest st (c # r)) (c # r)" using skip_ws_ahead(2) [OF rest_ahead [OF 1(2)] assms(4)] by simp
  have "length (c # r) \<le> length (t @ e # s)" unfolding assms(4) [symmetric] by (rule length_dropWhile_le)
  then have "left (to_rest st (c # r)) < left st"
    using rest_left [OF r] ahead_left [OF assms(1)] assms(2) by simp
  moreover have "to_rest (to_rest st (c # r)) = to_rest st" by (simp add: fun_eq_iff)
  ultimately show ?thesis using 1(1) 2 by blast
qed

lemma parse_array_empty:
  assumes "ahead st u" "lead u = CHR ''['' # w @ CHR '']'' # s" "json_ws w" "0 < n"
  shows "parse_array n st = Some (True, [], to_rest st s)" "rest (to_rest st s) s"
proof -
  have e: "\<not> isspace (CHR '']'')" by (simp add: isspace_def)
  from bracket_empty(1) [OF assms(1-3) e] assms(4) show "parse_array n st = Some (True, [], to_rest st s)"
    by (cases n) auto
  show "rest (to_rest st s) s" by (rule bracket_empty(2) [OF assms(1-3) e])
qed

lemma parse_array_full:
  assumes "ahead st u" "lead u = CHR ''['' # t @ CHR '']'' # s" "reads_elements t vs" "list_all readable vs"
    and "lead (t @ CHR '']'' # s) = c # r" "starts c" "3 * left st + 2 \<le> n"
  shows "parse_array n st = Some (True, map reread vs, to_rest st s) \<and> rest (to_rest st s) s"
proof -
  obtain k where k: "n = Suc k" using assms(7) by (cases n) simp_all
  obtain st1 st2 where b: "match ''['' st = (True, st1)" "match '']'' st1 = (False, st2)"
    "ahead st2 (t @ CHR '']'' # s)" "to_rest st2 = to_rest st" "left st2 < left st"
    using bracket_full [OF assms(1,2) _ assms(5,6)] by auto
  then have f: "3 * left st2 + 4 \<le> k" using assms(7) k by simp
  have "array_loop k [] st2 = Some (True, [] @ map reread vs, to_rest st2 s) \<and> rest (to_rest st2 s) s"
    using assms(3) [unfolded reads_elements_def, rule_format, OF assms(4) b(3) refl f] .
  with b k show ?thesis by simp
qed

lemma parse_object_empty:
  assumes "ahead st u" "lead u = CHR ''{'' # w @ CHR ''}'' # s" "json_ws w" "0 < n"
  shows "parse_object n st = Some (True, [], to_rest st s)" "rest (to_rest st s) s"
proof -
  have e: "\<not> isspace (CHR ''}'')" by (simp add: isspace_def)
  from bracket_empty(1) [OF assms(1-3) e] assms(4) show "parse_object n st = Some (True, [], to_rest st s)"
    by (cases n) auto
  show "rest (to_rest st s) s" by (rule bracket_empty(2) [OF assms(1-3) e])
qed

lemma parse_object_full:
  assumes "ahead st u" "lead u = CHR ''{'' # t @ CHR ''}'' # s" "reads_members t m" "list_all (\<lambda>(k, v). readable v) m"
    and "lead (t @ CHR ''}'' # s) = c # r" "starts c" "3 * left st + 2 \<le> n"
  shows "parse_object n st = Some (True, put_members [] (map (\<lambda>(k, v). (k, reread v)) m), to_rest st s) \<and>
    rest (to_rest st s) s"
proof -
  obtain k where k: "n = Suc k" using assms(7) by (cases n) simp_all
  obtain st1 st2 where b: "match ''{'' st = (True, st1)" "match ''}'' st1 = (False, st2)"
    "ahead st2 (t @ CHR ''}'' # s)" "to_rest st2 = to_rest st" "left st2 < left st"
    using bracket_full [OF assms(1,2) _ assms(5,6)] by auto
  then have f: "3 * left st2 + 4 \<le> k" using assms(7) k by simp
  have "object_loop k [] st2 = Some (True, put_members [] (map (\<lambda>(k, v). (k, reread v)) m), to_rest st2 s) \<and>
      rest (to_rest st2 s) s"
    using assms(3) [unfolded reads_members_def, rule_format, OF assms(4) b(3) refl f] .
  with b k show ?thesis by simp
qed

lemma padded_starts: "padded_text t v \<Longrightarrow> \<exists>c r. lead (t @ s) = c # r \<and> starts c"
  by (erule padded_text.cases) (auto simp: lead_padded elim: value_starts)

lemma elements_start: "elements_text t vs \<Longrightarrow> \<exists>c r. lead (t @ s) = c # r \<and> starts c"
  by (erule elements_text.cases; simp; metis padded_starts)

lemma member_starts: "member_text t p \<Longrightarrow> \<exists>c r. lead (t @ s) = c # r \<and> starts c"
  by (erule member_text.cases) (auto simp: lead_string string_text_def starts_def)

lemma members_start: "members_text t m \<Longrightarrow> \<exists>c r. lead (t @ s) = c # r \<and> starts c"
  by (erule members_text.cases; simp; metis member_starts)

lemma reads_array_value:
  assumes "elements_text t vs" "reads_elements t vs"
  shows "reads_value (CHR ''['' # t @ '']'') (ARRAY vs)"
  unfolding reads_value_def
proof (intro allI impI)
  fix st u s n
  assume a: "readable (ARRAY vs)" "ahead st u" "lead u = (CHR ''['' # t @ '']'') @ s" "3 * left st + 3 \<le> n"
  then have l: "lead u = CHR ''['' # t @ CHR '']'' # s" by simp
  have here: "rest (to_rest st (CHR ''['' # t @ CHR '']'' # s)) (CHR ''['' # t @ CHR '']'' # s)"
    by (rule skip_ws_ahead(2) [OF a(2) l])
  let ?st = "to_rest st (CHR ''['' # t @ CHR '']'' # s)"
  have l': "lead (CHR ''['' # t @ CHR '']'' # s) = CHR ''['' # t @ CHR '']'' # s" by (simp add: isspace_def)
  have "3 * left ?st + 2 \<le> n - 1" using a(4) ahead_left [OF a(2)] rest_left [OF here] l by simp
  moreover obtain c r where "lead (t @ CHR '']'' # s) = c # r" "starts c" using elements_start [OF assms(1)] by blast
  moreover have "list_all readable vs" using a(1) by (simp add: list_all_iff)
  ultimately have "parse_array (n - 1) ?st = Some (True, map reread vs, to_rest ?st s) \<and> rest (to_rest ?st s) s"
    using parse_array_full [OF rest_ahead [OF here] l' assms(2)] by blast
  with opens_array [OF a(2) l a(4)] show
    "parse_value n st = Some (Some (reread (ARRAY vs)), to_rest st s) \<and> rest (to_rest st s) s" by simp
qed

lemma reads_object_value:
  assumes "members_text t m" "reads_members t m"
  shows "reads_value (CHR ''{'' # t @ ''}'') (OBJECT m)"
  unfolding reads_value_def
proof (intro allI impI)
  fix st u s n
  assume a: "readable (OBJECT m)" "ahead st u" "lead u = (CHR ''{'' # t @ ''}'') @ s" "3 * left st + 3 \<le> n"
  then have l: "lead u = CHR ''{'' # t @ CHR ''}'' # s" by simp
  have here: "rest (to_rest st (CHR ''{'' # t @ CHR ''}'' # s)) (CHR ''{'' # t @ CHR ''}'' # s)"
    by (rule skip_ws_ahead(2) [OF a(2) l])
  let ?st = "to_rest st (CHR ''{'' # t @ CHR ''}'' # s)"
  have l': "lead (CHR ''{'' # t @ CHR ''}'' # s) = CHR ''{'' # t @ CHR ''}'' # s" by (simp add: isspace_def)
  have "3 * left ?st + 2 \<le> n - 1" using a(4) ahead_left [OF a(2)] rest_left [OF here] l by simp
  moreover obtain c r where "lead (t @ CHR ''}'' # s) = c # r" "starts c" using members_start [OF assms(1)] by blast
  moreover have "list_all (\<lambda>(k, v). readable v) m" using a(1) by (simp add: list_all_iff)
  ultimately have "parse_object (n - 1) ?st =
      Some (True, put_members [] (map (\<lambda>(k, v). (k, reread v)) m), to_rest ?st s) \<and> rest (to_rest ?st s) s"
    using parse_object_full [OF rest_ahead [OF here] l' assms(2)] by blast
  with opens_object [OF a(2) l a(4)] show
    "parse_value n st = Some (Some (reread (OBJECT m)), to_rest st s) \<and> rest (to_rest st s) s" by simp
qed

lemma reads_empty:
  assumes "json_ws w"
  shows "reads_value (CHR ''['' # w @ '']'') (ARRAY [])" "reads_value (CHR ''{'' # w @ ''}'') (OBJECT [])"
  unfolding reads_value_def
proof (intro allI impI)
  fix st u s n
  assume a: "ahead st u" "lead u = (CHR ''['' # w @ '']'') @ s" "3 * left st + 3 \<le> n"
  then have l: "lead u = CHR ''['' # w @ CHR '']'' # s" by simp
  note here = skip_ws_ahead(2) [OF a(1) l]
  have l': "lead (CHR ''['' # w @ CHR '']'' # s) = CHR ''['' # w @ CHR '']'' # s" by (simp add: isspace_def)
  have "0 < n - 1" using a(3) by simp
  note e = parse_array_empty [OF rest_ahead [OF here] l' assms this]
  from opens_array [OF a(1) l a(3) e(1)] e(2) show
    "parse_value n st = Some (Some (reread (ARRAY [])), to_rest st s) \<and> rest (to_rest st s) s" by simp
next
  show "\<forall>st u s n. readable (OBJECT []) \<longrightarrow> ahead st u \<longrightarrow> lead u = (CHR ''{'' # w @ ''}'') @ s \<longrightarrow> ends_number s \<longrightarrow>
    s \<noteq> [] \<longrightarrow> 3 * left st + 3 \<le> n \<longrightarrow>
    parse_value n st = Some (Some (reread (OBJECT [])), to_rest st s) \<and> rest (to_rest st s) s"
  proof (intro allI impI)
    fix st u s n
    assume a: "ahead st u" "lead u = (CHR ''{'' # w @ ''}'') @ s" "3 * left st + 3 \<le> n"
    then have l: "lead u = CHR ''{'' # w @ CHR ''}'' # s" by simp
    note here = skip_ws_ahead(2) [OF a(1) l]
    have l': "lead (CHR ''{'' # w @ CHR ''}'' # s) = CHR ''{'' # w @ CHR ''}'' # s" by (simp add: isspace_def)
    have "0 < n - 1" using a(3) by simp
    note e = parse_object_empty [OF rest_ahead [OF here] l' assms this]
    from opens_object [OF a(1) l a(3) e(1)] e(2) show
      "parse_value n st = Some (Some (reread (OBJECT [])), to_rest st s) \<and> rest (to_rest st s) s" by simp
  qed
qed

lemma reads_padding:
  assumes "json_ws w" "value_text t v" "json_ws w'" "reads_value t v"
  shows "reads_padded (w @ t @ w') v"
  unfolding reads_padded_def
proof (intro allI impI)
  fix st u s n
  assume a: "readable v" "ahead st u" "lead u = lead ((w @ t @ w') @ s)" "delimits s" "3 * left st + 3 \<le> n"
  then have l: "lead u = t @ w' @ s" using lead_padded [OF assms(1,2)] by simp
  from assms(4) [unfolded reads_value_def, rule_format, OF a(1,2) l _ _ a(5)] delimits_ws [OF a(4) assms(3)]
  have p: "parse_value n st = Some (Some (reread v), to_rest st (w' @ s))" "rest (to_rest st (w' @ s)) (w' @ s)"
    by simp_all
  have "t \<noteq> []" using assms(2) by (rule value_nonempty)
  then have "left (to_rest st (w' @ s)) < left st" using rest_left [OF p(2)] ahead_left [OF a(2)] l by (cases t) simp_all
  with p rest_ahead [OF p(2)] delimits_lead [OF a(4) assms(3)] show
    "\<exists>st' u'. parse_value n st = Some (Some (reread v), st') \<and> to_rest st' = to_rest st \<and>
       ahead st' u' \<and> lead u' = s \<and> left st' < left st"
    by (intro exI [of _ "to_rest st (w' @ s)"] exI [of _ "w' @ s"]) (simp add: fun_eq_iff)
qed

lemma reads_last_element:
  assumes "reads_padded t v"
  shows "reads_elements t [v]"
  unfolding reads_elements_def
proof (intro allI impI)
  fix st u s n and acc :: "json list"
  assume a: "list_all readable [v]" "ahead st u" "lead u = lead (t @ CHR '']'' # s)" "3 * left st + 4 \<le> n"
  then obtain k where k: "n = Suc k" "3 * left st + 3 \<le> k" by (cases n) simp_all
  obtain st' u' where p: "parse_value k st = Some (Some (reread v), st')" "to_rest st' = to_rest st" "ahead st' u'"
    "lead u' = CHR '']'' # s"
    using assms [unfolded reads_padded_def, rule_format, OF _ a(2,3) _ k(2)] a(1) by (auto simp: delimits_def)
  note c = match_absent(1) [OF p(3,4), of "CHR '',''" "[]", simplified] match_absent(2) [OF p(3,4), of "CHR '',''", simplified]
  have "lead u' = (CHR '']'' # []) @ s" using p(4) by simp
  from match_found [OF c(2) this] p c(1) k(1) show
    "array_loop n acc st = Some (True, acc @ map reread [v], to_rest st s) \<and> rest (to_rest st s) s" by simp
qed

lemma reads_more_elements:
  assumes "reads_padded t v" "reads_elements t' vs"
  shows "reads_elements (t @ CHR '','' # t') (v # vs)"
  unfolding reads_elements_def
proof (intro allI impI)
  fix st u s n and acc :: "json list"
  assume a: "list_all readable (v # vs)" "ahead st u" "lead u = lead ((t @ CHR '','' # t') @ CHR '']'' # s)" "3 * left st + 4 \<le> n"
  then obtain k where k: "n = Suc k" "3 * left st + 3 \<le> k" by (cases n) simp_all
  have l: "lead u = lead (t @ CHR '','' # t' @ CHR '']'' # s)" using a(3) by simp
  obtain st' u' where p: "parse_value k st = Some (Some (reread v), st')" "to_rest st' = to_rest st" "ahead st' u'"
    "lead u' = CHR '','' # t' @ CHR '']'' # s" "left st' < left st"
    using assms(1) [unfolded reads_padded_def, rule_format, OF _ a(2) l _ k(2)] a(1) by (auto simp: delimits_def)
  have "lead u' = (CHR '','' # []) @ t' @ CHR '']'' # s" using p(4) by simp
  note c = match_found [OF p(3) this]
  have "left (to_rest st' (t' @ CHR '']'' # s)) < left st"
    using rest_left [OF c(2)] ahead_left [OF p(3)] p(4,5) by simp
  then have f: "3 * left (to_rest st' (t' @ CHR '']'' # s)) + 4 \<le> k" using k(2) by simp
  have "list_all readable vs" using a(1) by simp
  from assms(2) [unfolded reads_elements_def, rule_format, OF this rest_ahead [OF c(2)] refl f, of "acc @ [reread v]"]
    p c(1) k(1) show
    "array_loop n acc st = Some (True, acc @ map reread (v # vs), to_rest st s) \<and> rest (to_rest st s) s" by simp
qed

lemma reads_one_member:
  assumes "json_ws w" "string_text t k" "json_ws w'" "reads_padded t' v"
  shows "reads_member (w @ t @ w' @ CHR '':'' # t') (k, v)"
  unfolding reads_member_def
proof (intro allI impI)
  fix st u s n
  assume a: "readable (snd (k, v))" "ahead st u" "lead u = lead ((w @ t @ w' @ CHR '':'' # t') @ s)" "delimits s"
    "3 * left st + 3 \<le> n"
  then have l: "lead u = t @ w' @ CHR '':'' # t' @ s" using lead_string [OF assms(1,2)] by simp
  note 1 = parse_string_found [OF a(2) l assms(2)]
  have "lead (w' @ CHR '':'' # t' @ s) = (CHR '':'' # []) @ t' @ s"
    using assms(3) by (simp add: lead_ws json_ws_space isspace_def)
  note 2 = match_found [OF rest_ahead [OF 1(2)] this, simplified]
  have left: "left (to_rest st (t' @ s)) < left st"
    using rest_left [OF 2(2)] ahead_left [OF a(2)] l by simp
  then have f: "3 * left (to_rest st (t' @ s)) + 3 \<le> n" using a(5) by simp
  obtain st' u' where p: "parse_value n (to_rest st (t' @ s)) = Some (Some (reread v), st')"
    "to_rest st' = to_rest (to_rest st (t' @ s))" "ahead st' u'" "lead u' = s" "left st' < left (to_rest st (t' @ s))"
    using assms(4) [unfolded reads_padded_def, rule_format, OF _ rest_ahead [OF 2(2)] refl a(4) f] a(1) by auto
  have "to_rest st' = to_rest st" using p(2) by (simp add: fun_eq_iff)
  with 1(1) [of "[]"] 2(1) p left show
    "\<exists>st1 st2 st' u'. parse_string [] st = (True, fst (k, v), st1) \<and> match '':'' st1 = (True, st2) \<and>
       parse_value n st2 = Some (Some (reread (snd (k, v))), st') \<and> to_rest st' = to_rest st \<and>
       ahead st' u' \<and> lead u' = s \<and> left st' < left st" by auto
qed

lemma reads_last_member:
  assumes "reads_member t p"
  shows "reads_members t [p]"
  unfolding reads_members_def
proof (intro allI impI)
  fix st u s n and acc :: "json string_map"
  assume a: "list_all (\<lambda>(k, v). readable v) [p]" "ahead st u" "lead u = lead (t @ CHR ''}'' # s)" "3 * left st + 4 \<le> n"
  then obtain k where k: "n = Suc k" "3 * left st + 3 \<le> k" by (cases n) simp_all
  obtain st1 st2 st' u' where m: "parse_string [] st = (True, fst p, st1)" "match '':'' st1 = (True, st2)"
    "parse_value k st2 = Some (Some (reread (snd p)), st')" "to_rest st' = to_rest st" "ahead st' u'"
    "lead u' = CHR ''}'' # s"
    using assms [unfolded reads_member_def, rule_format, OF _ a(2,3) _ k(2)] a(1)
    by (auto simp: delimits_def split: prod.splits)
  note c = match_absent(1) [OF m(5,6), of "CHR '',''" "[]", simplified] match_absent(2) [OF m(5,6), of "CHR '',''", simplified]
  have "lead u' = (CHR ''}'' # []) @ s" using m(6) by simp
  from match_found [OF c(2) this] m c(1) k(1) show
    "object_loop n acc st = Some (True, put_members acc (map (\<lambda>(k, v). (k, reread v)) [p]), to_rest st s) \<and>
     rest (to_rest st s) s" by (cases p) simp
qed

lemma reads_more_members:
  assumes "reads_member t p" "reads_members t' m"
  shows "reads_members (t @ CHR '','' # t') (p # m)"
  unfolding reads_members_def
proof (intro allI impI)
  fix st u s n and acc :: "json string_map"
  assume a: "list_all (\<lambda>(k, v). readable v) (p # m)" "ahead st u" "lead u = lead ((t @ CHR '','' # t') @ CHR ''}'' # s)"
    "3 * left st + 4 \<le> n"
  then obtain k where k: "n = Suc k" "3 * left st + 3 \<le> k" by (cases n) simp_all
  have l: "lead u = lead (t @ CHR '','' # t' @ CHR ''}'' # s)" using a(3) by simp
  obtain st1 st2 st' u' where q: "parse_string [] st = (True, fst p, st1)" "match '':'' st1 = (True, st2)"
    "parse_value k st2 = Some (Some (reread (snd p)), st')" "to_rest st' = to_rest st" "ahead st' u'"
    "lead u' = CHR '','' # t' @ CHR ''}'' # s" "left st' < left st"
    using assms(1) [unfolded reads_member_def, rule_format, OF _ a(2) l _ k(2)] a(1)
    by (auto simp: delimits_def split: prod.splits)
  have "lead u' = (CHR '','' # []) @ t' @ CHR ''}'' # s" using q(6) by simp
  note c = match_found [OF q(5) this]
  have "left (to_rest st' (t' @ CHR ''}'' # s)) < left st"
    using rest_left [OF c(2)] ahead_left [OF q(5)] q(6,7) by simp
  then have f: "3 * left (to_rest st' (t' @ CHR ''}'' # s)) + 4 \<le> k" using k(2) by simp
  have "list_all (\<lambda>(k, v). readable v) m" using a(1) by simp
  from assms(2) [unfolded reads_members_def, rule_format, OF this rest_ahead [OF c(2)] refl f,
      of "map_put (fst p) (reread (snd p)) acc"] q c(1) k(1) show
    "object_loop n acc st = Some (True, put_members acc (map (\<lambda>(k, v). (k, reread v)) (p # m)), to_rest st s) \<and>
     rest (to_rest st s) s" by (cases p) simp
qed

lemma grammar_reads:
  "value_text t v \<Longrightarrow> reads_value t v"
  "padded_text t v \<Longrightarrow> reads_padded t v"
  "elements_text t vs \<Longrightarrow> reads_elements t vs"
  "member_text t p \<Longrightarrow> reads_member t p"
  "members_text t m \<Longrightarrow> reads_members t m"
proof (induction t v and t v and t vs and t p and t m
    rule: value_text_padded_text_elements_text_member_text_members_text.inducts)
qed (simp_all add: reads_scalar value_text_padded_text_elements_text_member_text_members_text.intros scalar_def
  is_array_def is_object_def reads_empty reads_array_value reads_object_value reads_padding reads_last_element
  reads_more_elements reads_one_member reads_last_member reads_more_members)

end
