(* ===== verification/JsonRoundtrips.thy ===== *)
theory JsonRoundtrips
  imports JsonReads
begin

text \<open>
  The parser against the grammar and against the writers: \<^verbatim>\<open>Object::parse\<close> and \<^verbatim>\<open>Array::parse\<close> read
  every text of the grammar, what \<^verbatim>\<open>json()\<close> wrote is read back, and \<^verbatim>\<open>reformat\<close> leaves it as it is.
\<close>

section \<open>Texts of the grammar\<close>

lemma start_here: "rest (new_stream s) s" "to_rest (new_stream s) s = new_stream s"
  by (simp_all add: to_rest_here)

lemma left_new [simp]: "left (new_stream s) = length s"
  using rest_left [OF rest_new] .

lemma object_at:
  assumes "value_text t (OBJECT m)" "readable (OBJECT m)" "ahead st u" "lead u = t @ s" "3 * left st + 2 \<le> n"
  shows "parse_object n st = Some (True, put_members [] (map (\<lambda>(k, v). (k, reread v)) m), to_rest st s)"
  using assms(1)
proof cases
  case (empty_object w)
  then show ?thesis using parse_object_empty(1) [OF assms(3), of w s n] assms(4,5) by simp
next
  case (full_object t')
  then have l: "lead u = CHR ''{'' # t' @ CHR ''}'' # s" using assms(4) by simp
  obtain c r where c: "lead (t' @ CHR ''}'' # s) = c # r" "starts c" using members_start [OF full_object(2)] by blast
  have "list_all (\<lambda>(k, v). readable v) m" using assms(2) by (simp add: list_all_iff)
  from parse_object_full [OF assms(3) l grammar_reads(5) [OF full_object(2)] this c assms(5)] show ?thesis by simp
qed

lemma array_at:
  assumes "value_text t (ARRAY vs)" "readable (ARRAY vs)" "ahead st u" "lead u = t @ s" "3 * left st + 2 \<le> n"
  shows "parse_array n st = Some (True, map reread vs, to_rest st s)"
  using assms(1)
proof cases
  case (empty_array w)
  then show ?thesis using parse_array_empty(1) [OF assms(3), of w s n] assms(4,5) by simp
next
  case (full_array t')
  then have l: "lead u = CHR ''['' # t' @ CHR '']'' # s" using assms(4) by simp
  obtain c r where c: "lead (t' @ CHR '']'' # s) = c # r" "starts c" using elements_start [OF full_array(2)] by blast
  have "list_all readable vs" using assms(2) by (simp add: list_all_iff)
  from parse_array_full [OF assms(3) l grammar_reads(3) [OF full_array(2)] this c assms(5)] show ?thesis by simp
qed

lemma padded_at:
  assumes "padded_text t v"
  obtains t' w where "value_text t' v" "\<And>s. lead (t @ s) = t' @ w @ s"
  using assms by cases (use lead_padded in auto)

definition read_members :: "(string \<times> json) list \<Rightarrow> json string_map" where
  "read_members m = put_members [] (map (\<lambda>(k, v). (k, reread v)) m)"

lemma object_text_parsed:
  assumes "padded_text t (OBJECT m)" "readable (OBJECT m)"
  shows "parse_object_text (t @ s) = Some (True, read_members m)"
proof -
  obtain t' w where t: "value_text t' (OBJECT m)" "lead (t @ s) = t' @ w @ s" by (rule padded_at [OF assms(1)]) blast
  from object_at [OF t(1) assms(2) rest_ahead [OF rest_new] t(2), of "enough (new_stream (t @ s))"]
  show ?thesis by (simp add: parse_object_text_def read_members_def enough_def)
qed

lemma array_text_parsed:
  assumes "padded_text t (ARRAY vs)" "readable (ARRAY vs)"
  shows "parse_array_text (t @ s) = Some (True, map reread vs)"
proof -
  obtain t' w where t: "value_text t' (ARRAY vs)" "lead (t @ s) = t' @ w @ s" by (rule padded_at [OF assms(1)]) blast
  from array_at [OF t(1) assms(2) rest_ahead [OF rest_new] t(2), of "enough (new_stream (t @ s))"]
  show ?thesis by (simp add: parse_array_text_def enough_def)
qed

section \<open>Numbers\<close>

lemma ldround_minus: "ldround (- x) = - ldround x"
  by (simp add: ldround_def)

lemma ldround_of_int: "\<bar>n\<bar> < 2 ^ 64 \<Longrightarrow> ldround (of_int n) = of_int n"
proof -
  have pos: "ldround_pos (of_int m) = of_int m" if "0 < m" "m < 2 ^ 64" for m
  proof -
    have "(1::rat) \<le> of_int m" using that(1) by simp
    moreover have "1 / 2 ^ 16382 \<le> (1::rat)" by simp
    ultimately have "\<not> (of_int m :: rat) < 1 / 2 ^ 16382" by linarith
    with fround_pos_of_int [OF that] show ?thesis by (simp only: ldround_pos_def if_False)
  qed
  assume "\<bar>n\<bar> < 2 ^ 64"
  then show ?thesis using pos [of n] pos [of "- n"] by (simp add: ldround_def)
qed


text \<open>
  A \<^verbatim>\<open>double\<close> between \<open>2 ^ -1000\<close> and \<open>2 ^ 1024\<close> that was written with 19 digits is read as a \<^verbatim>\<open>long double\<close>
  so near to it that it is the nearest \<^verbatim>\<open>double\<close>.
\<close>

lemma reads_double_pos:
  assumes "dround_pos x = x" "1 / 2 ^ 1000 \<le> x" "x \<le> 2 ^ 1024"
  shows "0 < rounded_pos json_digits x \<and> ldround_pos (rounded_pos json_digits x) \<le> 2 ^ 1025 \<and>
    0 < ldround_pos (rounded_pos json_digits x) \<and> dround_pos (ldround_pos (rounded_pos json_digits x)) = x"
proof -
  have "(0::rat) < 1 / 2 ^ 1000" by simp
  then have x: "0 < x" using assms(2) by linarith
  define y where "y = rounded_pos json_digits x"
  define z where "z = fround_pos 64 y"
  have "\<bar>y - x\<bar> \<le> x / (2 * 10 ^ 18)"
    using rounded_pos_error [OF x, of json_digits] by (simp add: y_def json_digits_def)
  then have y: "\<bar>y - x\<bar> \<le> x / 2 ^ 57" using x by (auto intro: order_trans divide_left_mono)
  moreover have "x / 2 ^ 57 \<le> x / 2" using x by simp
  ultimately have "\<bar>y - x\<bar> \<le> x / 2" by (rule order_trans)
  then have y2: "x / 2 \<le> y" "y \<le> 2 * x" using x by linarith+
  with x have y0: "0 < y" by linarith
  have "\<bar>z - y\<bar> \<le> y / 2 ^ 64" using fround_pos_error [OF y0, of 63] by (simp add: z_def)
  also have "\<dots> \<le> x / 2 ^ 63" using y2(2) by simp
  finally have z: "\<bar>z - y\<bar> \<le> x / 2 ^ 63" .
  have "\<bar>z - x\<bar> \<le> x / 2 ^ 57 + x / 2 ^ 63" using y z by linarith
  also have "\<dots> < x / 2 ^ 55" using x by simp
  finally have near: "\<bar>z - x\<bar> < x / 2 ^ 55" .
  have "(1::rat) / 2 ^ 16382 \<le> 1 / 2 ^ 1001" by (intro divide_left_mono power_increasing) simp_all
  also have "\<dots> \<le> x / 2" using assms(2) by simp
  finally have "\<not> y < 1 / 2 ^ 16382" using y2(1) by linarith
  then have l: "ldround_pos y = z" unfolding ldround_pos_def z_def by (simp only: if_False)
  have "x / 2 ^ 55 \<le> x / 2" using x by simp
  with near have "\<bar>z - x\<bar> < x / 2" by linarith
  then have "z \<le> 2 * x" "0 < z" using x by linarith+
  moreover have "2 * x \<le> 2 ^ 1025" using assms(3) by simp
  ultimately show ?thesis
    using l y0 dround_near [OF x assms(1) near] unfolding y_def [symmetric] by simp
qed

definition double_range :: "rat \<Rightarrow> bool" where
  "double_range x \<longleftrightarrow> x = 0 \<or> dround x = x \<and> 1 / 2 ^ 1000 \<le> \<bar>x\<bar> \<and> \<bar>x\<bar> \<le> 2 ^ 1024"

lemma long_double_max_large: "2 ^ 1025 \<le> long_double_max"
proof -
  have "(2::rat) ^ 1025 \<le> 2 ^ 16320" by (rule power_increasing) simp_all
  also have "\<dots> \<le> 2 ^ 16384 - 2 ^ 16320"
    using power_increasing [of 16321 16384 "2::rat"] by (simp only: power_Suc [of 2 16320, simplified]) linarith
  finally show ?thesis unfolding long_double_max_def .
qed

lemma reads_double:
  assumes "double_range x"
  shows "in_range (rounded json_digits x)" "dround (ldround (rounded json_digits x)) = x"
proof -
  have "in_range (rounded json_digits x) \<and> dround (ldround (rounded json_digits x)) = x"
  proof (cases x "0 :: rat" rule: linorder_cases)
    case less
    then have "dround_pos (- x) = - x" "1 / 2 ^ 1000 \<le> - x" "- x \<le> 2 ^ 1024"
      using assms by (simp_all only: double_range_def dround_def) (auto simp: abs_if)
    from reads_double_pos [OF this] less long_double_max_large show ?thesis
      by (simp add: rounded_def in_range_def ldround_def dround_def)
  next
    case equal
    have "0 \<le> long_double_max" using long_double_max_large by (rule order_trans [rotated]) simp
    with equal show ?thesis by (simp add: rounded_def in_range_def ldround_def dround_def)
  next
    case greater
    then have "dround_pos x = x" "1 / 2 ^ 1000 \<le> x" "x \<le> 2 ^ 1024"
      using assms by (simp_all only: double_range_def dround_def) auto
    from reads_double_pos [OF this] greater long_double_max_large show ?thesis
      by (simp add: rounded_def in_range_def ldround_def dround_def)
  qed
  then show "in_range (rounded json_digits x)" "dround (ldround (rounded json_digits x)) = x" by blast+
qed

lemma rounded_of_int:
  assumes "\<bar>n\<bar> < 10 ^ p"
  shows "rounded p (of_int n) = of_int n"
proof -
  have pos: "rounded_pos p (of_nat m) = of_nat m" if "0 < m" "m < 10 ^ p" for m
  proof -
    let ?l = "length (dec_nat m)"
    have l: "0 < ?l" "?l \<le> p" using that length_dec_nat [of m p] by (cases p; simp)+
    then have e: "int ?l - 1 - (int p - 1) = - int (p - ?l)" by simp
    show ?thesis
      unfolding rounded_pos_def sig_digits_int [OF that] prod.case e by (simp add: power_int_minus)
  qed
  have "nat \<bar>n\<bar> < 10 ^ p" using assms by (simp only: nat_less_iff abs_ge_zero) simp
  with pos [of "nat \<bar>n\<bar>"] have "n \<noteq> 0 \<Longrightarrow> rounded_pos p (of_int \<bar>n\<bar>) = of_int \<bar>n\<bar>"
    by (simp only: of_nat_abs)
  then show ?thesis by (cases n "0 :: int" rule: linorder_cases) (simp_all add: rounded_def)
qed

section \<open>What was written is read back\<close>

text \<open>
  The values of a program: numbers that are doubles or integers of 63 bits, objects without an empty
  key, nothing without a type.
\<close>

fun well_kept :: "(rat \<Rightarrow> bool) \<Rightarrow> json \<Rightarrow> bool" where
  "well_kept num (NUMBER x) \<longleftrightarrow> num x"
| "well_kept num (ARRAY vs) \<longleftrightarrow> (\<forall>v\<in>set vs. well_kept num v)"
| "well_kept num (OBJECT m) \<longleftrightarrow> ordered m \<and> (\<forall>(k, v)\<in>set m. k \<noteq> [] \<and> well_kept num v)"
| "well_kept num INVALID \<longleftrightarrow> False"
| "well_kept num v \<longleftrightarrow> True"

text \<open>The numbers of a value as a \<^verbatim>\<open>double\<close> gets them.\<close>

fun narrowed :: "json \<Rightarrow> json" where
  "narrowed (NUMBER x) = NUMBER (dround x)"
| "narrowed (ARRAY vs) = ARRAY (map narrowed vs)"
| "narrowed (OBJECT m) = OBJECT (map (\<lambda>(k, v). (k, narrowed v)) m)"
| "narrowed v = v"

definition small_integer :: "rat \<Rightarrow> bool" where
  "small_integer x \<longleftrightarrow> x = of_int \<lfloor>x\<rfloor> \<and> \<bar>\<lfloor>x\<rfloor>\<bar> < 2 ^ 63"

lemma put_members_ordered:
  "ordered m \<Longrightarrow> put_members [] (map (\<lambda>(k, v). (k, f v)) m) = map (\<lambda>(k, v). (k, f v)) m"
  using put_all_ordered [of "[]" "map (\<lambda>(k, v). (k, f v)) m"]
  by (simp add: ordered_def comp_def case_prod_unfold)

lemma well_kept_named: "well_kept num v \<Longrightarrow> named v"
  by (induction v rule: named.induct) auto

lemma reread_printed:
  assumes "\<And>x. num x \<Longrightarrow> in_range (rounded json_digits x) \<and> f (NUMBER (ldround (rounded json_digits x))) = NUMBER x"
    and f: "\<And>vs. f (ARRAY vs) = ARRAY (map f vs)" "\<And>m. f (OBJECT m) = OBJECT (map (\<lambda>(k, v). (k, f v)) m)"
      "\<And>s. f (STRING s) = STRING s" "\<And>b. f (BOOL b) = BOOL b" "f NULL = NULL"
  shows "well_kept num v \<Longrightarrow> readable (printed json_digits v) \<and> f (reread (printed json_digits v)) = v"
proof (induction v)
  case (ARRAY vs)
  then show ?case by (simp add: f comp_def map_idI)
next
  case (OBJECT m)
  have "ordered m" "\<forall>(k, v)\<in>set m. readable (printed json_digits v) \<and> f (reread (printed json_digits v)) = v"
    using OBJECT by fastforce+
  moreover have "map (\<lambda>(k, v). (k, f (reread (printed json_digits v)))) m = m"
    using calculation(2) by (intro map_idI) auto
  ultimately show ?case
    using put_members_ordered [of m "\<lambda>v. reread (printed json_digits v)"]
    by (auto simp: f comp_def case_prod_unfold)
qed (use assms in simp_all)

lemma json_read_back:
  assumes "well_kept double_range (OBJECT m)"
  shows "\<exists>m'. parse_object_text (object_json m) = Some (True, m') \<and> narrowed (OBJECT m') = OBJECT m"
proof -
  have r: "readable (printed json_digits (OBJECT m))" "narrowed (reread (printed json_digits (OBJECT m))) = OBJECT m"
    using reread_printed [of double_range narrowed "OBJECT m"] assms reads_double by (auto simp del: printed.simps)
  from object_json_text [OF well_kept_named [OF assms]] r object_text_parsed [of "object_json m" _ "[]"]
  show ?thesis by (simp add: read_members_def)
qed

lemma small_integer_kept:
  assumes "small_integer x"
  shows "in_range (rounded json_digits x) \<and> ldround (rounded json_digits x) = x"
proof -
  obtain n where n: "x = of_int n" "\<bar>n\<bar> < 2 ^ 63" using assms by (auto simp: small_integer_def)
  have "\<bar>n\<bar> < 10 ^ json_digits" "\<bar>n\<bar> < 2 ^ 64" using n(2) by (simp_all add: json_digits_def)
  then have "rounded json_digits x = x" "ldround x = x" using n(1) by (simp_all add: rounded_of_int ldround_of_int)
  moreover have "\<bar>x\<bar> < of_int (2 ^ 63)" unfolding n(1) of_int_abs [symmetric] of_int_less_iff using n(2) .
  then have "\<bar>x\<bar> \<le> long_double_max"
    using long_double_max_large by (elim less_imp_le [THEN order_trans]) (rule order_trans [rotated], assumption, simp)
  ultimately show ?thesis by (simp add: in_range_def)
qed

lemma integral_json_text:
  assumes "well_kept small_integer v"
  shows "readable (printed json_digits v)" "reread (printed json_digits v) = v"
  using reread_printed [of small_integer "\<lambda>v. v" v] assms small_integer_kept by auto

section \<open>\<^verbatim>\<open>validate\<close> and \<^verbatim>\<open>reformat\<close>\<close>

lemma starts_printable: "starts c \<Longrightarrow> 32 < (of_char c :: nat)"
  by (auto simp: starts_def isdigit_def)

lemma blank_ws: "json_ws w \<Longrightarrow> \<forall>c\<in>set w. (of_char c :: nat) \<le> 32"
  by (induction w) auto

lemma trim_padded:
  assumes "padded_text t v"
  obtains t' w' where "value_text t' v" "trim (new_stream t) = to_rest (new_stream t) (t' @ w')"
    "rest (to_rest (new_stream t) (t' @ w')) (t' @ w')"
  using assms
proof cases
  case (padded w t' w')
  obtain c u where c: "t' = c # u" "starts c" using value_starts [OF padded(3)] by blast
  have "takeWhile (\<lambda>c. (of_char c :: nat) \<le> 32) t = w"
    using padded(1) c starts_printable [OF c(2)] blank_ws [OF padded(2)] by (simp add: takeWhile_append)
  moreover have "length w < length t" using padded(1) c by simp
  ultimately have "trim (new_stream t) = advance (length w) (new_stream t)"
    by (simp add: trim_def new_stream_def advance_def)
  moreover have r: "rest (new_stream t) (w @ t' @ w')" using padded(1) rest_new by simp
  ultimately have "trim (new_stream t) = to_rest (new_stream t) (t' @ w')" by (simp add: to_rest_advance)
  from that [OF padded(3) this rest_to_rest [OF r]] show thesis .
qed

lemma value_first_container:
  "value_text t v \<Longrightarrow> (hd t = CHR ''{'' \<longleftrightarrow> is_object v) \<and> (hd t = CHR ''['' \<longleftrightarrow> is_array v)"
  by (cases rule: value_text.cases, assumption)
    (auto simp: is_object_def is_array_def string_text_def isdigit_def dest!: number_first)

text \<open>
  The common shape of \<^verbatim>\<open>validate\<close> and \<^verbatim>\<open>reformat\<close> on a text of the grammar: both look at the first
  character and then parse a container.
\<close>

lemma parsed_container:
  assumes "padded_text t v" "readable v"
  obtains c st where "peek_char (trim (new_stream t)) = (Some c, st)" "peek_char st = (Some c, st)"
    "c = CHR ''{'' \<longleftrightarrow> is_object v" "c = CHR ''['' \<longleftrightarrow> is_array v"
    "\<forall>m. v = OBJECT m \<longrightarrow> (\<exists>st'. parse_object (enough st) st = Some (True, read_members m, st'))"
    "\<forall>vs. v = ARRAY vs \<longrightarrow> (\<exists>st'. parse_array (enough st) st = Some (True, map reread vs, st'))"
proof -
  obtain t' w' where t: "value_text t' v" "trim (new_stream t) = to_rest (new_stream t) (t' @ w')"
    "rest (to_rest (new_stream t) (t' @ w')) (t' @ w')"
    by (rule trim_padded [OF assms(1)])
  obtain c u where c: "t' = c # u" "starts c" using value_starts [OF t(1)] by blast
  let ?st = "to_rest (new_stream t) (t' @ w')"
  have p: "peek_char ?st = (Some c, ?st)" using t(3) c(1) by (simp add: peek_rest)
  have l: "lead (t' @ w') = t' @ w'" using c starts_facts [OF c(2)] by simp
  show thesis
  proof (rule that [OF _ p])
    show "peek_char (trim (new_stream t)) = (Some c, ?st)" using p t(2) by simp
    show "c = CHR ''{'' \<longleftrightarrow> is_object v" "c = CHR ''['' \<longleftrightarrow> is_array v"
      using value_first_container [OF t(1)] c(1) by simp_all
    have "\<exists>st'. parse_object (enough ?st) ?st = Some (True, read_members m, st')" if "v = OBJECT m" for m
      using object_at [OF t(1) [unfolded that] assms(2) [unfolded that] rest_ahead [OF t(3)] l]
      by (simp add: enough_def read_members_def)
    then show "\<forall>m. v = OBJECT m \<longrightarrow> (\<exists>st'. parse_object (enough ?st) ?st = Some (True, read_members m, st'))"
      by blast
    have "\<exists>st'. parse_array (enough ?st) ?st = Some (True, map reread vs, st')" if "v = ARRAY vs" for vs
      using array_at [OF t(1) [unfolded that] assms(2) [unfolded that] rest_ahead [OF t(3)] l]
      by (simp add: enough_def)
    then show "\<forall>vs. v = ARRAY vs \<longrightarrow> (\<exists>st'. parse_array (enough ?st) ?st = Some (True, map reread vs, st'))"
      by blast
  qed
qed

lemma validate_grammar:
  assumes "padded_text t v" "readable v"
  shows "validate t = Some (is_object v \<or> is_array v)"
proof -
  obtain c st where c: "peek_char (trim (new_stream t)) = (Some c, st)" "peek_char st = (Some c, st)"
    "c = CHR ''{'' \<longleftrightarrow> is_object v" "c = CHR ''['' \<longleftrightarrow> is_array v"
    "\<forall>m. v = OBJECT m \<longrightarrow> (\<exists>st'. parse_object (enough st) st = Some (True, read_members m, st'))"
    "\<forall>vs. v = ARRAY vs \<longrightarrow> (\<exists>st'. parse_array (enough st) st = Some (True, map reread vs, st'))"
    by (rule parsed_container [OF assms])
  show ?thesis
    by (cases v) (use c in \<open>auto simp: validate_def is_object_def is_array_def\<close>)
qed

lemma reformat_grammar:
  assumes "padded_text t v" "readable v"
  shows "reformat t =
    Some (case v of
            OBJECT m \<Rightarrow> object_json (read_members m)
          | ARRAY vs \<Rightarrow> array_json (map reread vs)
          | _ \<Rightarrow> [])"
proof -
  obtain c st where c: "peek_char (trim (new_stream t)) = (Some c, st)" "peek_char st = (Some c, st)"
    "c = CHR ''{'' \<longleftrightarrow> is_object v" "c = CHR ''['' \<longleftrightarrow> is_array v"
    "\<forall>m. v = OBJECT m \<longrightarrow> (\<exists>st'. parse_object (enough st) st = Some (True, read_members m, st'))"
    "\<forall>vs. v = ARRAY vs \<longrightarrow> (\<exists>st'. parse_array (enough st) st = Some (True, map reread vs, st'))"
    by (rule parsed_container [OF assms])
  show ?thesis
    by (cases v) (use c in \<open>auto simp: reformat_def is_object_def is_array_def\<close>)
qed

text \<open>
  Property C35.  Every text for an object in the grammar \<open>padded_text\<close>, the one of RFC 8259 with two
  restrictions, is parsed to its members, with anything after it: each number is rounded to a
  \<^verbatim>\<open>long double\<close>, and of two members with the same key the last one stays.  The restrictions are that
  the escapes \<^verbatim>\<open>\u\<close> are those of characters below 128 (\<open>chars_text\<close>), as the parser keeps one byte of a
  larger one, and that no number rounds to more than the largest \<^verbatim>\<open>long double\<close> (\<open>readable\<close>), as
  reading such a number fails.
\<close>

theorem parse_object_complete:
  "padded_text t (OBJECT m) \<Longrightarrow> readable (OBJECT m) \<Longrightarrow> parse_object_text (t @ s) = Some (True, read_members m)"
  by (rule object_text_parsed)

theorem parse_object_complete_witness:
  "parse_object_text (object_json [(''mem'', NULL)] @ '']]'') = Some (True, [(''mem'', NULL)])"
  using parse_object_complete [of "object_json [(''mem'', NULL)]" "[(''mem'', NULL)]" "'']]''"]
    object_json_text [of "[(''mem'', NULL)]"]
  by (simp add: read_members_def)

text \<open>
  Property C34.  What \<^verbatim>\<open>json()\<close> wrote for an object is parsed to the same object: keys, order, strings
  and structure as they were, and each number so near that \<^verbatim>\<open>get<Number>\<close> into a \<^verbatim>\<open>double\<close> gives the
  \<^verbatim>\<open>double\<close> that was put in.  This is for an object that holds, at any depth, no empty key (\<^verbatim>\<open>json()\<close>
  writes it without its name, which is not read back) and no value without a type (written as \<^verbatim>\<open>null\<close>),
  and whose numbers are 0 or doubles between \<open>2 ^ -1000\<close> and \<open>2 ^ 1024\<close> in size.
\<close>

theorem json_parse_roundtrip:
  "well_kept double_range (OBJECT m) \<Longrightarrow>
   \<exists>m'. parse_object_text (object_json m) = Some (True, m') \<and> narrowed (OBJECT m') = OBJECT m"
  by (rule json_read_back)

theorem json_parse_roundtrip_witness:
  "\<exists>m'. parse_object_text (object_json [(''cpu'', NUMBER 0), (''user'', STRING ''a'')]) = Some (True, m') \<and>
     narrowed (OBJECT m') = OBJECT [(''cpu'', NUMBER 0), (''user'', STRING ''a'')]"
  by (rule json_parse_roundtrip) (simp add: double_range_def ordered_def)

text \<open>
  Fact.  \<^verbatim>\<open>validate\<close> accepts a text of the grammar exactly when it is an object or an array: a
  single number, string or literal, which RFC 8259 allows as a text, is rejected.
\<close>

theorem validate_containers:
  "padded_text t v \<Longrightarrow> readable v \<Longrightarrow> validate t = Some (is_object v \<or> is_array v)"
  by (rule validate_grammar)

theorem validate_containers_witness: "validate '' null'' = Some False \<and> validate ''[ ]'' = Some True"
proof
  have "padded_text ('' '' @ ''null'' @ []) NULL" by (intro padded null_text) simp_all
  from validate_containers [OF this] show "validate '' null'' = Some False" by (simp add: is_object_def is_array_def)
  have "padded_text ([] @ (CHR ''['' # '' '' @ '']'') @ []) (ARRAY [])" by (intro padded empty_array) simp_all
  from validate_containers [OF this] show "validate ''[ ]'' = Some True" by (simp add: is_array_def)
qed

text \<open>
  Fact.  \<^verbatim>\<open>reformat\<close> leaves what \<^verbatim>\<open>json()\<close> wrote as it is, if the numbers are integers of 63 bits.
\<close>

theorem reformat_written:
  assumes "well_kept small_integer (OBJECT m)"
  shows "reformat (object_json m) = Some (object_json m)"
proof -
  from object_json_text [OF well_kept_named [OF assms]] integral_json_text [OF assms]
    reformat_grammar [of "object_json m" "printed json_digits (OBJECT m)"]
  show ?thesis by (simp add: read_members_def)
qed

theorem reformat_written_witness:
  "reformat (object_json [(''pid'', NUMBER 1)]) = Some (object_json [(''pid'', NUMBER 1)])"
  by (rule reformat_written) (simp add: small_integer_def ordered_def)

end
