(* ===== verification/XmlTexts.thy ===== *)
theory XmlTexts
  imports JsonRoundtrips
begin

text \<open>
  The XML formats of \<^verbatim>\<open>examples/procmon/jsonxx.cc\<close>.  The tables of \<^verbatim>\<open>escape_attrib\<close> and \<^verbatim>\<open>escape_tag\<close> are
  filled once; that of \<^verbatim>\<open>escape_tag\<close> by the first format that is written, which is never \<^verbatim>\<open>JSON\<close>, and
  is the same for all others.  \<open>element_text\<close> is the grammar of XML elements, as far as the writer
  needs it, with the tree of a text; \<open>tree_of\<close> is the tree of a value in each format.
\<close>

section \<open>Writing\<close>

datatype format = JSON | JSONx | JXML | JXMLex | TaggedXML

definition isalnum :: "char \<Rightarrow> bool" where
  "isalnum c \<longleftrightarrow> (let n = (of_char c :: nat) in 97 \<le> n \<and> n \<le> 122 \<or> 65 \<le> n \<and> n \<le> 90 \<or> 48 \<le> n \<and> n \<le> 57)"

definition escape_attrib :: "string \<Rightarrow> string" where
  "escape_attrib input = map (\<lambda>c. if isalnum c then c else CHR ''_'') input"

definition escape_tag :: "string \<Rightarrow> format \<Rightarrow> string" where
  "escape_tag input fmt =
     concat (map (\<lambda>c.
       if c = CHR ''<'' then ''&lt;''
       else if c = CHR ''>'' then ''&gt;''
       else if c = CHR ''&'' \<and> fmt \<noteq> JSON then ''&amp;''
       else [c]) input)"

definition kind_name :: "char \<Rightarrow> string" where
  "kind_name kind =
     (if kind = CHR ''b'' then ''json:boolean''
      else if kind = CHR ''a'' then ''json:array''
      else if kind = CHR ''s'' then ''json:string''
      else if kind = CHR ''o'' then ''json:object''
      else if kind = CHR ''n'' then ''json:number''
      else ''json:null'')"

definition attribute :: "string \<Rightarrow> string \<Rightarrow> string" where
  "attribute nm val = '' '' @ nm @ ''='' @ quote_mark # val @ [quote_mark]"

definition open_tag :: "format \<Rightarrow> char \<Rightarrow> string \<Rightarrow> string \<Rightarrow> string \<Rightarrow> string" where
  "open_tag fmt kind nm attr txt =
     (if fmt = JSON then []
      else
        (let tagname =
           (case fmt of
              JXML \<Rightarrow>
                (if nm = [] then ''j'' @ attribute ''son'' [kind]
                 else ''j'' @ attribute ''son'' (kind # CHR '':'' # escape_string nm False))
            | JXMLex \<Rightarrow>
                (if nm = [] then ''j'' @ attribute ''son'' [kind]
                 else ''j'' @ attribute ''son'' (kind # CHR '':'' # escape_string nm False) @
                        attribute (escape_attrib nm) (escape_string txt False))
            | JSONx \<Rightarrow>
                kind_name kind @ (if nm \<noteq> [] then attribute ''name'' (escape_string nm False) else [])
            | _ \<Rightarrow>
                (if nm \<noteq> [] then escape_attrib nm else ''JsonItem'') @ attribute ''type'' (kind_name kind) @
                (if nm \<noteq> [] then attribute ''name'' (escape_string nm False) else []))
         in ''<'' @ tagname @ attr @ ''>''))"

definition close_tag :: "format \<Rightarrow> char \<Rightarrow> string \<Rightarrow> string" where
  "close_tag fmt kind nm =
     (case fmt of
        JSON \<Rightarrow> []
      | JXML \<Rightarrow> ''</j>''
      | JXMLex \<Rightarrow> ''</j>''
      | JSONx \<Rightarrow> ''</'' @ kind_name kind @ ''>''
      | TaggedXML \<Rightarrow> ''</'' @ (if nm \<noteq> [] then escape_attrib nm else ''JsonItem'') @ ''>'')"

abbreviation newline :: string where "newline \<equiv> [CHR 0x0A]"

text \<open>The three cases with a text.\<close>

definition text_tag :: "format \<Rightarrow> nat \<Rightarrow> char \<Rightarrow> string \<Rightarrow> string \<Rightarrow> string" where
  "text_tag fmt depth kind nm ss =
     tabs depth @ open_tag fmt kind nm [] (if fmt = JXMLex then ss else []) @ ss @ close_tag fmt kind nm @ newline"

definition block_tag :: "format \<Rightarrow> nat \<Rightarrow> char \<Rightarrow> string \<Rightarrow> string \<Rightarrow> string \<Rightarrow> string" where
  "block_tag fmt depth kind nm attr ss =
     tabs depth @ open_tag fmt kind nm attr [] @ newline @ ss @ tabs depth @ close_tag fmt kind nm @ newline"

fun xml_tag :: "format \<Rightarrow> nat \<Rightarrow> string \<Rightarrow> string \<Rightarrow> json \<Rightarrow> string" where
  "xml_tag fmt depth nm attr (BOOL b) = text_tag fmt depth (CHR ''b'') nm (if b then ''true'' else ''false'')"
| "xml_tag fmt depth nm attr (ARRAY vs) =
     block_tag fmt depth (CHR ''a'') nm attr (concat (map (xml_tag fmt (depth + 1) [] []) vs))"
| "xml_tag fmt depth nm attr (STRING s) = text_tag fmt depth (CHR ''s'') nm (escape_tag s fmt)"
| "xml_tag fmt depth nm attr (OBJECT m) =
     block_tag fmt depth (CHR ''o'') nm attr (concat (map (\<lambda>(k, v). xml_tag fmt (depth + 1) k [] v) m))"
| "xml_tag fmt depth nm attr (NUMBER x) = text_tag fmt depth (CHR ''n'') nm (print_g json_digits x)"
| "xml_tag fmt depth nm attr v = tabs depth @ open_tag fmt (CHR ''0'') nm '' /'' [] @ newline"

definition defheader :: "format \<Rightarrow> string" where
  "defheader fmt =
     (if fmt = JSON then []
      else ''<?xml'' @ attribute ''version'' ''1.0'' @ attribute ''encoding'' ''UTF-8'' @ ''?>'' @
        ''<!-- generated by jsonxx 0.22-a -->'' @ newline)"

definition defrootattrib :: "format \<Rightarrow> string" where
  "defrootattrib fmt =
     (if fmt = JSONx
      then attribute ''xsi:schemaLocation'' ''http://www.datapower.com/schemas/json jsonx.xsd'' @
        attribute ''xmlns:xsi'' ''http://www.w3.org/2001/XMLSchema-instance'' @
        attribute ''xmlns:json'' ''http://www.ibm.com/xmlns/prod/2009/jsonx''
      else [])"

definition container_xml :: "format \<Rightarrow> string \<Rightarrow> string \<Rightarrow> json \<Rightarrow> string res" where
  "container_xml fmt header attrib v =
     assertR (fmt \<noteq> JSON)
       (let result = xml_tag fmt 0 [] (if attrib = [] then defrootattrib fmt else attrib) v
        in Inr ((if header = [] then defheader fmt else header) @ result))"

definition object_xml :: "format \<Rightarrow> string \<Rightarrow> string \<Rightarrow> json string_map \<Rightarrow> string res" where
  "object_xml fmt header attrib m = container_xml fmt header attrib (OBJECT m)"

definition array_xml :: "format \<Rightarrow> string \<Rightarrow> string \<Rightarrow> json list \<Rightarrow> string res" where
  "array_xml fmt header attrib vs = container_xml fmt header attrib (ARRAY vs)"

definition object_write :: "format \<Rightarrow> json string_map \<Rightarrow> string res" where
  "object_write fmt m = (if fmt = JSON then Inr (object_json m) else object_xml fmt [] [] m)"

definition array_write :: "format \<Rightarrow> json list \<Rightarrow> string res" where
  "array_write fmt vs = (if fmt = JSON then Inr (array_json vs) else array_xml fmt [] [] vs)"

definition xml_of_text :: "string \<Rightarrow> format \<Rightarrow> string res option" where
  "xml_of_text input fmt =
     (if fmt = JSON then Some (Inl AssertionFailed)
      else case peek_char (trim (new_stream input)) of (c, st) \<Rightarrow>
        if c = Some (CHR ''{'')
        then (case parse_object (enough st) st of
                None \<Rightarrow> None
              | Some (ok, m, st) \<Rightarrow> Some (if ok then object_xml fmt [] [] m else Inr (defheader fmt)))
        else case peek_char st of (c, st) \<Rightarrow>
          if c = Some (CHR ''['')
          then (case parse_array (enough st) st of
                  None \<Rightarrow> None
                | Some (ok, vs, st) \<Rightarrow> Some (if ok then array_xml fmt [] [] vs else Inr (defheader fmt)))
          else Some (Inr (defheader fmt)))"

section \<open>The grammar\<close>

text \<open>An element: its name, its attributes, its text and its children.\<close>

datatype xml = XML string "(string \<times> string) list" string "xml list"

definition name_start :: "char \<Rightarrow> bool" where
  "name_start c \<longleftrightarrow> c = CHR '':'' \<or> c = CHR ''_'' \<or> isalnum c \<and> \<not> isdigit c"

definition xml_name :: "string \<Rightarrow> bool" where
  "xml_name n \<longleftrightarrow> n \<noteq> [] \<and> name_start (hd n) \<and> list_all (\<lambda>c. name_start c \<or> isdigit c \<or> c = CHR ''-'' \<or> c = CHR ''.'') n"

text \<open>Characters that stand for themselves in a text and in the value of an attribute.\<close>

definition xml_char :: "char \<Rightarrow> bool" where
  "xml_char c \<longleftrightarrow> (32 \<le> (of_char c :: nat) \<or> c = CHR 0x09 \<or> c = CHR 0x0A) \<and> c \<notin> {CHR ''<'', CHR ''>'', CHR ''&''}"

definition value_char :: "char \<Rightarrow> bool" where
  "value_char c \<longleftrightarrow> 32 \<le> (of_char c :: nat) \<and> c \<notin> {CHR ''<'', CHR ''>'', CHR ''&'', quote_mark}"

inductive char_data :: "(char \<Rightarrow> bool) \<Rightarrow> string \<Rightarrow> string \<Rightarrow> bool" for ok where
  no_data: "char_data ok [] []"
| one_char: "ok c \<Longrightarrow> char_data ok t s \<Longrightarrow> char_data ok (c # t) (c # s)"
| entity: "(e, c) \<in> {(''&lt;'', CHR ''<''), (''&gt;'', CHR ''>''), (''&amp;'', CHR ''&'')} \<Longrightarrow>
    char_data ok t s \<Longrightarrow> char_data ok (e @ t) (c # s)"

inductive attrs_text :: "string \<Rightarrow> (string \<times> string) list \<Rightarrow> bool" where
  no_attr: "attrs_text [] []"
| attr: "xml_name n \<Longrightarrow> char_data value_char t v \<Longrightarrow> attrs_text u as \<Longrightarrow> n \<notin> fst ` set as \<Longrightarrow>
    attrs_text (attribute n t @ u) ((n, v) # as)"

inductive element_text :: "string \<Rightarrow> xml \<Rightarrow> bool"
  and content_text :: "string \<Rightarrow> xml list \<Rightarrow> bool" where
  closed: "xml_name n \<Longrightarrow> attrs_text a as \<Longrightarrow> element_text (''<'' @ n @ a @ '' />'') (XML n as [] [])"
| with_text: "xml_name n \<Longrightarrow> attrs_text a as \<Longrightarrow> char_data xml_char t s \<Longrightarrow>
    element_text (''<'' @ n @ a @ ''>'' @ t @ ''</'' @ n @ ''>'') (XML n as s [])"
| with_children: "xml_name n \<Longrightarrow> attrs_text a as \<Longrightarrow> content_text t es \<Longrightarrow>
    element_text (''<'' @ n @ a @ ''>'' @ t @ ''</'' @ n @ ''>'') (XML n as [] es)"
| no_child: "json_ws w \<Longrightarrow> content_text w []"
| child: "json_ws w \<Longrightarrow> element_text t e \<Longrightarrow> content_text u es \<Longrightarrow> content_text (w @ t @ u) (e # es)"

section \<open>The tree of a value\<close>

definition element_name :: "format \<Rightarrow> char \<Rightarrow> string \<Rightarrow> string" where
  "element_name fmt kind nm =
     (case fmt of
        JSONx \<Rightarrow> kind_name kind
      | TaggedXML \<Rightarrow> if nm = [] then ''JsonItem'' else escape_attrib nm
      | _ \<Rightarrow> ''j'')"

definition element_attrs :: "format \<Rightarrow> char \<Rightarrow> string \<Rightarrow> string \<Rightarrow> (string \<times> string) list" where
  "element_attrs fmt kind nm txt =
     (case fmt of
        JSONx \<Rightarrow> if nm = [] then [] else [(''name'', nm)]
      | JXML \<Rightarrow> [(''son'', if nm = [] then [kind] else kind # CHR '':'' # nm)]
      | JXMLex \<Rightarrow> if nm = [] then [(''son'', [kind])] else [(''son'', kind # CHR '':'' # nm), (escape_attrib nm, txt)]
      | _ \<Rightarrow> (''type'', kind_name kind) # (if nm = [] then [] else [(''name'', nm)]))"

definition leaf :: "format \<Rightarrow> char \<Rightarrow> string \<Rightarrow> string \<Rightarrow> xml" where
  "leaf fmt kind nm s = XML (element_name fmt kind nm) (element_attrs fmt kind nm s) s []"

fun tree_of :: "format \<Rightarrow> string \<Rightarrow> (string \<times> string) list \<Rightarrow> json \<Rightarrow> xml" where
  "tree_of fmt nm as (BOOL b) = leaf fmt (CHR ''b'') nm (if b then ''true'' else ''false'')"
| "tree_of fmt nm as (STRING s) = leaf fmt (CHR ''s'') nm s"
| "tree_of fmt nm as (NUMBER x) = leaf fmt (CHR ''n'') nm (print_g json_digits x)"
| "tree_of fmt nm as (ARRAY vs) =
     XML (element_name fmt (CHR ''a'') nm) (element_attrs fmt (CHR ''a'') nm [] @ as) [] (map (tree_of fmt [] []) vs)"
| "tree_of fmt nm as (OBJECT m) =
     XML (element_name fmt (CHR ''o'') nm) (element_attrs fmt (CHR ''o'') nm [] @ as) []
       (map (\<lambda>(k, v). tree_of fmt k [] v) m)"
| "tree_of fmt nm as v = leaf fmt (CHR ''0'') nm []"

definition root_attrs :: "format \<Rightarrow> (string \<times> string) list" where
  "root_attrs fmt =
     (if fmt = JSONx
      then [(''xsi:schemaLocation'', ''http://www.datapower.com/schemas/json jsonx.xsd''),
        (''xmlns:xsi'', ''http://www.w3.org/2001/XMLSchema-instance''),
        (''xmlns:json'', ''http://www.ibm.com/xmlns/prod/2009/jsonx'')]
      else [])"

text \<open>
  What the formats need: names go into attributes with the escapes of JSON, and for two formats into
  the name of an attribute or an element.
\<close>

definition plain_char :: "char \<Rightarrow> bool" where
  "plain_char c \<longleftrightarrow> value_char c \<and> escape_char c = [c]"

definition name_ready :: "format \<Rightarrow> string \<Rightarrow> bool" where
  "name_ready fmt nm \<longleftrightarrow> list_all plain_char nm \<and>
     (fmt \<in> {JXMLex, TaggedXML} \<longrightarrow> nm \<noteq> [] \<longrightarrow> \<not> isdigit (hd nm)) \<and>
     (fmt = JXMLex \<longrightarrow> escape_attrib nm \<noteq> ''son'')"

definition string_ready :: "format \<Rightarrow> string \<Rightarrow> string \<Rightarrow> bool" where
  "string_ready fmt nm s \<longleftrightarrow>
     list_all (\<lambda>c. 32 \<le> (of_char c :: nat) \<or> c = CHR 0x09 \<or> c = CHR 0x0A) s \<and>
     (fmt = JXMLex \<longrightarrow> nm \<noteq> [] \<longrightarrow> list_all (\<lambda>c. escape_char c = [c]) s)"

fun xml_ready :: "format \<Rightarrow> string \<Rightarrow> json \<Rightarrow> bool" where
  "xml_ready fmt nm (STRING s) \<longleftrightarrow> name_ready fmt nm \<and> string_ready fmt nm s"
| "xml_ready fmt nm (ARRAY vs) \<longleftrightarrow> name_ready fmt nm \<and> (\<forall>v\<in>set vs. xml_ready fmt [] v)"
| "xml_ready fmt nm (OBJECT m) \<longleftrightarrow> name_ready fmt nm \<and> (\<forall>(k, v)\<in>set m. xml_ready fmt k v)"
| "xml_ready fmt nm v \<longleftrightarrow> name_ready fmt nm"

section \<open>Names, attributes and text\<close>

lemma char_data_plain: "list_all ok s \<Longrightarrow> char_data ok s s"
  by (induction s) (auto intro: no_data one_char)

lemma entities: "char_data ok ''&lt;'' ''<''" "char_data ok ''&gt;'' ''>''" "char_data ok ''&amp;'' ''&''"
  using entity [of "''&lt;''" "CHR ''<''" ok "[]" "[]"] entity [of "''&gt;''" "CHR ''>''" ok "[]" "[]"]
    entity [of "''&amp;''" "CHR ''&''" ok "[]" "[]"] no_data [of ok] by simp_all

lemma char_data_append: "char_data ok t s \<Longrightarrow> char_data ok u r \<Longrightarrow> char_data ok (t @ u) (s @ r)"
  by (induction rule: char_data.induct) (auto intro: one_char entity)

lemma escape_plain: "list_all (\<lambda>c. escape_char c = [c]) s \<Longrightarrow> escape_string s False = s"
  by (induction s) (simp_all add: escape_string_def)

lemma escape_char_self: "escape_char c = [c] \<Longrightarrow> 32 \<le> (of_char c :: nat) \<and> c \<noteq> quote_mark"
  by (auto simp: escape_char_def u_escape_def short_escape_def pad_left_def split: if_splits)

lemma attrs_append:
  "attrs_text a as \<Longrightarrow> attrs_text b bs \<Longrightarrow> fst ` set as \<inter> fst ` set bs = {} \<Longrightarrow> attrs_text (a @ b) (as @ bs)"
proof (induction rule: attrs_text.induct)
  case (attr n t v u as)
  then have "attrs_text (u @ b) (as @ bs)" "n \<notin> fst ` set (as @ bs)" by auto
  from attrs_text.attr [OF attr.hyps(1,2) this] show ?case by simp
qed simp

lemma one_attr: "xml_name n \<Longrightarrow> char_data value_char t v \<Longrightarrow> attrs_text (attribute n t) [(n, v)]"
  using attr [of n t v "[]" "[]"] no_attr by simp

lemma two_attrs:
  "xml_name n \<Longrightarrow> char_data value_char t v \<Longrightarrow> xml_name n' \<Longrightarrow> char_data value_char t' v' \<Longrightarrow> n \<noteq> n' \<Longrightarrow>
   attrs_text (attribute n t @ attribute n' t') [(n, v), (n', v')]"
  using attr [of n t v "attribute n' t'" "[(n', v')]"] one_attr by simp

lemma fixed_names:
  "xml_name ''j''" "xml_name ''son''" "xml_name ''name''" "xml_name ''type''" "xml_name ''JsonItem''"
  "xml_name (kind_name kind)" "xml_name ''xsi:schemaLocation''" "xml_name ''xmlns:xsi''" "xml_name ''xmlns:json''"
  by (simp_all add: xml_name_def name_start_def isalnum_def isdigit_def Let_def kind_name_def)

lemma value_char_facts:
  "value_char (CHR '':'')" "list_all value_char (kind_name kind)"
  by (simp_all add: value_char_def kind_name_def)

lemma escape_attrib_name:
  assumes "nm \<noteq> []" "\<not> isdigit (hd nm)"
  shows "xml_name (escape_attrib nm)"
proof -
  have "name_start c \<or> isdigit c" if "c \<in> set (escape_attrib nm)" for c
    using that by (auto simp: escape_attrib_def name_start_def split: if_splits)
  moreover have "name_start (hd (escape_attrib nm))" "escape_attrib nm \<noteq> []"
    using assms by (cases nm; auto simp: escape_attrib_def name_start_def)+
  ultimately show ?thesis by (auto simp: xml_name_def list_all_iff)
qed

lemma element_name_ok: "fmt \<noteq> JSON \<Longrightarrow> name_ready fmt nm \<Longrightarrow> xml_name (element_name fmt kind nm)"
  using escape_attrib_name [of nm] by (auto simp: element_name_def name_ready_def fixed_names split: format.split)

lemma plain_name: "list_all plain_char nm \<Longrightarrow> escape_string nm False = nm \<and> list_all value_char nm"
  by (auto simp: plain_char_def list_all_iff intro: escape_plain)

text \<open>An opening tag is the name, attributes and what the caller adds.\<close>

lemma open_tag_text:
  assumes "fmt \<noteq> JSON" "name_ready fmt nm" "value_char kind"
    and "fmt = JXMLex \<Longrightarrow> nm \<noteq> [] \<Longrightarrow> char_data value_char (escape_string txt False) s"
  shows "\<exists>A. (\<forall>a. open_tag fmt kind nm a txt = ''<'' @ element_name fmt kind nm @ A @ a @ ''>'') \<and>
    attrs_text A (element_attrs fmt kind nm s)"
proof -
  have nm: "escape_string nm False = nm" "list_all value_char nm" using assms(2) plain_name by (auto simp: name_ready_def)
  have k: "char_data value_char [kind] [kind]" using assms(3) by (intro char_data_plain) simp
  have kn: "char_data value_char (kind # CHR '':'' # nm) (kind # CHR '':'' # nm)"
    using assms(3) nm(2) value_char_facts by (intro char_data_plain) simp
  have n: "char_data value_char nm nm" using nm(2) by (rule char_data_plain)
  have t: "char_data value_char (kind_name kind) (kind_name kind)" using value_char_facts by (intro char_data_plain)
  show ?thesis
  proof (cases fmt)
    case JSONx
    with nm(1) n show ?thesis
      by (intro exI [of _ "if nm = [] then [] else attribute ''name'' nm"])
        (auto simp: open_tag_def element_name_def element_attrs_def intro: no_attr one_attr fixed_names)
  next
    case JXML
    with nm(1) k kn show ?thesis
      by (intro exI [of _ "attribute ''son'' (if nm = [] then [kind] else kind # CHR '':'' # nm)"])
        (auto simp: open_tag_def element_name_def element_attrs_def intro: one_attr fixed_names)
  next
    case JXMLex
    show ?thesis
    proof (cases "nm = []")
      case True
      with JXMLex k show ?thesis
        by (intro exI [of _ "attribute ''son'' [kind]"])
          (auto simp: open_tag_def element_name_def element_attrs_def intro: one_attr fixed_names)
    next
      case False
      then have "xml_name (escape_attrib nm)" "escape_attrib nm \<noteq> ''son''"
        using escape_attrib_name [of nm] assms(2) JXMLex by (auto simp: name_ready_def)
      with JXMLex False nm(1) kn assms(4) two_attrs [OF fixed_names(2) kn this(1) assms(4) [OF JXMLex False]] show ?thesis
        by (intro exI [of _ "attribute ''son'' (kind # CHR '':'' # nm) @ attribute (escape_attrib nm) (escape_string txt False)"])
          (auto simp: open_tag_def element_name_def element_attrs_def)
    qed
  next
    case TaggedXML
    have "attrs_text (attribute ''type'' (kind_name kind) @ attribute ''name'' nm) [(''type'', kind_name kind), (''name'', nm)]"
      by (rule two_attrs [OF fixed_names(4) t fixed_names(3) n]) simp
    with TaggedXML nm(1) one_attr [OF fixed_names(4) t] show ?thesis
      by (intro exI [of _ "attribute ''type'' (kind_name kind) @ (if nm = [] then [] else attribute ''name'' nm)"])
        (auto simp: open_tag_def element_name_def element_attrs_def)
  qed (use assms(1) in simp)
qed

lemma close_tag_text: "fmt \<noteq> JSON \<Longrightarrow> close_tag fmt kind nm = ''</'' @ element_name fmt kind nm @ ''>''"
  by (cases fmt) (simp_all add: close_tag_def element_name_def)

section \<open>The writer writes XML\<close>

lemma text_tag_element:
  assumes "fmt \<noteq> JSON" "name_ready fmt nm" "value_char kind" "char_data xml_char ss s"
    and "fmt = JXMLex \<Longrightarrow> nm \<noteq> [] \<Longrightarrow> char_data value_char (escape_string ss False) s"
  shows "\<exists>t. text_tag fmt d kind nm ss = tabs d @ t @ newline \<and> element_text t (leaf fmt kind nm s)"
proof -
  obtain A where A: "\<And>a. open_tag fmt kind nm a (if fmt = JXMLex then ss else []) = ''<'' @ element_name fmt kind nm @ A @ a @ ''>''"
    "attrs_text A (element_attrs fmt kind nm s)"
    using open_tag_text [OF assms(1-3), of "if fmt = JXMLex then ss else []" s] assms(5) by auto
  from with_text [OF element_name_ok [OF assms(1,2)] A(2) assms(4)] show ?thesis
    by (auto simp: text_tag_def A(1) close_tag_text [OF assms(1)] leaf_def)
qed

lemma closed_element:
  assumes "fmt \<noteq> JSON" "name_ready fmt nm"
  shows "\<exists>t. tabs d @ open_tag fmt (CHR ''0'') nm '' /'' [] @ newline = tabs d @ t @ newline \<and>
    element_text t (leaf fmt (CHR ''0'') nm [])"
proof -
  have "value_char (CHR ''0'')" by (simp add: value_char_def)
  then obtain A where A: "\<And>a. open_tag fmt (CHR ''0'') nm a [] = ''<'' @ element_name fmt (CHR ''0'') nm @ A @ a @ ''>''"
    "attrs_text A (element_attrs fmt (CHR ''0'') nm [])"
    using open_tag_text [OF assms, of "CHR ''0''" "[]" "[]"] no_data by (auto simp: escape_string_def)
  from closed [OF element_name_ok [OF assms] A(2)] show ?thesis by (auto simp: A(1) leaf_def)
qed

lemma content_of:
  assumes "\<forall>x\<in>set xs. \<exists>t. f x = tabs d @ t @ newline \<and> element_text t (g x)" "json_ws w" "json_ws w'"
  shows "content_text (w @ concat (map f xs) @ w') (map g xs)"
  using assms(1,2)
proof (induction xs arbitrary: w)
  case Nil
  with assms(3) show ?case by (simp add: no_child)
next
  case (Cons x xs)
  obtain t where t: "f x = tabs d @ t @ newline" "element_text t (g x)" using Cons.prems(1) by auto
  have "content_text (newline @ concat (map f xs) @ w') (map g xs)" using Cons.IH [of newline] Cons.prems(1) by simp
  from child [OF _ t(2) this, of "w @ tabs d"] Cons.prems(2) t(1) show ?case by simp
qed

lemma block_tag_element:
  assumes "fmt \<noteq> JSON" "name_ready fmt nm" "value_char kind" "attrs_text a as"
    and "fst ` set (element_attrs fmt kind nm []) \<inter> fst ` set as = {}"
    and "content_text (newline @ ss @ tabs d) es"
  shows "\<exists>t. block_tag fmt d kind nm a ss = tabs d @ t @ newline \<and>
    element_text t (XML (element_name fmt kind nm) (element_attrs fmt kind nm [] @ as) [] es)"
proof -
  obtain A where A: "\<And>a. open_tag fmt kind nm a [] = ''<'' @ element_name fmt kind nm @ A @ a @ ''>''"
    "attrs_text A (element_attrs fmt kind nm [])"
    using open_tag_text [OF assms(1-3), of "[]" "[]"] no_data by (auto simp: escape_string_def)
  from with_children [OF element_name_ok [OF assms(1,2)] attrs_append [OF A(2) assms(4,5)] assms(6)] show ?thesis
    by (auto simp: block_tag_def A(1) close_tag_text [OF assms(1)])
qed

lemma escape_tag_data:
  assumes "fmt \<noteq> JSON" "string_ready fmt nm s"
  shows "char_data xml_char (escape_tag s fmt) s"
    and "fmt = JXMLex \<Longrightarrow> nm \<noteq> [] \<Longrightarrow> char_data value_char (escape_string (escape_tag s fmt) False) s"
proof -
  have one: "char_data xml_char (escape_tag [c] fmt) [c]"
    if "32 \<le> (of_char c :: nat) \<or> c = CHR 0x09 \<or> c = CHR 0x0A" for c
  proof (cases "c \<in> {CHR ''<'', CHR ''>'', CHR ''&''}")
    case True
    then show ?thesis using assms(1) entities [of xml_char] by (auto simp: escape_tag_def)
  next
    case False
    with that have "escape_tag [c] fmt = [c]" "xml_char c" by (simp_all add: escape_tag_def xml_char_def)
    then show ?thesis using one_char [OF _ no_data] by simp
  qed
  have app: "escape_tag (c # s) fmt = escape_tag [c] fmt @ escape_tag s fmt" for c s by (simp add: escape_tag_def)
  have "list_all (\<lambda>c. 32 \<le> (of_char c :: nat) \<or> c = CHR 0x09 \<or> c = CHR 0x0A) s \<Longrightarrow> char_data xml_char (escape_tag s fmt) s"
    for s
  proof (induction s)
    case (Cons c s)
    then show ?case using char_data_append [OF one, of c "escape_tag s fmt" s] app [of c s] by simp
  qed (simp add: escape_tag_def no_data)
  with assms(2) show "char_data xml_char (escape_tag s fmt) s" by (simp add: string_ready_def)
  have val: "char_data value_char (escape_tag [c] fmt) [c] \<and> list_all (\<lambda>c. escape_char c = [c]) (escape_tag [c] fmt)"
    if "escape_char c = [c]" for c
  proof (cases "c \<in> {CHR ''<'', CHR ''>'', CHR ''&''}")
    case True
    then have "char_data value_char (escape_tag [c] fmt) [c]"
      using assms(1) entities [of value_char] by (auto simp: escape_tag_def)
    moreover have "list_all (\<lambda>c. escape_char c = [c]) (escape_tag [c] fmt)"
      using True assms(1) by (auto simp: escape_tag_def escape_char_def short_escape_def)
    ultimately show ?thesis by blast
  next
    case False
    then have "escape_tag [c] fmt = [c]" "value_char c"
      using escape_char_self [OF that] by (auto simp: escape_tag_def value_char_def)
    with that show ?thesis using one_char [OF _ no_data] by simp
  qed
  have "list_all (\<lambda>c. escape_char c = [c]) s \<Longrightarrow>
      char_data value_char (escape_tag s fmt) s \<and> list_all (\<lambda>c. escape_char c = [c]) (escape_tag s fmt)" for s
  proof (induction s)
    case (Cons c s)
    then show ?case using val [of c] char_data_append [of value_char "escape_tag [c] fmt" "[c]" "escape_tag s fmt" s] app [of c s]
      by simp
  qed (simp add: escape_tag_def no_data)
  then show "fmt = JXMLex \<Longrightarrow> nm \<noteq> [] \<Longrightarrow> char_data value_char (escape_string (escape_tag s fmt) False) s"
    using assms(2) escape_plain by (auto simp: string_ready_def)
qed

definition number_char :: "char \<Rightarrow> bool" where
  "number_char c \<longleftrightarrow> isdigit c \<or> c \<in> {CHR ''-'', CHR ''+'', CHR ''.'', CHR ''e'', CHR ''E''}"

lemma digits_number: "list_all isdigit s \<Longrightarrow> list_all number_char s"
  by (auto simp: list_all_iff number_char_def)

lemma frac_part_chars: "frac_part fr f \<Longrightarrow> list_all number_char fr"
  by (induction rule: frac_part.induct) (simp_all add: digits_number, simp add: number_char_def)

lemma exp_part_chars: "exp_part ex k \<Longrightarrow> list_all number_char ex"
  by (induction rule: exp_part.induct) (auto simp: digits_number, auto simp: number_char_def)

lemma unsigned_text_chars: "unsigned_text t v \<Longrightarrow> list_all number_char t"
  by (induction rule: unsigned_text.induct) (simp add: int_part_def digits_number frac_part_chars exp_part_chars)

lemma number_text_chars: "number_text t x \<Longrightarrow> list_all number_char t"
  by (induction rule: number_text.induct) (simp_all add: unsigned_text_chars, simp add: number_char_def)

lemma plain_data:
  assumes "list_all plain_char t"
  shows "char_data xml_char t t" "char_data value_char (escape_string t False) t"
proof -
  have "list_all xml_char t" using assms by (auto simp: list_all_iff plain_char_def value_char_def xml_char_def)
  then show "char_data xml_char t t" by (rule char_data_plain)
  show "char_data value_char (escape_string t False) t" using plain_name [OF assms] char_data_plain by simp
qed

lemma plain_charI: "short_escape c = None \<Longrightarrow> value_char c \<Longrightarrow> plain_char c"
  by (simp add: plain_char_def escape_char_def value_char_def)

lemma digits_plain: "number_char c \<Longrightarrow> plain_char c"
proof (cases "isdigit c")
  case True
  then have "c \<notin> {quote_mark, backslash, CHR ''/'', CHR 0x08, CHR 0x0C, CHR 0x0A, CHR 0x0D, CHR 0x09, CHR ''<'', CHR ''>'', CHR ''&''}"
    "32 \<le> (of_char c :: nat)"
    by (auto simp: isdigit_def)
  then show ?thesis by (intro plain_charI) (simp_all add: short_escape_def value_char_def)
next
  case False
  assume "number_char c"
  with False have "c \<in> {CHR ''-'', CHR ''+'', CHR ''.'', CHR ''e'', CHR ''E''}" by (simp add: number_char_def)
  then show ?thesis by (intro plain_charI) (auto simp: short_escape_def value_char_def)
qed

lemma bool_plain: "list_all plain_char (if b then ''true'' else ''false'')"
  by (simp add: plain_char_def value_char_def escape_char_def short_escape_def)

lemma printed_plain: "list_all plain_char (print_g json_digits x)"
  using number_text_chars [OF print_g_text [of json_digits x]] digits_plain by (auto simp: list_all_iff json_digits_def)

lemma xml_tag_element:
  assumes "fmt \<noteq> JSON"
  shows "xml_ready fmt nm v \<Longrightarrow> attrs_text a as \<Longrightarrow> (as \<noteq> [] \<Longrightarrow> fmt = JSONx \<and> nm = []) \<Longrightarrow>
    \<exists>t. xml_tag fmt d nm a v = tabs d @ t @ newline \<and> element_text t (tree_of fmt nm as v)"
proof (induction v arbitrary: nm d a as)
  case (NUMBER x)
  have "value_char (CHR ''n'')" by (simp add: value_char_def)
  with NUMBER.prems(1) text_tag_element [OF assms, of nm "CHR ''n''" _ _ d] plain_data [OF printed_plain [of x]]
  show ?case by simp
next
  case (STRING s)
  have "value_char (CHR ''s'')" by (simp add: value_char_def)
  with STRING.prems(1) text_tag_element [OF assms, of nm "CHR ''s''" "escape_tag s fmt" s d] escape_tag_data [OF assms, of nm s]
  show ?case by auto
next
  case (BOOL b)
  have "value_char (CHR ''b'')" by (simp add: value_char_def)
  with BOOL.prems(1) text_tag_element [OF assms, of nm "CHR ''b''" _ _ d] plain_data [OF bool_plain [of b]]
  show ?case by (simp split del: if_split)
next
  case (ARRAY vs)
  have k: "value_char (CHR ''a'')" by (simp add: value_char_def)
  have "\<forall>v\<in>set vs. \<exists>t. xml_tag fmt (d + 1) [] [] v = tabs (d + 1) @ t @ newline \<and> element_text t (tree_of fmt [] [] v)"
    using ARRAY.IH [of _ "[]" "[]" "[]"] ARRAY.prems(1) no_attr by auto
  from content_of [OF this, of newline "tabs d"] have
    "content_text (newline @ concat (map (xml_tag fmt (d + 1) [] []) vs) @ tabs d) (map (tree_of fmt [] []) vs)" by simp
  from block_tag_element [OF assms _ k ARRAY.prems(2) _ this, of nm] ARRAY.prems(1,3) show ?case
    by (cases "as = []") (auto simp: element_attrs_def)
next
  case (OBJECT m)
  have k: "value_char (CHR ''o'')" by (simp add: value_char_def)
  have "\<exists>t. xml_tag fmt (d + 1) k' [] v = tabs (d + 1) @ t @ newline \<and> element_text t (tree_of fmt k' [] v)"
    if "(k', v) \<in> set m" for k' v
    using OBJECT.IH [OF that, of v k' "[]" "[]" "d + 1"] OBJECT.prems(1) that no_attr by (auto simp: snds.simps)
  then have "\<forall>p\<in>set m. \<exists>t. (\<lambda>(k, v). xml_tag fmt (d + 1) k [] v) p = tabs (d + 1) @ t @ newline \<and>
      element_text t ((\<lambda>(k, v). tree_of fmt k [] v) p)" by auto
  from content_of [OF this, of newline "tabs d"] have
    "content_text (newline @ concat (map (\<lambda>(k, v). xml_tag fmt (d + 1) k [] v) m) @ tabs d)
       (map (\<lambda>(k, v). tree_of fmt k [] v) m)" by simp
  from block_tag_element [OF assms _ k OBJECT.prems(2) _ this, of nm] OBJECT.prems(1,3) show ?case
    by (cases "as = []") (auto simp: element_attrs_def)
qed (use closed_element [OF assms] in simp_all)

lemma root_attrs_text: "attrs_text (defrootattrib fmt) (root_attrs fmt)"
proof (cases "fmt = JSONx")
  case True
  have v: "char_data value_char ''http://www.datapower.com/schemas/json jsonx.xsd'' ''http://www.datapower.com/schemas/json jsonx.xsd''"
    "char_data value_char ''http://www.w3.org/2001/XMLSchema-instance'' ''http://www.w3.org/2001/XMLSchema-instance''"
    "char_data value_char ''http://www.ibm.com/xmlns/prod/2009/jsonx'' ''http://www.ibm.com/xmlns/prod/2009/jsonx''"
    by (rule char_data_plain, simp add: value_char_def)+
  from attr [OF fixed_names(7) v(1) two_attrs [OF fixed_names(8) v(2) fixed_names(9) v(3)]] True show ?thesis
    by (simp add: defrootattrib_def root_attrs_def)
qed (simp add: defrootattrib_def root_attrs_def no_attr)

lemma container_xml_element:
  assumes "fmt \<noteq> JSON" "xml_ready fmt [] v"
  shows "\<exists>t. container_xml fmt [] [] v = Inr (defheader fmt @ t @ newline) \<and>
    element_text t (tree_of fmt [] (root_attrs fmt) v)"
proof -
  have "root_attrs fmt \<noteq> [] \<Longrightarrow> fmt = JSONx \<and> ([] :: string) = []" by (simp add: root_attrs_def split: if_splits)
  from xml_tag_element [OF assms root_attrs_text this, where d = 0] assms(1) show ?thesis
    by (simp add: container_xml_def tabs_def)
qed

text \<open>
  Property C38.  In each of the four XML formats, \<^verbatim>\<open>xml()\<close> writes the header and a well-formed element
  for an object whose names and strings the format can carry: its tags nest and close, no attribute is
  there twice, and the names, texts and children are those of the object.
\<close>

theorem object_xml_well_formed:
  assumes "fmt \<noteq> JSON" "xml_ready fmt [] (OBJECT m)"
  shows "\<exists>t. object_xml fmt [] [] m = Inr (defheader fmt @ t @ newline) \<and>
    element_text t (tree_of fmt [] (root_attrs fmt) (OBJECT m))"
  unfolding object_xml_def using container_xml_element [OF assms] .

theorem object_xml_well_formed_witness:
  "\<exists>t. object_xml TaggedXML [] [] [(''user'', STRING ''a<b''), (''mem'', NULL)] = Inr (defheader TaggedXML @ t @ newline) \<and>
    element_text t (tree_of TaggedXML [] [] (OBJECT [(''user'', STRING ''a<b''), (''mem'', NULL)]))"
proof -
  have "xml_ready TaggedXML [] (OBJECT [(''user'', STRING ''a<b''), (''mem'', NULL)])"
    by (simp add: name_ready_def string_ready_def plain_char_def value_char_def escape_char_def short_escape_def isdigit_def)
  from object_xml_well_formed [OF _ this] show ?thesis by (simp add: root_attrs_def)
qed

text \<open>
  Fact.  The names of members are written with the escapes of JSON, not of XML: an ampersand stays as
  it is, and a quotation mark ends the attribute.
\<close>

theorem names_not_escaped:
  "xml_tag JXML 0 (''a&b'' @ [quote_mark]) [] NULL =
    ''<j son='' @ quote_mark # ''0:a&b'' @ [backslash, quote_mark, quote_mark] @ '' />'' @ newline"
  by (simp add: open_tag_def attribute_def escape_string_def escape_char_def short_escape_def tabs_def)

text \<open>Fact.  A member that is called \<open>son\<close> gets two attributes of this name in the format \<^verbatim>\<open>JXMLex\<close>.\<close>

theorem son_twice:
  "xml_tag JXMLex 0 ''son'' [] NULL =
    ''<j'' @ attribute ''son'' ''0:son'' @ attribute ''son'' [] @ '' />'' @ newline"
  by (simp add: open_tag_def attribute_def escape_string_def escape_char_def short_escape_def tabs_def
      escape_attrib_def isalnum_def Let_def)

text \<open>
  Fact.  The free function \<^verbatim>\<open>xml\<close> turns a text of the grammar into the XML of its object or array, and
  any other value into the header alone.
\<close>

theorem xml_of_grammar:
  assumes "padded_text t v" "readable v" "fmt \<noteq> JSON"
  shows "xml_of_text t fmt =
    Some (case v of
            OBJECT m \<Rightarrow> object_xml fmt [] [] (read_members m)
          | ARRAY vs \<Rightarrow> array_xml fmt [] [] (map reread vs)
          | _ \<Rightarrow> Inr (defheader fmt))"
proof -
  obtain c st where c: "peek_char (trim (new_stream t)) = (Some c, st)" "peek_char st = (Some c, st)"
    "c = CHR ''{'' \<longleftrightarrow> is_object v" "c = CHR ''['' \<longleftrightarrow> is_array v"
    "\<forall>m. v = OBJECT m \<longrightarrow> (\<exists>st'. parse_object (enough st) st = Some (True, read_members m, st'))"
    "\<forall>vs. v = ARRAY vs \<longrightarrow> (\<exists>st'. parse_array (enough st) st = Some (True, map reread vs, st'))"
    by (rule parsed_container [OF assms(1,2)])
  show ?thesis
    by (cases v) (use c assms(3) in \<open>auto simp: xml_of_text_def is_object_def is_array_def\<close>)
qed

theorem xml_of_grammar_witness: "xml_of_text ''null'' JXML = Some (Inr (defheader JXML))"
proof -
  have "padded_text ([] @ ''null'' @ []) NULL" by (intro padded null_text) simp_all
  from xml_of_grammar [OF this] show ?thesis by simp
qed

end
