(* ===== verification/SimplePrograms.thy ===== *)
theory SimplePrograms
  imports HttpServers
begin

text \<open>
  The example programs \<^verbatim>\<open>examples/simple/server.cpp\<close>, \<^verbatim>\<open>examples/simple/client.cpp\<close> and
  \<^verbatim>\<open>examples/http/main.cpp\<close>: their callbacks, and what they do on top of a connection of the library.
  Besides the connection, a callback has its \<open>action\<close>s: the lines that it prints and the calls of
  \<^verbatim>\<open>EventLoop::quit\<close>.  What the HTTP example reads from its file is an argument.
\<close>

section \<open>The simple server\<close>

datatype action = Print string | Quit

type_synonym 'k acted = "('k tcp \<times> action list) res"

text \<open>\<^verbatim>\<open>printf("%s")\<close> prints up to a null character.\<close>

definition c_chars :: "string \<Rightarrow> string" where
  "c_chars s = takeWhile (\<lambda>c. c \<noteq> CHR 0x00) s"

definition line_end :: string where "line_end = [CHR 0x0A]"

definition server_onConnection :: "(32 word \<Rightarrow> string) \<Rightarrow> 'k tcp \<Rightarrow> 'k acted" where
  "server_onConnection inet_ntop s =
     Inr (s, [Print (if connected s
                     then ''onConnection(): new connection ['' @ c_chars (name s) @ ''] from '' @
                       toIpPort inet_ntop (peerAddr s) @ line_end
                     else ''onConnection(): connection ['' @ c_chars (name s) @ ''] is down'' @ line_end)])"

definition data_reply :: string where "data_reply = replicate 1000000 (CHR ''a'')"

definition data_end :: string where "data_end = line_end @ ''finshed'' @ line_end"

definition server_onMessage :: "'k tcp_env \<Rightarrow> 'k tcp \<Rightarrow> 'k acted" where
  "server_onMessage E s =
     bindR (retrieveAllAsString (inputBuffer s)) (\<lambda>(message, b).
       let s = s\<lparr>inputBuffer := b\<rparr>
       in bindR (if message = ''quit'' @ line_end then bindR (shutdown E s) (\<lambda>s. Inr (s, []))
                 else if message = ''data'' @ line_end
                 then bindR (send E data_reply s) (\<lambda>s.
                      bindR (send E data_end s) (\<lambda>s.
                      bindR (shutdown E s) (\<lambda>s. Inr (s, []))))
                 else if message = ''sq'' @ line_end then Inr (s, [Print (''over'' @ line_end), Quit])
                 else Inr (s, []))
            (\<lambda>(s, acts).
               Inr (s, acts @ [Print (''onMessage(): received '' @ dec_nat (length message) @
                 '' bytes from connection ['' @ c_chars (name s) @ '']------>'' @ c_chars message @ line_end)])))"

definition server_onWriteComplete :: "'k tcp \<Rightarrow> 'k acted" where
  "server_onWriteComplete s =
     Inr (s, [Print (''connection ['' @ c_chars (name s) @ ''] writeCompleteCallback'' @ line_end)])"

text \<open>The callbacks as the connection sees them, in an environment with the server's close callback.\<close>

definition connection_part :: "('k tcp \<Rightarrow> 'k acted) \<Rightarrow> 'k tcp_callback" where
  "connection_part f = Some (\<lambda>s. bindR (f s) (\<lambda>(s, acts). Inr s))"

definition simple_server :: "(32 word \<Rightarrow> string) \<Rightarrow> 'k tcp_env \<Rightarrow> 'k tcp_env" where
  "simple_server inet_ntop E =
     (let E = E\<lparr>connectionCallback := connection_part (server_onConnection inet_ntop),
                writeCompleteCallback := connection_part server_onWriteComplete\<rparr>
      in E\<lparr>messageCallback := connection_part (server_onMessage E)\<rparr>)"

section \<open>The simple client\<close>

definition client_onConnection :: "(32 word \<Rightarrow> string) \<Rightarrow> 'k tcp_env \<Rightarrow> 'k tcp \<Rightarrow> 'k acted" where
  "client_onConnection inet_ntop E s =
     (if connected s
      then bindR (send E (''data'' @ line_end) s) (\<lambda>s'.
             Inr (s', [Print (''onConnection(): new connection ['' @ c_chars (name s) @ ''] from '' @
               toIpPort inet_ntop (peerAddr s) @ line_end)]))
      else Inr (s, [Print (''onConnection(): connection ['' @ c_chars (name s) @ ''] is down'' @ line_end), Quit]))"

definition client_onMessage :: "'k tcp \<Rightarrow> 'k acted" where
  "client_onMessage s =
     bindR (retrieveAllAsString (inputBuffer s)) (\<lambda>(message, b).
       Inr (s\<lparr>inputBuffer := b\<rparr>,
            [Print (''onMessage(): received '' @ dec_nat (readableBytes (inputBuffer s)) @
               '' bytes from connection ['' @ c_chars (name s) @ '']''),
             Print (''onMessage(): ['' @ c_chars message @ '']'' @ line_end)]))"

section \<open>The HTTP example\<close>

text \<open>The file, when it could be opened, is what each \<^verbatim>\<open>fread\<close> returned; the loop ends with an empty one.\<close>

definition page_content :: "string list option \<Rightarrow> string" where
  "page_content file = (case file of None \<Rightarrow> [] | Some reads \<Rightarrow> concat (takeWhile (\<lambda>r. r \<noteq> []) reads))"

definition http_main_onRequest :: "string list option \<Rightarrow> http_callback" where
  "http_main_onRequest file req resp =
     Inr (if path req = ''/''
          then (setContentType ''text/html'' (resp\<lparr>statusCode := k200Ok, statusMessage := ''OK''\<rparr>))
                 \<lparr>resp_body := ''hello http''\<rparr>
          else if path req = ''/pageSwitch.html''
          then (setContentType ''text/html'' (resp\<lparr>statusCode := k200Ok, statusMessage := ''OK''\<rparr>))
                 \<lparr>resp_body := page_content file\<rparr>
          else resp)"

section \<open>The callbacks keep the connection's invariant\<close>

text \<open>A write-complete callback that only prints is like none.\<close>

definition prints_only :: "'k tcp_env \<Rightarrow> bool" where
  "prints_only E \<longleftrightarrow> writeCompleteCallback E = Some Inr"

abbreviation unobserved :: "'k tcp_env \<Rightarrow> 'k tcp_env" where
  "unobserved E \<equiv> E\<lparr>writeCompleteCallback := None\<rparr>"

lemma server_write_complete: "connection_part server_onWriteComplete = Some Inr"
  by (simp add: connection_part_def server_onWriteComplete_def fun_eq_iff)

lemma server_connection: "connection_part (server_onConnection inet_ntop) = Some Inr"
  by (simp add: connection_part_def server_onConnection_def fun_eq_iff)

lemma unobserved_calls:
  "sys_write (unobserved E) d s = sys_write E d s" "sys_shutdown (unobserved E) s = sys_shutdown E s"
  "ctl (unobserved E) = ctl E"
  by (simp_all add: sys_write_def sys_shutdown_def)

lemma prints_only_invoke: "prints_only E \<Longrightarrow> invoke_if_set (writeCompleteCallback E) = Inr"
  by (simp add: prints_only_def invoke_if_set_def fun_eq_iff)

lemma unobserved_invoke: "invoke_if_set (writeCompleteCallback (unobserved E)) = Inr"
  by (simp add: invoke_if_set_def fun_eq_iff)

lemma prints_only_send: "prints_only E \<Longrightarrow> send E d s = send (unobserved E) d s"
  unfolding send_def unobserved_calls unobserved_invoke prints_only_invoke by simp

lemma prints_only_handleWrite: "prints_only E \<Longrightarrow> handleWrite (unobserved E) s = handleWrite E s"
  unfolding handleWrite_def unobserved_calls unobserved_invoke prints_only_invoke by simp

lemma prints_only_drain:
  "prints_only E \<Longrightarrow> runR (tcp_step (unobserved E)) (replicate k Writable) s = runR (tcp_step E) (replicate k Writable) s"
proof (induction k arbitrary: s)
  case (Suc k)
  then have "runR (tcp_step (unobserved E)) (replicate k Writable) = runR (tcp_step E) (replicate k Writable)"
    by (simp add: fun_eq_iff)
  with Suc.prems show ?case by (simp add: prints_only_handleWrite)
qed simp

lemma unobserved_ok: "write_ok (unobserved E) = write_ok E"
  by (simp add: write_ok_def)

lemma send_printing:
  assumes "write_ok E" "prints_only E" "tcp_inv s" "length data < 2 ^ 31"
  shows "\<exists>s'. send E data s = Inr s' \<and> tcp_inv s' \<and> tcp_state s' = tcp_state s \<and>
    accounted E data s s'"
  using send_once [of "unobserved E" s data] assms
  by (auto simp: unobserved_ok prints_only_send accounted_def refused_def)

lemma progress_accounted:
  assumes "\<forall>i d. d \<noteq> [] \<longrightarrow> 0 < write_ret E i d" "data \<noteq> []" "accounted E data s s'"
  shows "sent s' = sent s @ data"
proof -
  have "\<not> write_ret E (writes s) data < 0" using assms(1,2) by (simp add: not_less less_imp_le)
  with assms(3) show ?thesis by (simp add: accounted_def refused_def)
qed

text \<open>After a shutdown, either the end has been announced or there is something to be written before it.\<close>

lemma shutdown_pending:
  assumes "write_ok E" "tcp_inv s" "tcp_state s = kConnected"
  shows "\<exists>s'. shutdown E s = Inr s' \<and> tcp_inv s' \<and> tcp_state s' = kDisconnecting \<and> sent s' = sent s \<and>
    (contents (outputBuffer s') = [] \<longrightarrow> fin_sent (socket s'))"
proof -
  obtain s' where s': "shutdown E s = Inr s'" "tcp_inv s'" using shutdown_ok [OF assms(1,2)] by blast
  have "tcp_state s' = kDisconnecting" "sent s' = sent s" using shutdown_keeps [OF assms(1), of s] assms(3) s' by auto
  moreover have "fin_sent (socket s')" if "contents (outputBuffer s') = []"
  proof -
    have "\<not> isWriting (channel s')" using that s'(2) \<open>tcp_state s' = kDisconnecting\<close> by (simp add: tcp_inv_def)
    moreover have "isWriting (channel s') = isWriting (channel s)" "\<not> isWriting (channel s) \<longrightarrow> fin_sent (socket s')"
      using s'(1) assms(3) sys_shutdown_ok [OF assms(1)] by (auto simp: shutdown_def Let_def split: if_splits)
    ultimately show ?thesis by simp
  qed
  ultimately show ?thesis using s' by blast
qed

lemma data_lengths: "length data_reply < 2 ^ 31" "length data_end < 2 ^ 31" "data_reply \<noteq> []" "data_end \<noteq> []"
  by (simp_all add: data_reply_def data_end_def line_end_def)

text \<open>What the server does with a message, for each of the messages that it knows.\<close>

lemma server_data:
  assumes "write_ok E" "prints_only E" "tcp_inv s" "tcp_state s = kConnected"
    and progress: "\<forall>i d. d \<noteq> [] \<longrightarrow> 0 < write_ret E i d"
    and "contents (inputBuffer s) = ''data'' @ line_end"
  shows "\<exists>s' acts. server_onMessage E s = Inr (s', acts) \<and> tcp_inv s' \<and> Quit \<notin> set acts \<and>
    tcp_state s' = kDisconnecting \<and> sent s' = sent s @ data_reply @ data_end \<and>
    (contents (outputBuffer s') = [] \<longrightarrow> fin_sent (socket s'))"
proof -
  have input: "buf_inv (inputBuffer s)" using assms(3) by (simp add: tcp_inv_def stream_inv_def)
  obtain b where b: "retrieveAllAsString (inputBuffer s) = Inr (''data'' @ line_end, b)" "buf_inv b"
    using retrieveAllAsString_ok [OF input] assms(6) by auto
  let ?s = "s\<lparr>inputBuffer := b\<rparr>"
  have s: "tcp_inv ?s" "tcp_state ?s = kConnected" using assms(3,4) b(2) by (simp_all add: tcp_inv_def stream_inv_def)
  obtain s1 where s1: "send E data_reply ?s = Inr s1" "tcp_inv s1" "tcp_state s1 = kConnected"
    "sent s1 = sent s @ data_reply"
    using send_printing [OF assms(1,2) s(1) data_lengths(1)] s(2)
      progress_accounted [OF progress data_lengths(3), of ?s] by auto
  obtain s2 where s2: "send E data_end s1 = Inr s2" "tcp_inv s2" "tcp_state s2 = kConnected"
    "sent s2 = sent s @ data_reply @ data_end"
    using send_printing [OF assms(1,2) s1(2) data_lengths(2)] s1(3,4)
      progress_accounted [OF progress data_lengths(4), of s1] by fastforce
  obtain s3 where s3: "shutdown E s2 = Inr s3" "tcp_inv s3" "tcp_state s3 = kDisconnecting" "sent s3 = sent s2"
    "contents (outputBuffer s3) = [] \<longrightarrow> fin_sent (socket s3)"
    using shutdown_pending [OF assms(1) s2(2,3)] by blast
  show ?thesis using b(1) s1(1) s2(1,4) s3 by (simp add: server_onMessage_def line_end_def)
qed

lemma server_keeps_inv:
  assumes "write_ok E" "prints_only E" "tcp_inv s"
  shows "\<exists>s' acts. server_onMessage E s = Inr (s', acts) \<and> tcp_inv s'"
proof -
  have input: "buf_inv (inputBuffer s)" using assms(3) by (simp add: tcp_inv_def stream_inv_def)
  obtain m b where b: "retrieveAllAsString (inputBuffer s) = Inr (m, b)" "buf_inv b"
    using retrieveAllAsString_ok [OF input] by auto
  let ?s = "s\<lparr>inputBuffer := b\<rparr>"
  have s: "tcp_inv ?s" using assms(3) b(2) by (simp add: tcp_inv_def stream_inv_def)
  obtain s1 where s1: "send E data_reply ?s = Inr s1" "tcp_inv s1" using send_printing [OF assms(1,2) s data_lengths(1)] by blast
  obtain s2 where s2: "send E data_end s1 = Inr s2" "tcp_inv s2" using send_printing [OF assms(1,2) s1(2) data_lengths(2)] by blast
  obtain s3 where s3: "shutdown E s2 = Inr s3" "tcp_inv s3" using shutdown_ok [OF assms(1) s2(2)] by blast
  obtain s4 where s4: "shutdown E ?s = Inr s4" "tcp_inv s4" using shutdown_ok [OF assms(1) s] by blast
  show ?thesis
    by (cases "m = ''quit'' @ line_end"; cases "m = ''data'' @ line_end"; cases "m = ''sq'' @ line_end")
      (use b(1) s s1(1) s2(1) s3 s4 in \<open>simp_all add: server_onMessage_def Let_def line_end_def\<close>)
qed

lemma simple_server_env:
  "write_ok (simple_server inet_ntop E) = write_ok E" "prints_only (simple_server inet_ntop E)"
  "connectionCallback (simple_server inet_ntop E) = Some Inr"
  "closeCallback (simple_server inet_ntop E) = closeCallback E"
  by (simp_all add: simple_server_def write_ok_def prints_only_def server_write_complete server_connection Let_def)

lemma simple_server_callbacks:
  assumes "write_ok E" "closeCallback E \<noteq> None" "keeps_inv (closeCallback E)"
  shows "callbacks_ok (simple_server inet_ntop E)"
proof -
  let ?B = "E\<lparr>connectionCallback := Some Inr, writeCompleteCallback := Some Inr\<rparr>"
  have B: "write_ok ?B" "prints_only ?B" using assms(1) by (simp_all add: write_ok_def prints_only_def)
  have m: "messageCallback (simple_server inet_ntop E) = connection_part (server_onMessage ?B)"
    by (simp add: simple_server_def server_write_complete server_connection Let_def)
  have "keeps_inv (connection_part (server_onMessage ?B))"
    using server_keeps_inv [OF B] by (fastforce simp: keeps_inv_def connection_part_def)
  moreover have "writeCompleteCallback (simple_server inet_ntop E) = Some Inr"
    using simple_server_env(2) by (simp add: prints_only_def)
  moreover have "\<not> isWriting (channel s)"
    if "tcp_state s = kDisconnecting" "tcp_inv s" "contents (outputBuffer s) = []" for s :: "'a tcp"
    using that by (simp add: tcp_inv_def)
  ultimately show ?thesis
    using assms(2,3) m simple_server_env(3,4) [of inet_ntop E]
    by (simp add: callbacks_ok_def keeps_inv_def connection_part_def)
qed

section \<open>What the programs do\<close>

lemma simple_server_message:
  "messageCallback (simple_server inet_ntop E) =
     connection_part (server_onMessage (E\<lparr>connectionCallback := Some Inr, writeCompleteCallback := Some Inr\<rparr>))"
  by (simp add: simple_server_def server_write_complete server_connection Let_def)

lemma server_reads:
  assumes "tcp_inv s" "data \<noteq> []"
  shows "\<exists>b. buf_inv b \<and> contents b = contents (inputBuffer s) @ data \<and>
    handleRead (simple_server inet_ntop E) (\<lambda>_. ReadData data) s =
      bindR (server_onMessage (E\<lparr>connectionCallback := Some Inr, writeCompleteCallback := Some Inr\<rparr>) (s\<lparr>inputBuffer := b\<rparr>))
        (\<lambda>(s, acts). Inr s)"
proof -
  have "buf_inv (inputBuffer s)" using assms(1) by (simp add: tcp_inv_def stream_inv_def)
  then obtain b where "readFd (\<lambda>_. ReadData data) (inputBuffer s) = Inr (int (length data), None, b)" "buf_inv b"
    "contents b = contents (inputBuffer s) @ data"
    using readFd_ok [of "inputBuffer s" "\<lambda>_. ReadData data" data] by blast
  with assms(2) show ?thesis
    by (intro exI [of _ b]) (simp add: handleRead_def invoke_def simple_server_message connection_part_def)
qed

text \<open>The buffer of a connection that is closing is emptied and its end announced.\<close>

lemma closing_drains:
  assumes "write_ok E" "prints_only E" and progress: "\<forall>i d. d \<noteq> [] \<longrightarrow> 0 < write_ret E i d"
    and "tcp_inv s" "tcp_state s = kDisconnecting" "contents (outputBuffer s) = [] \<longrightarrow> fin_sent (socket s)"
  shows "\<exists>s'. runR (tcp_step E) (replicate (length (contents (outputBuffer s))) Writable) s = Inr s' \<and>
    wire s' = sent s \<and> contents (outputBuffer s') = [] \<and> fin_sent (socket s')"
proof (cases "contents (outputBuffer s) = []")
  case True
  with assms(4,6) show ?thesis by (auto simp: tcp_inv_def stream_inv_def)
next
  case False
  have "write_ok (unobserved E)" "\<forall>i d. d \<noteq> [] \<longrightarrow> 0 < write_ret (unobserved E) i d"
    using assms(1) progress by (simp_all add: unobserved_ok)
  from output_drains [OF this(1) _ this(2) assms(4) _ False] assms(2,5) show ?thesis
    by (auto simp: prints_only_drain)
qed



text \<open>
  Fact.  The server compares what one read brought with the whole line: when the request arrives in
  two segments, both are thrown away and nothing is answered.
\<close>

theorem split_line_ignored:
  assumes "tcp_inv s" "contents (inputBuffer s) = []" "u \<noteq> []" "v \<noteq> []" "u @ v = ''data'' @ line_end"
  shows "\<exists>s1 s2. handleRead (simple_server inet_ntop E) (\<lambda>_. ReadData u) s = Inr s1 \<and>
    handleRead (simple_server inet_ntop E) (\<lambda>_. ReadData v) s1 = Inr s2 \<and>
    contents (inputBuffer s2) = [] \<and> sent s2 = sent s \<and> tcp_state s2 = tcp_state s"
proof -
  have unknown: "m \<noteq> ''data'' @ line_end \<and> m \<noteq> ''quit'' @ line_end \<and> m \<noteq> ''sq'' @ line_end" if "m = u \<or> m = v" for m
    using that assms(3-5) by (auto simp: line_end_def append_eq_Cons_conv Cons_eq_append_conv)
  have one: "\<exists>s'. handleRead (simple_server inet_ntop E) (\<lambda>_. ReadData m) s = Inr s' \<and> tcp_inv s' \<and>
      contents (inputBuffer s') = [] \<and> sent s' = sent s \<and> tcp_state s' = tcp_state s"
    if m: "m = u \<or> m = v" and s: "tcp_inv s" "contents (inputBuffer s) = []" for m and s :: "'a tcp"
  proof -
    have "m \<noteq> []" using m assms(3,4) by auto
    from server_reads [OF s(1) this] s(2) obtain b where b: "buf_inv b" "contents b = m"
      "handleRead (simple_server inet_ntop E) (\<lambda>_. ReadData m) s =
        bindR (server_onMessage (E\<lparr>connectionCallback := Some Inr, writeCompleteCallback := Some Inr\<rparr>) (s\<lparr>inputBuffer := b\<rparr>))
          (\<lambda>(s, acts). Inr s)"
      by auto
    obtain b' where b': "retrieveAllAsString b = Inr (m, b')" "buf_inv b'" "contents b' = []"
      using retrieveAllAsString_ok [OF b(1)] b(2) by auto
    have "tcp_inv (s\<lparr>inputBuffer := b'\<rparr>)" using s(1) b'(2) by (simp add: tcp_inv_def stream_inv_def)
    then show ?thesis using b(3) b' unknown [OF m] by (simp add: server_onMessage_def)
  qed
  from one [of u s] assms(1,2) obtain s1 where s1: "handleRead (simple_server inet_ntop E) (\<lambda>_. ReadData u) s = Inr s1"
    "tcp_inv s1" "contents (inputBuffer s1) = []" "sent s1 = sent s" "tcp_state s1 = tcp_state s" by auto
  from one [of v s1] s1 show ?thesis by auto
qed

theorem split_line_ignored_witness:
  "\<exists>s1. handleRead (simple_server (\<lambda>_. []) sample_tcp_env) (\<lambda>_. ReadData ''da'') (sample_tcp kConnected 3) = Inr s1"
  using split_line_ignored [OF sample_conn_inv, of "''da''" "''ta'' @ line_end" "\<lambda>_. []" sample_tcp_env]
  by (auto simp: sample_tcp_def contents_def segment_def line_end_def)

text \<open>
  Fact.  Whatever its peer does, a connection of the simple server runs without an error, and what was
  sent is on the wire or in the buffer, in order.
\<close>

theorem simple_server_runs:
  assumes "write_ok E" "closeCallback E \<noteq> None" "keeps_inv (closeCallback E)" "tcp_inv s" "\<forall>p\<in>set ops. fits_int p"
  shows "\<exists>s'. runR (tcp_step (simple_server inet_ntop E)) ops s = Inr s' \<and>
    wire s' @ contents (outputBuffer s') = sent s'"
proof -
  have "write_ok (simple_server inet_ntop E)" using assms(1) by (simp add: simple_server_env)
  from tcp_run_ok [OF this simple_server_callbacks [OF assms(1-3)] assms(4,5)] show ?thesis
    by (auto simp: tcp_inv_def stream_inv_def)
qed

theorem simple_server_runs_witness:
  "\<exists>s'. runR (tcp_step (simple_server (\<lambda>_. []) sample_tcp_env)) [Readable (\<lambda>_. ReadData []), Writable] (sample_tcp kConnected 3) = Inr s'"
proof -
  have "closeCallback sample_tcp_env \<noteq> None" "keeps_inv (closeCallback sample_tcp_env)"
    by (simp_all add: sample_tcp_env_def keeps_inv_def)
  moreover have "\<forall>p\<in>set [Readable (\<lambda>_. ReadData []), Writable]. fits_int p" by simp
  ultimately show ?thesis
    using simple_server_runs [OF sample_tcp_env_ok(1) _ _ sample_conn_inv, of _ "\<lambda>_. []"] by blast
qed

text \<open>Fact.  The client sends its request as soon as it is connected, and quits when the server has closed.\<close>

theorem client_asks_and_quits:
  assumes "write_ok E" "writeCompleteCallback E = None" "tcp_inv s"
  shows "connected s \<Longrightarrow> \<exists>s' acts. client_onConnection inet_ntop E s = Inr (s', acts) \<and> tcp_inv s' \<and>
      accounted E (''data'' @ line_end) s s' \<and> Quit \<notin> set acts"
    and "\<not> connected s \<Longrightarrow> \<exists>acts. client_onConnection inet_ntop E s = Inr (s, acts) \<and> Quit \<in> set acts"
proof -
  have "length (''data'' @ line_end) < 2 ^ 31" by (simp add: line_end_def)
  from send_once [OF assms this] show "connected s \<Longrightarrow> \<exists>s' acts. client_onConnection inet_ntop E s = Inr (s', acts) \<and>
      tcp_inv s' \<and> accounted E (''data'' @ line_end) s s' \<and> Quit \<notin> set acts"
    by (auto simp: client_onConnection_def)
  show "\<not> connected s \<Longrightarrow> \<exists>acts. client_onConnection inet_ntop E s = Inr (s, acts) \<and> Quit \<in> set acts"
    by (simp add: client_onConnection_def)
qed

text \<open>
  Fact.  The HTTP example leaves the response alone for a path that it does not know, so the answer has
  the status code 0.
\<close>

theorem unknown_path_answer:
  assumes "path req \<noteq> ''/''" "path req \<noteq> ''/pageSwitch.html''"
  shows "\<exists>resp. http_main_onRequest file req (new_response False) = Inr resp \<and>
    response_text resp = ''HTTP/1.1 0 '' @ kCRLF @ ''Content-Length: 0'' @ kCRLF @ ''Connection: Keep-Alive'' @ kCRLF @ kCRLF"
proof -
  have "dec_int 0 = ''0''" "dec_nat 0 = ''0''" by code_simp+
  with assms show ?thesis by (simp add: http_main_onRequest_def response_text_def new_response_def)
qed

theorem unknown_path_answer_witness:
  "\<exists>resp. http_main_onRequest None
     \<lparr>req_method = kGet, version = kHttp11, path = ''/x'', query = [], body = [], headers = []\<rparr> (new_response False) = Inr resp"
  using unknown_path_answer [of "\<lparr>req_method = kGet, version = kHttp11, path = ''/x'', query = [], body = [], headers = []\<rparr>" None]
  by auto

end
