(* ===== verification/JsonHeaps.thy ===== *)
theory JsonHeaps
  imports JsonValues
begin

text \<open>
  How \<^verbatim>\<open>examples/procmon/jsonxx.h\<close> and \<^verbatim>\<open>jsonxx.cc\<close> own their memory.  \<open>JsonValues\<close> has the values as
  trees; here a \<^verbatim>\<open>Value\<close>, an \<^verbatim>\<open>Array\<close>, an \<^verbatim>\<open>Object\<close> and the \<^verbatim>\<open>std::string\<close> of a value are cells of a store,
  and the pointers between them are addresses, as in the code.  Every \<^verbatim>\<open>new\<close> takes an address that was
  never used before, so an access to a destroyed cell is the error \<open>UseAfterFree\<close>.  The containers and
  the values of the callers are cells as well.

  Destructors and copy constructors call each other without a bound: \<open>delete_value\<close> and
  \<open>copy_value\<close> have a bound \<open>n\<close> on the depth of these calls, and \<open>None\<close> when it does not suffice.  The
  operations between them take what they do with an element as an argument.
\<close>

section \<open>The store\<close>

type_synonym addr = nat

datatype value_type = NUMBER_T | STRING_T | BOOL_T | NULL_T | ARRAY_T | OBJECT_T | INVALID_T

text \<open>The union of a value; its member functions never read another member than the one \<^verbatim>\<open>type_\<close> names.\<close>

datatype content = UNumber rat | UBool bool | UPtr addr | UNull | Indeterminate

datatype cell =
    CValue value_type content
  | CString string
  | CArray "addr list"
  | CObject "addr string_map" string

record store =
  cells :: "addr \<rightharpoonup> cell"
  fresh :: addr

type_synonym 'a run = "'a res option"

abbreviation ret :: "'a \<Rightarrow> 'a run" where "ret x \<equiv> Some (Inr x)"
abbreviation fail :: "error \<Rightarrow> 'a run" where "fail e \<equiv> Some (Inl e)"

definition bindO :: "'a run \<Rightarrow> ('a \<Rightarrow> 'b run) \<Rightarrow> 'b run" where
  "bindO m f = (case m of None \<Rightarrow> None | Some (Inl e) \<Rightarrow> fail e | Some (Inr x) \<Rightarrow> f x)"

lemma bindO_simps [simp]: "bindO None f = None" "bindO (fail e) f = fail e" "bindO (ret x) f = f x"
  by (simp_all add: bindO_def)

fun run_all :: "('o \<Rightarrow> 's \<Rightarrow> 's run) \<Rightarrow> 'o list \<Rightarrow> 's \<Rightarrow> 's run" where
  "run_all f [] s = ret s"
| "run_all f (x # xs) s = bindO (f x s) (run_all f xs)"

definition alloc :: "cell \<Rightarrow> store \<Rightarrow> addr \<times> store" where
  "alloc c st = (fresh st, st\<lparr>cells := (cells st)(fresh st \<mapsto> c), fresh := Suc (fresh st)\<rparr>)"

definition free_cell :: "addr \<Rightarrow> store \<Rightarrow> store run" where
  "free_cell a st = (if cells st a = None then fail UseAfterFree else ret (st\<lparr>cells := (cells st)(a := None)\<rparr>))"

definition set_cell :: "addr \<Rightarrow> cell \<Rightarrow> store \<Rightarrow> store run" where
  "set_cell a c st = (if cells st a = None then fail UseAfterFree else ret (st\<lparr>cells := (cells st)(a \<mapsto> c)\<rparr>))"

definition read_value :: "addr \<Rightarrow> store \<Rightarrow> (value_type \<times> content) run" where
  "read_value a st = (case cells st a of Some (CValue t u) \<Rightarrow> ret (t, u) | _ \<Rightarrow> fail UseAfterFree)"

definition read_string :: "addr \<Rightarrow> store \<Rightarrow> string run" where
  "read_string a st = (case cells st a of Some (CString s) \<Rightarrow> ret s | _ \<Rightarrow> fail UseAfterFree)"

definition read_array :: "addr \<Rightarrow> store \<Rightarrow> addr list run" where
  "read_array a st = (case cells st a of Some (CArray ps) \<Rightarrow> ret ps | _ \<Rightarrow> fail UseAfterFree)"

definition read_object :: "addr \<Rightarrow> store \<Rightarrow> (addr string_map \<times> string) run" where
  "read_object a st = (case cells st a of Some (CObject m od) \<Rightarrow> ret (m, od) | _ \<Rightarrow> fail UseAfterFree)"

text \<open>\<^verbatim>\<open>*p\<close> for a pointer of the union.\<close>

definition pointee :: "content \<Rightarrow> addr run" where
  "pointee u = (case u of UPtr p \<Rightarrow> ret p | UNull \<Rightarrow> fail NullPointer | _ \<Rightarrow> fail UseAfterFree)"

text \<open>\<^verbatim>\<open>delete p\<close>, where \<^verbatim>\<open>p\<close> may be null: the destructor, then the memory.\<close>

definition delete_ptr :: "(addr \<Rightarrow> store \<Rightarrow> store run) \<Rightarrow> content \<Rightarrow> store \<Rightarrow> store run" where
  "delete_ptr destruct u st =
     (if u = UNull then ret st
      else bindO (pointee u) (\<lambda>p. bindO (destruct p st) (free_cell p)))"

section \<open>Destruction\<close>

definition string_destruct :: "addr \<Rightarrow> store \<Rightarrow> store run" where
  "string_destruct a st = bindO (read_string a st) (\<lambda>_. ret st)"

definition array_reset :: "(addr \<Rightarrow> store \<Rightarrow> store run) \<Rightarrow> addr \<Rightarrow> store \<Rightarrow> store run" where
  "array_reset del a st = bindO (read_array a st) (\<lambda>ps. bindO (run_all del ps st) (set_cell a (CArray [])))"

definition object_reset :: "(addr \<Rightarrow> store \<Rightarrow> store run) \<Rightarrow> addr \<Rightarrow> store \<Rightarrow> store run" where
  "object_reset del a st =
     bindO (read_object a st) (\<lambda>(m, od). bindO (run_all del (map snd m) st) (set_cell a (CObject [] od)))"

text \<open>\<^verbatim>\<open>Value::reset\<close> leaves \<^verbatim>\<open>type_\<close> as it is.\<close>

definition value_reset :: "(addr \<Rightarrow> store \<Rightarrow> store run) \<Rightarrow> addr \<Rightarrow> store \<Rightarrow> store run" where
  "value_reset del a st =
     bindO (read_value a st) (\<lambda>(t, u).
       if t = STRING_T then bindO (delete_ptr string_destruct u st) (set_cell a (CValue t UNull))
       else if t = OBJECT_T then bindO (delete_ptr (object_reset del) u st) (set_cell a (CValue t UNull))
       else if t = ARRAY_T then bindO (delete_ptr (array_reset del) u st) (set_cell a (CValue t UNull))
       else ret st)"

primrec delete_value :: "nat \<Rightarrow> addr \<Rightarrow> store \<Rightarrow> store run" where
  "delete_value 0 a st = None"
| "delete_value (Suc n) a st = bindO (value_reset (delete_value n) a st) (free_cell a)"

section \<open>Copies\<close>

type_synonym copier = "addr \<Rightarrow> store \<Rightarrow> (addr \<times> store) run"

definition push_back :: "addr \<Rightarrow> addr \<Rightarrow> store \<Rightarrow> store run" where
  "push_back a p st = bindO (read_array a st) (\<lambda>ps. set_cell a (CArray (ps @ [p])) st)"

text \<open>\<^verbatim>\<open>values_.push_back( new Value(value) )\<close>\<close>

definition array_import_value :: "copier \<Rightarrow> addr \<Rightarrow> addr \<Rightarrow> store \<Rightarrow> store run" where
  "array_import_value cp a p st = bindO (cp p st) (\<lambda>(q, st). push_back a q st)"

definition array_import_from :: "copier \<Rightarrow> addr \<Rightarrow> addr \<Rightarrow> store \<Rightarrow> store run" where
  "array_import_from cp a other st = bindO (read_array other st) (\<lambda>ps. run_all (array_import_value cp a) ps st)"

text \<open>A temporary copy of the container itself, as in \<^verbatim>\<open>import( Array(*this) )\<close>.\<close>

definition with_copy ::
  "cell \<Rightarrow> (addr \<Rightarrow> addr \<Rightarrow> store \<Rightarrow> store run) \<Rightarrow> (addr \<Rightarrow> store \<Rightarrow> store run) \<Rightarrow> (addr \<Rightarrow> store \<Rightarrow> store run) \<Rightarrow>
   addr \<Rightarrow> store \<Rightarrow> store run" where
  "with_copy empty_cell import destruct f a st =
     (let (tmp, st) = alloc empty_cell st
      in bindO (import tmp a st) (\<lambda>st. bindO (f tmp st) (\<lambda>st. bindO (destruct tmp st) (free_cell tmp))))"

definition array_import ::
  "(addr \<Rightarrow> store \<Rightarrow> store run) \<Rightarrow> copier \<Rightarrow> addr \<Rightarrow> addr \<Rightarrow> store \<Rightarrow> store run" where
  "array_import del cp a other st =
     (if a \<noteq> other then array_import_from cp a other st
      else with_copy (CArray []) (array_import_from cp) (array_reset del) (array_import_from cp a) a st)"

definition array_assign ::
  "(addr \<Rightarrow> store \<Rightarrow> store run) \<Rightarrow> copier \<Rightarrow> addr \<Rightarrow> addr \<Rightarrow> store \<Rightarrow> store run" where
  "array_assign del cp a other st =
     (if a \<noteq> other then bindO (array_reset del a st) (array_import del cp a other) else ret st)"

definition clear_odd :: "addr \<Rightarrow> store \<Rightarrow> store run" where
  "clear_odd a st = bindO (read_object a st) (\<lambda>(m, od). set_cell a (CObject m []) st)"

text \<open>\<^verbatim>\<open>delete found->second\<close> if the key is there, then \<^verbatim>\<open>value_map_[key] = new Value(value)\<close>.\<close>

definition object_put ::
  "(addr \<Rightarrow> store \<Rightarrow> store run) \<Rightarrow> copier \<Rightarrow> addr \<Rightarrow> string \<times> addr \<Rightarrow> store \<Rightarrow> store run" where
  "object_put del cp a kp st =
     bindO (read_object a st) (\<lambda>(m, od).
     bindO (case map_of m (fst kp) of None \<Rightarrow> ret st | Some q \<Rightarrow> del q st) (\<lambda>st.
     bindO (cp (snd kp) st) (\<lambda>(q, st).
     bindO (read_object a st) (\<lambda>(m, od). set_cell a (CObject (map_put (fst kp) q m) od) st))))"

definition object_import_from ::
  "(addr \<Rightarrow> store \<Rightarrow> store run) \<Rightarrow> copier \<Rightarrow> addr \<Rightarrow> addr \<Rightarrow> store \<Rightarrow> store run" where
  "object_import_from del cp a other st =
     bindO (clear_odd a st) (\<lambda>st.
     bindO (read_object other st) (\<lambda>(m, od). run_all (object_put del cp a) m st))"

definition object_import ::
  "(addr \<Rightarrow> store \<Rightarrow> store run) \<Rightarrow> copier \<Rightarrow> addr \<Rightarrow> addr \<Rightarrow> store \<Rightarrow> store run" where
  "object_import del cp a other st =
     (if a \<noteq> other then object_import_from del cp a other st
      else bindO (clear_odd a st)
        (with_copy (CObject [] []) (object_import_from del cp) (object_reset del) (object_import_from del cp a) a))"

definition object_assign ::
  "(addr \<Rightarrow> store \<Rightarrow> store run) \<Rightarrow> copier \<Rightarrow> addr \<Rightarrow> addr \<Rightarrow> store \<Rightarrow> store run" where
  "object_assign del cp a other st =
     bindO (clear_odd a st) (\<lambda>st.
       if a \<noteq> other then bindO (object_reset del a st) (object_import del cp a other) else ret st)"

text \<open>The overloads of \<^verbatim>\<open>Value::import\<close>; that of an array takes the address of the array, and so on.\<close>

definition set_type :: "addr \<Rightarrow> value_type \<Rightarrow> store \<Rightarrow> store run" where
  "set_type a t st = bindO (read_value a st) (\<lambda>(_, u). set_cell a (CValue t u) st)"

definition value_import_unsupported :: "(addr \<Rightarrow> store \<Rightarrow> store run) \<Rightarrow> addr \<Rightarrow> store \<Rightarrow> store run" where
  "value_import_unsupported del a st = bindO (value_reset del a st) (set_type a INVALID_T)"

definition value_import_bool :: "(addr \<Rightarrow> store \<Rightarrow> store run) \<Rightarrow> addr \<Rightarrow> bool \<Rightarrow> store \<Rightarrow> store run" where
  "value_import_bool del a b st = bindO (value_reset del a st) (set_cell a (CValue BOOL_T (UBool b)))"

definition value_import_number :: "(addr \<Rightarrow> store \<Rightarrow> store run) \<Rightarrow> addr \<Rightarrow> rat \<Rightarrow> store \<Rightarrow> store run" where
  "value_import_number del a x st = bindO (value_reset del a st) (set_cell a (CValue NUMBER_T (UNumber x)))"

definition value_import_null :: "(addr \<Rightarrow> store \<Rightarrow> store run) \<Rightarrow> addr \<Rightarrow> store \<Rightarrow> store run" where
  "value_import_null del a st = bindO (value_reset del a st) (set_type a NULL_T)"

definition value_import_string :: "(addr \<Rightarrow> store \<Rightarrow> store run) \<Rightarrow> addr \<Rightarrow> addr \<Rightarrow> store \<Rightarrow> store run" where
  "value_import_string del a str st =
     bindO (value_reset del a st) (\<lambda>st.
       let (p, st) = alloc (CString []) st
       in bindO (set_cell a (CValue STRING_T (UPtr p)) st) (\<lambda>st.
          bindO (read_string str st) (\<lambda>s. set_cell p (CString s) st)))"

definition value_import_array ::
  "(addr \<Rightarrow> store \<Rightarrow> store run) \<Rightarrow> copier \<Rightarrow> addr \<Rightarrow> addr \<Rightarrow> store \<Rightarrow> store run" where
  "value_import_array del cp a arr st =
     bindO (value_reset del a st) (\<lambda>st.
       let (p, st) = alloc (CArray []) st
       in bindO (set_cell a (CValue ARRAY_T (UPtr p)) st) (array_assign del cp p arr))"

definition value_import_object ::
  "(addr \<Rightarrow> store \<Rightarrow> store run) \<Rightarrow> copier \<Rightarrow> addr \<Rightarrow> addr \<Rightarrow> store \<Rightarrow> store run" where
  "value_import_object del cp a ob st =
     bindO (value_reset del a st) (\<lambda>st.
       let (p, st) = alloc (CObject [] []) st
       in bindO (set_cell a (CValue OBJECT_T (UPtr p)) st) (object_assign del cp p ob))"

text \<open>
  \<^verbatim>\<open>import( const Value &other )\<close>.  The type and the union of a value go together, so the cases of a
  number and of a boolean value find one.  Note that an invalid value is imported without \<^verbatim>\<open>reset()\<close>.
\<close>

definition value_import ::
  "(addr \<Rightarrow> store \<Rightarrow> store run) \<Rightarrow> copier \<Rightarrow> addr \<Rightarrow> addr \<Rightarrow> store \<Rightarrow> store run" where
  "value_import del cp a other st =
     (if a = other then ret st
      else bindO (read_value other st) (\<lambda>(t, u). case t of
        NULL_T \<Rightarrow> value_import_null del a st
      | BOOL_T \<Rightarrow> (case u of UBool b \<Rightarrow> value_import_bool del a b st | _ \<Rightarrow> fail UseAfterFree)
      | NUMBER_T \<Rightarrow> (case u of UNumber x \<Rightarrow> value_import_number del a x st | _ \<Rightarrow> fail UseAfterFree)
      | STRING_T \<Rightarrow> bindO (pointee u) (\<lambda>p. value_import_string del a p st)
      | ARRAY_T \<Rightarrow> bindO (pointee u) (\<lambda>p. value_import_array del cp a p st)
      | OBJECT_T \<Rightarrow> bindO (pointee u) (\<lambda>p. value_import_object del cp a p st)
      | INVALID_T \<Rightarrow> set_type a INVALID_T st))"

text \<open>\<^verbatim>\<open>new Value( other )\<close>\<close>

primrec copy_value :: "nat \<Rightarrow> copier" where
  "copy_value 0 other st = None"
| "copy_value (Suc n) other st =
     (let (a, st) = alloc (CValue INVALID_T Indeterminate) st
      in bindO (value_import (delete_value n) (copy_value n) a other st) (\<lambda>st. ret (a, st)))"

section \<open>The other operations\<close>

text \<open>A value made of an array or an object, as in \<^verbatim>\<open>new Value(other)\<close>, by the import that belongs to it.\<close>

definition new_value_of :: "(addr \<Rightarrow> store \<Rightarrow> store run) \<Rightarrow> store \<Rightarrow> (addr \<times> store) run" where
  "new_value_of import st =
     (let (a, st) = alloc (CValue INVALID_T Indeterminate) st in bindO (import a st) (\<lambda>st. ret (a, st)))"

definition array_append_from ::
  "(addr \<Rightarrow> store \<Rightarrow> store run) \<Rightarrow> copier \<Rightarrow> addr \<Rightarrow> addr \<Rightarrow> store \<Rightarrow> store run" where
  "array_append_from del cp a other st =
     bindO (new_value_of (\<lambda>v. value_import_array del cp v other) st) (\<lambda>(p, st). push_back a p st)"

definition array_append ::
  "(addr \<Rightarrow> store \<Rightarrow> store run) \<Rightarrow> copier \<Rightarrow> addr \<Rightarrow> addr \<Rightarrow> store \<Rightarrow> store run" where
  "array_append del cp a other st =
     (if a \<noteq> other then array_append_from del cp a other st
      else with_copy (CArray []) (array_import_from cp) (array_reset del) (array_append_from del cp a) a st)"

definition array_assign_value ::
  "(addr \<Rightarrow> store \<Rightarrow> store run) \<Rightarrow> copier \<Rightarrow> addr \<Rightarrow> addr \<Rightarrow> store \<Rightarrow> store run" where
  "array_assign_value del cp a p st = bindO (array_reset del a st) (array_import_value cp a p)"

definition object_import_member ::
  "(addr \<Rightarrow> store \<Rightarrow> store run) \<Rightarrow> copier \<Rightarrow> addr \<Rightarrow> string \<Rightarrow> addr \<Rightarrow> store \<Rightarrow> store run" where
  "object_import_member del cp a key p st = bindO (clear_odd a st) (object_put del cp a (key, p))"

text \<open>\<^verbatim>\<open>o << value\<close> and \<^verbatim>\<open>o << object\<close>\<close>

definition object_shift_value ::
  "(addr \<Rightarrow> store \<Rightarrow> store run) \<Rightarrow> copier \<Rightarrow> addr \<Rightarrow> addr \<Rightarrow> store \<Rightarrow> store run" where
  "object_shift_value del cp a p st =
     bindO (read_object a st) (\<lambda>(m, od).
       if od = []
       then bindO (read_value p st) (\<lambda>(t, u).
              if t \<noteq> STRING_T then fail AssertionFailed
              else bindO (pointee u) (\<lambda>q. bindO (read_string q st) (\<lambda>s. set_cell a (CObject m s) st)))
       else let (tmp, st) = alloc (CObject [] []) st
            in bindO (object_import_member del cp tmp od p st) (\<lambda>st.
               bindO (object_import del cp a tmp st) (\<lambda>st.
               bindO (object_reset del tmp st) (\<lambda>st.
               bindO (free_cell tmp st) (clear_odd a)))))"

definition object_shift_object ::
  "(addr \<Rightarrow> store \<Rightarrow> store run) \<Rightarrow> copier \<Rightarrow> addr \<Rightarrow> addr \<Rightarrow> store \<Rightarrow> store run" where
  "object_shift_object del cp a other st =
     bindO (read_object a st) (\<lambda>(m, od).
     bindO (new_value_of (\<lambda>v. value_import_object del cp v other) st) (\<lambda>(tmp, st).
     bindO (object_import_member del cp a od tmp st) (\<lambda>st.
     bindO (value_reset del tmp st) (\<lambda>st.
     bindO (free_cell tmp st) (clear_odd a)))))"

text \<open>
  \<^verbatim>\<open>Value\<close> declares a copy constructor and a destructor but no copy assignment, so that of the compiler
  copies the type and the union.  The assignment from a container is the template.
\<close>

definition value_copy_assign :: "addr \<Rightarrow> addr \<Rightarrow> store \<Rightarrow> store run" where
  "value_copy_assign a other st = bindO (read_value other st) (\<lambda>(t, u). set_cell a (CValue t u) st)"

definition value_assign_array ::
  "(addr \<Rightarrow> store \<Rightarrow> store run) \<Rightarrow> copier \<Rightarrow> addr \<Rightarrow> addr \<Rightarrow> store \<Rightarrow> store run" where
  "value_assign_array del cp a arr st = bindO (value_reset del a st) (value_import_array del cp a arr)"

text \<open>Sizes, and the values that own nothing although their type says so.\<close>

definition array_size_at :: "addr \<Rightarrow> store \<Rightarrow> nat run" where
  "array_size_at a st = bindO (read_array a st) (\<lambda>ps. ret (length ps))"

definition array_empty_at :: "addr \<Rightarrow> store \<Rightarrow> bool run" where
  "array_empty_at a st = bindO (read_array a st) (\<lambda>ps. ret (length ps = 0))"

definition object_size_at :: "addr \<Rightarrow> store \<Rightarrow> nat run" where
  "object_size_at a st = bindO (read_object a st) (\<lambda>(m, od). ret (length m))"

definition object_empty_at :: "addr \<Rightarrow> store \<Rightarrow> bool run" where
  "object_empty_at a st = bindO (read_object a st) (\<lambda>(m, od). ret (length m = 0))"

definition value_empty_at :: "addr \<Rightarrow> store \<Rightarrow> bool run" where
  "value_empty_at a st = bindO (read_value a st) (\<lambda>(t, u).
     ret (t = INVALID_T \<or> (t = STRING_T \<and> u = UNull) \<or> (t = ARRAY_T \<and> u = UNull) \<or> (t = OBJECT_T \<and> u = UNull)))"

end
