(* ===== verification/JsonOwnership.thy ===== *)
theory JsonOwnership
  imports JsonHeaps
begin

text \<open>
  The memory of the JSON values, compared with the trees of \<open>JsonValues\<close>.  \<open>value_at\<close> relates an address
  to the value that it represents and to its footprint, the cells that it owns; nothing is owned twice.
  \<open>becomes\<close> is how an operation changes the store: the memory that it was given becomes the memory
  that it leaves, new cells are fresh, what is not there any more is freed and nothing else changes.
\<close>

section \<open>Footprints\<close>

inductive value_at :: "(addr \<rightharpoonup> cell) \<Rightarrow> addr \<Rightarrow> json \<Rightarrow> addr set \<Rightarrow> bool"
  and values_at :: "(addr \<rightharpoonup> cell) \<Rightarrow> addr list \<Rightarrow> json list \<Rightarrow> addr set \<Rightarrow> bool" for h where
  NumberAt: "h a = Some (CValue NUMBER_T (UNumber x)) \<Longrightarrow> value_at h a (NUMBER x) {a}"
| BoolAt: "h a = Some (CValue BOOL_T (UBool b)) \<Longrightarrow> value_at h a (BOOL b) {a}"
| NullAt: "h a = Some (CValue NULL_T u) \<Longrightarrow> value_at h a NULL {a}"
| InvalidAt: "h a = Some (CValue INVALID_T u) \<Longrightarrow> value_at h a INVALID {a}"
| StringAt: "h a = Some (CValue STRING_T (UPtr p)) \<Longrightarrow> h p = Some (CString s) \<Longrightarrow> value_at h a (STRING s) {a, p}"
| ArrayAt: "h a = Some (CValue ARRAY_T (UPtr p)) \<Longrightarrow> h p = Some (CArray ps) \<Longrightarrow> values_at h ps vs F \<Longrightarrow>
    p \<notin> F \<Longrightarrow> a \<notin> F \<Longrightarrow> value_at h a (ARRAY vs) (insert a (insert p F))"
| ObjectAt: "h a = Some (CValue OBJECT_T (UPtr p)) \<Longrightarrow> h p = Some (CObject pm od) \<Longrightarrow> map fst pm = map fst m \<Longrightarrow>
    values_at h (map snd pm) (map snd m) F \<Longrightarrow> p \<notin> F \<Longrightarrow> a \<notin> F \<Longrightarrow>
    value_at h a (OBJECT m) (insert a (insert p F))"
| NoneAt: "values_at h [] [] {}"
| MoreAt: "value_at h p v F \<Longrightarrow> values_at h ps vs G \<Longrightarrow> F \<inter> G = {} \<Longrightarrow> values_at h (p # ps) (v # vs) (F \<union> G)"

inductive_cases numberE: "value_at h a (NUMBER x) F"
inductive_cases boolE: "value_at h a (BOOL b) F"
inductive_cases nullE: "value_at h a NULL F"
inductive_cases invalidE: "value_at h a INVALID F"
inductive_cases stringE: "value_at h a (STRING s) F"
inductive_cases arrayE: "value_at h a (ARRAY vs) F"
inductive_cases objectE: "value_at h a (OBJECT m) F"

inductive_simps values_at_Nil [simp]: "values_at h ps [] F"
inductive_simps values_at_Cons: "values_at h ps (v # vs) F"

lemmas value_cases = numberE boolE nullE invalidE stringE arrayE objectE

definition array_owned :: "(addr \<rightharpoonup> cell) \<Rightarrow> addr \<Rightarrow> json list \<Rightarrow> addr set \<Rightarrow> bool" where
  "array_owned h p vs F \<longleftrightarrow> (\<exists>ps G. h p = Some (CArray ps) \<and> values_at h ps vs G \<and> p \<notin> G \<and> F = insert p G)"

definition members_at :: "(addr \<rightharpoonup> cell) \<Rightarrow> addr string_map \<Rightarrow> json string_map \<Rightarrow> addr set \<Rightarrow> bool" where
  "members_at h pm m F \<longleftrightarrow> map fst pm = map fst m \<and> values_at h (map snd pm) (map snd m) F"

definition object_owned :: "(addr \<rightharpoonup> cell) \<Rightarrow> addr \<Rightarrow> json_object \<Rightarrow> addr set \<Rightarrow> bool" where
  "object_owned h p ob F \<longleftrightarrow>
     (\<exists>pm G. h p = Some (CObject pm (odd_key ob)) \<and> members_at h pm (value_map ob) G \<and> p \<notin> G \<and> F = insert p G)"

lemma values_at_dom:
  shows "value_at h a v F \<Longrightarrow> a \<in> F \<and> F \<subseteq> dom h" and "values_at h ps vs G \<Longrightarrow> G \<subseteq> dom h"
  by (induction rule: value_at_values_at.inducts) auto

lemma value_at_dom: "value_at h a v F \<Longrightarrow> a \<in> F" "value_at h a v F \<Longrightarrow> F \<subseteq> dom h"
  using values_at_dom(1) by blast+

lemma frame_both:
  shows "value_at h a v F \<Longrightarrow> (\<And>x. x \<in> F \<Longrightarrow> h' x = h x) \<Longrightarrow> value_at h' a v F"
    and "values_at h ps vs G \<Longrightarrow> (\<And>x. x \<in> G \<Longrightarrow> h' x = h x) \<Longrightarrow> values_at h' ps vs G"
proof (induction rule: value_at_values_at.inducts)
  case (ArrayAt a p ps vs F)
  then show ?case by (intro value_at_values_at.ArrayAt) auto
next
  case (ObjectAt a p pm od m F)
  then show ?case by (intro value_at_values_at.ObjectAt [where pm = pm and od = od]) auto
qed (auto intro: value_at_values_at.intros)

lemmas value_at_frame = frame_both(1)
lemmas values_at_frame = frame_both(2)

lemma array_owned_dom: "array_owned h p vs F \<Longrightarrow> p \<in> F \<and> F \<subseteq> dom h"
  using values_at_dom(2) by (fastforce simp: array_owned_def)

lemma object_owned_dom: "object_owned h p ob F \<Longrightarrow> p \<in> F \<and> F \<subseteq> dom h"
  using values_at_dom(2) by (fastforce simp: object_owned_def members_at_def)

lemma array_owned_frame: "array_owned h p vs F \<Longrightarrow> (\<And>x. x \<in> F \<Longrightarrow> h' x = h x) \<Longrightarrow> array_owned h' p vs F"
  using values_at_frame [of h _ vs _ h'] by (fastforce simp: array_owned_def)

lemma object_owned_frame: "object_owned h p ob F \<Longrightarrow> (\<And>x. x \<in> F \<Longrightarrow> h' x = h x) \<Longrightarrow> object_owned h' p ob F"
  using values_at_frame [of h _ "map snd (value_map ob)" _ h'] by (fastforce simp: object_owned_def members_at_def)

text \<open>The value that holds a container, and the container.\<close>

lemma array_value_at:
  "value_at h a (ARRAY vs) F \<longleftrightarrow> (\<exists>p G. h a = Some (CValue ARRAY_T (UPtr p)) \<and> array_owned h p vs G \<and> a \<notin> G \<and> F = insert a G)"
  (is "_ \<longleftrightarrow> ?R")
proof
  assume "value_at h a (ARRAY vs) F"
  then obtain p ps G where "h a = Some (CValue ARRAY_T (UPtr p))" "h p = Some (CArray ps)" "values_at h ps vs G"
    "p \<notin> G" "a \<notin> G" "F = insert a (insert p G)" by (rule arrayE)
  then show ?R by (intro exI [of _ p] exI [of _ "insert p G"]) (auto simp: array_owned_def)
next
  assume ?R
  then show "value_at h a (ARRAY vs) F" unfolding array_owned_def by (metis ArrayAt insertCI)
qed

lemma object_value_at:
  "value_at h a (OBJECT m) F \<longleftrightarrow>
     (\<exists>p od G. h a = Some (CValue OBJECT_T (UPtr p)) \<and> object_owned h p \<lparr>value_map = m, odd_key = od\<rparr> G \<and> a \<notin> G \<and> F = insert a G)"
  (is "_ \<longleftrightarrow> ?R")
proof
  assume "value_at h a (OBJECT m) F"
  then obtain p pm od G where "h a = Some (CValue OBJECT_T (UPtr p))" "h p = Some (CObject pm od)" "map fst pm = map fst m"
    "values_at h (map snd pm) (map snd m) G" "p \<notin> G" "a \<notin> G" "F = insert a (insert p G)" by (rule objectE)
  then show ?R by (intro exI [of _ p] exI [of _ od] exI [of _ "insert p G"]) (auto simp: object_owned_def members_at_def)
next
  assume ?R
  then obtain p od G where R: "h a = Some (CValue OBJECT_T (UPtr p))" "object_owned h p \<lparr>value_map = m, odd_key = od\<rparr> G"
    "a \<notin> G" "F = insert a G" by blast
  then obtain pm H where "h p = Some (CObject pm od)" "map fst pm = map fst m"
    "values_at h (map snd pm) (map snd m) H" "p \<notin> H" "G = insert p H"
    by (auto simp: object_owned_def members_at_def)
  with ObjectAt [OF R(1) this(1-4)] R(3,4) show "value_at h a (OBJECT m) F" by simp
qed

section \<open>How the store changes\<close>

definition store_ok :: "store \<Rightarrow> bool" where
  "store_ok st \<longleftrightarrow> (\<forall>x\<ge>fresh st. cells st x = None)"

definition becomes :: "store \<Rightarrow> addr set \<Rightarrow> store \<Rightarrow> addr set \<Rightarrow> bool" where
  "becomes st F st' F' \<longleftrightarrow> fresh st \<le> fresh st' \<and> store_ok st' \<and> (\<forall>x\<in>F' - F. fresh st \<le> x) \<and>
     (\<forall>x. x \<notin> F \<union> F' \<longrightarrow> cells st' x = cells st x) \<and> (\<forall>x\<in>F - F'. cells st' x = None)"

lemma becomes_ok: "becomes st F st' F' \<Longrightarrow> store_ok st'"
  by (simp add: becomes_def)

lemma becomes_refl: "store_ok st \<Longrightarrow> becomes st F st F"
  by (simp add: becomes_def)

lemma becomes_trans:
  assumes "store_ok st" "becomes st F st1 F1" "becomes st1 F1 st2 F2"
  shows "becomes st F st2 F2"
  unfolding becomes_def
proof (intro conjI ballI allI impI)
  fix x
  show "fresh st \<le> x" if "x \<in> F2 - F"
  proof (cases "x \<in> F1")
    case False
    then have "fresh st1 \<le> x" using assms(3) that by (simp add: becomes_def)
    then show ?thesis using assms(2) by (simp add: becomes_def)
  qed (use assms(2) that in \<open>simp add: becomes_def\<close>)
  show "cells st2 x = cells st x" if "x \<notin> F \<union> F2"
    using assms that by (cases "x \<in> F1") (auto simp: becomes_def store_ok_def)
  show "cells st2 x = None" if "x \<in> F - F2"
    using assms that by (cases "x \<in> F1") (auto simp: becomes_def)
qed (use assms in \<open>auto simp: becomes_def\<close>)

lemma live_below: "store_ok st \<Longrightarrow> R \<subseteq> dom (cells st) \<Longrightarrow> x \<in> R \<Longrightarrow> x < fresh st"
  by (force simp: store_ok_def not_le [symmetric])

lemma becomes_apart:
  assumes "store_ok st" "becomes st F st' F'" "F \<inter> R = {}" "R \<subseteq> dom (cells st)"
  shows "F' \<inter> R = {}" "\<And>x. x \<in> R \<Longrightarrow> cells st' x = cells st x"
proof -
  show *: "F' \<inter> R = {}"
  proof (rule ccontr)
    assume "F' \<inter> R \<noteq> {}"
    then obtain x where x: "x \<in> F'" "x \<in> R" by blast
    then have "fresh st \<le> x" using assms(2,3) by (auto simp: becomes_def)
    then show False using live_below [OF assms(1,4) x(2)] by simp
  qed
  show "\<And>x. x \<in> R \<Longrightarrow> cells st' x = cells st x" using * assms(2,3) by (auto simp: becomes_def)
qed

lemma becomes_frame:
  assumes "store_ok st" "becomes st F st' F'" "F \<inter> R = {}" "R \<subseteq> dom (cells st)"
  shows "becomes st (F \<union> R) st' (F' \<union> R)"
  using becomes_apart [OF assms] assms(2) by (auto simp: becomes_def)

lemma value_at_apart:
  assumes "store_ok st" "becomes st F st' F'" "value_at (cells st) r v R" "F \<inter> R = {}"
  shows "value_at (cells st') r v R" "F' \<inter> R = {}"
  using becomes_apart [OF assms(1,2,4)] value_at_dom [OF assms(3)] value_at_frame [OF assms(3)] by blast+

lemma values_at_apart:
  assumes "store_ok st" "becomes st F st' F'" "values_at (cells st) ps vs R" "F \<inter> R = {}"
  shows "values_at (cells st') ps vs R" "F' \<inter> R = {}"
  using becomes_apart [OF assms(1,2,4)] values_at_dom(2) [OF assms(3)] values_at_frame [OF assms(3)] by blast+

lemma alloc_becomes: "store_ok st \<Longrightarrow> alloc c st = (a, st') \<Longrightarrow> becomes st {} st' {a} \<and> cells st' a = Some c"
  by (auto simp: alloc_def becomes_def store_ok_def)

lemma set_cell_ok:
  assumes "store_ok st" "cells st a \<noteq> None" "a \<in> F"
  obtains st' where "set_cell a c st = ret st'" "becomes st F st' F" "cells st' = (cells st)(a \<mapsto> c)"
proof
  show "set_cell a c st = ret (st\<lparr>cells := (cells st)(a \<mapsto> c)\<rparr>)" using assms(2) by (simp add: set_cell_def)
  show "becomes st F (st\<lparr>cells := (cells st)(a \<mapsto> c)\<rparr>) F" using assms by (auto simp: becomes_def store_ok_def)
qed simp

lemma free_cell_ok:
  assumes "store_ok st" "cells st a \<noteq> None"
  shows "\<exists>st'. free_cell a st = ret st' \<and> becomes st {a} st' {}"
  using assms by (auto simp: free_cell_def becomes_def store_ok_def)

section \<open>Destruction\<close>

definition deletes :: "(addr \<Rightarrow> store \<Rightarrow> store run) \<Rightarrow> json \<Rightarrow> bool" where
  "deletes del v \<longleftrightarrow> (\<forall>st a F. store_ok st \<longrightarrow> value_at (cells st) a v F \<longrightarrow>
     (\<exists>st'. del a st = ret st' \<and> becomes st F st' {}))"

lemma run_all_deletes:
  assumes "store_ok st" "values_at (cells st) ps vs F" "\<forall>v\<in>set vs. deletes del v"
  shows "\<exists>st'. run_all del ps st = ret st' \<and> becomes st F st' {}"
  using assms
proof (induction vs arbitrary: ps st F)
  case (Cons v vs)
  then obtain p ps' G H where p: "ps = p # ps'" "value_at (cells st) p v G" "values_at (cells st) ps' vs H" "G \<inter> H = {}" "F = G \<union> H"
    by (auto simp: values_at_Cons)
  obtain st1 where st1: "del p st = ret st1" "becomes st G st1 {}"
    using Cons.prems(1,3) p(2) by (fastforce simp: deletes_def)
  have "values_at (cells st1) ps' vs H" using values_at_apart [OF Cons.prems(1) st1(2) p(3,4)] by simp
  then obtain st2 where st2: "run_all del ps' st1 = ret st2" "becomes st1 H st2 {}"
    using Cons.IH [OF becomes_ok [OF st1(2)]] Cons.prems(3) by (meson list.set_intros(2))
  have "becomes st (G \<union> H) st1 H"
    using becomes_frame [OF Cons.prems(1) st1(2) p(4) values_at_dom(2) [OF p(3)]] by simp
  from becomes_trans [OF Cons.prems(1) this st2(2)] show ?case using p(1,5) st1(1) st2(1) by simp
qed (auto intro: becomes_refl)

lemma array_reset_ok:
  assumes "store_ok st" "array_owned (cells st) a vs F" "\<forall>v\<in>set vs. deletes del v"
  shows "\<exists>st'. array_reset del a st = ret st' \<and> array_owned (cells st') a [] {a} \<and> becomes st F st' {a}"
proof -
  obtain ps G where a: "cells st a = Some (CArray ps)" "values_at (cells st) ps vs G" "a \<notin> G" "F = insert a G"
    using assms(2) by (auto simp: array_owned_def)
  obtain st1 where st1: "run_all del ps st = ret st1" "becomes st G st1 {}"
    using run_all_deletes [OF assms(1) a(2) assms(3)] by blast
  have b: "becomes st F st1 {a}" "cells st1 a \<noteq> None"
    using becomes_frame [OF assms(1) st1(2), of "{a}"] becomes_apart(2) [OF assms(1) st1(2), of "{a}" a] a by auto
  obtain st2 where "set_cell a (CArray []) st1 = ret st2" "becomes st1 {a} st2 {a}" "cells st2 a = Some (CArray [])"
    by (rule set_cell_ok [OF becomes_ok [OF b(1)] b(2), of "{a}" "CArray []"]) auto
  with becomes_trans [OF assms(1) b(1)] a(1) st1(1) show ?thesis by (auto simp: array_reset_def read_array_def array_owned_def)
qed

lemma object_reset_ok:
  assumes "store_ok st" "object_owned (cells st) a ob F" "\<forall>v\<in>snd ` set (value_map ob). deletes del v"
  shows "\<exists>st'. object_reset del a st = ret st' \<and> object_owned (cells st') a (reset_object ob) {a} \<and> becomes st F st' {a}"
proof -
  obtain pm G where a: "cells st a = Some (CObject pm (odd_key ob))"
    "values_at (cells st) (map snd pm) (map snd (value_map ob)) G" "a \<notin> G" "F = insert a G"
    using assms(2) by (auto simp: object_owned_def members_at_def)
  obtain st1 where st1: "run_all del (map snd pm) st = ret st1" "becomes st G st1 {}"
    using run_all_deletes [OF assms(1) a(2)] assms(3) by auto
  have b: "becomes st F st1 {a}" "cells st1 a \<noteq> None"
    using becomes_frame [OF assms(1) st1(2), of "{a}"] becomes_apart(2) [OF assms(1) st1(2), of "{a}" a] a by auto
  obtain st2 where "set_cell a (CObject [] (odd_key ob)) st1 = ret st2" "becomes st1 {a} st2 {a}"
    "cells st2 a = Some (CObject [] (odd_key ob))"
    by (rule set_cell_ok [OF becomes_ok [OF b(1)] b(2), of "{a}" "CObject [] (odd_key ob)"]) auto
  with becomes_trans [OF assms(1) b(1)] a(1) st1(1) show ?thesis
    by (auto simp: object_reset_def read_object_def object_owned_def members_at_def reset_object_def)
qed

section \<open>Containers\<close>

text \<open>
  What arrays and objects have in common: they can be emptied and they can take copies of what another
  container holds.  From these two operations come deletion, assignment and the import of the container
  into itself, which the code does through a temporary copy.
\<close>

locale container =
  fixes holds :: "(addr \<rightharpoonup> cell) \<Rightarrow> addr \<Rightarrow> 'a \<Rightarrow> addr set \<Rightarrow> bool"
    and empty_cell :: cell and empty_val :: 'a
    and cleared :: "'a \<Rightarrow> 'a" and merge :: "'a \<Rightarrow> 'a \<Rightarrow> 'a" and good :: "'a \<Rightarrow> bool"
    and reset :: "addr \<Rightarrow> store \<Rightarrow> store run" and import_from :: "addr \<Rightarrow> addr \<Rightarrow> store \<Rightarrow> store run"
  assumes holds_dom: "holds h a x F \<Longrightarrow> a \<in> F \<and> F \<subseteq> dom h"
    and holds_frame: "holds h a x F \<Longrightarrow> (\<And>y. y \<in> F \<Longrightarrow> h' y = h y) \<Longrightarrow> holds h' a x F"
    and holds_empty: "h a = Some empty_cell \<Longrightarrow> holds h a empty_val {a}"
    and good_empty: "good empty_val"
    and good_cleared: "good x \<Longrightarrow> good (cleared x)"
    and good_merge: "good x \<Longrightarrow> good y \<Longrightarrow> good (merge x y)"
    and reset_ok: "store_ok st \<Longrightarrow> holds (cells st) a x F \<Longrightarrow> good x \<Longrightarrow>
      \<exists>st'. reset a st = ret st' \<and> holds (cells st') a (cleared x) {a} \<and> becomes st F st' {a}"
    and import_ok: "store_ok st \<Longrightarrow> holds (cells st) a x F \<Longrightarrow> holds (cells st) b y H \<Longrightarrow> F \<inter> H = {} \<Longrightarrow>
      good x \<Longrightarrow> good y \<Longrightarrow>
      \<exists>st' F'. import_from a b st = ret st' \<and> holds (cells st') a (merge x y) F' \<and> becomes st F st' F'"
begin

lemma holds_apart:
  assumes "store_ok st" "becomes st F st' F'" "holds (cells st) b y H" "F \<inter> H = {}"
  shows "holds (cells st') b y H" "F' \<inter> H = {}"
  using becomes_apart [OF assms(1,2,4)] holds_dom [OF assms(3)] holds_frame [OF assms(3)] by blast+

lemma delete_ok:
  assumes "store_ok st" "holds (cells st) a x F" "good x"
  shows "\<exists>st'. bindO (reset a st) (free_cell a) = ret st' \<and> becomes st F st' {}"
proof -
  obtain st1 where st1: "reset a st = ret st1" "holds (cells st1) a (cleared x) {a}" "becomes st F st1 {a}"
    using reset_ok [OF assms] by blast
  then have "cells st1 a \<noteq> None" using holds_dom by fastforce
  from free_cell_ok [OF becomes_ok [OF st1(3)] this] becomes_trans [OF assms(1) st1(3)] st1(1) show ?thesis by auto
qed

lemma assign_ok:
  assumes "store_ok st" "holds (cells st) a x F" "holds (cells st) b y H" "F \<inter> H = {}" "good x" "good y"
  shows "\<exists>st' F'. bindO (reset a st) (import_from a b) = ret st' \<and>
    holds (cells st') a (merge (cleared x) y) F' \<and> becomes st F st' F'"
proof -
  obtain st1 where st1: "reset a st = ret st1" "holds (cells st1) a (cleared x) {a}" "becomes st F st1 {a}"
    using reset_ok [OF assms(1,2,5)] by blast
  note b = holds_apart [OF assms(1) st1(3) assms(3,4)]
  obtain st2 F' where "import_from a b st1 = ret st2" "holds (cells st2) a (merge (cleared x) y) F'" "becomes st1 {a} st2 F'"
    using import_ok [OF becomes_ok [OF st1(3)] st1(2) b good_cleared [OF assms(5)] assms(6)] by blast
  with becomes_trans [OF assms(1) st1(3)] st1(1) show ?thesis by auto
qed

lemma with_copy_ok:
  assumes st: "store_ok st" "holds (cells st) a x F" "good x"
    and f: "\<And>tmp st T. store_ok st \<Longrightarrow> holds (cells st) a x F \<Longrightarrow> holds (cells st) tmp (merge empty_val x) T \<Longrightarrow> F \<inter> T = {} \<Longrightarrow>
      \<exists>st' F'. f tmp st = ret st' \<and> holds (cells st') a z F' \<and> becomes st F st' F'"
  shows "\<exists>st' F'. with_copy empty_cell import_from reset f a st = ret st' \<and> holds (cells st') a z F' \<and> becomes st F st' F'"
proof -
  obtain tmp st1 where st1: "alloc empty_cell st = (tmp, st1)" by force
  have a1: "becomes st {} st1 {tmp}" "cells st1 tmp = Some empty_cell" using alloc_becomes [OF st(1) st1] by auto
  have t1: "holds (cells st1) tmp empty_val {tmp}" using holds_empty a1(2) by blast
  have x1: "holds (cells st1) a x F" "{tmp} \<inter> F = {}" using holds_apart [OF st(1) a1(1) st(2)] by auto
  obtain st2 T where st2: "import_from tmp a st1 = ret st2" "holds (cells st2) tmp (merge empty_val x) T" "becomes st1 {tmp} st2 T"
    using import_ok [OF becomes_ok [OF a1(1)] t1 x1 good_empty st(3)] by blast
  have x2: "holds (cells st2) a x F" "F \<inter> T = {}"
    using holds_apart [OF becomes_ok [OF a1(1)] st2(3) x1] by (auto simp: Int_commute)
  obtain st3 F' where st3: "f tmp st2 = ret st3" "holds (cells st3) a z F'" "becomes st2 F st3 F'"
    using f [OF becomes_ok [OF st2(3)] x2(1) st2(2) x2(2)] by blast
  have t3: "holds (cells st3) tmp (merge empty_val x) T" "F' \<inter> T = {}"
    using holds_apart [OF becomes_ok [OF st2(3)] st3(3) st2(2) x2(2)] by auto
  obtain st4 where st4: "bindO (reset tmp st3) (free_cell tmp) = ret st4" "becomes st3 T st4 {}"
    using delete_ok [OF becomes_ok [OF st3(3)] t3(1) good_merge [OF good_empty st(3)]] by blast
  have x4: "holds (cells st4) a z F'"
    using holds_apart [OF becomes_ok [OF st3(3)] st4(2) st3(2)] t3(2) by (auto simp: Int_commute)
  have "becomes st F st1 ({tmp} \<union> F)"
    using becomes_frame [OF st(1) a1(1), of F] holds_dom [OF st(2)] by simp
  moreover have "becomes st1 ({tmp} \<union> F) st2 (T \<union> F)"
    using becomes_frame [OF becomes_ok [OF a1(1)] st2(3), of F] holds_dom [OF x1(1)] x1(2) by simp
  moreover have "becomes st2 (T \<union> F) st3 (T \<union> F')"
    using becomes_frame [OF becomes_ok [OF st2(3)] st3(3), of T] holds_dom [OF st2(2)] x2(2) by (simp add: Un_commute)
  moreover have "becomes st3 (T \<union> F') st4 F'"
    using becomes_frame [OF becomes_ok [OF st3(3)] st4(2), of F'] holds_dom [OF st3(2)] t3(2) by (simp add: Int_commute)
  ultimately have "becomes st F st4 F'" using becomes_trans [OF st(1)] by blast
  then show ?thesis using st1 st2(1) st3(1) st4(1) x4 by (auto simp: with_copy_def)
qed

lemma self_import_ok:
  assumes "store_ok st" "holds (cells st) a x F" "good x"
  shows "\<exists>st' F'. with_copy empty_cell import_from reset (import_from a) a st = ret st' \<and>
    holds (cells st') a (merge x (merge empty_val x)) F' \<and> becomes st F st' F'"
  using import_ok good_merge good_empty assms(3) by (intro with_copy_ok [OF assms]) blast

end

section \<open>Arrays\<close>

definition copies :: "copier \<Rightarrow> json \<Rightarrow> bool" where
  "copies cp v \<longleftrightarrow> (\<forall>st b F. store_ok st \<longrightarrow> value_at (cells st) b v F \<longrightarrow>
     (\<exists>a st' G. cp b st = ret (a, st') \<and> value_at (cells st') a v G \<and> becomes st {} st' G))"

lemma values_at_snoc:
  "values_at h ps vs F \<Longrightarrow> value_at h p v G \<Longrightarrow> F \<inter> G = {} \<Longrightarrow> values_at h (ps @ [p]) (vs @ [v]) (F \<union> G)"
proof (induction vs arbitrary: ps F)
  case Nil
  then show ?case using MoreAt [OF Nil(2) NoneAt] by simp
next
  case (Cons w vs)
  then obtain q qs A B where "ps = q # qs" "value_at h q w A" "values_at h qs vs B" "A \<inter> B = {}" "F = A \<union> B"
    by (auto simp: values_at_Cons)
  with Cons.IH [of qs B] Cons.prems MoreAt [of h q w A "qs @ [p]" "vs @ [v]" "B \<union> G"] show ?case
    by (auto simp: Un_assoc)
qed

lemma push_back_ok:
  assumes "store_ok st" "array_owned (cells st) a ws F" "value_at (cells st) q v G" "F \<inter> G = {}"
  shows "\<exists>st'. push_back a q st = ret st' \<and> array_owned (cells st') a (ws @ [v]) (F \<union> G) \<and> becomes st (F \<union> G) st' (F \<union> G)"
proof -
  obtain ps H where a: "cells st a = Some (CArray ps)" "values_at (cells st) ps ws H" "a \<notin> H" "F = insert a H"
    using assms(2) by (auto simp: array_owned_def)
  obtain st' where st': "set_cell a (CArray (ps @ [q])) st = ret st'" "becomes st (F \<union> G) st' (F \<union> G)"
    "cells st' = (cells st)(a \<mapsto> CArray (ps @ [q]))"
    using a(1,4) by (rule_tac set_cell_ok [OF assms(1), of a "F \<union> G"]) auto
  have "values_at (cells st') (ps @ [q]) (ws @ [v]) (H \<union> G)"
    using values_at_frame [OF values_at_snoc [OF a(2) assms(3)]] a(3,4) assms(4) st'(3) by fastforce
  then show ?thesis using st' a assms(4) by (auto simp: push_back_def read_array_def array_owned_def)
qed

text \<open>The element may be one of the array itself.\<close>

lemma array_import_value_ok:
  assumes "store_ok st" "array_owned (cells st) a ws F" "value_at (cells st) p v H" "copies cp v"
  shows "\<exists>st' F'. array_import_value cp a p st = ret st' \<and> array_owned (cells st') a (ws @ [v]) F' \<and> becomes st F st' F'"
proof -
  obtain q st1 G where st1: "cp p st = ret (q, st1)" "value_at (cells st1) q v G" "becomes st {} st1 G"
    using assms(1,3,4) unfolding copies_def by blast
  have F: "F \<subseteq> dom (cells st)" using array_owned_dom [OF assms(2)] by simp
  have a1: "array_owned (cells st1) a ws F" "G \<inter> F = {}"
    using becomes_apart [OF assms(1) st1(3) _ F] array_owned_frame [OF assms(2)] by auto
  obtain st2 where "push_back a q st1 = ret st2" "array_owned (cells st2) a (ws @ [v]) (F \<union> G)" "becomes st1 (F \<union> G) st2 (F \<union> G)"
    using push_back_ok [OF becomes_ok [OF st1(3)] a1(1) st1(2)] a1(2) by (auto simp: Int_commute)
  moreover have "becomes st F st1 (F \<union> G)" using becomes_frame [OF assms(1) st1(3) _ F] by (simp add: Un_commute)
  ultimately show ?thesis using st1(1) becomes_trans [OF assms(1)] by (fastforce simp: array_import_value_def)
qed

lemma array_import_all:
  assumes "store_ok st" "array_owned (cells st) a ws F" "values_at (cells st) ps vs H" "F \<inter> H = {}" "\<forall>v\<in>set vs. copies cp v"
  shows "\<exists>st' F'. run_all (array_import_value cp a) ps st = ret st' \<and> array_owned (cells st') a (ws @ vs) F' \<and> becomes st F st' F'"
  using assms
proof (induction vs arbitrary: ps st ws F H)
  case Nil
  then show ?case using becomes_refl by auto
next
  case (Cons v vs)
  then obtain p qs A B where p: "ps = p # qs" "value_at (cells st) p v A" "values_at (cells st) qs vs B" "H = A \<union> B"
    by (auto simp: values_at_Cons)
  obtain st1 F1 where st1: "array_import_value cp a p st = ret st1" "array_owned (cells st1) a (ws @ [v]) F1" "becomes st F st1 F1"
    using array_import_value_ok [OF Cons.prems(1,2) p(2), of cp] Cons.prems(5) by auto
  have "values_at (cells st1) qs vs B" "F1 \<inter> B = {}"
    using values_at_apart [OF Cons.prems(1) st1(3) p(3)] Cons.prems(4) p(4) by auto
  from Cons.IH [OF becomes_ok [OF st1(3)] st1(2) this] Cons.prems(5) obtain st2 F2 where
    "run_all (array_import_value cp a) qs st1 = ret st2" "array_owned (cells st2) a (ws @ v # vs) F2" "becomes st1 F1 st2 F2"
    by auto
  then show ?case using p(1) st1(1) becomes_trans [OF Cons.prems(1) st1(3)] by auto
qed

abbreviation good_array :: "(addr \<Rightarrow> store \<Rightarrow> store run) \<Rightarrow> copier \<Rightarrow> json list \<Rightarrow> bool" where
  "good_array del cp vs \<equiv> \<forall>v\<in>set vs. deletes del v \<and> copies cp v"

lemma array_import_from_ok:
  assumes "store_ok st" "array_owned (cells st) a ws F" "array_owned (cells st) b vs H" "F \<inter> H = {}" "\<forall>v\<in>set vs. copies cp v"
  shows "\<exists>st' F'. array_import_from cp a b st = ret st' \<and> array_owned (cells st') a (ws @ vs) F' \<and> becomes st F st' F'"
proof -
  obtain ps G where b: "cells st b = Some (CArray ps)" "values_at (cells st) ps vs G" "H = insert b G"
    using assms(3) by (auto simp: array_owned_def)
  from array_import_all [OF assms(1,2) b(2) _ assms(5)] assms(4) b(1,3) show ?thesis
    by (simp add: array_import_from_def read_array_def)
qed

interpretation array: container array_owned "CArray []" "[]" "\<lambda>_. []" "(@)" "good_array del cp" "array_reset del" "array_import_from cp"
  for del cp
proof
  show "array_owned h a x F \<Longrightarrow> a \<in> F \<and> F \<subseteq> dom h" for h a x F by (rule array_owned_dom)
  show "array_owned h a x F \<Longrightarrow> (\<And>y. y \<in> F \<Longrightarrow> h' y = h y) \<Longrightarrow> array_owned h' a x F" for h a x F h' by (rule array_owned_frame)
  show "store_ok st \<Longrightarrow> array_owned (cells st) a x F \<Longrightarrow> good_array del cp x \<Longrightarrow>
      \<exists>st'. array_reset del a st = ret st' \<and> array_owned (cells st') a [] {a} \<and> becomes st F st' {a}" for st a x F
    by (rule array_reset_ok) auto
  show "store_ok st \<Longrightarrow> array_owned (cells st) a x F \<Longrightarrow> array_owned (cells st) b y H \<Longrightarrow> F \<inter> H = {} \<Longrightarrow>
      good_array del cp x \<Longrightarrow> good_array del cp y \<Longrightarrow>
      \<exists>st' F'. array_import_from cp a b st = ret st' \<and> array_owned (cells st') a (x @ y) F' \<and> becomes st F st' F'"
    for st a x F b y H by (rule array_import_from_ok) auto
qed (auto simp: array_owned_def)

section \<open>Objects\<close>

lemma members_at_Nil: "members_at h pm [] F \<longleftrightarrow> pm = [] \<and> F = {}"
  by (auto simp: members_at_def)

lemma members_at_Cons:
  "members_at h pm ((k, v) # m) F \<longleftrightarrow>
     (\<exists>p pm' A B. pm = (k, p) # pm' \<and> value_at h p v A \<and> members_at h pm' m B \<and> A \<inter> B = {} \<and> F = A \<union> B)"
  by (fastforce simp: members_at_def values_at_Cons map_eq_Cons_conv)

lemma members_frame: "members_at h pm m F \<Longrightarrow> (\<And>x. x \<in> F \<Longrightarrow> h' x = h x) \<Longrightarrow> members_at h' pm m F"
  using values_at_frame [of h _ _ F h'] by (simp add: members_at_def)

text \<open>
  The memory of the members is that of the member with the given key, if there is one, and the rest.  A
  new value for the key, with memory of its own, replaces the former.
\<close>

lemma members_put:
  assumes "members_at h pm m G" "ordered m"
  shows "\<exists>A B. G = A \<union> B \<and> A \<inter> B = {} \<and>
    (case map_of m k of None \<Rightarrow> map_of pm k = None \<and> A = {}
     | Some w \<Rightarrow> (\<exists>q. map_of pm k = Some q \<and> value_at h q w A)) \<and>
    (\<forall>h' q v H. (\<forall>x\<in>B. h' x = h x) \<longrightarrow> value_at h' q v H \<longrightarrow> B \<inter> H = {} \<longrightarrow>
       members_at h' (map_put k q pm) (map_put k v m) (B \<union> H))"
  using assms
proof (induction m arbitrary: pm G)
  case Nil
  then show ?case by (auto simp: members_at_Nil members_at_Cons)
next
  case (Cons km m)
  obtain k' w where km: "km = (k', w)" by force
  from Cons.prems(1) obtain p pm' C D where p: "pm = (k', p) # pm'" "value_at h p w C" "members_at h pm' m D" "C \<inter> D = {}" "G = C \<union> D"
    unfolding km members_at_Cons by blast
  have m: "ordered m" "\<forall>x\<in>fst ` set m. k' < x" using Cons.prems(2) by (auto simp: km ordered_Cons)
  have keys: "map fst pm' = map fst m" using p(3) by (simp add: members_at_def)
  consider "k < k'" | "k = k'" | "k' < k" by fastforce
  then show ?case
  proof cases
    case 1
    then have "map_of m k = None" "map_of pm' k = None" using m(2) keys by (force simp: map_of_eq_None_iff simp flip: set_map)+
    moreover have "members_at h' ((k, q) # pm) ((k, v) # km # m) (G \<union> H)"
      if "\<forall>x\<in>G. h' x = h x" "value_at h' q v H" "G \<inter> H = {}" for h' q v H
      using members_frame [OF Cons.prems(1), of h'] that by (auto simp: members_at_Cons [of h' _ k])
    ultimately show ?thesis using 1 by (rule_tac exI [of _ "{}"], rule_tac exI [of _ G]) (auto simp: km p(1))
  next
    case 2
    have "members_at h' ((k, q) # pm') ((k, v) # m) (D \<union> H)"
      if "\<forall>x\<in>D. h' x = h x" "value_at h' q v H" "D \<inter> H = {}" for h' q v H
      using members_frame [OF p(3), of h'] that by (auto simp: members_at_Cons)
    then show ?thesis using 2 p(2,4,5) by (rule_tac exI [of _ C], rule_tac exI [of _ D]) (auto simp: km p(1))
  next
    case 3
    from Cons.IH [OF p(3) m(1)] obtain A B where AB: "D = A \<union> B" "A \<inter> B = {}"
      "case map_of m k of None \<Rightarrow> map_of pm' k = None \<and> A = {}
       | Some w \<Rightarrow> (\<exists>q. map_of pm' k = Some q \<and> value_at h q w A)"
      "\<And>h' q v H. (\<forall>x\<in>B. h' x = h x) \<Longrightarrow> value_at h' q v H \<Longrightarrow> B \<inter> H = {} \<Longrightarrow>
         members_at h' (map_put k q pm') (map_put k v m) (B \<union> H)" by blast
    have "members_at h' ((k', p) # map_put k q pm') ((k', w) # map_put k v m) (C \<union> B \<union> H)"
      if h': "\<forall>x\<in>C \<union> B. h' x = h x" "value_at h' q v H" "(C \<union> B) \<inter> H = {}" for h' q v H
    proof -
      have "value_at h' p w C" using value_at_frame [OF p(2)] h'(1) by blast
      moreover have "members_at h' (map_put k q pm') (map_put k v m) (B \<union> H)" using AB(4) h' by blast
      ultimately show ?thesis using p(4) AB(1) h'(3) by (auto simp: members_at_Cons Un_assoc)
    qed
    moreover have "\<not> k < k'" "k \<noteq> k'" using 3 by auto
    ultimately show ?thesis using AB(1-3) p(4,5) by (rule_tac exI [of _ A], rule_tac exI [of _ "C \<union> B"]) (auto simp: km p(1) split: option.splits)
  qed
qed

abbreviation with_member :: "string \<Rightarrow> json \<Rightarrow> json_object \<Rightarrow> json_object" where
  "with_member k v ob \<equiv> ob\<lparr>value_map := map_put k v (value_map ob)\<rparr>"

lemma object_put_ok:
  assumes "store_ok st" "object_owned (cells st) a ob F" "value_at (cells st) p v H" "F \<inter> H = {}"
    and "ordered (value_map ob)" "copies cp v" "\<forall>w\<in>snd ` set (value_map ob). deletes del w"
  shows "\<exists>st' F'. object_put del cp a (k, p) st = ret st' \<and> object_owned (cells st') a (with_member k v ob) F' \<and> becomes st F st' F'"
proof -
  obtain pm G where a: "cells st a = Some (CObject pm (odd_key ob))" "members_at (cells st) pm (value_map ob) G"
    "a \<notin> G" "F = insert a G"
    using assms(2) by (auto simp: object_owned_def)
  from members_put [OF a(2) assms(5), of k] obtain A B where AB: "G = A \<union> B" "A \<inter> B = {}"
    "case map_of (value_map ob) k of None \<Rightarrow> map_of pm k = None \<and> A = {}
     | Some w \<Rightarrow> (\<exists>q. map_of pm k = Some q \<and> value_at (cells st) q w A)"
    "\<And>h' q v H. (\<forall>x\<in>B. h' x = cells st x) \<Longrightarrow> value_at h' q v H \<Longrightarrow> B \<inter> H = {} \<Longrightarrow>
       members_at h' (map_put k q pm) (map_put k v (value_map ob)) (B \<union> H)" by blast
  have dom: "insert a B \<subseteq> dom (cells st)" using object_owned_dom [OF assms(2)] a(4) AB(1) by auto
  obtain st1 where st1: "(case map_of pm k of None \<Rightarrow> ret st | Some q \<Rightarrow> del q st) = ret st1" "becomes st A st1 {}"
  proof (cases "map_of (value_map ob) k")
    case None
    with AB(3) that [of st] becomes_refl [OF assms(1)] show ?thesis by auto
  next
    case (Some w)
    then have "deletes del w" using assms(7) map_of_SomeD by force
    with Some AB(3) that assms(1) show ?thesis by (fastforce simp: deletes_def)
  qed
  have keep1: "\<And>x. x \<in> insert a B \<Longrightarrow> cells st1 x = cells st x"
    using becomes_apart(2) [OF assms(1) st1(2) _ dom] AB(1,2) a(3) by auto
  have "value_at (cells st1) p v H"
    using value_at_apart(1) [OF assms(1) st1(2) assms(3)] AB(1) a(4) assms(4) by auto
  then obtain q st2 C where st2: "cp p st1 = ret (q, st2)" "value_at (cells st2) q v C" "becomes st1 {} st2 C"
    using assms(6) becomes_ok [OF st1(2)] by (fastforce simp: copies_def)
  have dom1: "insert a B \<subseteq> dom (cells st1)" using dom keep1 by (auto simp: dom_def)
  have keep2: "\<And>x. x \<in> insert a B \<Longrightarrow> cells st2 x = cells st x" and C: "C \<inter> insert a B = {}"
    using becomes_apart [OF becomes_ok [OF st1(2)] st2(3) _ dom1] keep1 by auto
  let ?c = "CObject (map_put k q pm) (odd_key ob)"
  let ?F = "insert a (B \<union> C)"
  obtain st3 where st3: "set_cell a ?c st2 = ret st3" "becomes st2 ?F st3 ?F" "cells st3 = (cells st2)(a \<mapsto> ?c)"
    using keep2 [of a] a(1) by (rule_tac set_cell_ok [OF becomes_ok [OF st2(3)], of a ?F ?c]) auto
  have "\<forall>x\<in>B. cells st3 x = cells st x" using keep2 st3(3) a(3) AB(1) by auto
  moreover have "value_at (cells st3) q v C" using value_at_frame [OF st2(2)] C st3(3) by fastforce
  ultimately have "members_at (cells st3) (map_put k q pm) (map_put k v (value_map ob)) (B \<union> C)"
    using C by (intro AB(4)) auto
  moreover have "cells st3 a = Some ?c" "a \<notin> B \<union> C" using C a(3) AB(1) st3(3) by auto
  ultimately have "object_owned (cells st3) a (with_member k v ob) ?F" unfolding object_owned_def by auto
  moreover have "becomes st F st3 ?F"
  proof -
    have "becomes st F st1 (insert a B)"
      using becomes_frame [OF assms(1) st1(2) _ dom] AB(1,2) a(3,4) by auto
    moreover have "becomes st1 (insert a B) st2 ?F"
      using becomes_frame [OF becomes_ok [OF st1(2)] st2(3) _ dom1] by (simp add: Un_commute)
    ultimately show ?thesis using st3(2) becomes_trans [OF assms(1)] by blast
  qed
  ultimately show ?thesis using a(1) keep2 [of a] st1(1) st2(1) st3(1)
    by (auto simp: object_put_def read_object_def)
qed

lemma set_odd_ok:
  assumes "store_ok st" "object_owned (cells st) a ob F"
  shows "\<exists>pm st'. read_object a st = ret (pm, odd_key ob) \<and> set_cell a (CObject pm s) st = ret st' \<and>
    object_owned (cells st') a (ob\<lparr>odd_key := s\<rparr>) F \<and> becomes st F st' F"
proof -
  obtain pm G where a: "cells st a = Some (CObject pm (odd_key ob))" "members_at (cells st) pm (value_map ob) G"
    "a \<notin> G" "F = insert a G"
    using assms(2) by (auto simp: object_owned_def)
  obtain st' where st': "set_cell a (CObject pm s) st = ret st'" "becomes st F st' F" "cells st' = (cells st)(a \<mapsto> CObject pm s)"
    using a(1,4) by (rule_tac set_cell_ok [OF assms(1), of a F "CObject pm s"]) auto
  have "members_at (cells st') pm (value_map ob) G" using members_frame [OF a(2)] a(3) st'(3) by fastforce
  then show ?thesis using a st' by (auto simp: read_object_def object_owned_def)
qed

lemma clear_odd_ok:
  assumes "store_ok st" "object_owned (cells st) a ob F"
  shows "\<exists>st'. clear_odd a st = ret st' \<and> object_owned (cells st') a (ob\<lparr>odd_key := []\<rparr>) F \<and> becomes st F st' F"
  using set_odd_ok [OF assms, of "[]"] by (auto simp: clear_odd_def)

abbreviation with_members :: "json string_map \<Rightarrow> json_object \<Rightarrow> json_object" where
  "with_members kvs ob \<equiv> ob\<lparr>value_map := foldl (\<lambda>m (k, v). map_put k v m) (value_map ob) kvs\<rparr>"

lemma object_put_all:
  assumes "store_ok st" "object_owned (cells st) a ob F" "members_at (cells st) pm m H" "F \<inter> H = {}"
    and "ordered (value_map ob)" "\<forall>v\<in>snd ` (set m). copies cp v \<and> deletes del v" "\<forall>w\<in>snd ` set (value_map ob). deletes del w"
  shows "\<exists>st' F'. run_all (object_put del cp a) pm st = ret st' \<and> object_owned (cells st') a (with_members m ob) F' \<and> becomes st F st' F'"
  using assms
proof (induction m arbitrary: pm st ob F H)
  case Nil
  then show ?case using becomes_refl by (auto simp: members_at_Nil)
next
  case (Cons kv m)
  obtain k v where kv: "kv = (k, v)" by force
  from Cons.prems(3) obtain p pm' A B where p: "pm = (k, p) # pm'" "value_at (cells st) p v A" "members_at (cells st) pm' m B" "H = A \<union> B"
    unfolding kv members_at_Cons by blast
  obtain st1 F1 where st1: "object_put del cp a (k, p) st = ret st1" "object_owned (cells st1) a (with_member k v ob) F1" "becomes st F st1 F1"
    using object_put_ok [OF Cons.prems(1,2) p(2) _ Cons.prems(5) _ Cons.prems(7), of cp k] Cons.prems(4,6) p(4) by (auto simp: kv)
  have B: "values_at (cells st) (map snd pm') (map snd m) B" "map fst pm' = map fst m" using p(3) by (simp_all add: members_at_def)
  have rest: "members_at (cells st1) pm' m B" "F1 \<inter> B = {}"
    using values_at_apart [OF Cons.prems(1) st1(3) B(1)] B(2) Cons.prems(4) p(4) by (auto simp: members_at_def)
  have "\<forall>w\<in>snd ` set (value_map (with_member k v ob)). deletes del w"
    using set_map_put [of k v "value_map ob"] Cons.prems(6,7) by (auto simp: kv)
  from Cons.IH [OF becomes_ok [OF st1(3)] st1(2) rest _ _ this] Cons.prems(5,6) obtain st2 F2 where
    "run_all (object_put del cp a) pm' st1 = ret st2" "object_owned (cells st2) a (with_members (kv # m) ob) F2" "becomes st1 F1 st2 F2"
    by (auto simp: kv)
  then show ?case using p(1) st1(1) becomes_trans [OF Cons.prems(1) st1(3)] by auto
qed

definition good_object :: "(addr \<Rightarrow> store \<Rightarrow> store run) \<Rightarrow> copier \<Rightarrow> json_object \<Rightarrow> bool" where
  "good_object del cp ob \<longleftrightarrow> ordered (value_map ob) \<and> (\<forall>v\<in>snd ` set (value_map ob). copies cp v \<and> deletes del v)"

lemma object_import_from_ok:
  assumes "store_ok st" "object_owned (cells st) a ob F" "object_owned (cells st) b y H" "F \<inter> H = {}"
    and "good_object del cp ob" "good_object del cp y"
  shows "\<exists>st' F'. object_import_from del cp a b st = ret st' \<and> object_owned (cells st') a (import_object y ob) F' \<and> becomes st F st' F'"
proof -
  obtain st1 where st1: "clear_odd a st = ret st1" "object_owned (cells st1) a (ob\<lparr>odd_key := []\<rparr>) F" "becomes st F st1 F"
    using clear_odd_ok [OF assms(1,2)] by blast
  have "object_owned (cells st1) b y H"
    using becomes_apart [OF assms(1) st1(3) assms(4)] object_owned_dom [OF assms(3)] object_owned_frame [OF assms(3)] by blast
  then obtain pm G where b: "cells st1 b = Some (CObject pm (odd_key y))" "members_at (cells st1) pm (value_map y) G" "H = insert b G"
    by (auto simp: object_owned_def)
  have "F \<inter> G = {}" using assms(4) b(3) by blast
  from object_put_all [OF becomes_ok [OF st1(3)] st1(2) b(2) this, of cp del] assms(5,6) obtain st2 F2 where
    "run_all (object_put del cp a) pm st1 = ret st2"
    "object_owned (cells st2) a (with_members (value_map y) (ob\<lparr>odd_key := []\<rparr>)) F2" "becomes st1 F st2 F2"
    by (auto simp: good_object_def)
  with st1(1) b(1) becomes_trans [OF assms(1) st1(3)] show ?thesis
    by (auto simp: object_import_from_def read_object_def import_object_def)
qed

lemma good_with_members:
  "ordered m \<Longrightarrow> \<forall>v\<in>snd ` set m. P v \<Longrightarrow> \<forall>v\<in>snd ` set kvs. P v \<Longrightarrow>
   ordered (foldl (\<lambda>m (k, v). map_put k v m) m kvs) \<and> (\<forall>v\<in>snd ` set (foldl (\<lambda>m (k, v). map_put k v m) m kvs). P v)"
proof (induction kvs arbitrary: m)
  case (Cons kv kvs)
  obtain k v where kv: "kv = (k, v)" by force
  have "\<forall>v\<in>snd ` set (map_put k v m). P v" using set_map_put [of k v m] Cons.prems(2,3) by (auto simp: kv)
  with Cons.IH [of "map_put k v m"] Cons.prems(1,3) show ?case by (simp add: kv)
qed simp

lemma good_import:
  assumes "good_object del cp x" "good_object del cp y"
  shows "good_object del cp (import_object y x)"
proof -
  have x: "ordered (value_map x)" "\<forall>v\<in>snd ` set (value_map x). copies cp v \<and> deletes del v"
    and y: "\<forall>v\<in>snd ` set (value_map y). copies cp v \<and> deletes del v"
    using assms unfolding good_object_def by blast+
  have eq: "value_map (import_object y x) = foldl (\<lambda>m (k, v). map_put k v m) (value_map x) (value_map y)"
    by (simp add: import_object_def)
  show ?thesis unfolding good_object_def eq by (rule good_with_members [OF x y])
qed

interpretation object: container object_owned "CObject [] []" new_object reset_object "\<lambda>x y. import_object y x" "good_object del cp"
  "object_reset del" "object_import_from del cp"
  for del cp
proof
  show "object_owned h a x F \<Longrightarrow> a \<in> F \<and> F \<subseteq> dom h" for h a x F by (rule object_owned_dom)
  show "object_owned h a x F \<Longrightarrow> (\<And>y. y \<in> F \<Longrightarrow> h' y = h y) \<Longrightarrow> object_owned h' a x F" for h a x F h' by (rule object_owned_frame)
  show "store_ok st \<Longrightarrow> object_owned (cells st) a x F \<Longrightarrow> good_object del cp x \<Longrightarrow>
      \<exists>st'. object_reset del a st = ret st' \<and> object_owned (cells st') a (reset_object x) {a} \<and> becomes st F st' {a}" for st a x F
    by (rule object_reset_ok) (auto simp: good_object_def)
  show "store_ok st \<Longrightarrow> object_owned (cells st) a x F \<Longrightarrow> object_owned (cells st) b y H \<Longrightarrow> F \<inter> H = {} \<Longrightarrow>
      good_object del cp x \<Longrightarrow> good_object del cp y \<Longrightarrow>
      \<exists>st' F'. object_import_from del cp a b st = ret st' \<and> object_owned (cells st') a (import_object y x) F' \<and> becomes st F st' F'"
    for st a x F b y H by (rule object_import_from_ok)
  show "good_object del cp x \<Longrightarrow> good_object del cp y \<Longrightarrow> good_object del cp (import_object y x)" for x y
    by (rule good_import)
qed (auto simp: object_owned_def members_at_Nil new_object_def good_object_def reset_object_def)

section \<open>Values\<close>

fun children :: "json \<Rightarrow> json list" where
  "children (ARRAY vs) = vs"
| "children (OBJECT m) = map snd m"
| "children _ = []"

lemma children_smaller: "w \<in> set (children v) \<Longrightarrow> size w < size v"
proof (cases v)
  case (ARRAY vs)
  then show "w \<in> set (children v) \<Longrightarrow> size w < size v" by (simp add: less_Suc_eq_le size_list_estimation')
next
  case (OBJECT m)
  show "size w < size v" if w: "w \<in> set (children v)"
  proof -
    obtain k where "(k, w) \<in> set m" using w OBJECT by auto
    then have "size_prod (\<lambda>x. 0) size (k, w) \<le> size_list (size_prod (\<lambda>x. 0) size) m"
      by (intro size_list_estimation') auto
    then show ?thesis using OBJECT by simp
  qed
qed auto

lemma delete_ptr_simps [simp]: "delete_ptr destruct (UPtr p) st = bindO (destruct p st) (free_cell p)"
  by (simp add: delete_ptr_def pointee_def)

lemma bindO_assoc: "bindO (bindO m f) g = bindO m (\<lambda>x. bindO (f x) g)"
  by (auto simp: bindO_def split: option.split sum.split)

text \<open>The destructor of what a value points to, and the null pointer after it.\<close>

lemma reset_pointer:
  assumes st: "store_ok st" "cells st a \<noteq> None" "a \<notin> G"
    and del: "bindO (destruct p st) (free_cell p) = ret st1" "becomes st G st1 {}"
  shows "\<exists>st'. bindO (delete_ptr destruct (UPtr p) st) (set_cell a c) = ret st' \<and> cells st' a = Some c \<and>
    becomes st (insert a G) st' {a}"
proof -
  have *: "cells st1 a = cells st a" "becomes st (insert a G) st1 {a}"
    using becomes_apart(2) [OF st(1) del(2), of "{a}"] becomes_frame [OF st(1) del(2), of "{a}"] st(2,3) by auto
  then obtain st2 where "set_cell a c st1 = ret st2" "becomes st1 {a} st2 {a}" "cells st2 = (cells st1)(a \<mapsto> c)"
    using st(2) by (rule_tac set_cell_ok [OF becomes_ok [OF del(2)], of a "{a}" c]) auto
  then show ?thesis using del(1) becomes_trans [OF st(1) *(2)] by (auto simp: bindO_assoc)
qed

lemma value_reset_ok:
  assumes "store_ok st" "value_at (cells st) a v F" "\<forall>w\<in>set (children v). deletes del w"
  shows "\<exists>st' t u. value_reset del a st = ret st' \<and> cells st' a = Some (CValue t u) \<and> becomes st F st' {a}"
proof (cases v)
  case (STRING s)
  with assms(2) obtain p where p: "cells st a = Some (CValue STRING_T (UPtr p))" "cells st p = Some (CString s)" "F = {a, p}"
    by (auto elim: stringE)
  then have "a \<notin> {p}" by auto
  obtain st1 where "free_cell p st = ret st1" "becomes st {p} st1 {}" using free_cell_ok [OF assms(1), of p] p(2) by auto
  with reset_pointer [OF assms(1) _ \<open>a \<notin> {p}\<close>, of string_destruct p st1 "CValue STRING_T UNull"] p show ?thesis
    by (auto simp: value_reset_def read_value_def string_destruct_def read_string_def)
next
  case (ARRAY vs)
  with assms(2) obtain p G where p: "cells st a = Some (CValue ARRAY_T (UPtr p))" "array_owned (cells st) p vs G" "a \<notin> G" "F = insert a G"
    by (auto simp: array_value_at)
  from array_reset_ok [OF assms(1) p(2)] assms(3) ARRAY obtain st1 where
    st1: "array_reset del p st = ret st1" "array_owned (cells st1) p [] {p}" "becomes st G st1 {p}" by auto
  obtain st2 where "free_cell p st1 = ret st2" "becomes st1 {p} st2 {}"
    using free_cell_ok [OF becomes_ok [OF st1(3)], of p] st1(2) by (auto simp: array_owned_def)
  with reset_pointer [OF assms(1) _ p(3), of "array_reset del" p st2 "CValue ARRAY_T UNull"] st1(1)
    becomes_trans [OF assms(1) st1(3)] p show ?thesis by (auto simp: value_reset_def read_value_def)
next
  case (OBJECT m)
  with assms(2) obtain p od G where p: "cells st a = Some (CValue OBJECT_T (UPtr p))"
    "object_owned (cells st) p \<lparr>value_map = m, odd_key = od\<rparr> G" "a \<notin> G" "F = insert a G"
    by (auto simp: object_value_at)
  from object_reset_ok [OF assms(1) p(2)] assms(3) OBJECT obtain st1 where
    st1: "object_reset del p st = ret st1" "object_owned (cells st1) p (reset_object \<lparr>value_map = m, odd_key = od\<rparr>) {p}" "becomes st G st1 {p}"
    by auto
  obtain st2 where "free_cell p st1 = ret st2" "becomes st1 {p} st2 {}"
    using free_cell_ok [OF becomes_ok [OF st1(3)], of p] st1(2) by (auto simp: object_owned_def)
  with reset_pointer [OF assms(1) _ p(3), of "object_reset del" p st2 "CValue OBJECT_T UNull"] st1(1)
    becomes_trans [OF assms(1) st1(3)] p show ?thesis by (auto simp: value_reset_def read_value_def)
qed (use assms(2) becomes_refl [OF assms(1), of "{a}"] in
    \<open>auto simp: value_reset_def read_value_def elim: numberE boolE nullE invalidE\<close>)

lemma delete_value_deletes: "size v < n \<Longrightarrow> deletes (delete_value n) v"
proof (induction n arbitrary: v)
  case (Suc n)
  have "\<forall>w\<in>set (children v). deletes (delete_value n) w" using Suc children_smaller by fastforce
  note * = value_reset_ok [OF _ _ this]
  show ?case unfolding deletes_def
  proof (intro allI impI)
    fix st a F
    assume st: "store_ok st" "value_at (cells st) a v F"
    from * [OF st] obtain st1 where st1: "value_reset (delete_value n) a st = ret st1" "cells st1 a \<noteq> None" "becomes st F st1 {a}" by auto
    from free_cell_ok [OF becomes_ok [OF st1(3)] st1(2)] becomes_trans [OF st(1) st1(3)] st1(1)
    show "\<exists>st'. delete_value (Suc n) a st = ret st' \<and> becomes st F st' {}" by auto
  qed
qed simp

text \<open>A value that is reset and then points to a new cell.\<close>

lemma reset_alloc:
  assumes "store_ok st" "value_at (cells st) a w F" "\<forall>x\<in>set (children w). deletes del x"
  obtains q st' where "\<And>g :: addr \<Rightarrow> store \<Rightarrow> store run. bindO (value_reset del a st)
      (\<lambda>st. let (p, st) = alloc c st in bindO (set_cell a (CValue t (UPtr p)) st) (g p)) = g q st'"
    "becomes st F st' {a, q}" "cells st' a = Some (CValue t (UPtr q))" "cells st' q = Some c" "a \<noteq> q"
proof -
  obtain st1 t1 u1 where st1: "value_reset del a st = ret st1" "cells st1 a = Some (CValue t1 u1)" "becomes st F st1 {a}"
    using value_reset_ok [OF assms] by blast
  obtain q st2 where st2: "alloc c st1 = (q, st2)" by force
  have q: "becomes st1 {} st2 {q}" "cells st2 q = Some c" using alloc_becomes [OF becomes_ok [OF st1(3)] st2] by auto
  have a2: "cells st2 a = Some (CValue t1 u1)" "a \<noteq> q"
    using becomes_apart [OF becomes_ok [OF st1(3)] q(1), of "{a}"] st1(2) by auto
  obtain st3 where st3: "set_cell a (CValue t (UPtr q)) st2 = ret st3" "becomes st2 {a, q} st3 {a, q}"
    "cells st3 = (cells st2)(a \<mapsto> CValue t (UPtr q))"
    using a2 by (rule_tac set_cell_ok [OF becomes_ok [OF q(1)], of a "{a, q}" "CValue t (UPtr q)"]) auto
  have "becomes st1 {a} st2 {a, q}"
    using becomes_frame [OF becomes_ok [OF st1(3)] q(1), of "{a}"] st1(2) by (auto simp: insert_commute)
  then have "becomes st F st3 {a, q}" using becomes_trans [OF assms(1)] st1(3) st3(2) by blast
  with that st1(1) st2 st3(1,3) q(2) a2(2) show thesis by simp
qed

lemma value_import_string_ok:
  assumes "store_ok st" "value_at (cells st) a w F" "\<forall>x\<in>set (children w). deletes del x"
    and "cells st p = Some (CString s)" "p \<notin> F"
  shows "\<exists>st' F'. value_import_string del a p st = ret st' \<and> value_at (cells st') a (STRING s) F' \<and> becomes st F st' F'"
proof -
  obtain q st1 where st1: "\<And>g :: addr \<Rightarrow> store \<Rightarrow> store run. bindO (value_reset del a st)
      (\<lambda>st. let (p, st) = alloc (CString []) st in bindO (set_cell a (CValue STRING_T (UPtr p)) st) (g p)) = g q st1"
    "becomes st F st1 {a, q}" "cells st1 a = Some (CValue STRING_T (UPtr q))" "cells st1 q = Some (CString [])" "a \<noteq> q"
    by (rule reset_alloc [OF assms(1-3), of "CString []" STRING_T]) blast
  have p: "cells st1 p = Some (CString s)" using becomes_apart(2) [OF assms(1) st1(2), of "{p}" p] assms(4,5) by auto
  obtain st2 where st2: "set_cell q (CString s) st1 = ret st2" "becomes st1 {a, q} st2 {a, q}" "cells st2 = (cells st1)(q \<mapsto> CString s)"
    using st1(4) by (rule_tac set_cell_ok [OF becomes_ok [OF st1(2)], of q "{a, q}" "CString s"]) auto
  have "value_at (cells st2) a (STRING s) {a, q}" using st1(3,5) st2(3) by (intro StringAt) auto
  moreover have "value_import_string del a p st = ret st2"
    using st1(1) [of "\<lambda>q st. bindO (read_string p st) (\<lambda>s. set_cell q (CString s) st)"] p st2(1)
    by (simp add: value_import_string_def read_string_def)
  ultimately show ?thesis using becomes_trans [OF assms(1) st1(2) st2(2)] by blast
qed

lemma value_import_array_ok:
  assumes "store_ok st" "value_at (cells st) a w F" "\<forall>x\<in>set (children w). deletes del x"
    and "array_owned (cells st) p vs H" "F \<inter> H = {}" "good_array del cp vs"
  shows "\<exists>st' F'. value_import_array del cp a p st = ret st' \<and> value_at (cells st') a (ARRAY vs) F' \<and> becomes st F st' F'"
proof -
  obtain q st1 where st1: "\<And>g :: addr \<Rightarrow> store \<Rightarrow> store run. bindO (value_reset del a st)
      (\<lambda>st. let (p, st) = alloc (CArray []) st in bindO (set_cell a (CValue ARRAY_T (UPtr p)) st) (g p)) = g q st1"
    "becomes st F st1 {a, q}" "cells st1 a = Some (CValue ARRAY_T (UPtr q))" "cells st1 q = Some (CArray [])" "a \<noteq> q"
    by (rule reset_alloc [OF assms(1-3), of "CArray []" ARRAY_T]) blast
  have p: "array_owned (cells st1) p vs H" "{a, q} \<inter> H = {}" using array.holds_apart [OF assms(1) st1(2) assms(4,5)] by auto
  have q: "array_owned (cells st1) q [] {q}" "{q} \<inter> H = {}" "q \<noteq> p"
    using array.holds_empty st1(4) p(2) array_owned_dom [OF p(1)] by auto
  obtain st2 G where st2: "bindO (array_reset del q st1) (array_import_from cp q p) = ret st2"
    "array_owned (cells st2) q vs G" "becomes st1 {q} st2 G"
    using array.assign_ok [OF becomes_ok [OF st1(2)] q(1) p(1) q(2) _ assms(6)] by auto
  have a: "cells st2 a = Some (CValue ARRAY_T (UPtr q))" "a \<notin> G" "becomes st1 {a, q} st2 (insert a G)"
    using becomes_apart [OF becomes_ok [OF st1(2)] st2(3), of "{a}"] becomes_frame [OF becomes_ok [OF st1(2)] st2(3), of "{a}"]
      st1(3,5) by (auto simp: insert_commute)
  have "value_import_array del cp a p st = ret st2"
    using st1(1) [of "\<lambda>q. array_assign del cp q p"] st2(1) q(3)
    by (simp add: value_import_array_def array_assign_def array_import_def [abs_def])
  then show ?thesis using a st2(2) becomes_trans [OF assms(1) st1(2) a(3)] by (auto simp: array_value_at)
qed

lemma import_into_empty: "ordered (value_map y) \<Longrightarrow> value_map (import_object y (reset_object ob)) = value_map y"
  using put_all_ordered [of "[]" "value_map y"] by (simp add: import_object_def reset_object_def)

lemma import_clears_odd: "odd_key (import_object y x) = []"
  by (simp add: import_object_def)

lemma value_import_object_ok:
  assumes "store_ok st" "value_at (cells st) a w F" "\<forall>x\<in>set (children w). deletes del x"
    and "object_owned (cells st) p y H" "F \<inter> H = {}" "good_object del cp y"
  shows "\<exists>st' F'. value_import_object del cp a p st = ret st' \<and> value_at (cells st') a (OBJECT (value_map y)) F' \<and> becomes st F st' F'"
proof -
  obtain q st0 where st0: "\<And>g :: addr \<Rightarrow> store \<Rightarrow> store run. bindO (value_reset del a st)
      (\<lambda>st. let (p, st) = alloc (CObject [] []) st in bindO (set_cell a (CValue OBJECT_T (UPtr p)) st) (g p)) = g q st0"
    "becomes st F st0 {a, q}" "cells st0 a = Some (CValue OBJECT_T (UPtr q))" "cells st0 q = Some (CObject [] [])" "a \<noteq> q"
    by (rule reset_alloc [OF assms(1-3), of "CObject [] []" OBJECT_T]) blast
  have q0: "object_owned (cells st0) q new_object {q}" using object.holds_empty st0(4) by blast
  obtain st1 where st1: "clear_odd q st0 = ret st1" "object_owned (cells st1) q (new_object\<lparr>odd_key := []\<rparr>) {q}" "becomes st0 {q} st1 {q}"
    using clear_odd_ok [OF becomes_ok [OF st0(2)] q0] by blast
  have p0: "object_owned (cells st0) p y H" "{a, q} \<inter> H = {}" using object.holds_apart [OF assms(1) st0(2) assms(4,5)] by auto
  then have p1: "object_owned (cells st1) p y H" "{q} \<inter> H = {}" "q \<noteq> p"
    using object.holds_apart [OF becomes_ok [OF st0(2)] st1(3) p0(1)] object_owned_dom [OF p0(1)] by auto
  have "good_object del cp (new_object\<lparr>odd_key := []\<rparr>)" by (simp add: good_object_def new_object_def)
  from object.assign_ok [OF becomes_ok [OF st1(3)] st1(2) p1(1,2) this assms(6)] obtain st2 G where
    st2: "bindO (object_reset del q st1) (object_import_from del cp q p) = ret st2"
    "object_owned (cells st2) q (import_object y (reset_object (new_object\<lparr>odd_key := []\<rparr>))) G" "becomes st1 {q} st2 G"
    by blast
  have G: "becomes st0 {q} st2 G" using becomes_trans [OF becomes_ok [OF st0(2)] st1(3) st2(3)] .
  have a: "cells st2 a = Some (CValue OBJECT_T (UPtr q))" "a \<notin> G" "becomes st0 {a, q} st2 (insert a G)"
    using becomes_apart [OF becomes_ok [OF st0(2)] G, of "{a}"] becomes_frame [OF becomes_ok [OF st0(2)] G, of "{a}"]
      st0(3,5) by (auto simp: insert_commute)
  have "import_object y (reset_object (new_object\<lparr>odd_key := []\<rparr>)) = \<lparr>value_map = value_map y, odd_key = []\<rparr>"
    using import_into_empty [of y] assms(6) import_clears_odd
    by (intro json_object.equality) (auto simp: good_object_def)
  moreover have "value_import_object del cp a p st = ret st2"
    using st0(1) [of "\<lambda>q. object_assign del cp q p"] st1(1) st2(1) p1(3)
    by (simp add: value_import_object_def object_assign_def object_import_def [abs_def])
  ultimately show ?thesis using a st2(2) becomes_trans [OF assms(1) st0(2) a(3)] by (auto simp: object_value_at)
qed

lemma set_type_ok:
  assumes "store_ok st" "cells st a = Some (CValue t' u)"
  shows "\<exists>st'. set_type a t st = ret st' \<and> cells st' a = Some (CValue t u) \<and> becomes st {a} st' {a}"
proof -
  obtain st' where "set_cell a (CValue t u) st = ret st'" "becomes st {a} st' {a}" "cells st' = (cells st)(a \<mapsto> CValue t u)"
    using assms(2) by (rule_tac set_cell_ok [OF assms(1), of a "{a}" "CValue t u"]) auto
  then show ?thesis using assms(2) by (simp add: set_type_def read_value_def)
qed

lemma value_import_scalar_ok:
  assumes "store_ok st" "value_at (cells st) a w F" "\<forall>x\<in>set (children w). deletes del x"
  shows "\<exists>st'. value_import_null del a st = ret st' \<and> value_at (cells st') a NULL {a} \<and> becomes st F st' {a}"
    and "\<exists>st'. value_import_bool del a b st = ret st' \<and> value_at (cells st') a (BOOL b) {a} \<and> becomes st F st' {a}"
    and "\<exists>st'. value_import_number del a x st = ret st' \<and> value_at (cells st') a (NUMBER x) {a} \<and> becomes st F st' {a}"
    and "\<exists>st'. value_import_unsupported del a st = ret st' \<and> value_at (cells st') a INVALID {a} \<and> becomes st F st' {a}"
proof -
  obtain st1 t u where st1: "value_reset del a st = ret st1" "cells st1 a = Some (CValue t u)" "becomes st F st1 {a}"
    using value_reset_ok [OF assms] by blast
  note trans = becomes_trans [OF assms(1) st1(3)]
  show "\<exists>st'. value_import_null del a st = ret st' \<and> value_at (cells st') a NULL {a} \<and> becomes st F st' {a}"
    using set_type_ok [OF becomes_ok [OF st1(3)] st1(2), of NULL_T] st1(1) trans NullAt by (fastforce simp: value_import_null_def)
  show "\<exists>st'. value_import_unsupported del a st = ret st' \<and> value_at (cells st') a INVALID {a} \<and> becomes st F st' {a}"
    using set_type_ok [OF becomes_ok [OF st1(3)] st1(2), of INVALID_T] st1(1) trans InvalidAt
    by (fastforce simp: value_import_unsupported_def)
  have set: "\<exists>st'. set_cell a c st1 = ret st' \<and> cells st' a = Some c \<and> becomes st F st' {a}" for c
  proof -
    obtain st2 where "set_cell a c st1 = ret st2" "becomes st1 {a} st2 {a}" "cells st2 = (cells st1)(a \<mapsto> c)"
      using st1(2) by (rule_tac set_cell_ok [OF becomes_ok [OF st1(3)], of a "{a}" c]) auto
    then show ?thesis using trans by auto
  qed
  show "\<exists>st'. value_import_bool del a b st = ret st' \<and> value_at (cells st') a (BOOL b) {a} \<and> becomes st F st' {a}"
    using set [of "CValue BOOL_T (UBool b)"] st1(1) BoolAt by (fastforce simp: value_import_bool_def)
  show "\<exists>st'. value_import_number del a x st = ret st' \<and> value_at (cells st') a (NUMBER x) {a} \<and> becomes st F st' {a}"
    using set [of "CValue NUMBER_T (UNumber x)"] st1(1) NumberAt by (fastforce simp: value_import_number_def)
qed

text \<open>Importing a value makes it a copy; an invalid one must find nothing to be freed.\<close>

lemma value_import_ok:
  assumes st: "store_ok st" "value_at (cells st) a w F" "\<forall>x\<in>set (children w). deletes del x"
    and v: "value_at (cells st) b v H" "F \<inter> H = {}" "json_ok v" "\<forall>x\<in>set (children v). copies cp x \<and> deletes del x"
    and invalid: "v = INVALID \<Longrightarrow> F = {a}"
  shows "\<exists>st' F'. value_import del cp a b st = ret st' \<and> value_at (cells st') a v F' \<and> becomes st F st' F'"
proof -
  have ab: "a \<noteq> b" using value_at_dom(1) [OF st(2)] value_at_dom(1) [OF v(1)] v(2) by blast
  note [simp] = value_import_def read_value_def pointee_def
  show ?thesis
  proof (cases v)
    case (NUMBER x)
    then have "cells st b = Some (CValue NUMBER_T (UNumber x))" using v(1) by (auto elim: numberE)
    then show ?thesis using value_import_scalar_ok(3) [OF st, of x] NUMBER ab by auto
  next
    case (BOOL x)
    then have "cells st b = Some (CValue BOOL_T (UBool x))" using v(1) by (auto elim: boolE)
    then show ?thesis using value_import_scalar_ok(2) [OF st, of x] BOOL ab by auto
  next
    case NULL
    then obtain u where "cells st b = Some (CValue NULL_T u)" using v(1) by (auto elim: nullE)
    then show ?thesis using value_import_scalar_ok(1) [OF st] NULL ab by auto
  next
    case INVALID
    then obtain u where u: "cells st b = Some (CValue INVALID_T u)" using v(1) by (auto elim: invalidE)
    have "\<exists>t' u'. cells st a = Some (CValue t' u')"
      using st(2) by (cases w) (auto elim: value_cases)
    then obtain t' u' where "cells st a = Some (CValue t' u')" by blast
    from set_type_ok [OF st(1) this, of INVALID_T] InvalidAt show ?thesis using u INVALID ab invalid by fastforce
  next
    case (STRING s)
    then obtain p where p: "cells st b = Some (CValue STRING_T (UPtr p))" "cells st p = Some (CString s)" "H = {b, p}"
      using v(1) by (auto elim: stringE)
    then have "p \<notin> F" using v(2) by auto
    from value_import_string_ok [OF st p(2) this] show ?thesis using p(1) STRING ab by auto
  next
    case (ARRAY vs)
    then obtain p G where p: "cells st b = Some (CValue ARRAY_T (UPtr p))" "array_owned (cells st) p vs G" "H = insert b G"
      using v(1) by (auto simp: array_value_at)
    then have "F \<inter> G = {}" "good_array del cp vs" using v(2,4) ARRAY by auto
    from value_import_array_ok [OF st p(2) this] show ?thesis using p(1) ARRAY ab by auto
  next
    case (OBJECT m)
    then obtain p od G where p: "cells st b = Some (CValue OBJECT_T (UPtr p))"
      "object_owned (cells st) p \<lparr>value_map = m, odd_key = od\<rparr> G" "H = insert b G"
      using v(1) by (auto simp: object_value_at)
    then have "F \<inter> G = {}" "good_object del cp \<lparr>value_map = m, odd_key = od\<rparr>" using v(2-4) OBJECT by (auto simp: good_object_def)
    from value_import_object_ok [OF st p(2) this] show ?thesis using p(1) OBJECT ab by auto
  qed
qed

lemma children_ok: "json_ok v \<Longrightarrow> w \<in> set (children v) \<Longrightarrow> json_ok w"
  by (cases v) auto

lemma copy_value_copies: "json_ok v \<Longrightarrow> size v < n \<Longrightarrow> copies (copy_value n) v"
proof (induction n arbitrary: v)
  case (Suc n)
  have kids: "\<forall>w\<in>set (children v). copies (copy_value n) w \<and> deletes (delete_value n) w"
  proof
    fix w
    assume w: "w \<in> set (children v)"
    then have "size w < n" using children_smaller [OF w] Suc.prems(2) by simp
    then show "copies (copy_value n) w \<and> deletes (delete_value n) w"
      using Suc.IH children_ok [OF Suc.prems(1) w] delete_value_deletes by blast
  qed
  show ?case unfolding copies_def
  proof (intro allI impI)
    fix st b F
    assume st: "store_ok st" "value_at (cells st) b v F"
    obtain a st1 where st1: "alloc (CValue INVALID_T Indeterminate) st = (a, st1)" by force
    have a: "becomes st {} st1 {a}" "value_at (cells st1) a INVALID {a}"
      using alloc_becomes [OF st(1) st1] InvalidAt by blast+
    have "value_at (cells st1) b v F" "{a} \<inter> F = {}" using value_at_apart [OF st(1) a(1) st(2)] by simp_all
    from value_import_ok [OF becomes_ok [OF a(1)] a(2) _ this Suc.prems(1) kids] obtain st2 G where
      "value_import (delete_value n) (copy_value n) a b st1 = ret st2" "value_at (cells st2) a v G" "becomes st1 {a} st2 G"
      by auto
    then show "\<exists>a st' G. copy_value (Suc n) b st = ret (a, st') \<and> value_at (cells st') a v G \<and> becomes st {} st' G"
      using st1 becomes_trans [OF st(1) a(1)] by auto
  qed
qed simp

end
