(* ===== verification/JsonLifetimes.thy ===== *)
theory JsonLifetimes
  imports JsonOwnership
begin

text \<open>
  What the ownership of the JSON values means for their users: the operations of arrays and objects on
  the store do what \<open>JsonValues\<close> says of the trees, copies are independent, and nothing is lost.  At the
  end the uses that go wrong.
\<close>

section \<open>Operations on the store and on the trees\<close>

abbreviation del_cp :: "nat \<Rightarrow> json list \<Rightarrow> bool" where
  "del_cp n vs \<equiv> \<forall>v\<in>set vs. json_ok v \<and> size v < n"

lemma good_array_values: "del_cp n vs \<Longrightarrow> good_array (delete_value n) (copy_value n) vs"
  using copy_value_copies delete_value_deletes by blast

lemma good_object_values:
  "object_ok ob \<Longrightarrow> \<forall>v\<in>snd ` set (value_map ob). size v < n \<Longrightarrow> good_object (delete_value n) (copy_value n) ob"
  using copy_value_copies delete_value_deletes by (fastforce simp: object_ok_def good_object_def)

text \<open>An array that is imported into itself has its elements twice.\<close>

lemma array_import_refines:
  assumes "store_ok st" "array_owned (cells st) a vs F" "del_cp n vs"
    and "array_owned (cells st) b ws H" "del_cp n ws" "a = b \<and> ws = vs \<or> F \<inter> H = {}"
  shows "\<exists>st' F'. array_import (delete_value n) (copy_value n) a b st = ret st' \<and>
    array_owned (cells st') a (import_array ws vs) F' \<and> becomes st F st' F'"
proof (cases "a = b")
  case True
  then have "ws = vs" using assms(2,4,6) array_owned_dom by blast
  then show ?thesis using True array.self_import_ok [OF assms(1,2) good_array_values [OF assms(3)]]
    by (simp add: array_import_def import_array_def)
next
  case False
  then have "F \<inter> H = {}" using assms(6) by blast
  from array.import_ok [OF assms(1,2,4) this good_array_values [OF assms(3)] good_array_values [OF assms(5)]] False
  show ?thesis by (simp add: array_import_def import_array_def)
qed

text \<open>An array as an element of an array, of another or of itself.\<close>

lemma new_array_value_ok:
  assumes "store_ok st" "array_owned (cells st) b ws H" "del_cp n ws"
  shows "\<exists>p st' G. new_value_of (\<lambda>v. value_import_array (delete_value n) (copy_value n) v b) st = ret (p, st') \<and>
    value_at (cells st') p (ARRAY ws) G \<and> becomes st {} st' G"
proof -
  obtain p st1 where st1: "alloc (CValue INVALID_T Indeterminate) st = (p, st1)" by force
  have p: "becomes st {} st1 {p}" "value_at (cells st1) p INVALID {p}" using alloc_becomes [OF assms(1) st1] InvalidAt by blast+
  have b: "array_owned (cells st1) b ws H" "{p} \<inter> H = {}" using array.holds_apart [OF assms(1) p(1) assms(2)] by simp_all
  from value_import_array_ok [OF becomes_ok [OF p(1)] p(2) _ b good_array_values [OF assms(3)]] obtain st2 G where
    "value_import_array (delete_value n) (copy_value n) p b st1 = ret st2" "value_at (cells st2) p (ARRAY ws) G" "becomes st1 {p} st2 G"
    by auto
  then show ?thesis using st1 becomes_trans [OF assms(1) p(1)] by (auto simp: new_value_of_def)
qed

lemma array_append_from_ok:
  assumes "store_ok st" "array_owned (cells st) a vs F" "array_owned (cells st) b ws H" "del_cp n ws"
  shows "\<exists>st' F'. array_append_from (delete_value n) (copy_value n) a b st = ret st' \<and>
    array_owned (cells st') a (append_array ws vs) F' \<and> becomes st F st' F'"
proof -
  obtain p st1 G where st1: "new_value_of (\<lambda>v. value_import_array (delete_value n) (copy_value n) v b) st = ret (p, st1)"
    "value_at (cells st1) p (ARRAY ws) G" "becomes st {} st1 G"
    using new_array_value_ok [OF assms(1,3,4)] by blast
  have a: "array_owned (cells st1) a vs F" "G \<inter> F = {}" using array.holds_apart [OF assms(1) st1(3) assms(2)] by simp_all
  obtain st2 where st2: "push_back a p st1 = ret st2" "array_owned (cells st2) a (vs @ [ARRAY ws]) (F \<union> G)" "becomes st1 (F \<union> G) st2 (F \<union> G)"
    using push_back_ok [OF becomes_ok [OF st1(3)] a(1) st1(2)] a(2) by (auto simp: Int_commute)
  have "becomes st F st1 (F \<union> G)"
    using becomes_frame [OF assms(1) st1(3), of F] array_owned_dom [OF assms(2)] by (simp add: Un_commute)
  with st1(1) st2 becomes_trans [OF assms(1)] show ?thesis by (fastforce simp: array_append_from_def append_array_def)
qed

lemma array_append_refines:
  assumes "store_ok st" "array_owned (cells st) a vs F" "del_cp n vs"
    and "array_owned (cells st) b ws H" "del_cp n ws" "a = b \<and> ws = vs \<or> F \<inter> H = {}"
  shows "\<exists>st' F'. array_append (delete_value n) (copy_value n) a b st = ret st' \<and>
    array_owned (cells st') a (append_array ws vs) F' \<and> becomes st F st' F'"
proof (cases "a = b")
  case True
  then have "ws = vs" using assms(2,4,6) array_owned_dom by blast
  moreover have "\<exists>st' F'. with_copy (CArray []) (array_import_from (copy_value n)) (array_reset (delete_value n))
      (array_append_from (delete_value n) (copy_value n) a) a st = ret st' \<and>
    array_owned (cells st') a (append_array vs vs) F' \<and> becomes st F st' F'"
    using array_append_from_ok assms(3) by (intro array.with_copy_ok [OF assms(1,2) good_array_values [OF assms(3)]]) auto
  ultimately show ?thesis using True by (simp add: array_append_def)
next
  case False
  with array_append_from_ok [OF assms(1,2,4,5)] show ?thesis by (simp add: array_append_def)
qed

lemma import_object_twice:
  "ordered (value_map ob) \<Longrightarrow> import_object (import_object ob new_object) x = import_object ob x"
  using import_into_empty [of ob new_object]
  by (simp add: import_object_def reset_object_def new_object_def)

lemma object_import_merges:
  assumes "store_ok st" "object_owned (cells st) a ob F" "good_object del cp ob"
    and "object_owned (cells st) b y H" "good_object del cp y" "a = b \<and> y = ob \<or> F \<inter> H = {}"
  shows "\<exists>st' F'. object_import del cp a b st = ret st' \<and> object_owned (cells st') a (import_object y ob) F' \<and> becomes st F st' F'"
proof (cases "a = b")
  case True
  then have y: "y = ob" using assms(2,4,6) object_owned_dom by blast
  obtain st1 where st1: "clear_odd a st = ret st1" "object_owned (cells st1) a (ob\<lparr>odd_key := []\<rparr>) F" "becomes st F st1 F"
    using clear_odd_ok [OF assms(1,2)] by blast
  have "good_object del cp (ob\<lparr>odd_key := []\<rparr>)" using assms(3) by (simp add: good_object_def)
  from object.self_import_ok [OF becomes_ok [OF st1(3)] st1(2) this] obtain st2 F' where
    "with_copy (CObject [] []) (object_import_from del cp) (object_reset del) (object_import_from del cp a) a st1 = ret st2"
    "object_owned (cells st2) a (import_object (import_object (ob\<lparr>odd_key := []\<rparr>) new_object) (ob\<lparr>odd_key := []\<rparr>)) F'"
    "becomes st1 F st2 F'" by blast
  moreover have "import_object (import_object (ob\<lparr>odd_key := []\<rparr>) new_object) (ob\<lparr>odd_key := []\<rparr>) = import_object y ob"
    using import_object_twice [of "ob\<lparr>odd_key := []\<rparr>"] assms(3) y by (simp add: good_object_def import_object_def)
  ultimately show ?thesis using True st1(1) becomes_trans [OF assms(1) st1(3)] by (auto simp: object_import_def)
next
  case False
  then have "F \<inter> H = {}" using assms(6) by blast
  from object.import_ok [OF assms(1,2,4) this assms(3,5)] False show ?thesis by (simp add: object_import_def)
qed

lemma import_member_puts:
  assumes "store_ok st" "object_owned (cells st) a ob F" "value_at (cells st) p v H" "F \<inter> H = {}"
    and "good_object del cp ob" "copies cp v"
  shows "\<exists>st' F'. object_import_member del cp a k p st = ret st' \<and> object_owned (cells st') a (put_member k v ob) F' \<and> becomes st F st' F'"
proof -
  obtain st1 where st1: "clear_odd a st = ret st1" "object_owned (cells st1) a (ob\<lparr>odd_key := []\<rparr>) F" "becomes st F st1 F"
    using clear_odd_ok [OF assms(1,2)] by blast
  have p: "value_at (cells st1) p v H" using value_at_apart [OF assms(1) st1(3) assms(3,4)] by simp
  have "ordered (value_map (ob\<lparr>odd_key := []\<rparr>))" "\<forall>w\<in>snd ` set (value_map (ob\<lparr>odd_key := []\<rparr>)). deletes del w"
    using assms(5) by (auto simp: good_object_def)
  from object_put_ok [OF becomes_ok [OF st1(3)] st1(2) p assms(4) this(1) assms(6) this(2)] obtain st2 F' where
    "object_put del cp a (k, p) st1 = ret st2" "object_owned (cells st2) a (with_member k v (ob\<lparr>odd_key := []\<rparr>)) F'" "becomes st1 F st2 F'"
    by blast
  with st1(1) becomes_trans [OF assms(1) st1(3)] show ?thesis by (auto simp: object_import_member_def put_member_def)
qed

lemma read_object_owned: "object_owned (cells st) a ob F \<Longrightarrow> \<exists>pm. read_object a st = ret (pm, odd_key ob)"
  by (auto simp: object_owned_def read_object_def)

lemma good_put_member:
  "good_object del cp ob \<Longrightarrow> copies cp v \<Longrightarrow> deletes del v \<Longrightarrow> good_object del cp (put_member k v ob)"
  using set_map_put [of k v "value_map ob"] by (fastforce simp: good_object_def put_member_def)

text \<open>The second half of \<^verbatim>\<open>o << key << value\<close>, through a temporary object.\<close>

lemma shift_value_temporary:
  assumes "store_ok st" "object_owned (cells st) a ob F" "value_at (cells st) p v H" "F \<inter> H = {}"
    and "good_object del cp ob" "copies cp v" "deletes del v" "odd_key ob \<noteq> []"
  shows "\<exists>st' F'. object_shift_value del cp a p st = ret st' \<and>
    object_owned (cells st') a ((import_object (object_of (odd_key ob) v) ob)\<lparr>odd_key := []\<rparr>) F' \<and> becomes st F st' F'"
proof -
  let ?t = "object_of (odd_key ob) v"
  have good_t: "good_object del cp ?t"
    using good_put_member [OF object.good_empty assms(6,7)] by (simp add: object_of_def)
  obtain tmp st1 where st1: "alloc (CObject [] []) st = (tmp, st1)" by force
  have a1: "becomes st {} st1 {tmp}" "object_owned (cells st1) tmp new_object {tmp}"
    using alloc_becomes [OF assms(1) st1] object.holds_empty by blast+
  note ok1 = becomes_ok [OF a1(1)]
  have x1: "object_owned (cells st1) a ob F" "{tmp} \<inter> F = {}" "value_at (cells st1) p v H" "{tmp} \<inter> H = {}"
    using object.holds_apart [OF assms(1) a1(1) assms(2)] value_at_apart [OF assms(1) a1(1) assms(3)] by simp_all
  obtain st2 T where st2: "object_import_member del cp tmp (odd_key ob) p st1 = ret st2" "object_owned (cells st2) tmp ?t T" "becomes st1 {tmp} st2 T"
    unfolding object_of_def using import_member_puts [OF ok1 a1(2) x1(3,4) object.good_empty [of del cp] assms(6)] by blast
  note ok2 = becomes_ok [OF st2(3)]
  have x2: "object_owned (cells st2) a ob F" "F \<inter> T = {}"
    using object.holds_apart [OF ok1 st2(3) x1(1,2)] by (auto simp: Int_commute)
  then have "a \<noteq> tmp" using object_owned_dom [OF st2(2)] object_owned_dom [OF x2(1)] by blast
  obtain st3 F' where st3: "object_import del cp a tmp st2 = ret st3" "object_owned (cells st3) a (import_object ?t ob) F'" "becomes st2 F st3 F'"
    using object_import_merges [OF ok2 x2(1) assms(5) st2(2) good_t] x2(2) by blast
  note ok3 = becomes_ok [OF st3(3)]
  have t3: "object_owned (cells st3) tmp ?t T" "F' \<inter> T = {}" using object.holds_apart [OF ok2 st3(3) st2(2) x2(2)] by auto
  obtain st4 where st4: "bindO (object_reset del tmp st3) (free_cell tmp) = ret st4" "becomes st3 T st4 {}"
    using object.delete_ok [OF ok3 t3(1) good_t] by blast
  note ok4 = becomes_ok [OF st4(2)]
  have "object_owned (cells st4) a (import_object ?t ob) F'"
    using object.holds_apart [OF ok3 st4(2) st3(2)] t3(2) by (auto simp: Int_commute)
  then obtain st5 where st5: "clear_odd a st4 = ret st5" "object_owned (cells st5) a ((import_object ?t ob)\<lparr>odd_key := []\<rparr>) F'" "becomes st4 F' st5 F'"
    using clear_odd_ok [OF ok4] by blast
  have "becomes st F st1 ({tmp} \<union> F)" using becomes_frame [OF assms(1) a1(1), of F] object_owned_dom [OF assms(2)] by simp
  moreover have "becomes st1 ({tmp} \<union> F) st2 (T \<union> F)"
    using becomes_frame [OF ok1 st2(3), of F] object_owned_dom [OF x1(1)] x1(2) by simp
  moreover have "becomes st2 (T \<union> F) st3 (T \<union> F')"
    using becomes_frame [OF ok2 st3(3), of T] object_owned_dom [OF st2(2)] x2(2) by (simp add: Un_commute)
  moreover have "becomes st3 (T \<union> F') st4 F'"
    using becomes_frame [OF ok3 st4(2), of F'] object_owned_dom [OF st3(2)] t3(2) by (simp add: Int_commute)
  ultimately have "becomes st F st5 F'" using becomes_trans [OF assms(1)] st5(3) by blast
  moreover have "object_shift_value del cp a p st = ret st5"
    using read_object_owned [OF assms(2)] assms(8) st1 st2(1) st3(1) st4(1) st5(1)
    by (auto simp: object_shift_value_def bindO_def split: option.splits sum.splits)
  ultimately show ?thesis using st5(2) by blast
qed

lemma read_value_at:
  assumes "value_at (cells st) p v H"
  shows "\<exists>t u. read_value p st = ret (t, u) \<and> (t = STRING_T \<longleftrightarrow> is_string v)"
    and "v = STRING s \<Longrightarrow> \<exists>q. read_value p st = ret (STRING_T, UPtr q) \<and> read_string q st = ret s"
  using assms by (cases v; auto simp: read_value_def read_string_def is_string_def elim: value_cases)+

text \<open>
  Fact.  \<^verbatim>\<open>Object::operator<<\<close> on the store does what it does on the trees: it keeps a key, or adds
  the member through a temporary object that is gone afterwards, or fails on a key that is not a string.
\<close>

theorem shift_value_refines:
  assumes "store_ok st" "object_owned (cells st) a ob F" "value_at (cells st) p v H" "F \<inter> H = {}"
    and "object_ok ob" "\<forall>w\<in>snd ` set (value_map ob). size w < n" "json_ok v" "size v < n"
  shows "case shift_value v ob of
      Inl e \<Rightarrow> object_shift_value (delete_value n) (copy_value n) a p st = fail e
    | Inr ob' \<Rightarrow> \<exists>st' F'. object_shift_value (delete_value n) (copy_value n) a p st = ret st' \<and>
        object_owned (cells st') a ob' F' \<and> becomes st F st' F'"
proof (cases "odd_key ob = []")
  case True
  obtain t u where t: "read_value p st = ret (t, u)" "t = STRING_T \<longleftrightarrow> is_string v" using read_value_at(1) [OF assms(3)] by blast
  show ?thesis
  proof (cases "is_string v")
    case False
    then have "shift_value v ob = Inl AssertionFailed" using True by (auto simp: shift_value_def is_string_def get_string_def split: json.splits)
    then show ?thesis using True False t read_object_owned [OF assms(2)] by (auto simp: object_shift_value_def)
  next
    case str: True
    then obtain s where s: "v = STRING s" by (auto simp: is_string_def split: json.splits)
    obtain q where "read_value p st = ret (STRING_T, UPtr q)" "read_string q st = ret s" using read_value_at(2) [OF assms(3) s] by blast
    with set_odd_ok [OF assms(1,2), of s] True s show ?thesis
      by (auto simp: object_shift_value_def shift_value_def get_string_def pointee_def)
  qed
next
  case False
  from shift_value_temporary [OF assms(1-4) good_object_values [OF assms(5,6)] copy_value_copies [OF assms(7,8)]
    delete_value_deletes [OF assms(8)] False] False show ?thesis by (simp add: shift_value_def)
qed

text \<open>A store for the witnesses: an object that waits for the value of a key, and a value.\<close>

definition sample_store :: store where
  "sample_store = \<lparr>cells = (\<lambda>_. None)(0 \<mapsto> CObject [] ''k'', 1 \<mapsto> CValue STRING_T (UPtr 2), 2 \<mapsto> CString ''x''), fresh = 3\<rparr>"

lemma sample_store_ok: "store_ok sample_store"
  by (auto simp: store_ok_def sample_store_def)

lemma sample_object: "object_owned (cells sample_store) 0 \<lparr>value_map = [], odd_key = ''k''\<rparr> {0}"
  by (auto simp: object_owned_def members_at_def sample_store_def)

lemma sample_string: "value_at (cells sample_store) 1 (STRING ''x'') {1, 2}"
  by (rule StringAt) (auto simp: sample_store_def)

theorem shift_value_refines_witness:
  "\<exists>st' F'. object_shift_value (delete_value 9) (copy_value 9) 0 1 sample_store = ret st' \<and>
    object_owned (cells st') 0 \<lparr>value_map = [(''k'', STRING ''x'')], odd_key = []\<rparr> F'"
  using shift_value_refines [OF sample_store_ok sample_object sample_string, of 9]
  by (auto simp: shift_value_eq put_member_def object_ok_def)

text \<open>
  Property C32.  \<^verbatim>\<open>Object::import\<close> on the store merges the members as it does on the trees: the members
  that are replaced are freed, the others and everything else stay as they are.  This is for two
  objects that share no memory, and for an object that is imported into itself.  An object that is part
  of the one it is imported into is excluded: where it has the key it is itself stored under, the
  source destroys it while it still reads it.  The objects' own trees are well-formed (distinct ordered
  keys, a member for every key, no type missing), and \<open>n\<close> is a bound of their depth.
\<close>

theorem object_import_refines:
  assumes "store_ok st" "object_owned (cells st) a ob F" "object_owned (cells st) b y H" "a = b \<and> y = ob \<or> F \<inter> H = {}"
    and "object_ok ob" "\<forall>w\<in>snd ` set (value_map ob). size w < n"
    and "object_ok y" "\<forall>w\<in>snd ` set (value_map y). size w < n"
  shows "\<exists>st' F'. object_import (delete_value n) (copy_value n) a b st = ret st' \<and>
    object_owned (cells st') a (import_object y ob) F' \<and> becomes st F st' F'"
  by (rule object_import_merges [OF assms(1,2) good_object_values [OF assms(5,6)] assms(3) good_object_values [OF assms(7,8)] assms(4)])

text \<open>For the witness: two objects that have a key in common.\<close>

definition two_objects :: store where
  "two_objects = \<lparr>cells = (\<lambda>_. None)(0 \<mapsto> CObject [(''k'', 1)] [], 1 \<mapsto> CValue STRING_T (UPtr 2), 2 \<mapsto> CString ''x'',
      3 \<mapsto> CObject [(''k'', 4), (''l'', 5)] [], 4 \<mapsto> CValue NUMBER_T (UNumber 1), 5 \<mapsto> CValue NULL_T Indeterminate),
    fresh = 6\<rparr>"

lemma two_objects_ok:
  "store_ok two_objects"
  "object_owned (cells two_objects) 0 \<lparr>value_map = [(''k'', STRING ''x'')], odd_key = []\<rparr> {0, 1, 2}"
  "object_owned (cells two_objects) 3 \<lparr>value_map = [(''k'', NUMBER 1), (''l'', NULL)], odd_key = []\<rparr> {3, 4, 5}"
proof -
  have v: "value_at (cells two_objects) 1 (STRING ''x'') {1, 2}" "value_at (cells two_objects) 4 (NUMBER 1) {4}"
    "value_at (cells two_objects) 5 NULL {5}"
    using StringAt [of "cells two_objects" 1 2 "''x''"] NumberAt [of "cells two_objects" 4 1]
      NullAt [of "cells two_objects" 5 Indeterminate] by (simp_all add: two_objects_def)
  show "store_ok two_objects" by (auto simp: store_ok_def two_objects_def)
  have "members_at (cells two_objects) [(''k'', 1)] [(''k'', STRING ''x'')] {1, 2}"
    using v(1) by (simp add: members_at_def values_at_Cons)
  then show "object_owned (cells two_objects) 0 \<lparr>value_map = [(''k'', STRING ''x'')], odd_key = []\<rparr> {0, 1, 2}"
    by (auto simp: object_owned_def two_objects_def)
  have "members_at (cells two_objects) [(''k'', 4), (''l'', 5)] [(''k'', NUMBER 1), (''l'', NULL)] {4, 5}"
    using v(2,3) by (force simp: members_at_def values_at_Cons)
  then show "object_owned (cells two_objects) 3 \<lparr>value_map = [(''k'', NUMBER 1), (''l'', NULL)], odd_key = []\<rparr> {3, 4, 5}"
    by (auto simp: object_owned_def two_objects_def)
qed

theorem object_import_refines_witness:
  "\<exists>st' F'. object_import (delete_value 9) (copy_value 9) 0 3 two_objects = ret st' \<and>
    object_owned (cells st') 0 \<lparr>value_map = [(''k'', NUMBER 1), (''l'', NULL)], odd_key = []\<rparr> F' \<and>
    becomes two_objects {0, 1, 2} st' F'"
  using object_import_refines [OF two_objects_ok, of 9] by (auto simp: object_ok_def import_object_def ordered_def)

section \<open>Sizes\<close>

lemma values_at_length: "values_at h ps vs F \<Longrightarrow> length ps = length vs"
  by (induction vs arbitrary: ps F) (auto simp: values_at_Cons)

text \<open>Fact.  The sizes are those of the trees, and a value is empty just when it is invalid.\<close>

theorem sizes_agree:
  shows "array_owned (cells st) a vs F \<Longrightarrow> array_size_at a st = ret (length vs) \<and> array_empty_at a st = ret (vs = [])"
    and "object_owned (cells st) a ob F \<Longrightarrow>
      object_size_at a st = ret (object_size ob) \<and> object_empty_at a st = ret (value_map ob = [])"
    and "value_at (cells st) a v F \<Longrightarrow> value_empty_at a st = ret (v = INVALID)"
proof -
  show "array_owned (cells st) a vs F \<Longrightarrow> array_size_at a st = ret (length vs) \<and> array_empty_at a st = ret (vs = [])"
    using values_at_length by (fastforce simp: array_owned_def array_size_at_def array_empty_at_def read_array_def)
  show "object_owned (cells st) a ob F \<Longrightarrow>
      object_size_at a st = ret (object_size ob) \<and> object_empty_at a st = ret (value_map ob = [])"
    using map_eq_imp_length_eq
    by (fastforce simp: object_owned_def members_at_def object_size_at_def object_empty_at_def read_object_def object_size_def)
  show "value_at (cells st) a v F \<Longrightarrow> value_empty_at a st = ret (v = INVALID)"
    by (cases v) (auto simp: value_empty_at_def read_value_def elim: value_cases)
qed

section \<open>Copies\<close>

lemma delete_value_frees:
  assumes "store_ok st" "value_at (cells st) a v F" "size v < n"
  shows "\<exists>st'. delete_value n a st = ret st' \<and> becomes st F st' {}"
  using delete_value_deletes [OF assms(3)] assms(1,2) by (auto simp: deletes_def)

lemma becomes_nothing: "becomes st F st' {} \<Longrightarrow> cells st' = (cells st) |` (- F)"
  by (auto simp: becomes_def restrict_map_def fun_eq_iff)

text \<open>
  Property C31.  A copy of a value is one of its own: when the original is destroyed the copy is still
  there, and when both are, exactly the memory of the original has gone.
\<close>

theorem copy_outlives_original:
  assumes "store_ok st" "value_at (cells st) b v F" "json_ok v" "size v < n"
  shows "\<exists>a st1 st2 st3 G. copy_value n b st = ret (a, st1) \<and> delete_value n b st1 = ret st2 \<and>
    value_at (cells st2) a v G \<and> delete_value n a st2 = ret st3 \<and> cells st3 = (cells st) |` (- F)"
proof -
  obtain a st1 G where st1: "copy_value n b st = ret (a, st1)" "value_at (cells st1) a v G" "becomes st {} st1 G"
    using copy_value_copies [OF assms(3,4)] assms(1,2) unfolding copies_def by blast
  have b1: "value_at (cells st1) b v F" "G \<inter> F = {}" using value_at_apart [OF assms(1) st1(3) assms(2)] by simp_all
  obtain st2 where st2: "delete_value n b st1 = ret st2" "becomes st1 F st2 {}"
    using delete_value_frees [OF becomes_ok [OF st1(3)] b1(1) assms(4)] by blast
  have a2: "value_at (cells st2) a v G"
    using value_at_apart [OF becomes_ok [OF st1(3)] st2(2) st1(2)] b1(2) by (simp add: Int_commute)
  obtain st3 where st3: "delete_value n a st2 = ret st3" "becomes st2 G st3 {}"
    using delete_value_frees [OF becomes_ok [OF st2(2)] a2 assms(4)] by blast
  have "becomes st F st1 (G \<union> F)" using becomes_frame [OF assms(1) st1(3), of F] value_at_dom [OF assms(2)] by simp
  moreover have "becomes st1 (G \<union> F) st2 G"
    using becomes_frame [OF becomes_ok [OF st1(3)] st2(2), of G] b1(2) value_at_dom [OF st1(2)] by (simp add: Un_commute Int_commute)
  ultimately have "becomes st F st3 {}" using becomes_trans [OF assms(1)] st3(2) by blast
  then show ?thesis using st1(1) st2(1) a2 st3(1) becomes_nothing by blast
qed

theorem copy_outlives_original_witness:
  "\<exists>a st1 st2 st3 G. copy_value 9 1 sample_store = ret (a, st1) \<and> delete_value 9 1 st1 = ret st2 \<and>
    value_at (cells st2) a (STRING ''x'') G \<and> delete_value 9 a st2 = ret st3 \<and> cells st3 = (cells sample_store) |` (- {1, 2})"
  using copy_outlives_original [OF sample_store_ok sample_string, of 9] by simp

section \<open>What goes wrong\<close>

lemma owner_points:
  assumes "value_at h b v H" "is_string v \<or> is_array v \<or> is_object v"
  shows "\<exists>t p. h b = Some (CValue t (UPtr p)) \<and> p \<in> H \<and> p \<noteq> b \<and> t \<in> {STRING_T, ARRAY_T, OBJECT_T}"
  using assms by (cases v) (auto simp: is_string_def is_array_def is_object_def elim!: value_cases)

lemma dangling_delete:
  assumes "cells st a = Some (CValue t (UPtr p))" "cells st p = None" "t \<in> {STRING_T, ARRAY_T, OBJECT_T}" "0 < n"
  shows "delete_value n a st = fail UseAfterFree"
  using assms by (cases n) (auto simp: value_reset_def read_value_def string_destruct_def read_string_def
      array_reset_def read_array_def object_reset_def read_object_def)

text \<open>
  Fact.  \<^verbatim>\<open>Value\<close> has a copy constructor and a destructor but no copy assignment of its own: after
  \<^verbatim>\<open>a = b\<close> both values own the same string, array or object, and destroying both frees it twice.
\<close>

theorem assigned_value_freed_twice:
  assumes "store_ok st" "value_at (cells st) a w F" "value_at (cells st) b v H" "F \<inter> H = {}"
    and "is_string v \<or> is_array v \<or> is_object v" "size v < n"
  shows "\<exists>st1 st2. value_copy_assign a b st = ret st1 \<and> delete_value n b st1 = ret st2 \<and>
    delete_value n a st2 = fail UseAfterFree"
proof -
  obtain t p where p: "cells st b = Some (CValue t (UPtr p))" "p \<in> H" "t \<in> {STRING_T, ARRAY_T, OBJECT_T}"
    using owner_points [OF assms(3,5)] by blast
  have a: "cells st a \<noteq> None" "a \<notin> H" using value_at_dom [OF assms(2)] assms(4) by auto
  obtain st1 where st1: "set_cell a (CValue t (UPtr p)) st = ret st1" "becomes st {a} st1 {a}"
    "cells st1 = (cells st)(a \<mapsto> CValue t (UPtr p))"
    using a(1) by (rule_tac set_cell_ok [OF assms(1), of a "{a}" "CValue t (UPtr p)"]) auto
  have "value_at (cells st1) b v H" using value_at_frame [OF assms(3)] a(2) st1(3) by fastforce
  then obtain st2 where st2: "delete_value n b st1 = ret st2" "becomes st1 H st2 {}"
    using delete_value_frees [OF becomes_ok [OF st1(2)] _ assms(6)] by blast
  have "cells st2 p = None" "cells st2 a = Some (CValue t (UPtr p))"
    using becomes_nothing [OF st2(2)] p(2) a(2) st1(3) by auto
  from dangling_delete [OF this(2,1) p(3), of n] assms(6) show ?thesis
    using p(1) st1(1) st2(1) by (auto simp: value_copy_assign_def read_value_def)
qed

definition two_values :: store where
  "two_values = sample_store\<lparr>cells := (cells sample_store)(0 \<mapsto> CValue INVALID_T Indeterminate)\<rparr>"

lemma two_values_ok: "store_ok two_values" "value_at (cells two_values) 0 INVALID {0}"
    "value_at (cells two_values) 1 (STRING ''x'') {1, 2}"
  using InvalidAt [of "cells two_values" 0 Indeterminate] StringAt [of "cells two_values" 1 2 "''x''"]
  by (auto simp: store_ok_def two_values_def sample_store_def)

theorem assigned_value_freed_twice_witness:
  "\<exists>st1 st2. value_copy_assign 0 1 two_values = ret st1 \<and> delete_value 9 1 st1 = ret st2 \<and>
    delete_value 9 0 st2 = fail UseAfterFree"
  using assigned_value_freed_twice [OF two_values_ok(1-3), of 9] by (simp add: is_string_def)

text \<open>
  Fact.  \<^verbatim>\<open>o.import(k, v)\<close> with \<^verbatim>\<open>v\<close> the member that \<^verbatim>\<open>o\<close> has for the key destroys \<^verbatim>\<open>v\<close> before it is copied.
\<close>

theorem member_imported_into_itself:
  assumes "store_ok st" "cells st a = Some (CObject pm od)" "map_of pm k = Some p"
    and "value_at (cells st) p v H" "a \<notin> H" "size v < n"
  shows "object_import_member (delete_value n) (copy_value n) a k p st = fail UseAfterFree"
proof -
  obtain st1 where st1: "set_cell a (CObject pm []) st = ret st1" "becomes st {a} st1 {a}" "cells st1 = (cells st)(a \<mapsto> CObject pm [])"
    using assms(2) by (rule_tac set_cell_ok [OF assms(1), of a "{a}" "CObject pm []"]) auto
  have "value_at (cells st1) p v H" using value_at_frame [OF assms(4)] assms(5) st1(3) by fastforce
  then obtain st2 where st2: "delete_value n p st1 = ret st2" "becomes st1 H st2 {}"
    using delete_value_frees [OF becomes_ok [OF st1(2)] _ assms(6)] by blast
  have "p \<in> H" "p \<in> dom (cells st)" using value_at_dom [OF assms(4)] by auto
  then have "cells st2 p = None" "p < fresh st" using becomes_nothing [OF st2(2)] assms(1) by (auto simp: store_ok_def not_le [symmetric])
  moreover have "fresh st \<le> fresh st2" using st1(2) st2(2) by (simp add: becomes_def)
  ultimately have "copy_value n p st2 = fail UseAfterFree"
    using assms(6) by (cases n) (auto simp: alloc_def value_import_def read_value_def)
  then show ?thesis using st1 st2(1) assms(2,3)
    by (simp add: object_import_member_def clear_odd_def object_put_def read_object_def)
qed

definition owning_object :: store where
  "owning_object = sample_store\<lparr>cells := (cells sample_store)(0 \<mapsto> CObject [(''k'', 1)] [])\<rparr>"

theorem member_imported_into_itself_witness:
  "object_import_member (delete_value 9) (copy_value 9) 0 ''k'' 1 owning_object = fail UseAfterFree"
proof -
  have "value_at (cells owning_object) 1 (STRING ''x'') {1, 2}"
    by (rule StringAt) (auto simp: owning_object_def sample_store_def)
  then show ?thesis
    by (rule_tac member_imported_into_itself) (auto simp: store_ok_def owning_object_def sample_store_def)
qed

text \<open>Fact.  \<^verbatim>\<open>v = a\<close> with \<^verbatim>\<open>a\<close> the array of \<^verbatim>\<open>v\<close> itself destroys the array before it is copied.\<close>

theorem own_array_assigned:
  assumes "store_ok st" "cells st a = Some (CValue ARRAY_T (UPtr p))" "array_owned (cells st) p vs G" "a \<notin> G"
    and "\<forall>v\<in>set vs. size v < n"
  shows "value_assign_array (delete_value n) cp a p st = fail UseAfterFree"
proof -
  have "\<forall>v\<in>set vs. deletes (delete_value n) v" using assms(5) delete_value_deletes by blast
  from array_reset_ok [OF assms(1,3) this] obtain st1 where
    st1: "array_reset (delete_value n) p st = ret st1" "array_owned (cells st1) p [] {p}" "becomes st G st1 {p}" by blast
  obtain st2 where st2: "free_cell p st1 = ret st2" "becomes st1 {p} st2 {}"
    using free_cell_ok [OF becomes_ok [OF st1(3)], of p] array_owned_dom [OF st1(2)] by auto
  have gone: "becomes st G st2 {}" by (rule becomes_trans [OF assms(1) st1(3) st2(2)])
  have pG: "p \<in> G" "p < fresh st" using array_owned_dom [OF assms(3)] live_below [OF assms(1)] by blast+
  have a2: "cells st2 a = Some (CValue ARRAY_T (UPtr p))" "cells st2 p = None"
    using becomes_nothing [OF gone] assms(2,4) pG(1) by auto
  let ?st3 = "st2\<lparr>cells := (cells st2)(a \<mapsto> CValue ARRAY_T UNull)\<rparr>"
  have "value_reset (delete_value n) a st = ret ?st3"
    using assms(2) st1(1) st2(1) a2(1) by (simp add: value_reset_def read_value_def set_cell_def)
  moreover have "value_reset (delete_value n) a ?st3 = ret ?st3"
    by (simp add: value_reset_def read_value_def delete_ptr_def set_cell_def)
  moreover have "fresh st2 \<noteq> p" "fresh st2 \<noteq> a"
    using pG(2) gone assms(1,2) by (auto simp: becomes_def store_ok_def)
  ultimately show ?thesis using a2(2)
    by (auto simp: value_assign_array_def value_import_array_def alloc_def set_cell_def array_assign_def array_reset_def
        read_array_def array_import_def array_import_from_def)
qed

theorem own_array_assigned_witness:
  "value_assign_array (delete_value 9) (copy_value 9) 0 1
     \<lparr>cells = (\<lambda>_. None)(0 \<mapsto> CValue ARRAY_T (UPtr 1), 1 \<mapsto> CArray []), fresh = 2\<rparr> = fail UseAfterFree"
  by (rule own_array_assigned [where vs = "[]" and G = "{1}"]) (auto simp: store_ok_def array_owned_def)

text \<open>Fact.  A value that takes over an invalid one forgets what it owned without freeing it.\<close>

theorem invalid_import_leaks:
  assumes "store_ok st" "value_at (cells st) a w F" "value_at (cells st) b INVALID H" "F \<inter> H = {}"
  shows "\<exists>st'. value_import del cp a b st = ret st' \<and> value_at (cells st') a INVALID {a} \<and>
    F \<subseteq> dom (cells st') \<and> (\<forall>x. x \<noteq> a \<longrightarrow> cells st' x = cells st x)"
proof -
  obtain u where u: "cells st b = Some (CValue INVALID_T u)" using assms(3) by (auto elim: invalidE)
  have ab: "a \<noteq> b" "F \<subseteq> dom (cells st)" using value_at_dom [OF assms(2)] value_at_dom(1) [OF assms(3)] assms(4) by auto
  obtain t' u' where a: "cells st a = Some (CValue t' u')" using assms(2) by (cases w) (auto elim: value_cases)
  let ?st = "st\<lparr>cells := (cells st)(a \<mapsto> CValue INVALID_T u')\<rparr>"
  have "value_import del cp a b st = ret ?st"
    using u a ab(1) by (simp add: value_import_def read_value_def set_type_def set_cell_def)
  moreover have "value_at (cells ?st) a INVALID {a}" by (rule InvalidAt) simp
  ultimately show ?thesis using ab(2) by auto
qed

theorem invalid_import_leaks_witness:
  "\<exists>st'. value_import (delete_value 9) (copy_value 9) 1 0 two_values = ret st' \<and> 2 \<in> dom (cells st')"
  using invalid_import_leaks [OF two_values_ok(1,3,2), of "delete_value 9" "copy_value 9"] by auto

text \<open>
  Fact.  \<^verbatim>\<open>reset()\<close> leaves the type: a string that has been reset is still one, and a copy of it reads
  through the null pointer.
\<close>

theorem copy_of_reset_string:
  assumes "store_ok st" "value_at (cells st) a (STRING s) F" "0 < n"
  shows "\<exists>st'. value_reset del a st = ret st' \<and> copy_value n a st' = fail NullPointer"
proof -
  obtain p where p: "cells st a = Some (CValue STRING_T (UPtr p))" "cells st p = Some (CString s)"
    using assms(2) by (auto elim!: stringE)
  then have "a \<noteq> p" by auto
  have "a < fresh st" using assms(1) p(1) by (force simp: store_ok_def not_le [symmetric])
  with p \<open>a \<noteq> p\<close> assms(3) show ?thesis
    by (cases n) (auto simp: value_reset_def read_value_def string_destruct_def read_string_def free_cell_def set_cell_def
        alloc_def value_import_def pointee_def)
qed

theorem copy_of_reset_string_witness:
  "\<exists>st'. value_reset (delete_value 9) 1 sample_store = ret st' \<and> copy_value 9 1 st' = fail NullPointer"
  using copy_of_reset_string [OF sample_store_ok sample_string, of 9] by simp

end
