(* ===== verification/JsonStores.thy ===== *)
theory JsonStores
  imports JsonParsers JsonLifetimes
begin

text \<open>
  The parser of \<^verbatim>\<open>examples/procmon/jsonxx.cc\<close> once comma, with the memory that it takes and gives back.
  \<open>JsonParsers\<close> has what it reads; here \<^verbatim>\<open>Value::parse\<close>, \<^verbatim>\<open>Array::parse\<close> and \<^verbatim>\<open>Object::parse\<close> work on the cells
  of \<open>JsonHeaps\<close>, call by call the same way and with the same bound \<open>n\<close> on the depth of the calls; \<open>d\<close> is the
  bound for the destructors.  The parser on the store is shown to follow that on the trees.
\<close>

section \<open>The parser on the store\<close>

definition set_union :: "addr \<Rightarrow> content \<Rightarrow> store \<Rightarrow> store run" where
  "set_union a u st = bindO (read_value a st) (\<lambda>(t, _). set_cell a (CValue t u) st)"

text \<open>What \<^verbatim>\<open>Value::parse\<close> stores when a string, a number, a boolean value or null has been read.\<close>

definition store_scalar :: "addr \<Rightarrow> json \<Rightarrow> store \<Rightarrow> store run" where
  "store_scalar a v st = (case v of
       STRING s \<Rightarrow> (let (p, st) = alloc (CString s) st in set_cell a (CValue STRING_T (UPtr p)) st)
     | NUMBER x \<Rightarrow> set_cell a (CValue NUMBER_T (UNumber x)) st
     | BOOL b \<Rightarrow> set_cell a (CValue BOOL_T (UBool b)) st
     | _ \<Rightarrow> set_cell a (CValue NULL_T Indeterminate) st)"

text \<open>\<^verbatim>\<open>p = new C()\<close>, the parser of the container, and then \<^verbatim>\<open>type_ = t\<close> or \<^verbatim>\<open>delete p\<close>.\<close>

definition store_container ::
  "(addr \<Rightarrow> istream \<Rightarrow> store \<Rightarrow> (bool \<times> istream \<times> store) run) \<Rightarrow> cell \<Rightarrow> value_type \<Rightarrow> (addr \<Rightarrow> store \<Rightarrow> store run) \<Rightarrow>
   addr \<Rightarrow> istream \<Rightarrow> store \<Rightarrow> (bool \<times> istream \<times> store) run" where
  "store_container parser empty_cell t destruct a inp st =
     (let (p, st) = alloc empty_cell st
      in bindO (set_union a (UPtr p) st) (\<lambda>st.
         bindO (parser p inp st) (\<lambda>(found, inp, st).
           if found then bindO (set_type a t st) (\<lambda>st. ret (True, inp, st))
           else bindO (delete_ptr destruct (UPtr p) st) (\<lambda>st. ret (False, inp, st)))))"

definition new_value :: "store \<Rightarrow> addr \<times> store" where
  "new_value = alloc (CValue INVALID_T Indeterminate)"

definition match_end :: "string \<Rightarrow> istream \<Rightarrow> store \<Rightarrow> (bool \<times> istream \<times> store) run" where
  "match_end pattern inp st = (case match pattern inp of (ok, inp) \<Rightarrow> ret (ok, inp, st))"

text \<open>A parsed member: the one that the object may have for the key is destroyed.\<close>

definition store_member :: "nat \<Rightarrow> addr \<Rightarrow> string \<Rightarrow> addr \<Rightarrow> store \<Rightarrow> store run" where
  "store_member d p key v st =
     bindO (read_object p st) (\<lambda>(m, od).
     bindO (case map_of m key of None \<Rightarrow> ret st | Some q \<Rightarrow> delete_value d q st)
       (set_cell p (CObject (map_put key v m) od)))"

text \<open>
  The functions that call each other.  Each of them is given how the others run, \<open>rec\<close>; \<open>store_parse\<close>
  ties them together.  A number that cannot be read may leave anything in the union, which nothing reads
  before it is set again.
\<close>

datatype parse_call = ParseValue | ParseArray | ArrayLoop | ParseObject | ObjectLoop

type_synonym parse_step = "addr \<Rightarrow> istream \<Rightarrow> store \<Rightarrow> (bool \<times> istream \<times> store) run"

definition store_value_step :: "(parse_call \<Rightarrow> parse_step) \<Rightarrow> nat \<Rightarrow> parse_step" where
  "store_value_step rec d a inp st =
     bindO (value_reset (delete_value d) a st) (\<lambda>st.
       case parse_scalar inp of
         (Some v, inp) \<Rightarrow> bindO (store_scalar a v st) (\<lambda>st. ret (True, inp, st))
       | (None, inp) \<Rightarrow>
           bindO (set_union a Indeterminate st) (\<lambda>st.
           case peek_char inp of (c, inp) \<Rightarrow>
           bindO (if c = Some (CHR ''['')
                  then store_container (rec ParseArray) (CArray []) ARRAY_T (array_reset (delete_value d)) a inp st
                  else ret (False, inp, st)) (\<lambda>(found, inp, st).
           if found then ret (True, inp, st)
           else store_container (rec ParseObject) (CObject [] []) OBJECT_T (object_reset (delete_value d)) a inp st)))"

text \<open>\<^verbatim>\<open>Array::parse\<close> and \<^verbatim>\<open>Object::parse\<close> up to the loop: \<^verbatim>\<open>reset()\<close>, and the brackets of an empty container.\<close>

definition container_step :: "(addr \<Rightarrow> store \<Rightarrow> store run) \<Rightarrow> string \<Rightarrow> string \<Rightarrow> parse_step \<Rightarrow> parse_step" where
  "container_step reset opening closing loop p inp st =
     bindO (reset p st) (\<lambda>st.
       case match opening inp of
         (False, inp) \<Rightarrow> ret (False, inp, st)
       | (True, inp) \<Rightarrow>
           case match closing inp of
             (True, inp) \<Rightarrow> ret (True, inp, st)
           | (False, inp) \<Rightarrow> loop p inp st)"

definition store_array_step :: "(parse_call \<Rightarrow> parse_step) \<Rightarrow> nat \<Rightarrow> parse_step" where
  "store_array_step rec d = container_step (array_reset (delete_value d)) ''['' '']'' (rec ArrayLoop)"

definition store_array_loop_step :: "(parse_call \<Rightarrow> parse_step) \<Rightarrow> nat \<Rightarrow> parse_step" where
  "store_array_loop_step rec d p inp st =
     (case new_value st of (v, st) \<Rightarrow>
      bindO (rec ParseValue v inp st) (\<lambda>(found, inp, st).
        if \<not> found then bindO (delete_value d v st) (match_end '']'' inp)
        else bindO (push_back p v st) (\<lambda>st.
          case match '','' inp of
            (True, inp) \<Rightarrow> rec ArrayLoop p inp st
          | (False, inp) \<Rightarrow> match_end '']'' inp st)))"

definition store_object_step :: "(parse_call \<Rightarrow> parse_step) \<Rightarrow> nat \<Rightarrow> parse_step" where
  "store_object_step rec d = container_step (object_reset (delete_value d)) ''{'' ''}'' (rec ObjectLoop)"

definition store_object_loop_step :: "(parse_call \<Rightarrow> parse_step) \<Rightarrow> nat \<Rightarrow> parse_step" where
  "store_object_loop_step rec d p inp st =
     (case parse_string [] inp of
        (False, key, inp) \<Rightarrow>
          (case peek_char inp of (c, inp) \<Rightarrow>
             if c = Some (CHR ''}'') then match_end ''}'' inp st else ret (False, inp, st))
      | (True, key, inp) \<Rightarrow>
          case match '':'' inp of
            (False, inp) \<Rightarrow> ret (False, inp, st)
          | (True, inp) \<Rightarrow>
              case new_value st of (v, st) \<Rightarrow>
              bindO (rec ParseValue v inp st) (\<lambda>(found, inp, st).
                if \<not> found then bindO (delete_value d v st) (match_end ''}'' inp)
                else bindO (store_member d p key v st) (\<lambda>st.
                  case match '','' inp of
                    (True, inp) \<Rightarrow> rec ObjectLoop p inp st
                  | (False, inp) \<Rightarrow> match_end ''}'' inp st)))"

primrec store_parse :: "nat \<Rightarrow> nat \<Rightarrow> parse_call \<Rightarrow> parse_step" where
  "store_parse 0 d c = (\<lambda>a inp st. None)"
| "store_parse (Suc n) d c =
     (case c of
        ParseValue \<Rightarrow> store_value_step (store_parse n d) d
      | ParseArray \<Rightarrow> store_array_step (store_parse n d) d
      | ArrayLoop \<Rightarrow> store_array_loop_step (store_parse n d) d
      | ParseObject \<Rightarrow> store_object_step (store_parse n d) d
      | ObjectLoop \<Rightarrow> store_object_loop_step (store_parse n d) d)"

section \<open>Cells that the parser makes and gives back\<close>

lemma set_union_ok:
  assumes "store_ok st" "cells st a = Some (CValue t u')"
  shows "\<exists>st'. set_union a u st = ret st' \<and> cells st' = (cells st)(a \<mapsto> CValue t u) \<and> becomes st {a} st' {a}"
proof -
  obtain st' where "set_cell a (CValue t u) st = ret st'" "becomes st {a} st' {a}" "cells st' = (cells st)(a \<mapsto> CValue t u)"
    using assms(2) by (rule_tac set_cell_ok [OF assms(1), of a "{a}" "CValue t u"]) auto
  then show ?thesis using assms(2) by (auto simp: set_union_def read_value_def)
qed

lemma store_scalar_ok:
  assumes "store_ok st" "cells st a = Some (CValue t u)" "v = NULL \<or> (\<exists>s. v = STRING s) \<or> (\<exists>x. v = NUMBER x) \<or> (\<exists>b. v = BOOL b)"
  shows "\<exists>st' G. store_scalar a v st = ret st' \<and> value_at (cells st') a v G \<and> becomes st {a} st' G"
proof -
  have set: "\<exists>st'. set_cell a c st = ret st' \<and> cells st' a = Some c \<and> becomes st {a} st' {a}" for c
  proof -
    obtain st' where "set_cell a c st = ret st'" "becomes st {a} st' {a}" "cells st' = (cells st)(a \<mapsto> c)"
      using assms(2) by (rule_tac set_cell_ok [OF assms(1), of a "{a}" c]) auto
    then show ?thesis by auto
  qed
  show ?thesis
  proof (cases v)
    case (STRING s)
    obtain p st1 where st1: "alloc (CString s) st = (p, st1)" by force
    have p: "becomes st {} st1 {p}" "cells st1 p = Some (CString s)" using alloc_becomes [OF assms(1) st1] by auto
    have a: "cells st1 a = Some (CValue t u)" using becomes_apart(2) [OF assms(1) p(1), of "{a}" a] assms(2) by auto
    then have ap: "a \<noteq> p" using p(2) by auto
    let ?c = "CValue STRING_T (UPtr p)"
    obtain st2 where st2: "set_cell a ?c st1 = ret st2" "becomes st1 {a, p} st2 {a, p}" "cells st2 = (cells st1)(a \<mapsto> ?c)"
      using a by (rule_tac set_cell_ok [OF becomes_ok [OF p(1)], of a "{a, p}" ?c]) auto
    have "becomes st {a} st1 {a, p}" using becomes_frame [OF assms(1) p(1), of "{a}"] assms(2) by (auto simp: insert_commute)
    from becomes_trans [OF assms(1) this st2(2)] StringAt [of "cells st2" a p s] st1 st2(1,3) p(2) ap STRING
    show ?thesis by (auto simp: store_scalar_def)
  next
    case (NUMBER x)
    with set [of "CValue NUMBER_T (UNumber x)"] NumberAt show ?thesis by (fastforce simp: store_scalar_def)
  next
    case (BOOL b)
    with set [of "CValue BOOL_T (UBool b)"] BoolAt show ?thesis by (fastforce simp: store_scalar_def)
  next
    case NULL
    with set [of "CValue NULL_T Indeterminate"] NullAt show ?thesis by (fastforce simp: store_scalar_def)
  qed (use assms(3) in auto)
qed

lemma parse_scalar_kinds:
  "parse_scalar inp = (Some v, inp') \<Longrightarrow> v = NULL \<or> (\<exists>s. v = STRING s) \<or> (\<exists>x. v = NUMBER x) \<or> (\<exists>b. v = BOOL b)"
  by (auto simp: parse_scalar_def split: prod.splits if_splits option.splits)

text \<open>What a parser does with a container of its own: what is there afterwards belongs to it.\<close>

context container
begin

definition parsed :: "parse_step \<Rightarrow> istream \<Rightarrow> 'a \<Rightarrow> bool \<times> 'a \<times> istream \<Rightarrow> bool" where
  "parsed f inp x r \<longleftrightarrow> (\<forall>st p F. store_ok st \<longrightarrow> holds (cells st) p x F \<longrightarrow>
     (\<exists>st' G. f p inp st = ret (fst r, snd (snd r), st') \<and> holds (cells st') p (fst (snd r)) G \<and> becomes st F st' G))"

lemma container_step_parsed:
  assumes "match opening inp = (ok1, inp1)" "match closing inp1 = (ok2, inp2)" "good x"
    and "ok1 \<Longrightarrow> \<not> ok2 \<Longrightarrow> parsed loop inp2 (cleared x) r"
  shows "parsed (container_step reset opening closing loop) inp x
    (if \<not> ok1 then (False, cleared x, inp1) else if ok2 then (True, cleared x, inp2) else r)"
  unfolding parsed_def
proof (intro allI impI)
  fix st p F
  assume st: "store_ok st" "holds (cells st) p x F"
  obtain st1 where st1: "reset p st = ret st1" "holds (cells st1) p (cleared x) {p}" "becomes st F st1 {p}"
    using reset_ok [OF st assms(3)] by blast
  let ?r = "if \<not> ok1 then (False, cleared x, inp1) else if ok2 then (True, cleared x, inp2) else r"
  have "\<exists>st' G. container_step reset opening closing loop p inp st = ret (fst ?r, snd (snd ?r), st') \<and>
      holds (cells st') p (fst (snd ?r)) G \<and> becomes st1 {p} st' G"
  proof (cases "ok1 \<and> \<not> ok2")
    case False
    then show ?thesis using st1(1,2) assms(1,2) becomes_refl [OF becomes_ok [OF st1(3)], of "{p}"]
      by (auto simp: container_step_def)
  next
    case True
    with assms(4) st1(2) becomes_ok [OF st1(3)] obtain st2 G where
      "loop p inp2 st1 = ret (fst r, snd (snd r), st2)" "holds (cells st2) p (fst (snd r)) G" "becomes st1 {p} st2 G"
      unfolding parsed_def by blast
    then show ?thesis using True st1(1) assms(1,2) by (auto simp: container_step_def)
  qed
  then show "\<exists>st' G. container_step reset opening closing loop p inp st = ret (fst ?r, snd (snd ?r), st') \<and>
      holds (cells st') p (fst (snd ?r)) G \<and> becomes st F st' G"
    using becomes_trans [OF st(1) st1(3)] by blast
qed

lemma kept_apart:
  assumes "store_ok st" "holds (cells st) p x F" "becomes st {} st' {}"
  shows "holds (cells st') p x F" "becomes st F st' F"
  using holds_apart [OF assms(1,3,2)] becomes_frame [OF assms(1,3), of F] holds_dom [OF assms(2)] by simp_all

lemma store_container_ok:
  assumes st: "store_ok st" "cells st a = Some (CValue t' u)"
    and parser: "parsed parser inp empty_val (ok, x, inp')" "good x"
  shows "\<exists>st' q G. store_container parser empty_cell t reset a inp st = ret (ok, inp', st') \<and>
    cells st' a = Some (CValue (if ok then t else t') (UPtr q)) \<and> a \<notin> G \<and> becomes st {a} st' (insert a G) \<and>
    (if ok then holds (cells st') q x G else G = {} \<and> cells st' q = None)"
proof -
  obtain q st1 where st1: "alloc empty_cell st = (q, st1)" by force
  have q: "becomes st {} st1 {q}" "holds (cells st1) q empty_val {q}" using alloc_becomes [OF st(1) st1] holds_empty by blast+
  have a1: "cells st1 a = Some (CValue t' u)" "a \<noteq> q" using becomes_apart [OF st(1) q(1), of "{a}"] st(2) by auto
  obtain st2 where st2: "set_union a (UPtr q) st1 = ret st2" "cells st2 = (cells st1)(a \<mapsto> CValue t' (UPtr q))" "becomes st1 {a} st2 {a}"
    using set_union_ok [OF becomes_ok [OF q(1)] a1(1)] by blast
  note ok2 = becomes_ok [OF st2(3)]
  have "holds (cells st2) q empty_val {q}" using holds_apart [OF becomes_ok [OF q(1)] st2(3) q(2)] a1(2) by simp
  then obtain st3 G where st3: "parser q inp st2 = ret (ok, inp', st3)" "holds (cells st3) q x G" "becomes st2 {q} st3 G"
    using parser(1) ok2 by (fastforce simp: parsed_def)
  have a3: "cells st3 a = Some (CValue t' (UPtr q))" "a \<notin> G"
    using becomes_apart [OF ok2 st3(3), of "{a}"] st2(2) a1(2) by auto
  have "becomes st {a} st1 {a, q}" using becomes_frame [OF st(1) q(1), of "{a}"] st(2) by (auto simp: insert_commute)
  moreover have "becomes st1 {a, q} st2 {a, q}"
    using becomes_frame [OF becomes_ok [OF q(1)] st2(3), of "{q}"] a1(2) holds_dom [OF q(2)] by (simp add: insert_commute)
  moreover have "becomes st2 {a, q} st3 (insert a G)"
    using becomes_frame [OF ok2 st3(3), of "{a}"] a1(2) st2(2) by (simp add: insert_commute)
  ultimately have b3: "becomes st {a} st3 (insert a G)" using becomes_trans [OF st(1)] by blast
  note ok3 = becomes_ok [OF b3]
  show ?thesis
  proof (cases ok)
    case True
    obtain st4 where st4: "set_type a t st3 = ret st4" "cells st4 a = Some (CValue t (UPtr q))" "becomes st3 {a} st4 {a}"
      using set_type_ok [OF ok3 a3(1)] by blast
    have "becomes st3 (insert a G) st4 (insert a G)"
      using becomes_frame [OF ok3 st4(3), of G] a3(2) holds_dom [OF st3(2)] by simp
    moreover have "holds (cells st4) q x G" using holds_apart [OF ok3 st4(3) st3(2)] a3(2) by simp
    ultimately show ?thesis using True st1 st2(1) st3(1) st4(1,2) a3(2) becomes_trans [OF st(1) b3]
      by (auto simp: store_container_def)
  next
    case False
    obtain st4 where st4: "bindO (reset q st3) (free_cell q) = ret st4" "becomes st3 G st4 {}"
      using delete_ok [OF ok3 st3(2) parser(2)] by blast
    have "becomes st3 (insert a G) st4 {a}" using becomes_frame [OF ok3 st4(2), of "{a}"] a3 by auto
    moreover have "cells st4 q = None" "cells st4 a = Some (CValue t' (UPtr q))"
      using becomes_nothing [OF st4(2)] holds_dom [OF st3(2)] a3 by auto
    ultimately show ?thesis using False st1 st2(1) st3(1) st4(1) a3(2) becomes_trans [OF st(1) b3]
      by (auto simp: store_container_def)
  qed
qed

end

section \<open>The parser follows the one on the trees\<close>

text \<open>
  What the functions do to the store, when they read \<open>inp\<close> with the given outcome.  A value that has been
  parsed without success keeps its former type, and a pointer to an object that is gone.
\<close>

definition value_parsed :: "parse_step \<Rightarrow> nat \<Rightarrow> istream \<Rightarrow> json option \<times> istream \<Rightarrow> bool" where
  "value_parsed f d inp r \<longleftrightarrow> (\<forall>st a v F t u. store_ok st \<longrightarrow> value_at (cells st) a v F \<longrightarrow> size v < d \<longrightarrow>
     cells st a = Some (CValue t u) \<longrightarrow>
     (case fst r of
        Some w \<Rightarrow> \<exists>st' G. f a inp st = ret (True, snd r, st') \<and> value_at (cells st') a w G \<and> becomes st F st' G
      | None \<Rightarrow> \<exists>st' q. f a inp st = ret (False, snd r, st') \<and> becomes st F st' {a} \<and>
          cells st' a = Some (CValue t (UPtr q)) \<and> cells st' q = None))"

abbreviation "array_parsed \<equiv> container.parsed array_owned"
abbreviation "object_parsed \<equiv> container.parsed object_owned"

abbreviation plain :: "json string_map \<Rightarrow> json_object" where
  "plain m \<equiv> \<lparr>value_map = m, odd_key = []\<rparr>"

abbreviation plain_result :: "bool \<times> json string_map \<times> istream \<Rightarrow> bool \<times> json_object \<times> istream" where
  "plain_result \<equiv> \<lambda>(ok, m, inp). (ok, plain m, inp)"

abbreviation nice :: "nat \<Rightarrow> json \<Rightarrow> bool" where
  "nice d v \<equiv> json_ok v \<and> size v < d"

abbreviation all_large :: "(nat \<Rightarrow> bool) \<Rightarrow> bool" where
  "all_large P \<equiv> eventually P sequentially"

definition sound_values :: "nat \<Rightarrow> bool" where
  "sound_values n \<longleftrightarrow> (\<forall>inp r. parse_value n inp = Some r \<longrightarrow>
     (\<forall>w. fst r = Some w \<longrightarrow> json_ok w) \<and> all_large (\<lambda>d. value_parsed (store_parse n d ParseValue) d inp r))"

definition sound_arrays :: "nat \<Rightarrow> bool" where
  "sound_arrays n \<longleftrightarrow> (\<forall>inp r. parse_array n inp = Some r \<longrightarrow>
     (\<forall>w\<in>set (fst (snd r)). json_ok w) \<and>
     all_large (\<lambda>d. \<forall>ws. (\<forall>w\<in>set ws. nice d w) \<longrightarrow> array_parsed (store_parse n d ParseArray) inp ws r))"

definition sound_array_loops :: "nat \<Rightarrow> bool" where
  "sound_array_loops n \<longleftrightarrow> (\<forall>inp ws r. array_loop n ws inp = Some r \<longrightarrow> (\<forall>w\<in>set ws. json_ok w) \<longrightarrow>
     (\<forall>w\<in>set (fst (snd r)). json_ok w) \<and> all_large (\<lambda>d. array_parsed (store_parse n d ArrayLoop) inp ws r))"

definition sound_objects :: "nat \<Rightarrow> bool" where
  "sound_objects n \<longleftrightarrow> (\<forall>inp r. parse_object n inp = Some r \<longrightarrow> json_ok (OBJECT (fst (snd r))) \<and>
     all_large (\<lambda>d. \<forall>m. json_ok (OBJECT m) \<longrightarrow> (\<forall>w\<in>snd ` set m. size w < d) \<longrightarrow>
       object_parsed (store_parse n d ParseObject) inp (plain m) (plain_result r)))"

definition sound_object_loops :: "nat \<Rightarrow> bool" where
  "sound_object_loops n \<longleftrightarrow> (\<forall>inp m r. object_loop n m inp = Some r \<longrightarrow> json_ok (OBJECT m) \<longrightarrow>
     json_ok (OBJECT (fst (snd r))) \<and>
     all_large (\<lambda>d. object_parsed (store_parse n d ObjectLoop) inp (plain m) (plain_result r)))"

lemma sound_arraysD:
  assumes "sound_arrays n" "parse_array n inp = Some r"
  shows "\<forall>w\<in>set (fst (snd r)). json_ok w"
    "all_large (\<lambda>d. \<forall>ws. (\<forall>w\<in>set ws. nice d w) \<longrightarrow> array_parsed (store_parse n d ParseArray) inp ws r)"
  using assms unfolding sound_arrays_def by blast+

lemma sound_array_loopsD:
  assumes "sound_array_loops n" "array_loop n ws inp = Some r" "\<forall>w\<in>set ws. json_ok w"
  shows "\<forall>w\<in>set (fst (snd r)). json_ok w" "all_large (\<lambda>d. array_parsed (store_parse n d ArrayLoop) inp ws r)"
  using assms unfolding sound_array_loops_def by blast+

lemma sound_objectsD:
  assumes "sound_objects n" "parse_object n inp = Some r"
  shows "json_ok (OBJECT (fst (snd r)))"
    "all_large (\<lambda>d. \<forall>m. json_ok (OBJECT m) \<longrightarrow> (\<forall>w\<in>snd ` set m. size w < d) \<longrightarrow>
       object_parsed (store_parse n d ParseObject) inp (plain m) (plain_result r))"
  using assms unfolding sound_objects_def by blast+

lemma sound_object_loopsD:
  assumes "sound_object_loops n" "object_loop n m inp = Some r" "json_ok (OBJECT m)"
  shows "json_ok (OBJECT (fst (snd r)))" "all_large (\<lambda>d. object_parsed (store_parse n d ObjectLoop) inp (plain m) (plain_result r))"
  using assms unfolding sound_object_loops_def by blast+

lemma sound_valuesD:
  assumes "sound_values n" "parse_value n inp = Some r"
  shows "fst r = Some w \<Longrightarrow> json_ok w" "all_large (\<lambda>d. value_parsed (store_parse n d ParseValue) d inp r)"
  using assms unfolding sound_values_def by blast+

lemma large_sizes: "finite A \<Longrightarrow> all_large (\<lambda>d. \<forall>w\<in>A. size w < d)"
  by (intro eventually_ball_finite) (auto intro: eventually_gt_at_top)

text \<open>Arrays\<close>

lemma array_step_sound:
  assumes "sound_array_loops n"
  shows "sound_arrays (Suc n)"
  unfolding sound_arrays_def
proof (intro allI impI)
  fix inp r
  assume r: "parse_array (Suc n) inp = Some r"
  obtain ok1 inp1 where m1: "match ''['' inp = (ok1, inp1)" by force
  obtain ok2 inp2 where m2: "match '']'' inp1 = (ok2, inp2)" by force
  have loop: "array_loop n [] inp2 = Some r" if "ok1" "\<not> ok2" using that r m1 m2 by auto
  have r': "r = (if \<not> ok1 then (False, [], inp1) else if ok2 then (True, [], inp2) else r)"
    using r m1 m2 by (auto split: bool.splits)
  have step: "array_parsed (store_parse (Suc n) d ParseArray) inp ws r"
    if "ok1 \<longrightarrow> \<not> ok2 \<longrightarrow> array_parsed (store_parse n d ArrayLoop) inp2 [] r" "\<forall>w\<in>set ws. nice d w" for d ws
    using array.container_step_parsed [OF m1 m2 good_array_values [OF that(2)], of "store_parse n d ArrayLoop" r] that(1) r'
    by (simp add: store_array_step_def)
  show "(\<forall>w\<in>set (fst (snd r)). json_ok w) \<and>
     all_large (\<lambda>d. \<forall>ws. (\<forall>w\<in>set ws. nice d w) \<longrightarrow> array_parsed (store_parse (Suc n) d ParseArray) inp ws r)"
  proof (cases "ok1 \<and> \<not> ok2")
    case False
    then have "fst (snd r) = []" by (subst r') auto
    with False step show ?thesis by (simp add: eventually_sequentially)
  next
    case True
    have "\<forall>w\<in>set []. json_ok w" by simp
    note sound = sound_array_loopsD [OF assms loop this]
    from True sound show ?thesis using step by (auto elim: eventually_mono)
  qed
qed

lemma object_step_sound:
  assumes "sound_object_loops n"
  shows "sound_objects (Suc n)"
  unfolding sound_objects_def
proof (intro allI impI)
  fix inp r
  assume r: "parse_object (Suc n) inp = Some r"
  obtain ok1 inp1 where m1: "match ''{'' inp = (ok1, inp1)" by force
  obtain ok2 inp2 where m2: "match ''}'' inp1 = (ok2, inp2)" by force
  have loop: "object_loop n [] inp2 = Some r" if "ok1" "\<not> ok2" using that r m1 m2 by auto
  have r': "r = (if \<not> ok1 then (False, [], inp1) else if ok2 then (True, [], inp2) else r)"
    using r m1 m2 by (auto split: bool.splits)
  have step: "object_parsed (store_parse (Suc n) d ParseObject) inp (plain m) (plain_result r)"
    if "ok1 \<longrightarrow> \<not> ok2 \<longrightarrow> object_parsed (store_parse n d ObjectLoop) inp2 (plain []) (plain_result r)"
      "json_ok (OBJECT m)" "\<forall>w\<in>snd ` set m. size w < d" for d m
  proof -
    have good: "good_object (delete_value d) (copy_value d) (plain m)"
      using good_object_values [of "plain m"] that(2,3) by (simp add: object_ok_def)
    have eq: "(if \<not> ok1 then (False, plain [], inp1) else if ok2 then (True, plain [], inp2) else plain_result r) = plain_result r"
      by (subst (2) r') auto
    have reset: "reset_object (plain m) = plain []" by (simp add: reset_object_def)
    show ?thesis
      using object.container_step_parsed [OF m1 m2 good, of "store_parse n d ObjectLoop" "plain_result r"] that(1)
      unfolding reset eq by (simp add: store_object_step_def)
  qed
  show "json_ok (OBJECT (fst (snd r))) \<and> all_large (\<lambda>d. \<forall>m. json_ok (OBJECT m) \<longrightarrow> (\<forall>w\<in>snd ` set m. size w < d) \<longrightarrow>
       object_parsed (store_parse (Suc n) d ParseObject) inp (plain m) (plain_result r))"
  proof (cases "ok1 \<and> \<not> ok2")
    case False
    then have "fst (snd r) = []" by (subst r') auto
    with False step show ?thesis by (simp add: eventually_sequentially)
  next
    case True
    have "json_ok (OBJECT [])" by simp
    note sound = sound_object_loopsD [OF assms loop this]
    from True sound show ?thesis using step by (auto elim: eventually_mono)
  qed
qed

text \<open>A new value that is parsed, and destroyed again if that fails.\<close>

lemma new_value_parsed:
  assumes "value_parsed f d inp (r, inp')" "0 < d" "store_ok st" "new_value st = (v, st1)"
  shows "case r of
      Some w \<Rightarrow> \<exists>st2 G. f v inp st1 = ret (True, inp', st2) \<and> value_at (cells st2) v w G \<and> becomes st {} st2 G
    | None \<Rightarrow> \<exists>st2 st3. f v inp st1 = ret (False, inp', st2) \<and> delete_value d v st2 = ret st3 \<and> becomes st {} st3 {}"
proof -
  have v: "becomes st {} st1 {v}" "cells st1 v = Some (CValue INVALID_T Indeterminate)" "value_at (cells st1) v INVALID {v}"
    using alloc_becomes [OF assms(3) assms(4) [unfolded new_value_def]] InvalidAt by blast+
  have "size INVALID < d" using assms(2) by simp
  note spec = assms(1) [unfolded value_parsed_def, rule_format, OF becomes_ok [OF v(1)] v(3) this v(2)]
  show ?thesis
  proof (cases r)
    case (Some w)
    with spec obtain st2 G where "f v inp st1 = ret (True, inp', st2)" "value_at (cells st2) v w G" "becomes st1 {v} st2 G"
      by auto
    with Some becomes_trans [OF assms(3) v(1)] show ?thesis by auto
  next
    case None
    with spec obtain st2 q where st2: "f v inp st1 = ret (False, inp', st2)" "becomes st1 {v} st2 {v}"
      "cells st2 v = Some (CValue INVALID_T (UPtr q))" by auto
    obtain st3 where "free_cell v st2 = ret st3" "becomes st2 {v} st3 {}"
      using free_cell_ok [OF becomes_ok [OF st2(2)], of v] st2(3) by auto
    moreover from this have "delete_value d v st2 = ret st3"
      using assms(2) st2(3) by (cases d) (auto simp: value_reset_def read_value_def)
    moreover have "becomes st {} st3 {}"
      using becomes_trans [OF assms(3) v(1)] becomes_trans [OF assms(3)] st2(2) calculation(2) by blast
    ultimately show ?thesis using None st2(1) by auto
  qed
qed

lemma array_loop_sound:
  assumes "sound_values n" "sound_array_loops n"
  shows "sound_array_loops (Suc n)"
  unfolding sound_array_loops_def
proof (intro allI impI)
  fix inp ws r
  assume r: "array_loop (Suc n) ws inp = Some r" and ws: "\<forall>w\<in>set ws. json_ok w"
  then obtain v inp1 where v: "parse_value n inp = Some (v, inp1)" by (auto split: option.splits)
  note sound = sound_valuesD [OF assms(1) v]
  obtain comma inp2 where m: "match '','' inp1 = (comma, inp2)" by force
  let ?inp = "if v \<noteq> None then inp2 else inp1"
  obtain ok inp3 where e: "match '']'' ?inp = (ok, inp3)" by force
  show "(\<forall>w\<in>set (fst (snd r)). json_ok w) \<and> all_large (\<lambda>d. array_parsed (store_parse (Suc n) d ArrayLoop) inp ws r)"
  proof (cases v)
    case None
    then have r': "r = (ok, ws, inp3)" using r v e by simp
    have "array_parsed (store_array_loop_step rec d) inp ws r" if rec: "value_parsed (rec ParseValue) d inp (v, inp1)" "0 < d" for rec d
      unfolding array.parsed_def
    proof (intro allI impI)
      fix st p F
      assume st: "store_ok st" "array_owned (cells st) p ws F"
      obtain q st1 where q: "new_value st = (q, st1)" by force
      from new_value_parsed [OF rec st(1) q] None obtain st2 st3 where
        "rec ParseValue q inp st1 = ret (False, inp1, st2)" "delete_value d q st2 = ret st3" "becomes st {} st3 {}" by auto
      with array.kept_apart [OF st this(3)] None e q r'
      show "\<exists>st' G. store_array_loop_step rec d p inp st = ret (fst r, snd (snd r), st') \<and>
          array_owned (cells st') p (fst (snd r)) G \<and> becomes st F st' G"
        by (auto simp: store_array_loop_step_def match_end_def)
    qed
    note step = this
    have "all_large (\<lambda>d. array_parsed (store_parse (Suc n) d ArrayLoop) inp ws r)"
      using eventually_conj [OF sound(2) eventually_gt_at_top [of 0]] by (rule eventually_mono) (simp add: step)
    then show ?thesis using ws r' by simp
  next
    case (Some w)
    have r': "(if comma then array_loop n (ws @ [w]) inp2 else Some (ok, ws @ [w], inp3)) = Some r"
      using r v m e Some by (cases comma) auto
    have ws': "\<forall>w\<in>set (ws @ [w]). json_ok w" using ws sound(1) Some by simp
    have rest: "(\<forall>w\<in>set (fst (snd r)). json_ok w) \<and>
        all_large (\<lambda>d. comma \<longrightarrow> array_parsed (store_parse n d ArrayLoop) inp2 (ws @ [w]) r)"
    proof (cases comma)
      case True
      with r' have "array_loop n (ws @ [w]) inp2 = Some r" by simp
      from sound_array_loopsD [OF assms(2) this ws'] show ?thesis by (auto elim: eventually_mono)
    next
      case False
      with r' have "fst (snd r) = ws @ [w]" by auto
      with False ws' show ?thesis by simp
    qed
    have "array_parsed (store_array_loop_step rec d) inp ws r"
      if rec: "value_parsed (rec ParseValue) d inp (v, inp1)" "0 < d"
        "comma \<longrightarrow> array_parsed (rec ArrayLoop) inp2 (ws @ [w]) r" for rec d
      unfolding array.parsed_def
    proof (intro allI impI)
      fix st p F
      assume st: "store_ok st" "array_owned (cells st) p ws F"
      obtain q st1 where q: "new_value st = (q, st1)" by force
      from new_value_parsed [OF rec(1,2) st(1) q] Some obtain st2 G where
        st2: "rec ParseValue q inp st1 = ret (True, inp1, st2)" "value_at (cells st2) q w G" "becomes st {} st2 G" by auto
      note ok2 = becomes_ok [OF st2(3)]
      have p2: "array_owned (cells st2) p ws F" "F \<inter> G = {}" using array.holds_apart [OF st(1) st2(3) st(2)] by auto
      obtain st3 where st3: "push_back p q st2 = ret st3" "array_owned (cells st3) p (ws @ [w]) (F \<union> G)" "becomes st2 (F \<union> G) st3 (F \<union> G)"
        using push_back_ok [OF ok2 p2(1) st2(2) p2(2)] by blast
      have "becomes st F st2 (F \<union> G)"
        using becomes_frame [OF st(1) st2(3), of F] array_owned_dom [OF st(2)] by (simp add: Un_commute)
      then have b3: "becomes st F st3 (F \<union> G)" using becomes_trans [OF st(1)] st3(3) by blast
      have "\<exists>st' H. (if comma then rec ArrayLoop p inp2 st3 else match_end '']'' inp2 st3) = ret (fst r, snd (snd r), st') \<and>
          array_owned (cells st') p (fst (snd r)) H \<and> becomes st3 (F \<union> G) st' H"
      proof (cases comma)
        case True
        with rec(3) st3(2) becomes_ok [OF b3] show ?thesis unfolding array.parsed_def by auto
      next
        case False
        with r' e Some st3(2) becomes_refl [OF becomes_ok [OF b3], of "F \<union> G"] show ?thesis by (auto simp: match_end_def)
      qed
      then obtain st' H where "(if comma then rec ArrayLoop p inp2 st3 else match_end '']'' inp2 st3) = ret (fst r, snd (snd r), st')"
        "array_owned (cells st') p (fst (snd r)) H" "becomes st3 (F \<union> G) st' H" by blast
      with q st2(1) st3(1) m becomes_trans [OF st(1) b3]
      show "\<exists>st' G. store_array_loop_step rec d p inp st = ret (fst r, snd (snd r), st') \<and>
          array_owned (cells st') p (fst (snd r)) G \<and> becomes st F st' G"
        by (cases comma) (auto simp: store_array_loop_step_def)
    qed
    note step = this
    have "all_large (\<lambda>d. array_parsed (store_parse (Suc n) d ArrayLoop) inp ws r)"
      using eventually_conj [OF sound(2) eventually_conj [OF eventually_gt_at_top [of 0] conjunct2 [OF rest]]]
      by (rule eventually_mono) (simp add: step)
    then show ?thesis using rest by blast
  qed
qed

text \<open>Objects\<close>

lemma store_member_ok:
  assumes "store_ok st" "object_owned (cells st) p (plain m) F" "value_at (cells st) q w H" "F \<inter> H = {}"
    and "ordered m" "\<forall>w\<in>snd ` set m. size w < d"
  shows "\<exists>st' F'. store_member d p key q st = ret st' \<and> object_owned (cells st') p (plain (map_put key w m)) F' \<and>
    becomes st (F \<union> H) st' F'"
proof -
  obtain pm G where p: "cells st p = Some (CObject pm [])" "members_at (cells st) pm m G" "p \<notin> G" "F = insert p G"
    using assms(2) by (auto simp: object_owned_def)
  from members_put [OF p(2) assms(5), of key] obtain A B where AB: "G = A \<union> B" "A \<inter> B = {}"
    "case map_of m key of None \<Rightarrow> map_of pm key = None \<and> A = {}
     | Some w \<Rightarrow> (\<exists>q. map_of pm key = Some q \<and> value_at (cells st) q w A)"
    "\<And>h' q v H. (\<forall>x\<in>B. h' x = cells st x) \<Longrightarrow> value_at h' q v H \<Longrightarrow> B \<inter> H = {} \<Longrightarrow>
       members_at h' (map_put key q pm) (map_put key v m) (B \<union> H)" by blast
  obtain st1 where st1: "(case map_of pm key of None \<Rightarrow> ret st | Some q \<Rightarrow> delete_value d q st) = ret st1" "becomes st A st1 {}"
  proof (cases "map_of m key")
    case None
    with AB(3) that [of st] becomes_refl [OF assms(1)] show ?thesis by auto
  next
    case (Some w')
    then have "size w' < d" using assms(6) map_of_SomeD by force
    with Some AB(3) that delete_value_frees [OF assms(1)] show ?thesis by force
  qed
  let ?R = "insert p (B \<union> H)"
  have R: "?R \<subseteq> dom (cells st)" "A \<inter> ?R = {}"
    using object_owned_dom [OF assms(2)] value_at_dom [OF assms(3)] p(3,4) AB(1,2) assms(4) by auto
  have keep: "\<And>x. x \<in> ?R \<Longrightarrow> cells st1 x = cells st x" using becomes_apart(2) [OF assms(1) st1(2) R(2,1)] by blast
  let ?c = "CObject (map_put key q pm) []"
  obtain st2 where st2: "set_cell p ?c st1 = ret st2" "becomes st1 ?R st2 ?R" "cells st2 = (cells st1)(p \<mapsto> ?c)"
    using keep [of p] p(1) by (rule_tac set_cell_ok [OF becomes_ok [OF st1(2)], of p ?R ?c]) auto
  have "p \<notin> B \<union> H" using p(3,4) AB(1) assms(4) by auto
  then have same: "\<forall>x\<in>B \<union> H. cells st2 x = cells st x" using keep st2(3) by auto
  moreover from this have "value_at (cells st2) q w H" using value_at_frame [OF assms(3)] by blast
  ultimately have "members_at (cells st2) (map_put key q pm) (map_put key w m) (B \<union> H)"
    using assms(4) p(4) AB(1) by (intro AB(4)) auto
  with \<open>p \<notin> B \<union> H\<close> st2(3) have "object_owned (cells st2) p (plain (map_put key w m)) ?R" by (auto simp: object_owned_def)
  moreover have "becomes st (F \<union> H) st1 ?R"
  proof -
    have "F \<union> H = A \<union> ?R" using p(4) AB(1) by auto
    with becomes_frame [OF assms(1) st1(2) R(2,1)] show ?thesis by simp
  qed
  then have "becomes st (F \<union> H) st2 ?R" using becomes_trans [OF assms(1)] st2(2) by blast
  ultimately show ?thesis using p(1) st1(1) st2(1) by (auto simp: store_member_def read_object_def)
qed

lemma object_loop_value:
  assumes rec: "value_parsed (rec ParseValue) d inp (v, inp1)" "0 < d"
    and heads: "parse_string [] inp0 = (True, key, inp')" "match '':'' inp' = (True, inp)"
    and ends: "match '','' inp1 = (comma, inp2)" "match ''}'' (if v \<noteq> None then inp2 else inp1) = (ok, inp3)"
    and m: "ordered m" "\<forall>w\<in>snd ` set m. size w < d"
    and r: "r = (case v of None \<Rightarrow> (ok, m, inp3) | Some w \<Rightarrow> if comma then r else (ok, map_put key w m, inp3))"
    and loop: "\<And>w. v = Some w \<Longrightarrow> comma \<Longrightarrow> object_parsed (rec ObjectLoop) inp2 (plain (map_put key w m)) (plain_result r)"
  shows "object_parsed (store_object_loop_step rec d) inp0 (plain m) (plain_result r)"
  unfolding object.parsed_def
proof (intro allI impI)
  fix st p F
  assume st: "store_ok st" "object_owned (cells st) p (plain m) F"
  obtain q st1 where q: "new_value st = (q, st1)" by force
  note new = new_value_parsed [OF rec st(1) q]
  show "\<exists>st' G. store_object_loop_step rec d p inp0 st = ret (fst (plain_result r), snd (snd (plain_result r)), st') \<and>
      object_owned (cells st') p (fst (snd (plain_result r))) G \<and> becomes st F st' G"
  proof (cases v)
    case None
    with new obtain st2 st3 where
      "rec ParseValue q inp st1 = ret (False, inp1, st2)" "delete_value d q st2 = ret st3" "becomes st {} st3 {}" by auto
    moreover have "r = (ok, m, inp3)" using r None by simp
    ultimately show ?thesis using object.kept_apart [OF st] heads ends None q
      by (auto simp: store_object_loop_step_def match_end_def)
  next
    case (Some w)
    with new obtain st2 G where
      st2: "rec ParseValue q inp st1 = ret (True, inp1, st2)" "value_at (cells st2) q w G" "becomes st {} st2 G" by auto
    have p2: "object_owned (cells st2) p (plain m) F" "F \<inter> G = {}" using object.holds_apart [OF st(1) st2(3) st(2)] by auto
    obtain st3 F' where st3: "store_member d p key q st2 = ret st3" "object_owned (cells st3) p (plain (map_put key w m)) F'"
      "becomes st2 (F \<union> G) st3 F'"
      using store_member_ok [OF becomes_ok [OF st2(3)] p2(1) st2(2) p2(2) m] by blast
    have "becomes st F st2 (F \<union> G)"
      using becomes_frame [OF st(1) st2(3), of F] object_owned_dom [OF st(2)] by (simp add: Un_commute)
    then have b3: "becomes st F st3 F'" using becomes_trans [OF st(1)] st3(3) by blast
    obtain ok' m' inp' where r': "r = (ok', m', inp')" by (metis prod_cases3)
    have "\<exists>st' H. (if comma then rec ObjectLoop p inp2 st3 else match_end ''}'' inp2 st3) = ret (ok', inp', st') \<and>
        object_owned (cells st') p (plain m') H \<and> becomes st3 F' st' H"
    proof (cases comma)
      case True
      with loop [OF Some] st3(2) becomes_ok [OF b3] show ?thesis unfolding object.parsed_def by (auto simp: r')
    next
      case False
      with r r' ends Some st3(2) becomes_refl [OF becomes_ok [OF b3], of F'] show ?thesis by (auto simp: match_end_def)
    qed
    then obtain st' H where "(if comma then rec ObjectLoop p inp2 st3 else match_end ''}'' inp2 st3) = ret (ok', inp', st')"
      "object_owned (cells st') p (plain m') H" "becomes st3 F' st' H" by blast
    with q st2(1) st3(1) heads ends(1) becomes_trans [OF st(1) b3] show ?thesis
      by (cases comma) (auto simp: store_object_loop_step_def r')
  qed
qed

lemma json_ok_put: "json_ok (OBJECT m) \<Longrightarrow> json_ok w \<Longrightarrow> json_ok (OBJECT (map_put k w m))"
  using put_member_ok [of "plain m" w k] by (simp add: object_ok_def put_member_def)

lemma object_loop_sound:
  assumes "sound_values n" "sound_object_loops n"
  shows "sound_object_loops (Suc n)"
  unfolding sound_object_loops_def
proof (intro allI impI)
  fix inp0 m r
  assume r: "object_loop (Suc n) m inp0 = Some r" and m: "json_ok (OBJECT m)"
  obtain found key inp' where key: "parse_string [] inp0 = (found, key, inp')" by (metis prod_cases3)
  obtain c inpc where c: "peek_char inp' = (c, inpc)" by force
  obtain endc inpe where e: "match ''}'' inpc = (endc, inpe)" by force
  obtain colon inp where colon: "match '':'' inp' = (colon, inp)" by force
  show "json_ok (OBJECT (fst (snd r))) \<and>
      all_large (\<lambda>d. object_parsed (store_parse (Suc n) d ObjectLoop) inp0 (plain m) (plain_result r))"
  proof (cases "found \<and> colon")
    case False
    let ?r = "if found then (False, m, inp) else if c = Some (CHR ''}'') then (endc, m, inpe) else (False, m, inpc)"
    have r': "r = ?r" using r key c e colon False by (auto split: if_splits bool.splits)
    have "object_parsed (store_object_loop_step rec d) inp0 (plain m) (plain_result ?r)" for rec d
      unfolding object.parsed_def using key c e colon False becomes_refl
      by (cases found) (auto simp: store_object_loop_step_def match_end_def)
    with m r' show ?thesis by simp
  next
    case True
    then obtain v inp1 where v: "parse_value n inp = Some (v, inp1)" using r key colon by (auto split: option.splits)
    note sound = sound_valuesD [OF assms(1) v]
    obtain comma inp2 where mo: "match '','' inp1 = (comma, inp2)" by force
    obtain ok inp3 where e3: "match ''}'' (if v \<noteq> None then inp2 else inp1) = (ok, inp3)" by force
    have r': "(case v of None \<Rightarrow> Some (ok, m, inp3)
        | Some w \<Rightarrow> if comma then object_loop n (map_put key w m) inp2 else Some (ok, map_put key w m, inp3)) = Some r"
      using r key colon True v mo e3 by (cases v; cases comma) auto
    then have r2: "r = (case v of None \<Rightarrow> (ok, m, inp3) | Some w \<Rightarrow> if comma then r else (ok, map_put key w m, inp3))"
      by (auto split: option.splits if_splits)
    have put: "json_ok (OBJECT (map_put key w m))" if "v = Some w" for w
      using json_ok_put [OF m] sound(1) [of w] that by simp
    have rest: "json_ok (OBJECT (fst (snd r))) \<and> all_large (\<lambda>d. \<forall>w. v = Some w \<longrightarrow> comma \<longrightarrow>
        object_parsed (store_parse n d ObjectLoop) inp2 (plain (map_put key w m)) (plain_result r))"
    proof (cases "v \<noteq> None \<and> comma")
      case True
      then obtain w where w: "v = Some w" by blast
      with True r' have "object_loop n (map_put key w m) inp2 = Some r" by simp
      from sound_object_loopsD [OF assms(2) this put [OF w]] w show ?thesis by (auto elim: eventually_mono)
    next
      case False
      then have "fst (snd r) = (case v of None \<Rightarrow> m | Some w \<Rightarrow> map_put key w m)" using r2 by (auto split: option.splits)
      with False m put show ?thesis by (auto split: option.splits)
    qed
    have ordered: "ordered m" using m by simp
    have "finite (snd ` set m)" by simp
    from eventually_conj [OF eventually_conj [OF sound(2) eventually_gt_at_top [of 0]] eventually_conj [OF large_sizes [OF this] conjunct2 [OF rest]]]
    have "all_large (\<lambda>d. object_parsed (store_parse (Suc n) d ObjectLoop) inp0 (plain m) (plain_result r))"
    proof (rule eventually_mono)
      fix d
      assume d: "(value_parsed (store_parse n d ParseValue) d inp (v, inp1) \<and> 0 < d) \<and> (\<forall>w\<in>snd ` set m. size w < d) \<and>
        (\<forall>w. v = Some w \<longrightarrow> comma \<longrightarrow> object_parsed (store_parse n d ObjectLoop) inp2 (plain (map_put key w m)) (plain_result r))"
      have "object_parsed (store_object_loop_step (store_parse n d) d) inp0 (plain m) (plain_result r)"
        by (rule object_loop_value [OF _ _ _ _ mo e3 ordered _ r2]) (use d key colon True in auto)
      then show "object_parsed (store_parse (Suc n) d ObjectLoop) inp0 (plain m) (plain_result r)" by simp
    qed
    then show ?thesis using rest by blast
  qed
qed

text \<open>Values\<close>

lemma value_reset_type:
  assumes "value_reset del a st = ret st'" "cells st a = Some (CValue t u)"
  shows "\<exists>u'. cells st' a = Some (CValue t u')"
proof -
  have "\<exists>u'. cells st' a = Some (CValue t u')" if "bindO m (set_cell a (CValue t UNull)) = ret st'" for m
    using that by (auto simp: bindO_def set_cell_def split: option.splits sum.splits if_splits)
  then show ?thesis using assms by (auto simp: value_reset_def read_value_def split: if_splits)
qed

lemma value_step_parsed:
  assumes array: "\<And>vs ok inp2. v = None \<Longrightarrow> c = Some (CHR ''['') \<Longrightarrow> ra = (ok, vs, inp2) \<Longrightarrow>
      array_parsed (rec ParseArray) inp1 [] ra \<and> (\<forall>w\<in>set vs. nice d w)"
    and object: "\<And>m ok inp3. v = None \<Longrightarrow> (c = Some (CHR ''['') \<longrightarrow> \<not> fst ra) \<Longrightarrow> ro = (ok, m, inp3) \<Longrightarrow>
      object_parsed (rec ParseObject) (if c = Some (CHR ''['') then snd (snd ra) else inp1) (plain []) (plain_result ro) \<and>
      json_ok (OBJECT m) \<and> (\<forall>w\<in>snd ` set m. size w < d)"
    and heads: "parse_scalar inp = (v, inp0)" "peek_char inp0 = (c, inp1)"
    and r: "r = (case v of Some w \<Rightarrow> (Some w, inp0) | None \<Rightarrow>
      if c = Some (CHR ''['') \<and> fst ra then (Some (ARRAY (fst (snd ra))), snd (snd ra))
      else (if fst ro then Some (OBJECT (fst (snd ro))) else None, snd (snd ro)))"
  shows "value_parsed (store_value_step rec d) d inp r"
  unfolding value_parsed_def
proof (intro allI impI)
  fix st a old F t u
  assume st: "store_ok st" "value_at (cells st) a old F" and old: "size old < d" and a: "cells st a = Some (CValue t u)"
  have "\<forall>w\<in>set (children old). deletes (delete_value d) w"
    using children_smaller old delete_value_deletes less_trans by blast
  from value_reset_ok [OF st this] obtain st1 where
    st1: "value_reset (delete_value d) a st = ret st1" "becomes st F st1 {a}" by blast
  obtain u1 where u1: "cells st1 a = Some (CValue t u1)" using value_reset_type [OF st1(1) a] by blast
  note trans = becomes_trans [OF st(1) st1(2)]
  let ?goal = "case fst r of
      Some w \<Rightarrow> \<exists>st' G. store_value_step rec d a inp st = ret (True, snd r, st') \<and> value_at (cells st') a w G \<and> becomes st F st' G
    | None \<Rightarrow> \<exists>st' q. store_value_step rec d a inp st = ret (False, snd r, st') \<and> becomes st F st' {a} \<and>
        cells st' a = Some (CValue t (UPtr q)) \<and> cells st' q = None"
  show ?goal
  proof (cases v)
    case (Some w)
    obtain st2 G where "store_scalar a w st1 = ret st2" "value_at (cells st2) a w G" "becomes st1 {a} st2 G"
      using store_scalar_ok [OF becomes_ok [OF st1(2)] u1 parse_scalar_kinds [OF heads(1) [unfolded Some]]] by blast
    with Some st1(1) heads(1) r trans show ?thesis by (auto simp: store_value_step_def)
  next
    case None
    obtain st2 where st2: "set_union a Indeterminate st1 = ret st2" "cells st2 = (cells st1)(a \<mapsto> CValue t Indeterminate)" "becomes st1 {a} st2 {a}"
      using set_union_ok [OF becomes_ok [OF st1(2)] u1] by blast
    have a2: "cells st2 a = Some (CValue t Indeterminate)" using st2(2) by simp
    have b2: "becomes st F st2 {a}" using trans st2(3) by blast
    let ?array = "if c = Some (CHR ''['')
      then store_container (rec ParseArray) (CArray []) ARRAY_T (array_reset (delete_value d)) a inp1 st2 else ret (False, inp1, st2)"
    let ?inp = "if c = Some (CHR ''['') then snd (snd ra) else inp1"
    have run: "store_value_step rec d a inp st = bindO ?array (\<lambda>(found, inp, st). if found then ret (True, inp, st)
        else store_container (rec ParseObject) (CObject [] []) OBJECT_T (object_reset (delete_value d)) a inp st)"
      using st1(1) st2(1) heads None by (simp add: store_value_step_def)
    obtain ok vs inp2 where ra: "ra = (ok, vs, inp2)" by (metis prod_cases3)
    show ?thesis
    proof (cases "c = Some (CHR ''['') \<and> ok")
      case True
      with array [OF None _ ra] have "array_parsed (rec ParseArray) inp1 [] (ok, vs, inp2)" "\<forall>w\<in>set vs. nice d w" by (auto simp: ra)
      from array.store_container_ok [OF becomes_ok [OF b2] a2 this(1) good_array_values [OF this(2)], where t = ARRAY_T] True
      obtain st3 q G where "store_container (rec ParseArray) (CArray []) ARRAY_T (array_reset (delete_value d)) a inp1 st2 = ret (ok, inp2, st3)"
        "cells st3 a = Some (CValue ARRAY_T (UPtr q))" "a \<notin> G" "becomes st2 {a} st3 (insert a G)" "array_owned (cells st3) q vs G" by auto
      moreover from this have "value_at (cells st3) a (ARRAY vs) (insert a G)" by (auto simp: array_value_at)
      moreover have "r = (Some (ARRAY vs), inp2)" using r None True ra by simp
      ultimately show ?thesis using run True becomes_trans [OF st(1) b2] by auto
    next
      case False
      have "\<exists>st3 u3. ?array = ret (False, ?inp, st3) \<and> cells st3 a = Some (CValue t u3) \<and> becomes st2 {a} st3 {a}"
      proof (cases "c = Some (CHR ''['')")
        case True
        with array [OF None _ ra] have "array_parsed (rec ParseArray) inp1 [] (ok, vs, inp2)" "\<forall>w\<in>set vs. nice d w" by (auto simp: ra)
        from array.store_container_ok [OF becomes_ok [OF b2] a2 this(1) good_array_values [OF this(2)], where t = ARRAY_T] True False ra
        show ?thesis by auto
      qed (use a2 becomes_refl [OF becomes_ok [OF b2], of "{a}"] in auto)
      then obtain st3 u3 where st3: "?array = ret (False, ?inp, st3)" "cells st3 a = Some (CValue t u3)" "becomes st2 {a} st3 {a}" by blast
      have b3: "becomes st F st3 {a}" using becomes_trans [OF st(1) b2 st3(3)] .
      obtain ok' m inp3 where ro: "ro = (ok', m, inp3)" by (metis prod_cases3)
      have ra_no: "c = Some (CHR ''['') \<longrightarrow> \<not> fst ra" using False ra by simp
      then have o: "object_parsed (rec ParseObject) ?inp (plain []) (ok', plain m, inp3)"
        "json_ok (OBJECT m)" "\<forall>w\<in>snd ` set m. size w < d"
        using object [OF None _ ro] unfolding ro prod.case by blast+
      have "good_object (delete_value d) (copy_value d) (plain m)"
        using good_object_values [of "plain m"] o(2,3) by (simp add: object_ok_def)
      from object.store_container_ok [OF becomes_ok [OF b3] st3(2) _ this, of "rec ParseObject" ?inp ok' inp3 OBJECT_T] o(1)
      obtain st4 q G where
        st4: "store_container (rec ParseObject) (CObject [] []) OBJECT_T (object_reset (delete_value d)) a ?inp st3 = ret (ok', inp3, st4)"
        "cells st4 a = Some (CValue (if ok' then OBJECT_T else t) (UPtr q))" "a \<notin> G" "becomes st3 {a} st4 (insert a G)"
        "if ok' then object_owned (cells st4) q (plain m) G else G = {} \<and> cells st4 q = None"
        by (auto simp: new_object_def)
      have r': "r = (if ok' then Some (OBJECT m) else None, inp3)" using r None False ra ro by auto
      have run': "store_value_step rec d a inp st = ret (ok', inp3, st4)" using run st3(1) st4(1) by simp
      have b4: "becomes st F st4 (insert a G)" using becomes_trans [OF st(1) b3 st4(4)] .
      show ?thesis
      proof (cases ok')
        case True
        with st4 have "value_at (cells st4) a (OBJECT m) (insert a G)" by (auto simp: object_value_at)
        with True r' run' b4 show ?thesis by auto
      next
        case False
        with r' run' b4 st4(2,5) show ?thesis by auto
      qed
    qed
  qed
qed

lemma value_step_sound:
  assumes "sound_arrays n" "sound_objects n"
  shows "sound_values (Suc n)"
  unfolding sound_values_def
proof (intro allI impI)
  fix inp r
  assume r: "parse_value (Suc n) inp = Some r"
  obtain v inp0 where v: "parse_scalar inp = (v, inp0)" by force
  obtain c inp1 where c: "peek_char inp0 = (c, inp1)" by force
  show "(\<forall>w. fst r = Some w \<longrightarrow> json_ok w) \<and> all_large (\<lambda>d. value_parsed (store_parse (Suc n) d ParseValue) d inp r)"
  proof (cases v)
    case (Some w)
    then have r': "r = (Some w, inp0)" using r v by simp
    have "value_parsed (store_value_step rec d) d inp r" for rec d
      by (rule value_step_parsed [OF _ _ v c, of "(False, [], inp0)" _ _ "(False, [], inp0)"]) (use Some r' in \<open>auto simp: c\<close>)
    moreover have "json_ok w" using parse_scalar_kinds [OF v [unfolded Some]] by auto
    ultimately show ?thesis using r' by simp
  next
    case None
    define ra where "ra = (if c = Some (CHR ''['') then the (parse_array n inp1) else (False, [], inp1))"
    have ra: "c = Some (CHR ''['') \<Longrightarrow> parse_array n inp1 = Some ra" using r v c None by (auto simp: ra_def split: option.splits)
    let ?inp = "if c = Some (CHR ''['') then snd (snd ra) else inp1"
    define ro where "ro = (if c = Some (CHR ''['') \<and> fst ra then (False, [], inp1) else the (parse_object n ?inp))"
    have ro: "\<not> (c = Some (CHR ''['') \<and> fst ra) \<Longrightarrow> parse_object n ?inp = Some ro"
      using r v c None ra by (cases ra) (auto simp: ro_def split: option.splits if_splits bool.splits)
    have r': "r = (if c = Some (CHR ''['') \<and> fst ra then (Some (ARRAY (fst (snd ra))), snd (snd ra))
      else (if fst ro then Some (OBJECT (fst (snd ro))) else None, snd (snd ro)))"
      using r v c None ra ro by (cases ra; cases ro) (auto split: option.splits if_splits bool.splits)
    have arr: "(\<forall>w\<in>set (fst (snd ra)). json_ok w) \<and>
        all_large (\<lambda>d. c = Some (CHR ''['') \<longrightarrow> array_parsed (store_parse n d ParseArray) inp1 [] ra)"
      if "c = Some (CHR ''['')"
      using sound_arraysD [OF assms(1) ra [OF that]] by (auto elim: eventually_mono)
    have obj: "json_ok (OBJECT (fst (snd ro))) \<and>
        all_large (\<lambda>d. object_parsed (store_parse n d ParseObject) ?inp (plain []) (plain_result ro))"
      if "\<not> (c = Some (CHR ''['') \<and> fst ra)"
      using sound_objectsD [OF assms(2) ro [OF that]] by (auto elim: eventually_mono)
    have large_a: "all_large (\<lambda>d. c = Some (CHR ''['') \<longrightarrow> array_parsed (store_parse n d ParseArray) inp1 [] ra)"
      using arr by (cases "c = Some (CHR ''['')") auto
    have large_o: "all_large (\<lambda>d. \<not> (c = Some (CHR ''['') \<and> fst ra) \<longrightarrow>
        object_parsed (store_parse n d ParseObject) ?inp (plain []) (plain_result ro))"
      using obj by (cases "c = Some (CHR ''['') \<and> fst ra") auto
    have sizes: "all_large (\<lambda>d. (\<forall>w\<in>set (fst (snd ra)). size w < d) \<and> (\<forall>w\<in>snd ` set (fst (snd ro)). size w < d))"
      by (intro eventually_conj large_sizes) auto
    have "all_large (\<lambda>d. value_parsed (store_parse (Suc n) d ParseValue) d inp r)"
      using eventually_conj [OF eventually_conj [OF large_a large_o] sizes]
    proof (rule eventually_mono)
      fix d
      assume d: "((c = Some (CHR ''['') \<longrightarrow> array_parsed (store_parse n d ParseArray) inp1 [] ra) \<and>
        (\<not> (c = Some (CHR ''['') \<and> fst ra) \<longrightarrow> object_parsed (store_parse n d ParseObject) ?inp (plain []) (plain_result ro))) \<and>
        (\<forall>w\<in>set (fst (snd ra)). size w < d) \<and> (\<forall>w\<in>snd ` set (fst (snd ro)). size w < d)"
      have "value_parsed (store_value_step (store_parse n d) d) d inp r"
      proof (rule value_step_parsed [OF _ _ v c, of ra _ _ ro])
        show "array_parsed (store_parse n d ParseArray) inp1 [] ra \<and> (\<forall>w\<in>set vs. nice d w)"
          if "c = Some (CHR ''['')" "ra = (ok, vs, inp2)" for vs ok inp2
          using d arr [OF that(1)] that by simp
        show "object_parsed (store_parse n d ParseObject) ?inp (plain []) (plain_result ro) \<and>
            json_ok (OBJECT m) \<and> (\<forall>w\<in>snd ` set m. size w < d)"
          if "c = Some (CHR ''['') \<longrightarrow> \<not> fst ra" "ro = (ok, m, inp3)" for m ok inp3
          using d obj that by simp
      qed (use r' None in auto)
      then show "value_parsed (store_parse (Suc n) d ParseValue) d inp r" by simp
    qed
    moreover have "json_ok w" if "fst r = Some w" for w
      using that r' arr obj by (auto split: if_splits)
    ultimately show ?thesis by blast
  qed
qed

lemma all_sound: "sound_values n \<and> sound_arrays n \<and> sound_array_loops n \<and> sound_objects n \<and> sound_object_loops n"
proof (induction n)
  case 0
  show ?case by (simp add: sound_values_def sound_arrays_def sound_array_loops_def sound_objects_def sound_object_loops_def)
next
  case (Suc n)
  then show ?case
    using value_step_sound array_step_sound array_loop_sound object_step_sound object_loop_sound by blast
qed

section \<open>Parsing a text\<close>

definition value_parse_text :: "nat \<Rightarrow> addr \<Rightarrow> string \<Rightarrow> store \<Rightarrow> (bool \<times> istream \<times> store) run" where
  "value_parse_text d a input st = (let inp = new_stream input in store_parse (enough inp) d ParseValue a inp st)"

definition array_parse_text :: "nat \<Rightarrow> addr \<Rightarrow> string \<Rightarrow> store \<Rightarrow> (bool \<times> istream \<times> store) run" where
  "array_parse_text d p input st = (let inp = new_stream input in store_parse (enough inp) d ParseArray p inp st)"

definition object_parse_text :: "nat \<Rightarrow> addr \<Rightarrow> string \<Rightarrow> store \<Rightarrow> (bool \<times> istream \<times> store) run" where
  "object_parse_text d p input st = (let inp = new_stream input in store_parse (enough inp) d ParseObject p inp st)"

text \<open>
  Property C30.  \<^verbatim>\<open>Object::parse\<close> on the store refines the parser on the trees, for every text: it returns the
  same result, and the object holds exactly the members that were read, also when it returns false.  What
  the object had before and every value that was given up on the way is freed.
\<close>

theorem object_parse_refines:
  assumes "parse_object_text input = Some (ok, m)" "json_ok (OBJECT old)"
  shows "\<exists>D. \<forall>d\<ge>D. \<forall>st p F. store_ok st \<longrightarrow> object_owned (cells st) p \<lparr>value_map = old, odd_key = []\<rparr> F \<longrightarrow>
    (\<exists>inp st' G. object_parse_text d p input st = ret (ok, inp, st') \<and>
      object_owned (cells st') p \<lparr>value_map = m, odd_key = []\<rparr> G \<and> becomes st F st' G)"
proof -
  let ?inp = "new_stream input"
  obtain inp' where r: "parse_object (enough ?inp) ?inp = Some (ok, m, inp')"
    using assms(1) by (auto simp: parse_object_text_def Let_def split: option.splits)
  have "finite (snd ` set old)" by simp
  from eventually_conj [OF sound_objectsD(2) [OF _ r] large_sizes [OF this]] all_sound
  have "all_large (\<lambda>d. object_parsed (store_parse (enough ?inp) d ParseObject) ?inp (plain old) (ok, plain m, inp'))"
    using assms(2) by (auto elim: eventually_mono)
  then show ?thesis unfolding eventually_sequentially object.parsed_def
    by (simp add: object_parse_text_def Let_def) blast
qed

theorem object_parse_refines_witness:
  "\<exists>D. \<forall>d\<ge>D. \<exists>inp st' G. object_parse_text d 0 ''{true'' (sample_store\<lparr>cells := (cells sample_store)(0 \<mapsto> CObject [] [])\<rparr>) = ret (False, inp, st') \<and>
    object_owned (cells st') 0 \<lparr>value_map = [], odd_key = []\<rparr> G"
proof -
  let ?st = "sample_store\<lparr>cells := (cells sample_store)(0 \<mapsto> CObject [] [])\<rparr>"
  have "parse_object_text ''{true'' = Some (False, [])" by code_simp
  moreover have "store_ok ?st" "object_owned (cells ?st) 0 \<lparr>value_map = [], odd_key = []\<rparr> {0}"
    by (auto simp: store_ok_def sample_store_def object_owned_def members_at_def)
  moreover have "json_ok (OBJECT [])" by simp
  ultimately show ?thesis using object_parse_refines [of "''{true''" False "[]" "[]"] by meson
qed

text \<open>
  Property C33.  A value that is parsed again and fails: when it owned something its type still says so,
  while the union points to the object that was given up, and its destructor frees that once more.  A
  value that owned nothing is left with no memory but its own.
\<close>

theorem failed_parse_dangles:
  assumes "parse_value_text input = Some (False, w)"
  shows "\<exists>D. \<forall>d\<ge>D. \<forall>st a F. store_ok st \<longrightarrow> value_at (cells st) a v F \<longrightarrow>
    (\<exists>inp st'. value_parse_text d a input st = ret (False, inp, st') \<and> becomes st F st' {a} \<and>
      (if is_string v \<or> is_array v \<or> is_object v then delete_value d a st' = fail UseAfterFree
       else \<exists>st''. delete_value d a st' = ret st'' \<and> cells st'' = (cells st) |` (- {a})))"
proof -
  let ?inp = "new_stream input"
  obtain inp' where r: "parse_value (enough ?inp) ?inp = Some (None, inp')"
    using assms by (auto simp: parse_value_text_def Let_def split: option.splits)
  have large: "all_large (\<lambda>d. value_parsed (store_parse (enough ?inp) d ParseValue) d ?inp (None, inp') \<and> size v < d)"
    using eventually_conj [OF sound_valuesD(2) [OF _ r] eventually_gt_at_top [of "size v"]] all_sound by blast
  have "\<exists>inp st'. value_parse_text d a input st = ret (False, inp, st') \<and> becomes st F st' {a} \<and>
      (if is_string v \<or> is_array v \<or> is_object v then delete_value d a st' = fail UseAfterFree
       else \<exists>st''. delete_value d a st' = ret st'' \<and> cells st'' = (cells st) |` (- {a}))"
    if d: "value_parsed (store_parse (enough ?inp) d ParseValue) d ?inp (None, inp')" "size v < d"
      and st: "store_ok st" "value_at (cells st) a v F" for d st a F
  proof -
    note spec = d(1) [unfolded value_parsed_def, rule_format, OF st d(2)]
    show ?thesis
    proof (cases "is_string v \<or> is_array v \<or> is_object v")
      case True
      then obtain t p where t: "cells st a = Some (CValue t (UPtr p))" "t \<in> {STRING_T, ARRAY_T, OBJECT_T}"
        using owner_points [OF st(2)] by blast
      from spec [OF t(1)] obtain st' q where
        st': "store_parse (enough ?inp) d ParseValue a ?inp st = ret (False, inp', st')" "becomes st F st' {a}"
        "cells st' a = Some (CValue t (UPtr q))" "cells st' q = None" by auto
      from dangling_delete [OF st'(3,4) t(2), of d] d(2) True st'(1,2) show ?thesis by (auto simp: value_parse_text_def)
    next
      case False
      then have F: "F = {a} \<and> (\<exists>t u. cells st a = Some (CValue t u) \<and> t \<notin> {STRING_T, ARRAY_T, OBJECT_T})"
        using st(2) by (cases v) (auto simp: is_string_def is_array_def is_object_def elim: value_cases)
      then obtain t u where t: "cells st a = Some (CValue t u)" "t \<notin> {STRING_T, ARRAY_T, OBJECT_T}" by blast
      from spec [OF t(1)] obtain st' q where
        st': "store_parse (enough ?inp) d ParseValue a ?inp st = ret (False, inp', st')" "becomes st F st' {a}"
        "cells st' a = Some (CValue t (UPtr q))" by auto
      obtain k where k: "d = Suc k" using d(2) by (cases d) auto
      have "cells (st'\<lparr>cells := (cells st')(a := None)\<rparr>) = (cells st) |` (- {a})"
        using st'(2) F by (auto simp: becomes_def restrict_map_def fun_eq_iff)
      moreover have "delete_value d a st' = ret (st'\<lparr>cells := (cells st')(a := None)\<rparr>)"
        using st'(3) t(2) by (simp add: k value_reset_def read_value_def free_cell_def)
      ultimately show ?thesis using False st'(1,2) by (auto simp: value_parse_text_def)
    qed
  qed
  with large show ?thesis unfolding eventually_sequentially by blast
qed

theorem failed_parse_dangles_witness:
  "\<exists>D. \<forall>d\<ge>D. \<exists>inp st'. value_parse_text d 1 ''x'' sample_store = ret (False, inp, st') \<and> delete_value d 1 st' = fail UseAfterFree"
proof -
  have "parse_value_text ''x'' = Some (False, INVALID)" by code_simp
  from failed_parse_dangles [OF this, of "STRING ''x''"] sample_store_ok sample_string show ?thesis
    by (simp add: is_string_def) blast
qed

end
