(* ===== verification/JsonKeys.thy ===== *)
theory JsonKeys
  imports JsonParsers
begin

text \<open>
  \<^verbatim>\<open>parse_identifier\<close> of \<^verbatim>\<open>examples/procmon/jsonxx.cc\<close>: keys without quotation marks.  The settings of the
  header switch them off, so \<^verbatim>\<open>Object::parse\<close> never calls it; it is modelled here on its own.
\<close>

section \<open>The parser of identifiers\<close>

definition starts_identifier :: "char \<Rightarrow> bool" where
  "starts_identifier ch \<longleftrightarrow> ch = CHR ''_'' \<or> ch = CHR ''$'' \<or> (CHR ''a'' \<le> ch \<and> ch \<le> CHR ''z'') \<or> (CHR ''A'' \<le> ch \<and> ch \<le> CHR ''Z'')"

definition in_identifier :: "char \<Rightarrow> bool" where
  "in_identifier ch \<longleftrightarrow> starts_identifier ch \<or> (CHR ''0'' \<le> ch \<and> ch \<le> CHR ''9'')"

text \<open>The loop, and the condition after it.\<close>

function identifier_loop :: "char \<Rightarrow> bool \<Rightarrow> string \<Rightarrow> istream \<Rightarrow> bool \<times> string \<times> istream" where
  "identifier_loop ch first val st =
     (if \<not> eofbit st \<and> good st
      then (case get_char ch st of (ch, st) \<Rightarrow>
              if ch = CHR '':'' then (\<not> fails (unget st), val, unget st)
              else if first \<and> \<not> starts_identifier ch then (False, val, st)
              else if in_identifier ch then identifier_loop ch False (val @ [ch]) st
              else if ch = CHR 0x09 \<or> ch = CHR '' '' then identifier_loop ch False val (skip_ws st)
              else identifier_loop ch False val st)
      else (\<not> fails st \<and> ch = CHR '':'', val, st))"
  by auto

termination
proof (relation "measure (\<lambda>(ch, first, val, st). reads st)", goal_cases)
  case (2 ch first val st c st1)
  then show ?case using get_char_left(2) [of ch st c st1] by simp
next
  case (3 ch first val st c st1)
  then show ?case using get_char_left(2) [of ch st c st1] skip_ws_left(2) [of st1] by simp
next
  case (4 ch first val st c st1)
  then show ?case using get_char_left(2) [of ch st c st1] by simp
qed simp

declare identifier_loop.simps [simp del]

definition parse_identifier :: "string \<Rightarrow> istream \<Rightarrow> bool \<times> string \<times> istream" where
  "parse_identifier val st = identifier_loop (CHR 0x00) True val (skip_ws st)"

section \<open>What it reads\<close>

lemma unget_rest: "rest st (c # s) \<Longrightarrow> unget (advance (Suc 0) st) = st"
  using rest_good [of st "c # s"] by (cases st) (auto simp: unget_def advance_def good_def Let_def)

lemma colon_no_identifier: "\<not> in_identifier (CHR '':'')" "\<not> starts_identifier (CHR '':'')"
  by (simp_all add: in_identifier_def starts_identifier_def)

lemma identifier_loop_reads:
  "rest st (cs @ CHR '':'' # s) \<Longrightarrow> \<forall>c\<in>set cs. in_identifier c \<Longrightarrow> (first \<longrightarrow> cs \<noteq> [] \<and> starts_identifier (hd cs)) \<Longrightarrow>
   identifier_loop ch first val st = (True, val @ cs, advance (length cs) st)"
proof (induction cs arbitrary: st ch first val)
  case Nil
  then have "rest st (CHR '':'' # s)" by simp
  from get_rest [OF this] unget_rest [OF this] rest_good [OF this] show ?case
    by (subst identifier_loop.simps) (auto simp: good_def fails_def)
next
  case (Cons c cs)
  then have r: "rest st (c # cs @ CHR '':'' # s)" by simp
  have c: "c \<noteq> CHR '':''" "in_identifier c" "first \<longrightarrow> starts_identifier c" using Cons.prems colon_no_identifier by auto
  have "identifier_loop ch first val st = identifier_loop c False (val @ [c]) (advance (Suc 0) st)"
    using get_rest [OF r] rest_good [OF r] c by (subst identifier_loop.simps) (auto simp: good_def)
  with Cons.IH [OF rest_Cons [OF r], of False c "val @ [c]"] Cons.prems(2) show ?case by simp
qed

text \<open>
  Fact.  An identifier in front of a colon is read as it is, after blanks, and the colon stays.
\<close>

theorem identifier_read:
  assumes "rest st (w @ name @ CHR '':'' # s)" "\<forall>c\<in>set w. isspace c" "name \<noteq> []" "starts_identifier (hd name)"
    and "\<forall>c\<in>set name. in_identifier c \<and> \<not> isspace c"
  shows "parse_identifier [] st = (True, name, advance (length w + length name) st)"
proof -
  obtain c cs where name: "name = c # cs" using assms(3) by (cases name) auto
  have "list_all isspace w" "\<not> isspace c" using assms(2,5) by (auto simp: name list_all_iff)
  with skip_ws_rest [of st w c "cs @ CHR '':'' # s"] assms(1) have "skip_ws st = advance (length w) st" by (simp add: name)
  moreover have "rest (advance (length w) st) (name @ CHR '':'' # s)" by (rule rest_advance [OF assms(1)])
  ultimately show ?thesis using identifier_loop_reads [of "advance (length w) st" name s True] assms(3-5)
    by (simp add: parse_identifier_def)
qed

theorem identifier_read_witness: "fst (parse_identifier [] (new_stream '' key1: 2''))"
proof -
  have r: "rest (new_stream '' key1: 2'') ('' '' @ ''key1'' @ CHR '':'' # '' 2'')" using rest_new [of "'' key1: 2''"] by simp
  have n: "\<forall>c\<in>set ''key1''. in_identifier c \<and> \<not> isspace c" "starts_identifier (hd ''key1'')" "\<forall>c\<in>set '' ''. isspace c"
    by code_simp+
  from identifier_read [OF r n(3) _ n(2,1)] show ?thesis by simp
qed

text \<open>Fact.  A character that cannot be part of an identifier is left out of it.\<close>

theorem identifier_skips:
  "(case parse_identifier [] (new_stream ''a-b:'') of (ok, name, st) \<Rightarrow> ok \<and> name = ''ab'')"
  by code_simp

end
