(* ===== verification/Spec2Isabelle.thy ===== *)
theory Spec2Isabelle
  imports Servers Dummyload Loaders PngImages Procmons JsonRoundtrips XmlTexts SimplePrograms JsonStores JsonKeys
begin

text \<open>
  \<^bold>\<open>A verification of the network library and its programs.\<close>

  The repository is a small event-driven network library for Linux (\<^verbatim>\<open>src/\<close>), on a base of threads
  (\<^verbatim>\<open>base/\<close>), with an HTTP server on top (\<^verbatim>\<open>http/\<close>) and programs that use it
  (\<^verbatim>\<open>examples/\<close>): \<^verbatim>\<open>dummyload\<close>, which loads the processor by a percentage that can be set over
  HTTP, and \<^verbatim>\<open>procmon\<close>, which shows what the machine is doing and comes with a copy of the JSON
  library \<^verbatim>\<open>jsonxx\<close>.

  \<^bold>\<open>The parts and the theories that model them.\<close>

  \<^item> \<open>Prelude\<close>: results with errors (\<open>res\<close>, \<open>bindR\<close>, \<open>runR\<close>), list functions that stand for
    \<^verbatim>\<open>std::copy\<close>, \<^verbatim>\<open>std::vector::resize\<close>, \<^verbatim>\<open>std::search\<close> and \<^verbatim>\<open>std::find\<close>, and transition
    systems with the interface \<open>invariant_system\<close>.  A failed \<^verbatim>\<open>assert\<close>, \<^verbatim>\<open>::abort()\<close>, a use of
    freed memory, of a null pointer or past the end of an array, and, where the size of memory is
    computed (\<open>PngImages\<close>), a signed overflow are errors of the model.
  \<^item> \<open>CText\<close>, \<open>CDouble\<close>, \<open>ProcText\<close>: decimal printing and scanning as \<^verbatim>\<open>printf\<close>, \<^verbatim>\<open>atoi\<close> and
    \<^verbatim>\<open>sscanf\<close> do it; \<^verbatim>\<open>double\<close> as rationals rounded to 53 bits; \<^verbatim>\<open>readFile\<close>.
  \<^item> \<open>ByteBuffer\<close> (\<^verbatim>\<open>Buffer.h\<close>, \<^verbatim>\<open>Buffer.cpp\<close>): the vector and its two indices, every operation;
    the interface \<open>byte_queue\<close> is what the connections rely on.
  \<^item> \<open>TimeStamps\<close> (\<^verbatim>\<open>Timestamp.h\<close>, \<^verbatim>\<open>Timestamp.cpp\<close>, \<^verbatim>\<open>CurrentThread.h\<close>) and \<open>TimerQueues\<close>
    (\<^verbatim>\<open>Timer\<close>, \<^verbatim>\<open>TimerQueue\<close>): the ordered set of timers, its descriptor, and the timers
    themselves in a heap, so that ownership is explicit.
  \<^item> \<open>Threads\<close> (\<^verbatim>\<open>Atomic.h\<close>, \<^verbatim>\<open>Mutex\<close>, \<^verbatim>\<open>Condition\<close>, \<^verbatim>\<open>Thread\<close>, \<^verbatim>\<open>ThreadPool\<close>): the pool as a
    step relation, one step between two points where another thread can interfere.
  \<^item> \<open>Channels\<close> (\<^verbatim>\<open>Channel\<close>, \<^verbatim>\<open>EPoller\<close>), \<open>EventLoops\<close> (\<^verbatim>\<open>EventLoop\<close>), \<open>Sockets\<close> (\<^verbatim>\<open>Socket\<close>,
    \<^verbatim>\<open>InetAddress\<close>), \<open>TcpConnections\<close> (\<^verbatim>\<open>TcpConnection\<close>) and \<open>Servers\<close> (\<^verbatim>\<open>Acceptor\<close>,
    \<^verbatim>\<open>TcpServer\<close>, \<^verbatim>\<open>Connector\<close>, \<^verbatim>\<open>TcpClient\<close>).
  \<^item> \<open>HttpRequests\<close> (\<^verbatim>\<open>HttpRequest\<close>, \<^verbatim>\<open>HttpContext\<close>) and \<open>HttpServers\<close> (\<^verbatim>\<open>HttpResponse\<close>,
    \<^verbatim>\<open>HttpServer\<close>).
  \<^item> \<open>SimplePrograms\<close> (\<^verbatim>\<open>examples/simple/server.cpp\<close>, \<^verbatim>\<open>client.cpp\<close>, \<^verbatim>\<open>examples/http/main.cpp\<close>):
    the callbacks of the example servers and of the client, on a connection of the library.
  \<^item> \<open>Dummyload\<close> and \<open>Loaders\<close> (\<^verbatim>\<open>examples/dummyload/dummyload.cpp\<close>): what its functions compute,
    and how its threads work together.
  \<^item> \<open>PngImages\<close> (\<^verbatim>\<open>examples/procmon/Imagepng.cpp\<close>), \<open>SystemInfos\<close> (\<^verbatim>\<open>SystemInfo.cpp\<close>), \<open>SmallFiles\<close>
    (\<^verbatim>\<open>ReadSmallFile.cpp\<close>) and \<open>Procmons\<close> (\<^verbatim>\<open>main.cpp\<close>): the pictures, the table of processes, the
    reader of files, and the HTTP handler that answers from them.
  \<^item> \<open>OrderedMaps\<close> is \<^verbatim>\<open>std::map\<close>, \<open>FloatText\<close> how a stream prints a floating-point number and the
    grammar of a number, \<open>InputStreams\<close> is \<^verbatim>\<open>std::istringstream\<close>.
  \<^item> \<open>JsonValues\<close> (\<^verbatim>\<open>examples/procmon/jsonxx.h\<close>, \<^verbatim>\<open>jsonxx.cc\<close>): values, arrays and objects, with the
    interface \<open>typed_access\<close>; \<open>JsonTexts\<close>: the writers, and the grammar of JSON texts together with
    their values (RFC 8259 without the escapes \<^verbatim>\<open>\u\<close> from 128 on, which the parser does not keep); \<open>JsonParsers\<close>: the parser; \<open>JsonReads\<close> and \<open>JsonRoundtrips\<close>: the parser on the
    texts of the grammar and on what the writers wrote; \<open>JsonKeys\<close>: \<^verbatim>\<open>parse_identifier\<close>, which the
    settings of the header switch off; \<open>XmlTexts\<close>: the XML formats, with a grammar of elements.
  \<^item> \<open>JsonHeaps\<close>, \<open>JsonOwnership\<close>, \<open>JsonLifetimes\<close>, \<open>JsonStores\<close>: the memory of the same library.  Values,
    strings, arrays and objects are cells of a store with pointers between them; every \<^verbatim>\<open>new\<close>, \<^verbatim>\<open>delete\<close>,
    copy, assignment and the parser work on it.  \<open>value_at\<close> relates a cell to the tree that it represents
    and to the cells that it owns, \<open>becomes\<close> says how an operation changes the store, and the interface
    \<open>container\<close> is what arrays and objects have in common.

  \<^bold>\<open>How they interact.\<close>  An event loop waits with its poller, which writes into the channels what
  happened; each channel calls the handlers of its owner: a timer queue, an acceptor, a connector or
  a connection.  A connection reads into its input buffer and calls the message callback; the HTTP
  server's callback parses the buffer, calls the program's callback and sends the response, of which
  the connection writes what the kernel takes and buffers the rest until the descriptor is writable.
  In the model a handler is a function from the state of the component to a result; callbacks are
  arguments, and a property that needs something of them says so: \<open>callbacks_ok\<close> that those of a
  connection use only its operations and keep its invariant, \<open>firing_ok\<close> that the timers that fire
  call only operations of their queue, which may cancel each other and add timers, \<open>handlers_ok\<close>
  that a handler of an event loop works on its state and may quit.  \<open>write_ok\<close> bounds what \<^verbatim>\<open>write\<close>
  reports; it may take a part, take nothing or fail.  Where the code drops a message because its direct
  \<^verbatim>\<open>write\<close> fails, the model records it: a ghost field of the connection, \<open>sent\<close>, has the messages
  that were taken over, and another, \<open>lost\<close>, those that were dropped.

  \<^bold>\<open>What the lemmas show.\<close>  Each theory has the invariant of its state and the lemma that every
  operation keeps it (\<open>buf_inv\<close>, \<open>tq_inv\<close>, \<open>registered\<close>, \<open>tcp_inv\<close>, \<open>pool_inv\<close>, \<open>loaders_inv\<close>,
  \<open>server_inv\<close>, \<open>si_inv\<close>); its properties follow at the end.  The buffer refines a queue of bytes; a
  connection's stream is in order and is delivered; timers fire when due and are freed once; the pool
  loses no task and no wake-up (each free place that a waiting thread could take has a thread on the
  way to it or to the notification); the parser reads back every well-formed request; the load is spread as evenly as
  whole slots allow, by threads that are never left asleep, and the program ends; a picture whose
  sizes fit the fields of the format and an \<^verbatim>\<open>int\<close> (\<open>png_file\<close> is the format, \<open>None\<close> beyond it) can
  be read back from its file; the pages of \<^verbatim>\<open>procmon\<close> show the busiest processes in order; what the JSON
  library writes is JSON for the value, its parser returns on every text, reads every text of the
  grammar, and gives back what was written; its values own what they hold, so that a copy is
  independent and parsing on the store refines parsing on the trees; the simple server answers a
  request to the last byte.  The properties that fail are stated as well, as theorems about the code as
  it is: they are marked by what goes wrong (a use after free, a lost message, a hang).

  \<^bold>\<open>Partiality and bounds.\<close>  A loop that need not end is a \<open>partial_function\<close> into \<open>option\<close>, and
  \<open>None\<close> is a run that does not return: the event loop, the request parser and the calibration of
  \<^verbatim>\<open>dummyload\<close>; for each it is proved when it returns.  The JSON parser has a bound on the depth
  of its calls, \<open>enough\<close>: three calls for each character that is left and four more, since between two
  of them that consume nothing there are at most two others; \<open>parser_returns\<close> shows that this bound
  is enough on every stream and that a greater one changes nothing.  The destructors and copies of
  JSON values have a bound on their depth as well: the size of the value is enough (\<open>copy_outlives_original\<close>),
  and for the parser every sufficiently great bound is.  Machine integers are words
  where the code depends on their width (\<open>Threads\<close>, \<open>Channels\<close>, \<open>ByteBuffer\<close>, \<open>PngImages\<close>), and
  \<open>to_int32\<close> or \<open>as_size\<close> where it mixes widths or can wrap (the number in the name of a connection,
  the sums of the processor times); elsewhere they are integers, and the bound within
  which this is exact is a hypothesis or is noted with the definition.

  \<^bold>\<open>Parameters.\<close>  The kernel and the C library are not part of the repository: the results of
  system calls, the clock, \<^verbatim>\<open>epoll_ctl\<close> (with the law \<open>epoll_law\<close>), \<^verbatim>\<open>inet_ntop\<close>, \<^verbatim>\<open>sqrt\<close> and
  \<^verbatim>\<open>cos\<close>, the contents of \<^verbatim>\<open>/proc\<close>, the reads from a file (with the law \<open>reads_text\<close>), \<^verbatim>\<open>std::sort\<close> (with
  the law \<open>sorts_by\<close>) and the values of uninitialised variables are arguments.  What the standard
  library specifies of strings, maps and streams is modelled.  The buffers of 64 bytes into which
  \<^verbatim>\<open>sscanf\<close> reads a word without a bound are modelled: a longer word is an error.

  \<^bold>\<open>Not modelled.\<close>  Failures of \<^verbatim>\<open>epoll_ctl\<close> other than for a descriptor that is or is not
  registered, and of creating a thread; tasks that use the pool they run in, and a change of the
  pool's bound while it is in use; infinite and undefined floating-point numbers and the negative zero; the
  \<^verbatim>\<open>main\<close> functions of the examples beyond the callbacks that they register; the cached thread
  identifier; the destructors that only close descriptors.
  Memory is modelled where ownership matters (timers, channels of connections, JSON values), not elsewhere.
\<close>

end
